(* ===== verification/Prelude.thy ===== *)
theory Prelude
  imports Main "HOL-Library.Word" "HOL-Library.Monad_Syntax" "HOL-Library.AList" "HOL-Library.Multiset"
begin

text \<open>
  Shared vocabulary of the development.

  Machine integers of the Rust sources are words of the width the source declares. A panic (a
  failed \<open>assert!\<close>, \<open>expect\<close>, \<open>unreachable!\<close>, an index out of bounds, an arithmetic overflow in
  a checked build) is the value \<open>None\<close> of an \<open>option\<close>; a function of the source that cannot panic is
  a plain HOL function. A Rust \<open>Option\<close> that the code inspects is an inner \<open>option\<close>.

  \<open>HashMap\<close> is an association list with the update discipline of \<open>AList\<close>: \<open>hm_insert\<close> replaces the
  entry of a key or appends one, so an iteration visits every key once and in no order the program
  relies on. \<open>HashSet\<close> is a set built by \<open>insert\<close>.
\<close>

unbundle bit_operations_syntax

type_synonym u8 = "8 word"
type_synonym u16 = "16 word"
type_synonym u32 = "32 word"
type_synonym u64 = "64 word"
type_synonym u128 = "128 word"

named_theorems panic_simps "rewriting of assertion and checked-arithmetic guards"
named_theorems model_defs "definitions unfolded when a component is evaluated on concrete data"

section \<open>Panics\<close>

definition ensure :: "bool \<Rightarrow> unit option" where
  "ensure b = (if b then Some () else None)"

lemma ensure_simps [simp, panic_simps]:
  "ensure True = Some ()" "ensure False = None"
  by (simp_all add: ensure_def)

lemma ensure_eq_Some [simp, panic_simps]: "ensure b = Some u \<longleftrightarrow> b"
  by (simp add: ensure_def)

lemma ensure_eq_None [simp, panic_simps]: "ensure b = None \<longleftrightarrow> \<not> b"
  by (simp add: ensure_def)

lemma ensure_bind_eq_Some [panic_simps]: "(ensure b \<bind> f) = Some y \<longleftrightarrow> b \<and> f () = Some y"
  by (cases b) simp_all

lemma bind_Some_iff [panic_simps]: "(m \<bind> f) = Some y \<longleftrightarrow> (\<exists>x. m = Some x \<and> f x = Some y)"
  by (cases m) simp_all

lemma if_None_Some [panic_simps]:
  "(if b then None else m) = Some y \<longleftrightarrow> \<not> b \<and> m = Some y"
  "(if b then m else None) = Some y \<longleftrightarrow> b \<and> m = Some y"
  by simp_all

lemma option_eqI: "(\<And>v. a = Some v \<longleftrightarrow> b = Some v) \<Longrightarrow> a = b"
  by (metis not_None_eq)

section \<open>Checked and saturating arithmetic\<close>

definition checked_add :: "'a::len word \<Rightarrow> 'a word \<Rightarrow> 'a word option" where
  "checked_add a b = (if unat a + unat b < 2 ^ LENGTH('a) then Some (a + b) else None)"

definition checked_sub :: "'a::len word \<Rightarrow> 'a word \<Rightarrow> 'a word option" where
  "checked_sub a b = (if unat b \<le> unat a then Some (a - b) else None)"

definition checked_mul :: "'a::len word \<Rightarrow> 'a word \<Rightarrow> 'a word option" where
  "checked_mul a b = (if unat a * unat b < 2 ^ LENGTH('a) then Some (a * b) else None)"

definition saturating_sub :: "'a::len word \<Rightarrow> 'a word \<Rightarrow> 'a word" where
  "saturating_sub a b = (if unat b \<le> unat a then a - b else 0)"

lemma unat_add_small:
  fixes a b :: "'a::len word"
  shows "unat a + unat b < 2 ^ LENGTH('a) \<Longrightarrow> unat (a + b) = unat a + unat b"
  by (simp add: unat_word_ariths)

lemma unat_sub_le:
  fixes a b :: "'a::len word"
  shows "unat b \<le> unat a \<Longrightarrow> unat (a - b) = unat a - unat b"
  by (simp add: unat_sub word_le_nat_alt)

lemma unat_mult_small:
  fixes a b :: "'a::len word"
  shows "unat a * unat b < 2 ^ LENGTH('a) \<Longrightarrow> unat (a * b) = unat a * unat b"
  by (simp add: unat_word_ariths)

lemma checked_add_eq_Some [panic_simps]:
  fixes a b :: "'a::len word"
  shows "checked_add a b = Some c \<longleftrightarrow> unat a + unat b < 2 ^ LENGTH('a) \<and> c = a + b"
  by (auto simp: checked_add_def)

lemma checked_sub_eq_Some [panic_simps]:
  "checked_sub a b = Some c \<longleftrightarrow> unat b \<le> unat a \<and> c = a - b"
  by (auto simp: checked_sub_def)

lemma checked_mul_eq_Some [panic_simps]:
  fixes a b :: "'a::len word"
  shows "checked_mul a b = Some c \<longleftrightarrow> unat a * unat b < 2 ^ LENGTH('a) \<and> c = a * b"
  by (auto simp: checked_mul_def)

lemma checked_add_unat: "checked_add a b = Some c \<Longrightarrow> unat c = unat a + unat b"
  by (simp add: checked_add_eq_Some unat_add_small)

lemma checked_sub_unat: "checked_sub a b = Some c \<Longrightarrow> unat c = unat a - unat b"
  by (auto simp: checked_sub_eq_Some unat_sub_le)

lemma checked_mul_unat: "checked_mul a b = Some c \<Longrightarrow> unat c = unat a * unat b"
  by (simp add: checked_mul_eq_Some unat_mult_small)

lemma unat_saturating_sub [simp]: "unat (saturating_sub a b) = unat a - unat b"
  by (simp add: saturating_sub_def unat_sub_le)

lemma unat_min: "unat (min a b) = min (unat a) (unat (b :: 'a::len word))"
  by (simp add: min_def word_le_nat_alt)

lemma unat_max: "unat (max a b) = max (unat a) (unat (b :: 'a::len word))"
  by (simp add: max_def word_le_nat_alt)

lemma unat_max_word: "unat (- 1 :: 'a::len word) = 2 ^ LENGTH('a) - 1"
  by transfer (simp add: mask_eq_exp_minus_1 nat_diff_distrib nat_power_eq)

section \<open>Hash maps\<close>

type_synonym ('k, 'v) hmap = "('k \<times> 'v) list"

definition hm_get :: "('k, 'v) hmap \<Rightarrow> 'k \<Rightarrow> 'v option" where
  "hm_get m k = map_of m k"

definition hm_insert :: "'k \<Rightarrow> 'v \<Rightarrow> ('k, 'v) hmap \<Rightarrow> ('k, 'v) hmap" where
  "hm_insert k v m = AList.update k v m"

definition hm_remove :: "'k \<Rightarrow> ('k, 'v) hmap \<Rightarrow> ('k, 'v) hmap" where
  "hm_remove k m = AList.delete k m"

definition hm_values :: "('k, 'v) hmap \<Rightarrow> 'v list" where
  "hm_values m = map snd m"

definition hm_ok :: "('k, 'v) hmap \<Rightarrow> bool" where
  "hm_ok m = distinct (map fst m)"

lemma hm_get_Nil [simp]: "hm_get [] k = None"
  by (simp add: hm_get_def)

lemma hm_get_insert [simp]: "hm_get (hm_insert k v m) k' = (if k' = k then Some v else hm_get m k')"
  by (simp add: hm_get_def hm_insert_def update_conv')

lemma hm_get_remove [simp]: "hm_get (hm_remove k m) k' = (if k' = k then None else hm_get m k')"
  by (simp add: hm_get_def hm_remove_def delete_conv')

lemma hm_get_fun: "hm_get (hm_insert k v m) = (hm_get m)(k \<mapsto> v)"
  by (rule ext) simp

lemma hm_ok_Nil [simp]: "hm_ok []"
  by (simp add: hm_ok_def)

lemma hm_ok_insert [simp]: "hm_ok m \<Longrightarrow> hm_ok (hm_insert k v m)"
  by (simp add: hm_ok_def hm_insert_def distinct_update)

lemma hm_ok_remove [simp]: "hm_ok m \<Longrightarrow> hm_ok (hm_remove k m)"
  by (simp add: hm_ok_def hm_remove_def distinct_delete)

lemma hm_get_in_set: "hm_ok m \<Longrightarrow> (k, v) \<in> set m \<longleftrightarrow> hm_get m k = Some v"
  by (simp add: hm_ok_def hm_get_def)

lemma hm_get_set: "hm_get m k = Some v \<Longrightarrow> (k, v) \<in> set m"
  by (simp add: hm_get_def map_of_SomeD)

lemma hm_values_get: "hm_ok m \<Longrightarrow> v \<in> set (hm_values m) \<longleftrightarrow> (\<exists>k. hm_get m k = Some v)"
  by (force simp: hm_values_def simp flip: hm_get_in_set)

lemma length_hm_insert:
  "length (hm_insert k v m) = (if hm_get m k = None then Suc (length m) else length m)"
  by (induction m) (auto simp: hm_insert_def hm_get_def)

lemma length_hm_remove_None: "hm_get m k = None \<Longrightarrow> length (hm_remove k m) = length m"
  by (simp add: hm_remove_def hm_get_def map_of_eq_None_iff)

lemma length_hm_remove_Some:
  "hm_ok m \<Longrightarrow> hm_get m k = Some v \<Longrightarrow> Suc (length (hm_remove k m)) = length m"
proof (induction m)
  case Nil
  then show ?case by simp
next
  case (Cons p m)
  show ?case
  proof (cases "fst p = k")
    case True
    with Cons.prems have "hm_get m k = None"
      by (auto simp: hm_ok_def hm_get_def map_of_eq_None_iff)
    moreover from True have "hm_remove k (p # m) = hm_remove k m"
      by (simp add: hm_remove_def)
    ultimately show ?thesis by (simp add: length_hm_remove_None)
  next
    case False
    moreover from this have "hm_remove k (p # m) = p # hm_remove k m"
      by (simp add: hm_remove_def)
    moreover from Cons.prems False have "hm_ok m" "hm_get m k = Some v"
      by (auto simp: hm_ok_def hm_get_def split: if_splits)
    ultimately show ?thesis using Cons.IH by simp
  qed
qed

section \<open>Lists\<close>

lemma foldl_invariant:
  assumes "P s" "\<And>s x. x \<in> set xs \<Longrightarrow> P s \<Longrightarrow> P (f s x)"
  shows "P (foldl f s xs)"
  using assms by (induction xs arbitrary: s) auto

text \<open>Rust's checked indexing \<open>xs[i]\<close> and the windowed slice \<open>&xs[o..][..n]\<close>.\<close>

definition index_at :: "'a list \<Rightarrow> nat \<Rightarrow> 'a option" where
  "index_at xs i = (if i < length xs then Some (xs ! i) else None)"

definition index_set :: "'a list \<Rightarrow> nat \<Rightarrow> 'a \<Rightarrow> 'a list option" where
  "index_set xs i x = (if i < length xs then Some (xs[i := x]) else None)"

definition slice_at :: "'a list \<Rightarrow> nat \<Rightarrow> nat \<Rightarrow> 'a list option" where
  "slice_at xs off n = (if off + n \<le> length xs then Some (take n (drop off xs)) else None)"

lemma index_at_Some [simp]: "i < length xs \<Longrightarrow> index_at xs i = Some (xs ! i)"
  by (simp add: index_at_def)

lemma index_at_eq_Some [panic_simps]: "index_at xs i = Some x \<longleftrightarrow> i < length xs \<and> x = xs ! i"
  by (auto simp: index_at_def)

lemma index_set_Some [simp]: "i < length xs \<Longrightarrow> index_set xs i x = Some (xs[i := x])"
  by (simp add: index_set_def)

lemma index_set_eq_Some [panic_simps]: "index_set xs i x = Some ys \<longleftrightarrow> i < length xs \<and> ys = xs[i := x]"
  by (auto simp: index_set_def)

lemma slice_at_Some [simp]: "off + n \<le> length xs \<Longrightarrow> slice_at xs off n = Some (take n (drop off xs))"
  by (simp add: slice_at_def)

lemma slice_at_eq_Some [panic_simps]:
  "slice_at xs off n = Some ys \<longleftrightarrow> off + n \<le> length xs \<and> ys = take n (drop off xs)"
  by (auto simp: slice_at_def)

definition all_index :: "nat \<Rightarrow> (nat \<Rightarrow> bool) \<Rightarrow> bool" where
  "all_index n p = list_all p [0..<n]"

lemma all_index_iff [simp]: "all_index n p \<longleftrightarrow> (\<forall>i<n. p i)"
  by (auto simp: all_index_def list_all_iff)

end
