(* ===== verification/Types.thy ===== *)
theory Types
  imports Prelude
begin

text \<open>
  The domain objects of \<open>crates/tigerbeetle-core/src/types.rs\<close>: accounts, transfers, their flag
  words, the pending-transfer status rows, the change-data-capture record, the query filters and
  the two result-code enumerations. Records carry the fields of the \<open>repr(C)\<close> structs under the
  field's name with a prefix per record; flag sets stay 16- or 32-bit words read bit by bit, as the
  transparent newtypes of the source are.
\<close>

section \<open>Time\<close>

definition NS_PER_S :: u64 where
  "NS_PER_S = 1000000000"

definition TIMESTAMP_MIN :: u64 where
  "TIMESTAMP_MIN = 1"

definition TIMESTAMP_MAX :: u64 where
  "TIMESTAMP_MAX = 9223372036854775807"

definition timestamp_range_valid :: "u64 \<Rightarrow> bool" where
  "timestamp_range_valid timestamp \<longleftrightarrow> TIMESTAMP_MIN \<le> timestamp \<and> timestamp \<le> TIMESTAMP_MAX"

section \<open>Account flags\<close>

type_synonym account_flags = u16

definition af_linked :: "account_flags \<Rightarrow> bool" where
  "af_linked f \<longleftrightarrow> f AND 1 \<noteq> 0"

definition af_debits_must_not_exceed_credits :: "account_flags \<Rightarrow> bool" where
  "af_debits_must_not_exceed_credits f \<longleftrightarrow> f AND 2 \<noteq> 0"

definition af_credits_must_not_exceed_debits :: "account_flags \<Rightarrow> bool" where
  "af_credits_must_not_exceed_debits f \<longleftrightarrow> f AND 4 \<noteq> 0"

definition af_history :: "account_flags \<Rightarrow> bool" where
  "af_history f \<longleftrightarrow> f AND 8 \<noteq> 0"

definition af_imported :: "account_flags \<Rightarrow> bool" where
  "af_imported f \<longleftrightarrow> f AND 16 \<noteq> 0"

definition af_closed :: "account_flags \<Rightarrow> bool" where
  "af_closed f \<longleftrightarrow> f AND 32 \<noteq> 0"

definition with_closed :: "account_flags \<Rightarrow> account_flags" where
  "with_closed f = f OR 32"

definition without_closed :: "account_flags \<Rightarrow> account_flags" where
  "without_closed f = f AND NOT 32"

definition af_has_padding :: "account_flags \<Rightarrow> bool" where
  "af_has_padding f \<longleftrightarrow> f AND NOT 0x1FF \<noteq> 0"

definition af_are_mutually_exclusive :: "account_flags \<Rightarrow> bool" where
  "af_are_mutually_exclusive f \<longleftrightarrow>
     af_debits_must_not_exceed_credits f \<and> af_credits_must_not_exceed_debits f"

section \<open>Transfer flags\<close>

type_synonym transfer_flags = u16

definition tf_linked :: "transfer_flags \<Rightarrow> bool" where
  "tf_linked f \<longleftrightarrow> f AND 1 \<noteq> 0"

definition tf_pending :: "transfer_flags \<Rightarrow> bool" where
  "tf_pending f \<longleftrightarrow> f AND 2 \<noteq> 0"

definition tf_post_pending_transfer :: "transfer_flags \<Rightarrow> bool" where
  "tf_post_pending_transfer f \<longleftrightarrow> f AND 4 \<noteq> 0"

definition tf_void_pending_transfer :: "transfer_flags \<Rightarrow> bool" where
  "tf_void_pending_transfer f \<longleftrightarrow> f AND 8 \<noteq> 0"

definition tf_balancing_debit :: "transfer_flags \<Rightarrow> bool" where
  "tf_balancing_debit f \<longleftrightarrow> f AND 16 \<noteq> 0"

definition tf_balancing_credit :: "transfer_flags \<Rightarrow> bool" where
  "tf_balancing_credit f \<longleftrightarrow> f AND 32 \<noteq> 0"

definition tf_closing_debit :: "transfer_flags \<Rightarrow> bool" where
  "tf_closing_debit f \<longleftrightarrow> f AND 64 \<noteq> 0"

definition tf_closing_credit :: "transfer_flags \<Rightarrow> bool" where
  "tf_closing_credit f \<longleftrightarrow> f AND 128 \<noteq> 0"

definition tf_imported :: "transfer_flags \<Rightarrow> bool" where
  "tf_imported f \<longleftrightarrow> f AND 256 \<noteq> 0"

definition tf_has_padding :: "transfer_flags \<Rightarrow> bool" where
  "tf_has_padding f \<longleftrightarrow> f AND NOT 0x1FF \<noteq> 0"

definition post_or_void_exclusive :: "transfer_flags \<Rightarrow> bool" where
  "post_or_void_exclusive f \<longleftrightarrow> tf_post_pending_transfer f \<noteq> tf_void_pending_transfer f"

lemmas account_flag_defs = af_linked_def af_debits_must_not_exceed_credits_def
  af_credits_must_not_exceed_debits_def af_history_def af_imported_def af_closed_def
  with_closed_def without_closed_def af_has_padding_def af_are_mutually_exclusive_def

lemmas transfer_flag_defs = tf_linked_def tf_pending_def tf_post_pending_transfer_def
  tf_void_pending_transfer_def tf_balancing_debit_def tf_balancing_credit_def
  tf_closing_debit_def tf_closing_credit_def tf_imported_def tf_has_padding_def
  post_or_void_exclusive_def

lemmas [model_defs] = account_flag_defs transfer_flag_defs NS_PER_S_def TIMESTAMP_MIN_def
  TIMESTAMP_MAX_def timestamp_range_valid_def

text \<open>A flag word read through a single-bit mask is a bit test.\<close>

lemma and_exp_nonzero_iff_bit:
  fixes f :: "'a::len word"
  shows "n < LENGTH('a) \<Longrightarrow> f AND push_bit n 1 \<noteq> 0 \<longleftrightarrow> bit f n"
  by (metis and_exp_eq_0_iff_not_bit push_bit_eq_mult mult.left_neutral)

lemma af_closed_bit: "af_closed f \<longleftrightarrow> bit f 5"
  using and_exp_nonzero_iff_bit [of 5 f] by (simp add: af_closed_def)

lemma af_closed_with_closed [simp]: "af_closed (with_closed f)"
  by (simp add: af_closed_bit with_closed_def bit_simps)

lemma af_closed_without_closed [simp]: "\<not> af_closed (without_closed f)"
  by (simp add: af_closed_bit without_closed_def bit_simps)

section \<open>Objects\<close>

record account =
  a_id :: u128
  a_debits_pending :: u128
  a_debits_posted :: u128
  a_credits_pending :: u128
  a_credits_posted :: u128
  a_user_data_128 :: u128
  a_user_data_64 :: u64
  a_user_data_32 :: u32
  a_reserved :: u32
  a_ledger :: u32
  a_code :: u16
  a_flags :: account_flags
  a_timestamp :: u64

definition debits_exceed_credits :: "account \<Rightarrow> u128 \<Rightarrow> bool" where
  "debits_exceed_credits a amount \<longleftrightarrow>
     af_debits_must_not_exceed_credits (a_flags a) \<and>
     a_debits_pending a + a_debits_posted a + amount > a_credits_posted a"

definition credits_exceed_debits :: "account \<Rightarrow> u128 \<Rightarrow> bool" where
  "credits_exceed_debits a amount \<longleftrightarrow>
     af_credits_must_not_exceed_debits (a_flags a) \<and>
     a_credits_pending a + a_credits_posted a + amount > a_debits_posted a"

record transfer =
  t_id :: u128
  t_debit_account_id :: u128
  t_credit_account_id :: u128
  t_amount :: u128
  t_pending_id :: u128
  t_user_data_128 :: u128
  t_user_data_64 :: u64
  t_user_data_32 :: u32
  t_timeout :: u32
  t_ledger :: u32
  t_code :: u16
  t_flags :: transfer_flags
  t_timestamp :: u64

text \<open>\<open>timeout as u64 * NS_PER_S\<close>: the product of a 32-bit value and 10^9 fits in 64 bits.\<close>

definition timeout_ns :: "transfer \<Rightarrow> u64" where
  "timeout_ns t = ucast (t_timeout t) * NS_PER_S"

datatype TransferPendingStatus = StNone | StPending | StPosted | StVoided | StExpired

record transfer_pending =
  tp_timestamp :: u64
  tp_status :: TransferPendingStatus

record account_event =
  ev_dr_account_id :: u128
  ev_dr_debits_pending :: u128
  ev_dr_debits_posted :: u128
  ev_dr_credits_pending :: u128
  ev_dr_credits_posted :: u128
  ev_cr_account_id :: u128
  ev_cr_debits_pending :: u128
  ev_cr_debits_posted :: u128
  ev_cr_credits_pending :: u128
  ev_cr_credits_posted :: u128
  ev_timestamp :: u64
  ev_dr_account_timestamp :: u64
  ev_cr_account_timestamp :: u64
  ev_dr_account_flags :: account_flags
  ev_cr_account_flags :: account_flags
  ev_transfer_flags :: transfer_flags
  ev_transfer_pending_flags :: transfer_flags
  ev_transfer_pending_id :: u128
  ev_amount_requested :: u128
  ev_amount :: u128
  ev_ledger :: u32
  ev_transfer_pending_status :: TransferPendingStatus

datatype ChangeEventType =
  SinglePhase | TwoPhasePending | TwoPhasePosted | TwoPhaseVoided | TwoPhaseExpired

section \<open>Result codes\<close>

text \<open>
  The constructors are the variants of \<open>CreateAccountStatus\<close> and \<open>CreateTransferStatus\<close>, prefixed
  because the two enumerations share variant names.
\<close>

datatype (plugins only: code) CreateAccountStatus =
    CA_DeprecatedOk | CA_LinkedEventFailed | CA_LinkedEventChainOpen | CA_TimestampMustBeZero
  | CA_ReservedField | CA_ReservedFlag | CA_IdMustNotBeZero | CA_IdMustNotBeIntMax
  | CA_FlagsAreMutuallyExclusive | CA_DebitsPendingMustBeZero | CA_DebitsPostedMustBeZero
  | CA_CreditsPendingMustBeZero | CA_CreditsPostedMustBeZero | CA_LedgerMustNotBeZero
  | CA_CodeMustNotBeZero | CA_ExistsWithDifferentFlags | CA_ExistsWithDifferentUserData128
  | CA_ExistsWithDifferentUserData64 | CA_ExistsWithDifferentUserData32
  | CA_ExistsWithDifferentLedger | CA_ExistsWithDifferentCode | CA_Exists
  | CA_ImportedEventExpected | CA_ImportedEventNotExpected | CA_ImportedEventTimestampOutOfRange
  | CA_ImportedEventTimestampMustNotAdvance | CA_ImportedEventTimestampMustNotRegress
  | CA_Created

datatype (plugins only: code) CreateTransferStatus =
    CT_DeprecatedOk | CT_LinkedEventFailed | CT_LinkedEventChainOpen | CT_TimestampMustBeZero
  | CT_ReservedFlag | CT_IdMustNotBeZero | CT_IdMustNotBeIntMax | CT_FlagsAreMutuallyExclusive
  | CT_DebitAccountIdMustNotBeZero | CT_DebitAccountIdMustNotBeIntMax
  | CT_CreditAccountIdMustNotBeZero | CT_CreditAccountIdMustNotBeIntMax
  | CT_AccountsMustBeDifferent | CT_PendingIdMustBeZero | CT_PendingIdMustNotBeZero
  | CT_PendingIdMustNotBeIntMax | CT_PendingIdMustBeDifferent
  | CT_TimeoutReservedForPendingTransfer | CT_LedgerMustNotBeZero | CT_CodeMustNotBeZero
  | CT_DebitAccountNotFound | CT_CreditAccountNotFound | CT_AccountsMustHaveTheSameLedger
  | CT_TransferMustHaveTheSameLedgerAsAccounts | CT_PendingTransferNotFound
  | CT_PendingTransferNotPending | CT_PendingTransferHasDifferentDebitAccountId
  | CT_PendingTransferHasDifferentCreditAccountId | CT_PendingTransferHasDifferentLedger
  | CT_PendingTransferHasDifferentCode | CT_ExceedsPendingTransferAmount
  | CT_PendingTransferHasDifferentAmount | CT_PendingTransferAlreadyPosted
  | CT_PendingTransferAlreadyVoided | CT_PendingTransferExpired | CT_ExistsWithDifferentFlags
  | CT_ExistsWithDifferentDebitAccountId | CT_ExistsWithDifferentCreditAccountId
  | CT_ExistsWithDifferentAmount | CT_ExistsWithDifferentPendingId
  | CT_ExistsWithDifferentUserData128 | CT_ExistsWithDifferentUserData64
  | CT_ExistsWithDifferentUserData32 | CT_ExistsWithDifferentTimeout | CT_ExistsWithDifferentCode
  | CT_Exists | CT_OverflowsDebitsPending | CT_OverflowsCreditsPending | CT_OverflowsDebitsPosted
  | CT_OverflowsCreditsPosted | CT_OverflowsDebits | CT_OverflowsCredits | CT_OverflowsTimeout
  | CT_ExceedsCredits | CT_ExceedsDebits | CT_ImportedEventExpected | CT_ImportedEventNotExpected
  | CT_ImportedEventTimestampOutOfRange | CT_ImportedEventTimestampMustNotAdvance
  | CT_ImportedEventTimestampMustNotRegress | CT_ImportedEventTimestampMustPostdateDebitAccount
  | CT_ImportedEventTimestampMustPostdateCreditAccount | CT_ImportedEventTimeoutMustBeZero
  | CT_ClosingTransferMustBePending | CT_DebitAccountAlreadyClosed
  | CT_CreditAccountAlreadyClosed | CT_ExistsWithDifferentLedger | CT_IdAlreadyFailed
  | CT_Created

definition transient :: "CreateTransferStatus \<Rightarrow> bool" where
  "transient s \<longleftrightarrow> s \<in> {CT_DebitAccountNotFound, CT_CreditAccountNotFound,
     CT_PendingTransferNotFound, CT_ExceedsCredits, CT_ExceedsDebits,
     CT_DebitAccountAlreadyClosed, CT_CreditAccountAlreadyClosed}"

lemma transient_Created [simp]: "\<not> transient CT_Created"
  by (simp add: transient_def)

end
