(* ===== verification/Prefetch.thy ===== *)
theory Prefetch
  imports Types
begin

text \<open>
  The prefetch key sets of \<open>crates/tigerbeetle-vsr/src/state_machine.rs\<close>: before a
  \<open>create_*\<close> batch executes, the keys of every object it may read are enqueued per groove; the
  executor then asserts that it never misses on a key outside the set.
\<close>

section \<open>Insertion-ordered key sets\<close>

record 'k prefetch_keys =
  pk_ordered :: "'k list"
  pk_seen :: "'k set"

definition pk_empty :: "'k prefetch_keys" where
  "pk_empty = \<lparr>pk_ordered = [], pk_seen = {}\<rparr>"

definition pk_enqueue :: "'k \<Rightarrow> 'k prefetch_keys \<Rightarrow> 'k prefetch_keys" where
  "pk_enqueue key ks =
     (if key \<in> pk_seen ks then ks
      else ks\<lparr>pk_ordered := pk_ordered ks @ [key], pk_seen := insert key (pk_seen ks)\<rparr>)"

definition pk_contains :: "'k prefetch_keys \<Rightarrow> 'k \<Rightarrow> bool" where
  "pk_contains ks key \<longleftrightarrow> key \<in> pk_seen ks"

definition pk_ok :: "'k prefetch_keys \<Rightarrow> bool" where
  "pk_ok ks \<longleftrightarrow> set (pk_ordered ks) = pk_seen ks \<and> distinct (pk_ordered ks)"

lemma pk_ok_empty [simp]: "pk_ok pk_empty"
  by (simp add: pk_ok_def pk_empty_def)

lemma pk_ok_enqueue [simp]: "pk_ok ks \<Longrightarrow> pk_ok (pk_enqueue key ks)"
  by (auto simp: pk_ok_def pk_enqueue_def)

lemma pk_seen_enqueue [simp]: "pk_seen (pk_enqueue key ks) = insert key (pk_seen ks)"
  by (auto simp: pk_enqueue_def)

lemma pk_seen_empty [simp]: "pk_seen pk_empty = {}"
  by (simp add: pk_empty_def)

definition pk_enqueue_all :: "'k list \<Rightarrow> 'k prefetch_keys \<Rightarrow> 'k prefetch_keys" where
  "pk_enqueue_all keys ks = fold pk_enqueue keys ks"

lemma pk_ok_enqueue_all [simp]: "pk_ok ks \<Longrightarrow> pk_ok (pk_enqueue_all keys ks)"
  unfolding pk_enqueue_all_def by (induction keys arbitrary: ks) auto

lemma pk_seen_enqueue_all [simp]: "pk_seen (pk_enqueue_all keys ks) = set keys \<union> pk_seen ks"
  unfolding pk_enqueue_all_def by (induction keys arbitrary: ks) auto

section \<open>Keys of an account batch\<close>

record account_prefetch_keys =
  apk_account_ids :: "u128 prefetch_keys"
  apk_transfer_timestamps :: "u64 prefetch_keys"

definition batch_imported_accounts :: "account list \<Rightarrow> bool" where
  "batch_imported_accounts events = (case events of [] \<Rightarrow> False | e # _ \<Rightarrow> af_imported (a_flags e))"

definition prefetch_create_accounts :: "account list \<Rightarrow> account_prefetch_keys" where
  "prefetch_create_accounts events =
     \<lparr>apk_account_ids = pk_enqueue_all (map a_id events) pk_empty,
      apk_transfer_timestamps =
        (if batch_imported_accounts events then pk_enqueue_all (map a_timestamp events) pk_empty
         else pk_empty)\<rparr>"

lemma prefetch_create_accounts_ids [simp]:
  "pk_contains (apk_account_ids (prefetch_create_accounts events)) k \<longleftrightarrow> k \<in> a_id ` set events"
  by (simp add: prefetch_create_accounts_def pk_contains_def)

section \<open>Keys of a transfer batch\<close>

record transfer_prefetch_keys =
  tpk_transfer_ids :: "u128 prefetch_keys"
  tpk_pending_timestamps :: "u64 prefetch_keys"
  tpk_account_ids :: "u128 prefetch_keys"
  tpk_account_timestamps :: "u64 prefetch_keys"

definition is_post_or_void :: "transfer \<Rightarrow> bool" where
  "is_post_or_void t \<longleftrightarrow>
     tf_post_pending_transfer (t_flags t) \<or> tf_void_pending_transfer (t_flags t)"

definition batch_imported_transfers :: "transfer list \<Rightarrow> bool" where
  "batch_imported_transfers events = (case events of [] \<Rightarrow> False | e # _ \<Rightarrow> tf_imported (t_flags e))"

text \<open>Phase 1: the transfers groove, the id of each event and of the pending it names.\<close>

definition enqueue_transfer_ids :: "transfer \<Rightarrow> transfer_prefetch_keys \<Rightarrow> transfer_prefetch_keys" where
  "enqueue_transfer_ids event keys =
     (let keys = keys\<lparr>tpk_transfer_ids := pk_enqueue (t_id event) (tpk_transfer_ids keys)\<rparr>
      in if is_post_or_void event
         then keys\<lparr>tpk_transfer_ids := pk_enqueue (t_pending_id event) (tpk_transfer_ids keys)\<rparr>
         else keys)"

text \<open>Phase 2: the accounts, through the committed pending transfer for a post or void.\<close>

definition enqueue_transfer_accounts ::
  "(u128 \<Rightarrow> transfer option) \<Rightarrow> transfer \<Rightarrow> transfer_prefetch_keys \<Rightarrow> transfer_prefetch_keys" where
  "enqueue_transfer_accounts get_transfer event keys =
     (if is_post_or_void event then
        (case get_transfer (t_pending_id event) of
           None \<Rightarrow> keys
         | Some pending \<Rightarrow>
             keys\<lparr>tpk_pending_timestamps := pk_enqueue (t_timestamp pending) (tpk_pending_timestamps keys),
                  tpk_account_ids := pk_enqueue (t_credit_account_id pending)
                    (pk_enqueue (t_debit_account_id pending) (tpk_account_ids keys))\<rparr>)
      else keys\<lparr>tpk_account_ids := pk_enqueue (t_credit_account_id event)
                    (pk_enqueue (t_debit_account_id event) (tpk_account_ids keys))\<rparr>)"

definition prefetch_create_transfers ::
  "transfer list \<Rightarrow> (u128 \<Rightarrow> transfer option) \<Rightarrow> transfer_prefetch_keys" where
  "prefetch_create_transfers events get_transfer =
     (let keys = \<lparr>tpk_transfer_ids = pk_empty, tpk_pending_timestamps = pk_empty,
                  tpk_account_ids = pk_empty, tpk_account_timestamps = pk_empty\<rparr>;
          keys = fold enqueue_transfer_ids events keys;
          keys = fold (enqueue_transfer_accounts get_transfer) events keys
      in if batch_imported_transfers events
         then keys\<lparr>tpk_account_timestamps :=
                     pk_enqueue_all (map t_timestamp events) (tpk_account_timestamps keys)\<rparr>
         else keys)"

lemmas prefetch_defs [model_defs] = pk_empty_def pk_enqueue_def pk_contains_def pk_enqueue_all_def
  batch_imported_accounts_def prefetch_create_accounts_def is_post_or_void_def
  batch_imported_transfers_def enqueue_transfer_ids_def enqueue_transfer_accounts_def
  prefetch_create_transfers_def

subsection \<open>What the phases enqueue\<close>

lemma fold_enqueue_transfer_ids:
  "tpk_account_ids (fold enqueue_transfer_ids events keys) = tpk_account_ids keys"
  "tpk_pending_timestamps (fold enqueue_transfer_ids events keys) = tpk_pending_timestamps keys"
  "tpk_account_timestamps (fold enqueue_transfer_ids events keys) = tpk_account_timestamps keys"
  "pk_seen (tpk_transfer_ids (fold enqueue_transfer_ids events keys)) =
     pk_seen (tpk_transfer_ids keys) \<union> t_id ` set events
       \<union> t_pending_id ` {t \<in> set events. is_post_or_void t}"
  by (induction events arbitrary: keys) (auto simp: enqueue_transfer_ids_def Let_def)

lemma fold_enqueue_transfer_accounts_ids:
  "tpk_transfer_ids (fold (enqueue_transfer_accounts g) events keys) = tpk_transfer_ids keys"
  "tpk_account_timestamps (fold (enqueue_transfer_accounts g) events keys) = tpk_account_timestamps keys"
  by (induction events arbitrary: keys)
     (auto simp: enqueue_transfer_accounts_def split: option.splits)

lemma enqueue_transfer_accounts_mono:
  "pk_seen (tpk_account_ids keys) \<subseteq> pk_seen (tpk_account_ids (enqueue_transfer_accounts g e keys))"
  "pk_seen (tpk_pending_timestamps keys) \<subseteq> pk_seen (tpk_pending_timestamps (enqueue_transfer_accounts g e keys))"
  by (auto simp: enqueue_transfer_accounts_def split: option.splits)

lemma fold_enqueue_transfer_accounts_mono:
  "pk_seen (tpk_account_ids keys)
     \<subseteq> pk_seen (tpk_account_ids (fold (enqueue_transfer_accounts g) events keys))"
  "pk_seen (tpk_pending_timestamps keys)
     \<subseteq> pk_seen (tpk_pending_timestamps (fold (enqueue_transfer_accounts g) events keys))"
proof (induction events arbitrary: keys)
  case (Cons e events)
  { case 1 show ?case using Cons.IH(1) enqueue_transfer_accounts_mono(1) by fastforce }
  { case 2 show ?case using Cons.IH(2) enqueue_transfer_accounts_mono(2) by fastforce }
qed simp_all

lemma enqueue_transfer_accounts_plain:
  "\<not> is_post_or_void e \<Longrightarrow>
     {t_debit_account_id e, t_credit_account_id e} \<subseteq> pk_seen (tpk_account_ids (enqueue_transfer_accounts g e keys))"
  by (simp add: enqueue_transfer_accounts_def)

lemma enqueue_transfer_accounts_post_void:
  "is_post_or_void e \<Longrightarrow> g (t_pending_id e) = Some p \<Longrightarrow>
     {t_debit_account_id p, t_credit_account_id p} \<subseteq> pk_seen (tpk_account_ids (enqueue_transfer_accounts g e keys))
     \<and> t_timestamp p \<in> pk_seen (tpk_pending_timestamps (enqueue_transfer_accounts g e keys))"
  by (simp add: enqueue_transfer_accounts_def)

lemma fold_enqueue_transfer_accounts_plain:
  assumes "t \<in> set events" "\<not> is_post_or_void t"
  shows "{t_debit_account_id t, t_credit_account_id t}
     \<subseteq> pk_seen (tpk_account_ids (fold (enqueue_transfer_accounts g) events keys))"
  using assms
proof (induction events arbitrary: keys)
  case (Cons e events)
  show ?case
  proof (cases "t = e")
    case True
    then show ?thesis
      using Cons.prems(2) enqueue_transfer_accounts_plain [of e g keys]
        fold_enqueue_transfer_accounts_mono(1) [of "enqueue_transfer_accounts g e keys" g events]
      by auto
  next
    case False
    with Cons show ?thesis by simp
  qed
qed simp

lemma fold_enqueue_transfer_accounts_post_void:
  assumes "t \<in> set events" "is_post_or_void t" "g (t_pending_id t) = Some p"
  shows "{t_debit_account_id p, t_credit_account_id p}
       \<subseteq> pk_seen (tpk_account_ids (fold (enqueue_transfer_accounts g) events keys))
     \<and> t_timestamp p \<in> pk_seen (tpk_pending_timestamps (fold (enqueue_transfer_accounts g) events keys))"
  using assms
proof (induction events arbitrary: keys)
  case (Cons e events)
  show ?case
  proof (cases "t = e")
    case True
    then show ?thesis
      using Cons.prems(2,3) enqueue_transfer_accounts_post_void [of e g p keys]
        fold_enqueue_transfer_accounts_mono [of "enqueue_transfer_accounts g e keys" g events]
      by auto
  next
    case False
    with Cons show ?thesis by simp
  qed
qed simp

lemma prefetch_transfer_ids:
  "pk_contains (tpk_transfer_ids (prefetch_create_transfers events g)) k \<longleftrightarrow>
     k \<in> t_id ` set events \<union> t_pending_id ` {t \<in> set events. is_post_or_void t}"
  by (simp add: prefetch_create_transfers_def pk_contains_def Let_def fold_enqueue_transfer_ids
      fold_enqueue_transfer_accounts_ids)

lemma prefetch_account_ids_plain:
  assumes "t \<in> set events" "\<not> is_post_or_void t"
  shows "pk_contains (tpk_account_ids (prefetch_create_transfers events g)) (t_debit_account_id t)"
    and "pk_contains (tpk_account_ids (prefetch_create_transfers events g)) (t_credit_account_id t)"
  using fold_enqueue_transfer_accounts_plain [OF assms, of g]
  by (auto simp: prefetch_create_transfers_def pk_contains_def Let_def)

lemma prefetch_post_void:
  assumes "t \<in> set events" "is_post_or_void t" "g (t_pending_id t) = Some p"
  shows "pk_contains (tpk_account_ids (prefetch_create_transfers events g)) (t_debit_account_id p)"
    and "pk_contains (tpk_account_ids (prefetch_create_transfers events g)) (t_credit_account_id p)"
    and "pk_contains (tpk_pending_timestamps (prefetch_create_transfers events g)) (t_timestamp p)"
  using fold_enqueue_transfer_accounts_post_void [of t events g p, OF assms]
  by (auto simp: prefetch_create_transfers_def pk_contains_def Let_def)

lemma prefetch_account_timestamps:
  "pk_contains (tpk_account_timestamps (prefetch_create_transfers events g)) ts \<longleftrightarrow>
     batch_imported_transfers events \<and> ts \<in> t_timestamp ` set events"
  by (simp add: prefetch_create_transfers_def pk_contains_def Let_def fold_enqueue_transfer_ids
      fold_enqueue_transfer_accounts_ids)

end
