(* ===== verification/Accounting.thy ===== *)
theory Accounting
  imports Prefetch
begin

text \<open>
  The per-event accounting rules of \<open>crates/tigerbeetle-vsr/src/state_machine.rs\<close>: validation of
  an account (\<open>create_account\<close>), of a transfer (\<open>create_transfer\<close>), of a post or void of a pending
  transfer, the idempotency checks, and the balance mutations they allow. Each function is the
  source's chain of early returns in the source's order; \<open>None\<close> is a panic.
\<close>

section \<open>Account creation\<close>

definition create_account_exists :: "account \<Rightarrow> account \<Rightarrow> CreateAccountStatus option" where
  "create_account_exists a e =
     (if a_id a \<noteq> a_id e then None
      else if a_flags a \<noteq> a_flags e then Some CA_ExistsWithDifferentFlags
      else if a_user_data_128 a \<noteq> a_user_data_128 e then Some CA_ExistsWithDifferentUserData128
      else if a_user_data_64 a \<noteq> a_user_data_64 e then Some CA_ExistsWithDifferentUserData64
      else if a_user_data_32 a \<noteq> a_user_data_32 e then Some CA_ExistsWithDifferentUserData32
      else if a_reserved a \<noteq> 0 then None
      else if a_reserved e \<noteq> 0 then None
      else if a_ledger a \<noteq> a_ledger e then Some CA_ExistsWithDifferentLedger
      else if a_code a \<noteq> a_code e then Some CA_ExistsWithDifferentCode
      else Some CA_Exists)"

definition create_account ::
  "account \<Rightarrow> u64 \<Rightarrow> account option \<Rightarrow> CreateAccountStatus option" where
  "create_account a timestamp_event existing =
     (if timestamp_event = 0 then None
      else if a_reserved a \<noteq> 0 then Some CA_ReservedField
      else if af_has_padding (a_flags a) then Some CA_ReservedFlag
      else if a_id a = 0 then Some CA_IdMustNotBeZero
      else if a_id a = -1 then Some CA_IdMustNotBeIntMax
      else (case existing of
          Some e \<Rightarrow> create_account_exists a e
        | None \<Rightarrow>
            if af_are_mutually_exclusive (a_flags a) then Some CA_FlagsAreMutuallyExclusive
            else if a_debits_pending a \<noteq> 0 then Some CA_DebitsPendingMustBeZero
            else if a_debits_posted a \<noteq> 0 then Some CA_DebitsPostedMustBeZero
            else if a_credits_pending a \<noteq> 0 then Some CA_CreditsPendingMustBeZero
            else if a_credits_posted a \<noteq> 0 then Some CA_CreditsPostedMustBeZero
            else if a_ledger a = 0 then Some CA_LedgerMustNotBeZero
            else if a_code a = 0 then Some CA_CodeMustNotBeZero
            else if \<not> af_imported (a_flags a) \<and> a_timestamp a \<noteq> 0 then None
            else Some CA_Created))"

section \<open>Transfer creation\<close>

definition sum_overflows :: "u128 \<Rightarrow> u128 \<Rightarrow> bool" where
  "sum_overflows a b \<longleftrightarrow> checked_add a b = None"

definition compute_amount_actual :: "transfer \<Rightarrow> account \<Rightarrow> account \<Rightarrow> u128" where
  "compute_amount_actual t dr_account cr_account =
     (let amount_actual = t_amount t;
          amount_actual =
            (if tf_balancing_debit (t_flags t) then
               (let dr_balance = a_debits_posted dr_account + a_debits_pending dr_account;
                    available = saturating_sub (a_credits_posted dr_account) dr_balance
                in min amount_actual available)
             else amount_actual)
      in if tf_balancing_credit (t_flags t) then
           (let cr_balance = a_credits_posted cr_account + a_credits_pending cr_account;
                available = saturating_sub (a_debits_posted cr_account) cr_balance
            in min amount_actual available)
         else amount_actual)"

definition create_transfer_exists :: "transfer \<Rightarrow> transfer \<Rightarrow> CreateTransferStatus option" where
  "create_transfer_exists t e =
     (if t_id t \<noteq> t_id e then None
      else if t_flags t \<noteq> t_flags e then Some CT_ExistsWithDifferentFlags
      else if t_debit_account_id t \<noteq> t_debit_account_id e then
        Some CT_ExistsWithDifferentDebitAccountId
      else if t_credit_account_id t \<noteq> t_credit_account_id e then
        Some CT_ExistsWithDifferentCreditAccountId
      else if tf_pending (t_flags t) \<and> t_amount t > t_amount e then
        Some CT_PendingTransferHasDifferentAmount
      else if \<not> tf_pending (t_flags t) \<and> t_amount t \<noteq> t_amount e then
        Some CT_ExistsWithDifferentAmount
      else if t_pending_id t \<noteq> t_pending_id e then Some CT_ExistsWithDifferentPendingId
      else if t_user_data_128 t \<noteq> t_user_data_128 e then Some CT_ExistsWithDifferentUserData128
      else if t_user_data_64 t \<noteq> t_user_data_64 e then Some CT_ExistsWithDifferentUserData64
      else if t_user_data_32 t \<noteq> t_user_data_32 e then Some CT_ExistsWithDifferentUserData32
      else if t_timeout t \<noteq> t_timeout e then Some CT_ExistsWithDifferentTimeout
      else if t_code t \<noteq> t_code e then Some CT_ExistsWithDifferentCode
      else Some CT_Exists)"

text \<open>The end of \<open>create_transfer\<close>: the overflow, timeout and limit checks on the actual amount.\<close>

definition timeout_overflows :: "transfer \<Rightarrow> u64 \<Rightarrow> bool option" where
  "timeout_overflows t timestamp_actual =
     do { ns \<leftarrow> checked_mul (ucast (t_timeout t)) NS_PER_S;
          if TIMESTAMP_MAX < ns then Some True
          else do { expires_at \<leftarrow> checked_add timestamp_actual ns;
                    Some (TIMESTAMP_MAX < expires_at) } }"

definition create_transfer_limits ::
  "transfer \<Rightarrow> u64 \<Rightarrow> account \<Rightarrow> account \<Rightarrow> CreateTransferStatus option" where
  "create_transfer_limits t timestamp_actual dr_account cr_account =
     (if af_closed (a_flags dr_account) then Some CT_DebitAccountAlreadyClosed
      else if af_closed (a_flags cr_account) then Some CT_CreditAccountAlreadyClosed
      else
        let amount_actual = compute_amount_actual t dr_account cr_account in
        if tf_pending (t_flags t) \<and> sum_overflows amount_actual (a_debits_pending dr_account) then
          Some CT_OverflowsDebitsPending
        else if tf_pending (t_flags t) \<and> sum_overflows amount_actual (a_credits_pending cr_account) then
          Some CT_OverflowsCreditsPending
        else if sum_overflows amount_actual (a_debits_posted dr_account) then
          Some CT_OverflowsDebitsPosted
        else if sum_overflows amount_actual (a_credits_posted cr_account) then
          Some CT_OverflowsCreditsPosted
        else if sum_overflows amount_actual (a_debits_pending dr_account + a_debits_posted dr_account) then
          Some CT_OverflowsDebits
        else if sum_overflows amount_actual (a_credits_pending cr_account + a_credits_posted cr_account) then
          Some CT_OverflowsCredits
        else (case timeout_overflows t timestamp_actual of
            None \<Rightarrow> None
          | Some True \<Rightarrow> Some CT_OverflowsTimeout
          | Some False \<Rightarrow>
              if debits_exceed_credits dr_account amount_actual then Some CT_ExceedsCredits
              else if credits_exceed_debits cr_account amount_actual then Some CT_ExceedsDebits
              else Some CT_Created))"

definition create_transfer ::
  "transfer \<Rightarrow> u64 \<Rightarrow> transfer option \<Rightarrow> account \<Rightarrow> account \<Rightarrow> CreateTransferStatus option" where
  "create_transfer t timestamp_event existing dr_account cr_account =
     (if timestamp_event = 0 then None
      else if tf_has_padding (t_flags t) then Some CT_ReservedFlag
      else if t_id t = 0 then Some CT_IdMustNotBeZero
      else if t_id t = -1 then Some CT_IdMustNotBeIntMax
      else (case existing of
          Some e \<Rightarrow> create_transfer_exists t e
        | None \<Rightarrow>
            if is_post_or_void t then None
            else if t_debit_account_id t = 0 then Some CT_DebitAccountIdMustNotBeZero
            else if t_debit_account_id t = -1 then Some CT_DebitAccountIdMustNotBeIntMax
            else if t_credit_account_id t = 0 then Some CT_CreditAccountIdMustNotBeZero
            else if t_credit_account_id t = -1 then Some CT_CreditAccountIdMustNotBeIntMax
            else if t_credit_account_id t = t_debit_account_id t then Some CT_AccountsMustBeDifferent
            else if t_pending_id t \<noteq> 0 then Some CT_PendingIdMustBeZero
            else if \<not> tf_pending (t_flags t) \<and> t_timeout t \<noteq> 0 then
              Some CT_TimeoutReservedForPendingTransfer
            else if \<not> tf_pending (t_flags t) \<and>
                    (tf_closing_debit (t_flags t) \<or> tf_closing_credit (t_flags t)) then
              Some CT_ClosingTransferMustBePending
            else if t_ledger t = 0 then Some CT_LedgerMustNotBeZero
            else if t_code t = 0 then Some CT_CodeMustNotBeZero
            else if a_id dr_account \<noteq> t_debit_account_id t then None
            else if a_id cr_account \<noteq> t_credit_account_id t then None
            else if a_ledger dr_account \<noteq> a_ledger cr_account then
              Some CT_AccountsMustHaveTheSameLedger
            else if t_ledger t \<noteq> a_ledger dr_account then
              Some CT_TransferMustHaveTheSameLedgerAsAccounts
            else if tf_imported (t_flags t) then
              (if t_timestamp t = 0 then None
               else if timestamp_event < t_timestamp t then None
               else if t_timestamp t \<le> a_timestamp dr_account then
                 Some CT_ImportedEventTimestampMustPostdateDebitAccount
               else if t_timestamp t \<le> a_timestamp cr_account then
                 Some CT_ImportedEventTimestampMustPostdateCreditAccount
               else if t_timeout t \<noteq> 0 then
                 (if tf_pending (t_flags t) then Some CT_ImportedEventTimeoutMustBeZero else None)
               else create_transfer_limits t (t_timestamp t) dr_account cr_account)
            else
              (if t_timestamp t \<noteq> 0 then None
               else if timestamp_event \<le> a_timestamp dr_account then None
               else if timestamp_event \<le> a_timestamp cr_account then None
               else create_transfer_limits t timestamp_event dr_account cr_account)))"

text \<open>The asserts \<open>timestamp_actual > account.timestamp\<close> are implied by the two postdate checks in
  the imported case and stand as the two \<open>None\<close> branches in the other.\<close>

record CreateTransferOutcome =
  o_status :: CreateTransferStatus
  o_amount_actual :: u128

definition create_transfer_outcome ::
  "transfer \<Rightarrow> u64 \<Rightarrow> transfer option \<Rightarrow> account \<Rightarrow> account \<Rightarrow> CreateTransferOutcome option" where
  "create_transfer_outcome t timestamp_event existing dr_account cr_account =
     do { status \<leftarrow> create_transfer t timestamp_event existing dr_account cr_account;
          Some \<lparr>o_status = status,
                o_amount_actual =
                  (if status = CT_Created then compute_amount_actual t dr_account cr_account else 0)\<rparr> }"

section \<open>Balance mutations\<close>

definition commit_transfer_accounts ::
  "transfer \<Rightarrow> u128 \<Rightarrow> account \<Rightarrow> account \<Rightarrow> account \<times> account" where
  "commit_transfer_accounts event amount_actual dr_account cr_account =
     (let (dr, cr) =
        (if tf_pending (t_flags event) then
           (dr_account\<lparr>a_debits_pending := a_debits_pending dr_account + amount_actual\<rparr>,
            cr_account\<lparr>a_credits_pending := a_credits_pending cr_account + amount_actual\<rparr>)
         else
           (dr_account\<lparr>a_debits_posted := a_debits_posted dr_account + amount_actual\<rparr>,
            cr_account\<lparr>a_credits_posted := a_credits_posted cr_account + amount_actual\<rparr>));
          dr = (if tf_closing_debit (t_flags event) then dr\<lparr>a_flags := with_closed (a_flags dr)\<rparr> else dr);
          cr = (if tf_closing_credit (t_flags event) then cr\<lparr>a_flags := with_closed (a_flags cr)\<rparr> else cr)
      in (dr, cr))"

definition commit_post_void_accounts ::
  "transfer \<Rightarrow> transfer \<Rightarrow> u128 \<Rightarrow> account \<Rightarrow> account \<Rightarrow> (account \<times> account) option" where
  "commit_post_void_accounts event p amount_actual dr_account cr_account =
     (let dr = dr_account\<lparr>a_debits_pending := a_debits_pending dr_account - t_amount p\<rparr>;
          cr = cr_account\<lparr>a_credits_pending := a_credits_pending cr_account - t_amount p\<rparr>
      in if tf_post_pending_transfer (t_flags event) then
           do { ensure (\<not> tf_closing_debit (t_flags p));
                ensure (\<not> tf_closing_credit (t_flags p));
                ensure (amount_actual \<le> t_amount p);
                Some (dr\<lparr>a_debits_posted := a_debits_posted dr + amount_actual\<rparr>,
                      cr\<lparr>a_credits_posted := a_credits_posted cr + amount_actual\<rparr>) }
         else
           do { ensure (amount_actual = t_amount p);
                ensure (tf_closing_debit (t_flags p) \<longrightarrow> af_closed (a_flags dr_account));
                ensure (tf_closing_credit (t_flags p) \<longrightarrow> af_closed (a_flags cr_account));
                Some (if tf_closing_debit (t_flags p) then dr\<lparr>a_flags := without_closed (a_flags dr)\<rparr> else dr,
                      if tf_closing_credit (t_flags p) then cr\<lparr>a_flags := without_closed (a_flags cr)\<rparr> else cr) })"

definition folded_transfer :: "transfer \<Rightarrow> transfer \<Rightarrow> u128 \<Rightarrow> u64 \<Rightarrow> transfer" where
  "folded_transfer event p amount_actual timestamp =
     \<lparr>t_id = t_id event,
      t_debit_account_id = t_debit_account_id p,
      t_credit_account_id = t_credit_account_id p,
      t_amount = amount_actual,
      t_pending_id = t_pending_id event,
      t_user_data_128 = (if t_user_data_128 event \<noteq> 0 then t_user_data_128 event else t_user_data_128 p),
      t_user_data_64 = (if t_user_data_64 event \<noteq> 0 then t_user_data_64 event else t_user_data_64 p),
      t_user_data_32 = (if t_user_data_32 event \<noteq> 0 then t_user_data_32 event else t_user_data_32 p),
      t_timeout = 0,
      t_ledger = t_ledger p,
      t_code = t_code p,
      t_flags = t_flags event,
      t_timestamp = timestamp\<rparr>"

definition fold_post_void_transfer :: "transfer \<Rightarrow> transfer \<Rightarrow> u128 \<Rightarrow> u64 \<Rightarrow> transfer option" where
  "fold_post_void_transfer event p amount_actual timestamp =
     do { ensure (t_pending_id event = t_id p);
          Some (folded_transfer event p amount_actual timestamp) }"

lemma fold_post_void_transfer_Some [panic_simps]:
  "fold_post_void_transfer event p amount_actual timestamp = Some stored \<longleftrightarrow>
     t_pending_id event = t_id p \<and> stored = folded_transfer event p amount_actual timestamp"
  by (auto simp: fold_post_void_transfer_def panic_simps)

section \<open>Posting and voiding a pending transfer\<close>

record PostVoidPendingResult =
  pv_status :: CreateTransferStatus
  pv_amount_actual :: u128
  pv_is_post :: bool

definition pv_fail :: "CreateTransferStatus \<Rightarrow> PostVoidPendingResult option" where
  "pv_fail status = Some \<lparr>pv_status = status, pv_amount_actual = 0, pv_is_post = False\<rparr>"

definition pv_result :: "u128 \<Rightarrow> bool \<Rightarrow> CreateTransferStatus \<Rightarrow> PostVoidPendingResult option" where
  "pv_result amount_actual is_post status =
     Some \<lparr>pv_status = status, pv_amount_actual = amount_actual, pv_is_post = is_post\<rparr>"

definition pv_amount :: "transfer \<Rightarrow> transfer \<Rightarrow> u128" where
  "pv_amount t p =
     (if tf_void_pending_transfer (t_flags t)
      then (if t_amount t = 0 then t_amount p else t_amount t)
      else (if t_amount t = -1 then t_amount p else t_amount t))"

text \<open>The pending's lifecycle: its recorded status, its expiry time, the imported-timestamp
  regression check and the closed accounts.\<close>

definition pv_lifecycle ::
  "transfer \<Rightarrow> u64 \<Rightarrow> transfer \<Rightarrow> account \<Rightarrow> account \<Rightarrow> TransferPendingStatus \<Rightarrow> u64 \<Rightarrow> u64 set \<Rightarrow>
   u64 prefetch_keys \<Rightarrow> u128 \<Rightarrow> bool \<Rightarrow> PostVoidPendingResult option" where
  "pv_lifecycle t timestamp_event p dr_account cr_account pending_status running_key_max
      account_timestamps account_timestamps_enqueued amount_actual is_post =
     (case pending_status of
        StPosted \<Rightarrow> pv_result amount_actual is_post CT_PendingTransferAlreadyPosted
      | StVoided \<Rightarrow> pv_result amount_actual is_post CT_PendingTransferAlreadyVoided
      | StExpired \<Rightarrow> pv_result amount_actual is_post CT_PendingTransferExpired
      | StNone \<Rightarrow> None
      | StPending \<Rightarrow>
          do { expired \<leftarrow> (if t_timeout p = 0 then Some False
                            else do { expires_at \<leftarrow> checked_add (t_timestamp p) (timeout_ns p);
                                      Some (expires_at \<le> timestamp_event) });
               if expired then
                 do { ensure (\<not> tf_imported (t_flags p));
                      pv_result amount_actual is_post CT_PendingTransferExpired }
               else
                 do { ensure (tf_imported (t_flags t) \<longrightarrow>
                        t_timestamp t \<noteq> 0 \<and> t_timestamp t \<le> timestamp_event \<and>
                        pk_contains account_timestamps_enqueued (t_timestamp t));
                      if tf_imported (t_flags t) \<and>
                         (t_timestamp t \<le> running_key_max \<or> t_timestamp t \<in> account_timestamps)
                      then pv_result amount_actual is_post CT_ImportedEventTimestampMustNotRegress
                      else if af_closed (a_flags dr_account) \<and> is_post
                      then pv_result amount_actual is_post CT_DebitAccountAlreadyClosed
                      else if af_closed (a_flags cr_account) \<and> is_post
                      then pv_result amount_actual is_post CT_CreditAccountAlreadyClosed
                      else pv_result amount_actual is_post CT_Created } })"

definition post_or_void_pending_transfer ::
  "transfer \<Rightarrow> u64 \<Rightarrow> transfer \<Rightarrow> account \<Rightarrow> account \<Rightarrow> TransferPendingStatus \<Rightarrow> u64 \<Rightarrow> u64 set \<Rightarrow>
   u64 prefetch_keys \<Rightarrow> PostVoidPendingResult option" where
  "post_or_void_pending_transfer t timestamp_event p dr_account cr_account pending_status
      running_key_max account_timestamps account_timestamps_enqueued =
     (if timestamp_event = 0 then None
      else if \<not> is_post_or_void t then None
      else if tf_post_pending_transfer (t_flags t) \<and> tf_void_pending_transfer (t_flags t) then
        pv_fail CT_FlagsAreMutuallyExclusive
      else if tf_pending (t_flags t) \<or> tf_balancing_debit (t_flags t) \<or>
              tf_balancing_credit (t_flags t) \<or> tf_closing_debit (t_flags t) \<or>
              tf_closing_credit (t_flags t) then
        pv_fail CT_FlagsAreMutuallyExclusive
      else if t_pending_id t = 0 then pv_fail CT_PendingIdMustNotBeZero
      else if t_pending_id t = -1 then pv_fail CT_PendingIdMustNotBeIntMax
      else if t_pending_id t = t_id t then pv_fail CT_PendingIdMustBeDifferent
      else if t_timeout t \<noteq> 0 then pv_fail CT_TimeoutReservedForPendingTransfer
      else if t_id p \<noteq> t_pending_id t then None
      else if \<not> tf_pending (t_flags p) then None
      else if t_debit_account_id t \<noteq> 0 \<and> t_debit_account_id t \<noteq> t_debit_account_id p then
        pv_fail CT_PendingTransferHasDifferentDebitAccountId
      else if t_credit_account_id t \<noteq> 0 \<and> t_credit_account_id t \<noteq> t_credit_account_id p then
        pv_fail CT_PendingTransferHasDifferentCreditAccountId
      else if t_ledger t \<noteq> 0 \<and> t_ledger t \<noteq> t_ledger p then
        pv_fail CT_PendingTransferHasDifferentLedger
      else if t_code t \<noteq> 0 \<and> t_code t \<noteq> t_code p then
        pv_fail CT_PendingTransferHasDifferentCode
      else
        let is_post = tf_post_pending_transfer (t_flags t);
            amount_actual = pv_amount t p
        in if t_amount p < amount_actual then
             pv_result amount_actual is_post CT_ExceedsPendingTransferAmount
           else if \<not> is_post \<and> amount_actual < t_amount p then
             pv_result amount_actual is_post CT_PendingTransferHasDifferentAmount
           else pv_lifecycle t timestamp_event p dr_account cr_account pending_status
                  running_key_max account_timestamps account_timestamps_enqueued
                  amount_actual is_post)"

definition post_or_void_pending_transfer_exists ::
  "transfer \<Rightarrow> transfer \<Rightarrow> transfer \<Rightarrow> CreateTransferStatus option" where
  "post_or_void_pending_transfer_exists t e p =
     (if \<not> (t_id t = t_id e \<and> t_id t \<noteq> t_id p \<and> is_post_or_void t \<and> t_flags t = t_flags e \<and>
            t_pending_id t = t_pending_id e \<and> t_pending_id t = t_id p \<and> tf_pending (t_flags p) \<and>
            t_timeout t = t_timeout e \<and> t_timeout t = 0 \<and>
            t_debit_account_id e = t_debit_account_id p \<and>
            t_credit_account_id e = t_credit_account_id p \<and>
            t_ledger e = t_ledger p \<and> t_code e = t_code p \<and> t_timestamp e > t_timestamp p)
      then None
      else if t_debit_account_id t \<noteq> 0 \<and> t_debit_account_id t \<noteq> t_debit_account_id e then
        Some CT_ExistsWithDifferentDebitAccountId
      else if t_credit_account_id t \<noteq> 0 \<and> t_credit_account_id t \<noteq> t_credit_account_id e then
        Some CT_ExistsWithDifferentCreditAccountId
      else if tf_void_pending_transfer (t_flags t) \<and>
              (if t_amount t = 0 then t_amount e \<noteq> t_amount p else t_amount t \<noteq> t_amount e) then
        Some CT_ExistsWithDifferentAmount
      else if tf_post_pending_transfer (t_flags t) \<and> t_amount p < t_amount e then None
      else if tf_post_pending_transfer (t_flags t) \<and>
              (if t_amount t = -1 then t_amount e \<noteq> t_amount p else t_amount t \<noteq> t_amount e) then
        Some CT_ExistsWithDifferentAmount
      else if (if t_user_data_128 t = 0 then t_user_data_128 e \<noteq> t_user_data_128 p
               else t_user_data_128 t \<noteq> t_user_data_128 e) then
        Some CT_ExistsWithDifferentUserData128
      else if (if t_user_data_64 t = 0 then t_user_data_64 e \<noteq> t_user_data_64 p
               else t_user_data_64 t \<noteq> t_user_data_64 e) then
        Some CT_ExistsWithDifferentUserData64
      else if (if t_user_data_32 t = 0 then t_user_data_32 e \<noteq> t_user_data_32 p
               else t_user_data_32 t \<noteq> t_user_data_32 e) then
        Some CT_ExistsWithDifferentUserData32
      else if t_ledger t \<noteq> 0 \<and> t_ledger t \<noteq> t_ledger e then
        Some CT_ExistsWithDifferentLedger
      else if t_code t \<noteq> 0 \<and> t_code t \<noteq> t_code e then Some CT_ExistsWithDifferentCode
      else Some CT_Exists)"

lemmas accounting_defs [model_defs] = create_account_exists_def create_account_def
  sum_overflows_def compute_amount_actual_def create_transfer_exists_def timeout_overflows_def
  create_transfer_limits_def create_transfer_def create_transfer_outcome_def
  commit_transfer_accounts_def commit_post_void_accounts_def folded_transfer_def
  pv_fail_def pv_result_def pv_amount_def pv_lifecycle_def post_or_void_pending_transfer_def
  post_or_void_pending_transfer_exists_def debits_exceed_credits_def credits_exceed_debits_def
  timeout_ns_def

section \<open>The account invariant\<close>

text \<open>
  No balance sum of an account overflows, and the limit its flags impose holds on the totals. The
  sums are of naturals, so the statement is about the exact amounts and not about wrapped words.
\<close>

definition debits_total :: "account \<Rightarrow> nat" where
  "debits_total a = unat (a_debits_pending a) + unat (a_debits_posted a)"

definition credits_total :: "account \<Rightarrow> nat" where
  "credits_total a = unat (a_credits_pending a) + unat (a_credits_posted a)"

definition account_inv :: "account \<Rightarrow> bool" where
  "account_inv a \<longleftrightarrow>
     debits_total a < 2 ^ 128 \<and> credits_total a < 2 ^ 128 \<and>
     (af_debits_must_not_exceed_credits (a_flags a) \<longrightarrow> debits_total a \<le> unat (a_credits_posted a)) \<and>
     (af_credits_must_not_exceed_debits (a_flags a) \<longrightarrow> credits_total a \<le> unat (a_debits_posted a))"

text \<open>What a mutation does to the totals, as exact naturals.\<close>

definition debit_by :: "account \<Rightarrow> account \<Rightarrow> nat \<Rightarrow> nat \<Rightarrow> bool" where
  "debit_by a a' pending posted \<longleftrightarrow>
     unat (a_debits_pending a') = unat (a_debits_pending a) + pending \<and>
     unat (a_debits_posted a') = unat (a_debits_posted a) + posted \<and>
     a_credits_pending a' = a_credits_pending a \<and> a_credits_posted a' = a_credits_posted a"

definition credit_by :: "account \<Rightarrow> account \<Rightarrow> nat \<Rightarrow> nat \<Rightarrow> bool" where
  "credit_by a a' pending posted \<longleftrightarrow>
     unat (a_credits_pending a') = unat (a_credits_pending a) + pending \<and>
     unat (a_credits_posted a') = unat (a_credits_posted a) + posted \<and>
     a_debits_pending a' = a_debits_pending a \<and> a_debits_posted a' = a_debits_posted a"

section \<open>What a created event implies\<close>

lemma not_sum_overflows [simp]: "\<not> sum_overflows a b \<longleftrightarrow> unat a + unat b < 2 ^ 128"
  by (simp add: sum_overflows_def checked_add_def)

lemma create_transfer_limits_CreatedD:
  assumes "create_transfer_limits t ts dr cr = Some CT_Created"
  shows "\<not> af_closed (a_flags dr)" "\<not> af_closed (a_flags cr)"
    "tf_pending (t_flags t) \<Longrightarrow> \<not> sum_overflows (compute_amount_actual t dr cr) (a_debits_pending dr)"
    "tf_pending (t_flags t) \<Longrightarrow> \<not> sum_overflows (compute_amount_actual t dr cr) (a_credits_pending cr)"
    "\<not> sum_overflows (compute_amount_actual t dr cr) (a_debits_posted dr)"
    "\<not> sum_overflows (compute_amount_actual t dr cr) (a_credits_posted cr)"
    "\<not> sum_overflows (compute_amount_actual t dr cr) (a_debits_pending dr + a_debits_posted dr)"
    "\<not> sum_overflows (compute_amount_actual t dr cr) (a_credits_pending cr + a_credits_posted cr)"
    "timeout_overflows t ts = Some False"
    "\<not> debits_exceed_credits dr (compute_amount_actual t dr cr)"
    "\<not> credits_exceed_debits cr (compute_amount_actual t dr cr)"
  using assms unfolding create_transfer_limits_def Let_def
  by (simp_all split: if_split_asm option.split_asm bool.split_asm)

lemma create_transfer_CreatedD:
  assumes "create_transfer t ts ex dr cr = Some CT_Created"
  shows "ex = None" "ts \<noteq> 0" "\<not> tf_has_padding (t_flags t)" "t_id t \<noteq> 0" "t_id t \<noteq> -1"
    "\<not> is_post_or_void t" "t_debit_account_id t \<noteq> t_credit_account_id t"
    "t_pending_id t = 0" "\<not> tf_pending (t_flags t) \<Longrightarrow> t_timeout t = 0"
    "\<not> tf_pending (t_flags t) \<Longrightarrow> \<not> tf_closing_debit (t_flags t) \<and> \<not> tf_closing_credit (t_flags t)"
    "a_id dr = t_debit_account_id t" "a_id cr = t_credit_account_id t"
    "a_ledger dr = a_ledger cr" "t_ledger t = a_ledger dr" "t_ledger t \<noteq> 0" "t_code t \<noteq> 0"
    "create_transfer_limits t (if tf_imported (t_flags t) then t_timestamp t else ts) dr cr = Some CT_Created"
    "tf_imported (t_flags t) \<Longrightarrow> t_timestamp t \<noteq> 0 \<and> t_timestamp t \<le> ts \<and> t_timeout t = 0"
    "\<not> tf_imported (t_flags t) \<Longrightarrow> t_timestamp t = 0"
    "a_timestamp dr < (if tf_imported (t_flags t) then t_timestamp t else ts)"
    "a_timestamp cr < (if tf_imported (t_flags t) then t_timestamp t else ts)"
proof -
  have ex: "ex = None"
    using assms unfolding create_transfer_def
    by (cases ex) (simp_all add: create_transfer_exists_def split: if_split_asm)
  then show "ex = None" .
  note d = assms [unfolded create_transfer_def ex option.case]
  show "ts \<noteq> 0" "\<not> tf_has_padding (t_flags t)" "t_id t \<noteq> 0" "t_id t \<noteq> -1"
    "\<not> is_post_or_void t" "t_debit_account_id t \<noteq> t_credit_account_id t"
    "t_pending_id t = 0" "\<not> tf_pending (t_flags t) \<Longrightarrow> t_timeout t = 0"
    "\<not> tf_pending (t_flags t) \<Longrightarrow> \<not> tf_closing_debit (t_flags t) \<and> \<not> tf_closing_credit (t_flags t)"
    "a_id dr = t_debit_account_id t" "a_id cr = t_credit_account_id t"
    "a_ledger dr = a_ledger cr" "t_ledger t = a_ledger dr" "t_ledger t \<noteq> 0" "t_code t \<noteq> 0"
    "create_transfer_limits t (if tf_imported (t_flags t) then t_timestamp t else ts) dr cr = Some CT_Created"
    "tf_imported (t_flags t) \<Longrightarrow> t_timestamp t \<noteq> 0 \<and> t_timestamp t \<le> ts \<and> t_timeout t = 0"
    "\<not> tf_imported (t_flags t) \<Longrightarrow> t_timestamp t = 0"
    "a_timestamp dr < (if tf_imported (t_flags t) then t_timestamp t else ts)"
    "a_timestamp cr < (if tf_imported (t_flags t) then t_timestamp t else ts)"
    using d by (auto split: if_split_asm)
qed



lemma account_flag_bits:
  "af_debits_must_not_exceed_credits f \<longleftrightarrow> bit f 1"
  "af_credits_must_not_exceed_debits f \<longleftrightarrow> bit f 2"
  "af_history f \<longleftrightarrow> bit f 3"
  "af_imported f \<longleftrightarrow> bit f 4"
  using and_exp_nonzero_iff_bit [of 1 f] and_exp_nonzero_iff_bit [of 2 f]
    and_exp_nonzero_iff_bit [of 3 f] and_exp_nonzero_iff_bit [of 4 f]
  by (simp_all add: account_flag_defs)

lemma closed_frame [simp]:
  "af_debits_must_not_exceed_credits (with_closed f) = af_debits_must_not_exceed_credits f"
  "af_credits_must_not_exceed_debits (with_closed f) = af_credits_must_not_exceed_debits f"
  "af_history (with_closed f) = af_history f"
  "af_debits_must_not_exceed_credits (without_closed f) = af_debits_must_not_exceed_credits f"
  "af_credits_must_not_exceed_debits (without_closed f) = af_credits_must_not_exceed_debits f"
  "af_history (without_closed f) = af_history f"
  by (simp_all add: account_flag_bits with_closed_def without_closed_def bit_simps)

lemma unat_debits_total: "account_inv a \<Longrightarrow> unat (a_debits_pending a + a_debits_posted a) = debits_total a"
  by (simp add: account_inv_def debits_total_def unat_add_small)

lemma unat_credits_total: "account_inv a \<Longrightarrow> unat (a_credits_pending a + a_credits_posted a) = credits_total a"
  by (simp add: account_inv_def credits_total_def unat_add_small)

lemma debits_exceed_credits_iff:
  assumes "account_inv a" "unat amount + debits_total a < 2 ^ 128"
  shows "debits_exceed_credits a amount \<longleftrightarrow> af_debits_must_not_exceed_credits (a_flags a) \<and>
     unat (a_credits_posted a) < debits_total a + unat amount"
proof -
  have "unat (a_debits_pending a + a_debits_posted a + amount) = debits_total a + unat amount"
    using assms unat_debits_total [OF assms(1)] by (simp add: unat_add_small)
  then show ?thesis by (simp add: debits_exceed_credits_def word_less_nat_alt)
qed

lemma credits_exceed_debits_iff:
  assumes "account_inv a" "unat amount + credits_total a < 2 ^ 128"
  shows "credits_exceed_debits a amount \<longleftrightarrow> af_credits_must_not_exceed_debits (a_flags a) \<and>
     unat (a_debits_posted a) < credits_total a + unat amount"
proof -
  have "unat (a_credits_pending a + a_credits_posted a + amount) = credits_total a + unat amount"
    using assms unat_credits_total [OF assms(1)] by (simp add: unat_add_small)
  then show ?thesis by (simp add: credits_exceed_debits_def word_less_nat_alt)
qed

lemma commit_transfer_accounts_exact:
  assumes created: "create_transfer t ts ex dr cr = Some CT_Created"
    and commit: "commit_transfer_accounts t amount dr cr = (dr', cr')"
    and amount: "amount = compute_amount_actual t dr cr"
  shows "debit_by dr dr' (if tf_pending (t_flags t) then unat amount else 0)
           (if tf_pending (t_flags t) then 0 else unat amount)"
    and "credit_by cr cr' (if tf_pending (t_flags t) then unat amount else 0)
           (if tf_pending (t_flags t) then 0 else unat amount)"
proof -
  note lim = create_transfer_limits_CreatedD [OF create_transfer_CreatedD(17) [OF created], folded amount]
  have sums: "tf_pending (t_flags t) \<Longrightarrow> unat (a_debits_pending dr + amount) = unat (a_debits_pending dr) + unat amount"
    "tf_pending (t_flags t) \<Longrightarrow> unat (a_credits_pending cr + amount) = unat (a_credits_pending cr) + unat amount"
    "unat (a_debits_posted dr + amount) = unat (a_debits_posted dr) + unat amount"
    "unat (a_credits_posted cr + amount) = unat (a_credits_posted cr) + unat amount"
    using lim(3-6) by (simp_all add: unat_add_small)
  show "debit_by dr dr' (if tf_pending (t_flags t) then unat amount else 0)
           (if tf_pending (t_flags t) then 0 else unat amount)"
    using commit sums(1,3)
    by (auto simp: commit_transfer_accounts_def debit_by_def split: if_split_asm)
  show "credit_by cr cr' (if tf_pending (t_flags t) then unat amount else 0)
           (if tf_pending (t_flags t) then 0 else unat amount)"
    using commit sums(2,4)
    by (auto simp: commit_transfer_accounts_def credit_by_def split: if_split_asm)
qed

lemma commit_transfer_accounts_flags:
  assumes "commit_transfer_accounts t amount dr cr = (dr', cr')"
  shows "af_debits_must_not_exceed_credits (a_flags dr') = af_debits_must_not_exceed_credits (a_flags dr)"
    "af_credits_must_not_exceed_debits (a_flags dr') = af_credits_must_not_exceed_debits (a_flags dr)"
    "af_debits_must_not_exceed_credits (a_flags cr') = af_debits_must_not_exceed_credits (a_flags cr)"
    "af_credits_must_not_exceed_debits (a_flags cr') = af_credits_must_not_exceed_debits (a_flags cr)"
  using assms by (auto simp: commit_transfer_accounts_def split: if_split_asm)

lemma create_transfer_account_inv:
  assumes created: "create_transfer t ts ex dr cr = Some CT_Created"
    and commit: "commit_transfer_accounts t (compute_amount_actual t dr cr) dr cr = (dr', cr')"
    and inv: "account_inv dr" "account_inv cr"
  shows "account_inv dr' \<and> account_inv cr'"
proof -
  let ?amount = "compute_amount_actual t dr cr"
  note lim = create_transfer_limits_CreatedD [OF create_transfer_CreatedD(17) [OF created]]
  note ex = commit_transfer_accounts_exact [OF created commit refl]
  note fl = commit_transfer_accounts_flags [OF commit]
  have dt: "debits_total dr' = debits_total dr + unat ?amount" "credits_total dr' = credits_total dr"
    using ex(1) by (auto simp: debit_by_def debits_total_def credits_total_def split: if_split_asm)
  have ct: "credits_total cr' = credits_total cr + unat ?amount" "debits_total cr' = debits_total cr"
    using ex(2) by (auto simp: credit_by_def debits_total_def credits_total_def split: if_split_asm)
  have bd: "unat ?amount + debits_total dr < 2 ^ 128"
    using lim(7) unat_debits_total [OF inv(1)] by simp
  have bc: "unat ?amount + credits_total cr < 2 ^ 128"
    using lim(8) unat_credits_total [OF inv(2)] by simp
  have "unat (a_debits_posted dr) \<le> unat (a_debits_posted dr')" "a_credits_posted dr' = a_credits_posted dr"
    using ex(1) by (auto simp: debit_by_def)
  moreover have "unat (a_credits_posted cr) \<le> unat (a_credits_posted cr')" "a_debits_posted cr' = a_debits_posted cr"
    using ex(2) by (auto simp: credit_by_def)
  moreover note limits = lim(10) [unfolded debits_exceed_credits_iff [OF inv(1) bd]]
    lim(11) [unfolded credits_exceed_debits_iff [OF inv(2) bc]]
  ultimately have "account_inv dr'" "account_inv cr'"
    using inv bd bc by (auto simp: account_inv_def dt ct fl not_less add.commute)
  then show ?thesis by simp
qed


subsection \<open>Post and void\<close>

lemma pv_simps [simp]:
  "pv_fail s = Some r \<longleftrightarrow> r = \<lparr>pv_status = s, pv_amount_actual = 0, pv_is_post = False\<rparr>"
  "pv_result m b s = Some r \<longleftrightarrow> r = \<lparr>pv_status = s, pv_amount_actual = m, pv_is_post = b\<rparr>"
  by (auto simp: pv_fail_def pv_result_def)

lemma pv_lifecycle_CreatedD:
  assumes "pv_lifecycle t ts p dr cr st kmax at ate m b = Some r" "pv_status r = CT_Created"
  shows "st = StPending" "pv_amount_actual r = m" "pv_is_post r = b"
    "b \<Longrightarrow> \<not> af_closed (a_flags dr) \<and> \<not> af_closed (a_flags cr)"
    "tf_imported (t_flags t) \<Longrightarrow> t_timestamp t \<noteq> 0 \<and> t_timestamp t \<le> ts \<and> kmax < t_timestamp t
       \<and> t_timestamp t \<notin> at"
  using assms unfolding pv_lifecycle_def
  by (auto simp: bind_Some_iff not_le split: TransferPendingStatus.split_asm if_split_asm)

lemma post_or_void_CreatedD:
  assumes r: "post_or_void_pending_transfer t ts p dr cr st kmax at ate = Some r"
    and created: "pv_status r = CT_Created"
  shows "ts \<noteq> 0" "tf_post_pending_transfer (t_flags t) \<noteq> tf_void_pending_transfer (t_flags t)"
    "\<not> tf_pending (t_flags t)" "t_pending_id t = t_id p" "t_id t \<noteq> t_id p" "t_timeout t = 0"
    "tf_pending (t_flags p)" "st = StPending"
    "pv_is_post r = tf_post_pending_transfer (t_flags t)"
    "pv_amount_actual r = pv_amount t p" "pv_amount t p \<le> t_amount p"
    "tf_void_pending_transfer (t_flags t) \<Longrightarrow> pv_amount t p = t_amount p"
    "tf_post_pending_transfer (t_flags t) \<Longrightarrow> \<not> af_closed (a_flags dr) \<and> \<not> af_closed (a_flags cr)"
    "t_debit_account_id t \<noteq> 0 \<Longrightarrow> t_debit_account_id t = t_debit_account_id p"
    "t_credit_account_id t \<noteq> 0 \<Longrightarrow> t_credit_account_id t = t_credit_account_id p"
    "t_ledger t \<noteq> 0 \<Longrightarrow> t_ledger t = t_ledger p" "t_code t \<noteq> 0 \<Longrightarrow> t_code t = t_code p"
    "tf_imported (t_flags t) \<Longrightarrow> t_timestamp t \<noteq> 0 \<and> t_timestamp t \<le> ts \<and> kmax < t_timestamp t
       \<and> t_timestamp t \<notin> at"
proof -
  have A: "ts \<noteq> 0 \<and> is_post_or_void t \<and> \<not> (tf_post_pending_transfer (t_flags t) \<and> tf_void_pending_transfer (t_flags t)) \<and>
    \<not> tf_pending (t_flags t) \<and> t_pending_id t = t_id p \<and> t_id t \<noteq> t_id p \<and> t_timeout t = 0 \<and>
    tf_pending (t_flags p) \<and> \<not> t_amount p < pv_amount t p \<and>
    \<not> (\<not> tf_post_pending_transfer (t_flags t) \<and> pv_amount t p < t_amount p) \<and>
    (t_debit_account_id t \<noteq> 0 \<longrightarrow> t_debit_account_id t = t_debit_account_id p) \<and>
    (t_credit_account_id t \<noteq> 0 \<longrightarrow> t_credit_account_id t = t_credit_account_id p) \<and>
    (t_ledger t \<noteq> 0 \<longrightarrow> t_ledger t = t_ledger p) \<and> (t_code t \<noteq> 0 \<longrightarrow> t_code t = t_code p) \<and>
    pv_lifecycle t ts p dr cr st kmax at ate (pv_amount t p) (tf_post_pending_transfer (t_flags t)) = Some r"
    using r created unfolding post_or_void_pending_transfer_def Let_def
    by (auto split: if_split_asm)
  then have L: "pv_lifecycle t ts p dr cr st kmax at ate (pv_amount t p) (tf_post_pending_transfer (t_flags t)) = Some r"
    by blast
  note l = pv_lifecycle_CreatedD [OF L created]
  show "ts \<noteq> 0" "tf_post_pending_transfer (t_flags t) \<noteq> tf_void_pending_transfer (t_flags t)"
    "\<not> tf_pending (t_flags t)" "t_pending_id t = t_id p" "t_id t \<noteq> t_id p" "t_timeout t = 0"
    "tf_pending (t_flags p)" "st = StPending"
    "pv_is_post r = tf_post_pending_transfer (t_flags t)"
    "pv_amount_actual r = pv_amount t p" "pv_amount t p \<le> t_amount p"
    "t_debit_account_id t \<noteq> 0 \<Longrightarrow> t_debit_account_id t = t_debit_account_id p"
    "t_credit_account_id t \<noteq> 0 \<Longrightarrow> t_credit_account_id t = t_credit_account_id p"
    "t_ledger t \<noteq> 0 \<Longrightarrow> t_ledger t = t_ledger p" "t_code t \<noteq> 0 \<Longrightarrow> t_code t = t_code p"
    using A l by (auto simp: is_post_or_void_def not_less)
  show "tf_void_pending_transfer (t_flags t) \<Longrightarrow> pv_amount t p = t_amount p"
    using A by (auto simp: not_less)
  show "tf_post_pending_transfer (t_flags t) \<Longrightarrow> \<not> af_closed (a_flags dr) \<and> \<not> af_closed (a_flags cr)"
    using l(4) .
  show "tf_imported (t_flags t) \<Longrightarrow> t_timestamp t \<noteq> 0 \<and> t_timestamp t \<le> ts \<and> kmax < t_timestamp t
       \<and> t_timestamp t \<notin> at"
    using l(5) .
qed

text \<open>The release of a pending amount: a post moves part of it to posted, a void drops it.\<close>

lemma commit_post_void_exact:
  assumes commit: "commit_post_void_accounts t p m dr cr = Some (dr', cr')"
    and held: "unat (t_amount p) \<le> unat (a_debits_pending dr)" "unat (t_amount p) \<le> unat (a_credits_pending cr)"
    and inv: "account_inv dr" "account_inv cr"
  shows "unat (a_debits_pending dr') = unat (a_debits_pending dr) - unat (t_amount p)"
    and "unat (a_credits_pending cr') = unat (a_credits_pending cr) - unat (t_amount p)"
    and "unat (a_debits_posted dr') = unat (a_debits_posted dr)
           + (if tf_post_pending_transfer (t_flags t) then unat m else 0)"
    and "unat (a_credits_posted cr') = unat (a_credits_posted cr)
           + (if tf_post_pending_transfer (t_flags t) then unat m else 0)"
    and "unat m \<le> unat (t_amount p)"
    and "a_credits_pending dr' = a_credits_pending dr" "a_credits_posted dr' = a_credits_posted dr"
    and "a_debits_pending cr' = a_debits_pending cr" "a_debits_posted cr' = a_debits_posted cr"
proof -
  have sub: "unat (a_debits_pending dr - t_amount p) = unat (a_debits_pending dr) - unat (t_amount p)"
    "unat (a_credits_pending cr - t_amount p) = unat (a_credits_pending cr) - unat (t_amount p)"
    using held by (simp_all add: unat_sub_le)
  show m: "unat m \<le> unat (t_amount p)"
    using commit by (auto simp: commit_post_void_accounts_def Let_def panic_simps word_le_nat_alt split: if_split_asm)
  have add: "unat (a_debits_posted dr + m) = unat (a_debits_posted dr) + unat m"
    "unat (a_credits_posted cr + m) = unat (a_credits_posted cr) + unat m"
    using m held inv
    by (auto intro!: unat_add_small simp: account_inv_def debits_total_def credits_total_def)
  show "unat (a_debits_pending dr') = unat (a_debits_pending dr) - unat (t_amount p)"
    "unat (a_credits_pending cr') = unat (a_credits_pending cr) - unat (t_amount p)"
    "unat (a_debits_posted dr') = unat (a_debits_posted dr)
           + (if tf_post_pending_transfer (t_flags t) then unat m else 0)"
    "unat (a_credits_posted cr') = unat (a_credits_posted cr)
           + (if tf_post_pending_transfer (t_flags t) then unat m else 0)"
    "a_credits_pending dr' = a_credits_pending dr" "a_credits_posted dr' = a_credits_posted dr"
    "a_debits_pending cr' = a_debits_pending cr" "a_debits_posted cr' = a_debits_posted cr"
    using commit sub add
    by (auto simp: commit_post_void_accounts_def Let_def panic_simps split: if_split_asm)
qed

lemma commit_post_void_flags:
  assumes "commit_post_void_accounts t p m dr cr = Some (dr', cr')"
  shows "af_debits_must_not_exceed_credits (a_flags dr') = af_debits_must_not_exceed_credits (a_flags dr)"
    "af_credits_must_not_exceed_debits (a_flags dr') = af_credits_must_not_exceed_debits (a_flags dr)"
    "af_debits_must_not_exceed_credits (a_flags cr') = af_debits_must_not_exceed_credits (a_flags cr)"
    "af_credits_must_not_exceed_debits (a_flags cr') = af_credits_must_not_exceed_debits (a_flags cr)"
  using assms by (auto simp: commit_post_void_accounts_def Let_def panic_simps split: if_split_asm)

lemma post_void_account_inv:
  assumes commit: "commit_post_void_accounts t p m dr cr = Some (dr', cr')"
    and held: "unat (t_amount p) \<le> unat (a_debits_pending dr)" "unat (t_amount p) \<le> unat (a_credits_pending cr)"
    and inv: "account_inv dr" "account_inv cr"
  shows "account_inv dr' \<and> account_inv cr'"
proof -
  note ex = commit_post_void_exact [OF commit held inv]
  note fl = commit_post_void_flags [OF commit]
  have "debits_total dr' \<le> debits_total dr" "credits_total dr' = credits_total dr"
    "credits_total cr' \<le> credits_total cr" "debits_total cr' = debits_total cr"
    using ex held by (auto simp: debits_total_def credits_total_def)
  moreover have "unat (a_debits_posted dr) \<le> unat (a_debits_posted dr')"
    "unat (a_credits_posted cr) \<le> unat (a_credits_posted cr')"
    using ex by auto
  ultimately have "account_inv dr'" "account_inv cr'"
    using inv ex(7,9) by (auto simp: account_inv_def fl)
  then show ?thesis by simp
qed

lemma commit_post_void_no_panic:
  assumes r: "post_or_void_pending_transfer t ts p dr cr st kmax at ate = Some r" "pv_status r = CT_Created"
    and closed: "tf_closing_debit (t_flags p) \<Longrightarrow> af_closed (a_flags dr)"
      "tf_closing_credit (t_flags p) \<Longrightarrow> af_closed (a_flags cr)"
  shows "\<exists>dr' cr'. commit_post_void_accounts t p (pv_amount_actual r) dr cr = Some (dr', cr')"
  using post_or_void_CreatedD [OF r] closed
  by (auto simp: commit_post_void_accounts_def Let_def panic_simps)

end
