(* ===== verification/Bytes.thy ===== *)
theory Bytes
  imports Prelude
begin

text \<open>
  Little-endian byte strings: \<open>to_le_bytes\<close> and \<open>from_le_bytes\<close> of the Rust integers, which every
  wire and storage format of the program is made of, and fixed-offset field access. The two round
  trips are what the record codecs rest on.
\<close>

definition le_bytes :: "nat \<Rightarrow> 'a::len word \<Rightarrow> u8 list" where
  "le_bytes n w = map (\<lambda>i. ucast (drop_bit (8 * i) w)) [0..<n]"

fun le_word :: "u8 list \<Rightarrow> 'a::len word" where
  "le_word [] = 0"
| "le_word (b # bs) = push_bit 8 (le_word bs) OR ucast b"

lemma length_le_bytes [simp]: "length (le_bytes n w) = n"
  by (simp add: le_bytes_def)

lemma bit_le_word:
  "bit (le_word bs :: 'a::len word) k \<longleftrightarrow>
     k < LENGTH('a) \<and> k div 8 < length bs \<and> bit (bs ! (k div 8)) (k mod 8)"
proof (induction bs arbitrary: k)
  case (Cons b bs)
  show ?case
  proof (cases "k < 8")
    case True
    then show ?thesis by (auto simp: bit_simps)
  next
    case False
    then have k: "k div 8 = Suc ((k - 8) div 8)" "k mod 8 = (k - 8) mod 8"
      by (simp_all add: le_div_geq le_mod_geq)
    have "\<not> bit b k" using False by (auto dest: bit_imp_le_length)
    with False show ?thesis by (auto simp: bit_simps Cons.IH k)
  qed
qed simp

lemma le_word_bytes:
  assumes "8 * n = LENGTH('a)" shows "le_word (le_bytes n (w :: 'a::len word)) = w"
proof (rule bit_word_eqI)
  fix k assume "k < LENGTH('a)"
  then have "k div 8 < n" using assms by (simp add: less_mult_imp_div_less mult.commute)
  then show "bit (le_word (le_bytes n w) :: 'a word) k \<longleftrightarrow> bit w k"
    using \<open>k < LENGTH('a)\<close> by (simp add: bit_le_word le_bytes_def bit_simps)
qed

lemma le_bytes_word:
  assumes "8 * length bs \<le> LENGTH('a)" shows "le_bytes (length bs) (le_word bs :: 'a::len word) = bs"
proof (rule nth_equalityI)
  fix i assume i: "i < length (le_bytes (length bs) (le_word bs :: 'a word))"
  then have i: "i < length bs" by simp
  show "le_bytes (length bs) (le_word bs :: 'a word) ! i = bs ! i"
  proof (rule bit_word_eqI)
    fix k assume "k < LENGTH(8)"
    then have k: "k < 8" by simp
    then have "(8 * i + k) div 8 = i" "(8 * i + k) mod 8 = k" "8 * i + k < LENGTH('a)"
      using i assms by auto
    with i k show "bit (le_bytes (length bs) (le_word bs :: 'a word) ! i) k \<longleftrightarrow> bit (bs ! i) k"
      by (simp add: le_bytes_def bit_simps bit_le_word)
  qed
qed simp

text \<open>Fields of a record image: \<open>n\<close> bytes at a fixed offset.\<close>

definition field_at :: "u8 list \<Rightarrow> nat \<Rightarrow> nat \<Rightarrow> 'a::len word option" where
  "field_at bytes offset n = map_option le_word (slice_at bytes offset n)"

lemma field_at_append1:
  "offset + n \<le> length xs \<Longrightarrow> field_at (xs @ ys) offset n = field_at xs offset n"
  by (simp add: field_at_def)

lemma field_at_append2:
  "length xs \<le> offset \<Longrightarrow> field_at (xs @ ys) offset n = field_at ys (offset - length xs) n"
  by (auto simp: field_at_def slice_at_def)

lemma field_at_le_bytes:
  "8 * n = LENGTH('a) \<Longrightarrow> field_at (le_bytes n (w :: 'a::len word) @ ys) 0 n = Some w"
  by (simp add: field_at_def le_word_bytes)

end
