(* ===== verification/Hash.thy ===== *)
theory Hash
  imports Bytes
begin

text \<open>
  \<open>low_level_hash\<close> of \<open>crates/tigerbeetle-core/src/stdx/hash.rs\<close> (Abseil's \<open>LowLevelHash\<close>), which
  places every object in its cache set. A read outside the input is a panic; the theorems show that
  there is none, for inputs of any length.
\<close>

definition SALT :: "u64 list" where
  "SALT = [0xa0761d6478bd642f, 0xe7037ed1a0b428db, 0x8ebc6af09c88c6e3,
           0x589965cc75374cc3, 0x1d8e4e27c47d124f]"

definition read_u64 :: "u8 list \<Rightarrow> nat \<Rightarrow> u64 option" where
  "read_u64 bytes offset = field_at bytes offset 8"

definition u32_le :: "u8 list \<Rightarrow> u32 option" where
  "u32_le bytes = field_at bytes 0 4"

definition mul128 :: "u64 \<Rightarrow> u64 \<Rightarrow> u128" where
  "mul128 a b = ucast a * ucast b"

definition truncate64 :: "u128 \<Rightarrow> u64" where
  "truncate64 x = ucast (x XOR drop_bit 64 x)"

definition read_u64x4 :: "u8 list \<Rightarrow> nat \<Rightarrow> (u64 \<times> u64 \<times> u64 \<times> u64) option" where
  "read_u64x4 bytes offset =
     do { a \<leftarrow> read_u64 bytes offset;
          b \<leftarrow> read_u64 bytes (offset + 8);
          c \<leftarrow> read_u64 bytes (offset + 16);
          d \<leftarrow> read_u64 bytes (offset + 24);
          Some (a, b, c, d) }"

text \<open>One 64-byte block: each half is mixed into its own lane of \<open>dup\<close>.\<close>

definition hash_lane :: "nat \<Rightarrow> u64 \<times> u64 \<times> u64 \<times> u64 \<Rightarrow> u64 \<Rightarrow> u64" where
  "hash_lane i chunk dup =
     (case chunk of (c0, c1, c2, c3) \<Rightarrow>
       let mix1 = mul128 (c0 XOR SALT ! (i * 2 + 1)) (c1 XOR dup);
           mix2 = mul128 (c2 XOR SALT ! (i * 2 + 2)) (c3 XOR dup)
       in truncate64 mix1 XOR truncate64 mix2)"

function hash_blocks :: "u8 list \<Rightarrow> u64 \<times> u64 \<Rightarrow> (u64 \<times> u64 \<times> u8 list) option" where
  "hash_blocks input dup =
     (if length input > 64 then
        do { lo \<leftarrow> read_u64x4 input 0;
             hi \<leftarrow> read_u64x4 input 32;
             hash_blocks (drop 64 input) (hash_lane 0 lo (fst dup), hash_lane 1 hi (snd dup)) }
      else Some (fst dup, snd dup, input))"
  by pat_completeness auto
termination by (relation "measure (\<lambda>(input, dup). length input)") auto

function hash_words :: "u8 list \<Rightarrow> u64 \<Rightarrow> (u64 \<times> u8 list) option" where
  "hash_words input state =
     (if length input > 16 then
        do { a \<leftarrow> read_u64 input 0;
             b \<leftarrow> read_u64 input 8;
             hash_words (drop 16 input) (truncate64 (mul128 (a XOR SALT ! 1) (b XOR state))) }
      else Some (state, input))"
  by pat_completeness auto
termination by (relation "measure (\<lambda>(input, state). length input)") auto

declare hash_blocks.simps [simp del] hash_words.simps [simp del]

definition hash_tail :: "u8 list \<Rightarrow> (u64 \<times> u64) option" where
  "hash_tail input =
     (if length input > 8 then
        do { a \<leftarrow> read_u64 input 0; b \<leftarrow> read_u64 input (length input - 8); Some (a, b) }
      else if length input > 3 then
        do { a \<leftarrow> u32_le input; b \<leftarrow> u32_le (drop (length input - 4) input);
             Some (ucast a, ucast b) }
      else if input \<noteq> [] then
        do { a \<leftarrow> index_at input 0;
             b \<leftarrow> index_at input (length input div 2);
             c \<leftarrow> index_at input (length input - 1);
             Some (push_bit 16 (ucast a) OR push_bit 8 (ucast b) OR ucast c, 0) }
      else Some (0, 0))"

definition low_level_hash :: "u64 \<Rightarrow> u8 list \<Rightarrow> u64 option" where
  "low_level_hash seed input =
     do { let starting_len = length input;
          let state = seed XOR SALT ! 0;
          (state, input) \<leftarrow>
            (if length input > 64 then
               do { (dup0, dup1, input) \<leftarrow> hash_blocks input (state, state);
                    Some (dup0 XOR dup1, input) }
             else Some (state, input));
          (state, input) \<leftarrow> hash_words input state;
          (chunk0, chunk1) \<leftarrow> hash_tail input;
          let mixed = mul128 (chunk0 XOR SALT ! 1) (chunk1 XOR state);
          let mixed = (ucast (truncate64 mixed) :: u128);
          let len_salt = of_nat starting_len XOR SALT ! 1;
          let mixed = mixed * ucast len_salt;
          Some (truncate64 mixed) }"

definition hash_inline_u64 :: "u64 \<Rightarrow> u64 option" where
  "hash_inline_u64 value = low_level_hash 0 (le_bytes 8 value)"

definition hash_inline_u128 :: "u128 \<Rightarrow> u64 option" where
  "hash_inline_u128 value = low_level_hash 0 (le_bytes 16 value)"

section \<open>No read is out of bounds\<close>

lemma read_u64_total: "offset + 8 \<le> length bytes \<Longrightarrow> \<exists>w. read_u64 bytes offset = Some w"
  by (simp add: read_u64_def field_at_def)

lemma read_u64x4_total: "offset + 32 \<le> length bytes \<Longrightarrow> \<exists>w. read_u64x4 bytes offset = Some w"
  by (simp add: read_u64x4_def read_u64_def field_at_def)

lemma hash_blocks_total: "\<exists>a b rest. hash_blocks input dup = Some (a, b, rest)"
proof (induction input dup rule: hash_blocks.induct)
  case (1 input dup)
  show ?case
  proof (cases "length input > 64")
    case True
    obtain lo hi where "read_u64x4 input 0 = Some lo" "read_u64x4 input 32 = Some hi"
      using read_u64x4_total [of 0 input] read_u64x4_total [of 32 input] True by auto
    with 1 [OF True] True show ?thesis by (subst hash_blocks.simps) simp
  qed (simp add: hash_blocks.simps)
qed

lemma hash_words_total: "\<exists>state' rest. hash_words input state = Some (state', rest)"
proof (induction input state rule: hash_words.induct)
  case (1 input state)
  show ?case
  proof (cases "length input > 16")
    case True
    obtain a b where "read_u64 input 0 = Some a" "read_u64 input 8 = Some b"
      using read_u64_total [of 0 input] read_u64_total [of 8 input] True by auto
    with 1 [OF True] True show ?thesis by (subst hash_words.simps) simp
  qed (simp add: hash_words.simps)
qed

lemma hash_tail_total: "\<exists>a b. hash_tail input = Some (a, b)"
proof -
  consider "length input > 8" | "3 < length input" "length input \<le> 8"
    | "input \<noteq> []" "length input \<le> 3" | "input = []"
    by fastforce
  then show ?thesis
  proof cases
    case 1
    then show ?thesis
      using read_u64_total [of 0 input] read_u64_total [of "length input - 8" input]
      by (auto simp: hash_tail_def)
  next
    case 2
    then show ?thesis by (simp add: hash_tail_def u32_le_def field_at_def)
  next
    case 3
    then show ?thesis by (cases input) (simp_all add: hash_tail_def)
  qed (simp add: hash_tail_def)
qed

lemma low_level_hash_total: "\<exists>h. low_level_hash seed input = Some h"
proof -
  let ?s = "seed XOR SALT ! 0"
  obtain a b rest where blocks: "hash_blocks input (?s, ?s) = Some (a, b, rest)"
    using hash_blocks_total by blast
  define p where "p = (if length input > 64 then (a XOR b, rest) else (?s, input))"
  obtain s' rest' where words: "hash_words (snd p) (fst p) = Some (s', rest')"
    using hash_words_total by blast
  obtain c0 c1 where tail: "hash_tail rest' = Some (c0, c1)" using hash_tail_total by blast
  show ?thesis
    using blocks words tail unfolding low_level_hash_def p_def by (cases "length input > 64") simp_all
qed

end
