(* ===== verification/PackedArray.thy ===== *)
theory PackedArray
  imports Prelude
begin

text \<open>
  \<open>PackedUnsignedIntegerArray\<close> of \<open>crates/tigerbeetle-lsm/src/set_associative_cache.rs\<close>: small
  unsigned integers of 1, 2 or 4 bits packed into 64-bit words. The laws a client needs (a read
  after a write, and that a stored integer fits its slot) are the locale \<open>uint_slots\<close>, which the
  packed representation interprets.
\<close>

section \<open>The interface\<close>

locale uint_slots =
  fixes get :: "'s \<Rightarrow> nat \<Rightarrow> u64 option"
    and set :: "'s \<Rightarrow> nat \<Rightarrow> u64 \<Rightarrow> 's option"
    and limit :: "'s \<Rightarrow> u64"
    and ok :: "nat \<Rightarrow> 's \<Rightarrow> bool"
  assumes get_ok: "ok n s \<Longrightarrow> i < n \<Longrightarrow> \<exists>v. get s i = Some v \<and> v \<le> limit s"
    and set_ok: "ok n s \<Longrightarrow> i < n \<Longrightarrow> v \<le> limit s \<Longrightarrow>
      \<exists>s'. set s i v = Some s' \<and> ok n s' \<and> limit s' = limit s \<and>
        (\<forall>j < n. get s' j = (if j = i then Some v else get s j))"
    and set_refuses: "limit s < v \<Longrightarrow> set s i v = None"
begin

text \<open>A write of a legal value never panics; a read then returns it, and other slots are framed.\<close>

lemma get_set_same:
  "ok n s \<Longrightarrow> i < n \<Longrightarrow> set s i v = Some s' \<Longrightarrow> get s' i = Some v"
proof (cases "v \<le> limit s")
  case True
  then show "ok n s \<Longrightarrow> i < n \<Longrightarrow> set s i v = Some s' \<Longrightarrow> get s' i = Some v"
    using set_ok [of n s i v] by auto
qed (use set_refuses [of s v i] in auto)

lemma get_set_other:
  "ok n s \<Longrightarrow> i < n \<Longrightarrow> j < n \<Longrightarrow> j \<noteq> i \<Longrightarrow> set s i v = Some s' \<Longrightarrow> get s' j = get s j"
proof (cases "v \<le> limit s")
  case True
  then show "ok n s \<Longrightarrow> i < n \<Longrightarrow> j < n \<Longrightarrow> j \<noteq> i \<Longrightarrow> set s i v = Some s' \<Longrightarrow> get s' j = get s j"
    using set_ok [of n s i v] by auto
qed (use set_refuses [of s v i] in auto)

lemma set_keeps_ok:
  "ok n s \<Longrightarrow> i < n \<Longrightarrow> set s i v = Some s' \<Longrightarrow> ok n s' \<and> limit s' = limit s"
proof (cases "v \<le> limit s")
  case True
  then show "ok n s \<Longrightarrow> i < n \<Longrightarrow> set s i v = Some s' \<Longrightarrow> ok n s' \<and> limit s' = limit s"
    using set_ok [of n s i v] by auto
qed (use set_refuses [of s v i] in auto)

end

section \<open>The packed representation\<close>

record packed =
  pa_bits :: nat
  pa_words :: "u64 list"

definition pa_new :: "nat \<Rightarrow> nat \<Rightarrow> packed option" where
  "pa_new bits_per_uint size_bytes =
     do { ensure (bits_per_uint > 0);
          ensure (bits_per_uint < 8);
          ensure (bits_per_uint \<in> {1, 2, 4});
          Some \<lparr>pa_bits = bits_per_uint, pa_words = replicate ((size_bytes + 7) div 8) 0\<rparr> }"

definition pa_reset :: "packed \<Rightarrow> packed" where
  "pa_reset p = p\<lparr>pa_words := replicate (length (pa_words p)) 0\<rparr>"

definition uints_per_word :: "packed \<Rightarrow> nat" where
  "uints_per_word p = 64 div pa_bits p"

definition pa_mask :: "packed \<Rightarrow> u64" where
  "pa_mask p = push_bit (pa_bits p) 1 - 1"

definition bits_index :: "packed \<Rightarrow> nat \<Rightarrow> nat" where
  "bits_index p index = (index mod uints_per_word p) * pa_bits p"

definition pa_word :: "packed \<Rightarrow> nat \<Rightarrow> u64 option" where
  "pa_word p index =
     (let w = index div uints_per_word p
      in if w < length (pa_words p) then Some (pa_words p ! w) else None)"

definition pa_get :: "packed \<Rightarrow> nat \<Rightarrow> u64 option" where
  "pa_get p index =
     do { word \<leftarrow> pa_word p index;
          Some (drop_bit (bits_index p index) word AND pa_mask p) }"

definition pa_set :: "packed \<Rightarrow> nat \<Rightarrow> u64 \<Rightarrow> packed option" where
  "pa_set p index value =
     do { ensure (value \<le> pa_mask p);
          let bi = bits_index p index;
          let slot_mask = push_bit bi (pa_mask p);
          word \<leftarrow> pa_word p index;
          Some (p\<lparr>pa_words := (pa_words p)[index div uints_per_word p :=
                 (word AND NOT slot_mask) OR push_bit bi value]\<rparr>) }"

text \<open>The integer stored in a slot, as a total function, and the array after a write: what
  reads and writes come to when they are in bounds.\<close>

definition pa_slot :: "packed \<Rightarrow> nat \<Rightarrow> u64" where
  "pa_slot p index =
     drop_bit (bits_index p index) (pa_words p ! (index div uints_per_word p)) AND pa_mask p"

definition pa_put :: "packed \<Rightarrow> nat \<Rightarrow> u64 \<Rightarrow> packed" where
  "pa_put p index value =
     (let bi = bits_index p index;
          slot_mask = push_bit bi (pa_mask p);
          w = index div uints_per_word p
      in p\<lparr>pa_words := (pa_words p)[w := ((pa_words p ! w) AND NOT slot_mask) OR push_bit bi value]\<rparr>)"

text \<open>
  \<open>pa_ok n p\<close>: a slot width the constructor admits, and room for \<open>n\<close> slots, so that every access
  below \<open>n\<close> is in bounds (an access beyond it panics in the source and is never made by a client
  that holds \<open>pa_ok\<close>).
\<close>

definition pa_ok :: "nat \<Rightarrow> packed \<Rightarrow> bool" where
  "pa_ok n p \<longleftrightarrow> pa_bits p \<in> {1, 2, 4} \<and> n \<le> length (pa_words p) * uints_per_word p"

lemmas packed_defs [model_defs] = pa_new_def pa_reset_def uints_per_word_def pa_mask_def
  bits_index_def pa_word_def pa_get_def pa_set_def

lemma bit_pa_mask: "bit (pa_mask p) n \<longleftrightarrow> n < min (pa_bits p) 64"
proof -
  have "pa_mask p = mask (pa_bits p)"
    by (simp add: pa_mask_def mask_eq_exp_minus_1 push_bit_eq_mult)
  then show ?thesis by (simp add: bit_simps min_less_iff_conj conj_commute)
qed

lemma uints_per_word_cases:
  "pa_bits p \<in> {1, 2, 4} \<Longrightarrow> uints_per_word p * pa_bits p = 64 \<and> 0 < uints_per_word p"
  by (auto simp: uints_per_word_def)

lemma pa_word_in_bounds:
  assumes "pa_ok n p" "i < n" shows "i div uints_per_word p < length (pa_words p)"
proof -
  have "i < length (pa_words p) * uints_per_word p" using assms by (simp add: pa_ok_def)
  then show ?thesis by (simp add: less_mult_imp_div_less)
qed

lemma bits_index_bound:
  assumes "pa_bits p \<in> {1, 2, 4}" "n < pa_bits p" shows "bits_index p i + n < 64"
proof -
  let ?u = "uints_per_word p"
  have "i mod ?u < ?u" using uints_per_word_cases [OF assms(1)] by simp
  then have "i mod ?u * pa_bits p + pa_bits p \<le> ?u * pa_bits p"
    by (metis Suc_leI add.commute mult_Suc mult_le_mono1)
  then show ?thesis using assms uints_per_word_cases [OF assms(1)] by (simp add: bits_index_def)
qed

lemma bits_index_disjoint:
  assumes "pa_bits p \<in> {1, 2, 4}" "n < pa_bits p" "m < pa_bits p"
    and "i mod uints_per_word p \<noteq> j mod uints_per_word p"
  shows "bits_index p i + n \<noteq> bits_index p j + m"
proof
  assume "bits_index p i + n = bits_index p j + m"
  then have "((i mod uints_per_word p) * pa_bits p + n) div pa_bits p =
      ((j mod uints_per_word p) * pa_bits p + m) div pa_bits p"
    by (simp add: bits_index_def)
  then show False using assms by simp
qed

lemma bit_pa_slot:
  "pa_bits p \<in> {1, 2, 4} \<Longrightarrow> bit (pa_slot p i) n \<longleftrightarrow>
     n < pa_bits p \<and> bit (pa_words p ! (i div uints_per_word p)) (bits_index p i + n)"
  by (auto simp: pa_slot_def bit_simps bit_pa_mask)

lemma value_bits: "pa_bits p \<in> {1, 2, 4} \<Longrightarrow> v \<le> pa_mask p \<Longrightarrow> bit v n \<Longrightarrow> n < pa_bits p"
proof -
  assume "pa_bits p \<in> {1, 2, 4}" "v \<le> pa_mask p" "bit v n"
  then have "v < push_bit (pa_bits p) 1"
    by (auto simp: pa_mask_def word_le_nat_alt word_less_nat_alt push_bit_eq_mult)
  then have "take_bit (pa_bits p) v = v"
    using \<open>pa_bits p \<in> {1, 2, 4}\<close>
    by (auto simp: push_bit_eq_mult word_less_nat_alt word_unat_eq_iff unsigned_take_bit_eq take_bit_nat_eq_self)
  then show "n < pa_bits p" using \<open>bit v n\<close> by (metis bit_take_bit_iff)
qed

lemma pa_frame [simp]:
  "pa_bits (pa_put p i v) = pa_bits p" "length (pa_words (pa_put p i v)) = length (pa_words p)"
  "uints_per_word (pa_put p i v) = uints_per_word p" "pa_mask (pa_put p i v) = pa_mask p"
  "bits_index (pa_put p i v) j = bits_index p j"
  by (simp_all add: pa_put_def Let_def uints_per_word_def pa_mask_def bits_index_def)

lemma pa_slot_put:
  assumes ok: "pa_ok n p" and i: "i < n" and j: "j < n" and v: "v \<le> pa_mask p"
  shows "pa_slot (pa_put p i v) j = (if j = i then v else pa_slot p j)"
proof (rule bit_word_eqI)
  fix m assume "m < LENGTH(64)"
  have bits: "pa_bits p \<in> {1, 2, 4}" using ok by (simp add: pa_ok_def)
  let ?u = "uints_per_word p"
  note bounds = pa_word_in_bounds [OF ok i] pa_word_in_bounds [OF ok j]
  show "bit (pa_slot (pa_put p i v) j) m \<longleftrightarrow> bit (if j = i then v else pa_slot p j) m"
  proof (cases "m < pa_bits p")
    case False
    then show ?thesis using value_bits [OF bits v, of m] bits by (auto simp: bit_pa_slot)
  next
    case True
    note lt = bits_index_bound [OF bits True]
    show ?thesis
    proof (cases "i div ?u = j div ?u")
      case False
      then have "j \<noteq> i" by auto
      with False show ?thesis using bits bounds
        by (simp add: bit_pa_slot) (simp add: pa_put_def Let_def)
    next
      case same: True
      have w: "pa_words (pa_put p i v) ! (j div ?u) =
          ((pa_words p ! (j div ?u)) AND NOT (push_bit (bits_index p i) (pa_mask p))) OR push_bit (bits_index p i) v"
        using same bounds by (simp add: pa_put_def Let_def)
      show ?thesis
      proof (cases "j = i")
        case True
        have "bit (pa_slot (pa_put p i v) i) m \<longleftrightarrow>
            bit (pa_words (pa_put p i v) ! (i div ?u)) (bits_index p i + m)"
          using bit_pa_slot [of "pa_put p i v" i m] bits \<open>m < pa_bits p\<close> by simp
        also have "\<dots> \<longleftrightarrow> bit v m"
          using w [unfolded True] lt [of i] \<open>m < pa_bits p\<close> by (simp add: bit_simps bit_pa_mask)
        finally show ?thesis using True by simp
      next
        case False
        with same have "i mod ?u \<noteq> j mod ?u"
          by (metis div_mult_mod_eq)
        note dis = bits_index_disjoint [OF bits _ \<open>m < pa_bits p\<close> this]
        have vb: "bit v x \<Longrightarrow> x < pa_bits p" for x using value_bits [OF bits v] .
        have "\<not> (bits_index p i \<le> bits_index p j + m \<and> bits_index p j + m - bits_index p i < pa_bits p)"
          using dis [of "bits_index p j + m - bits_index p i"] by auto
        with False \<open>m < pa_bits p\<close> lt [of j] bits vb show ?thesis
          by (simp add: bit_pa_slot w) (auto simp: bit_simps bit_pa_mask)
      qed
    qed
  qed
qed

lemma pa_slot_le_mask: "pa_ok n p \<Longrightarrow> i < n \<Longrightarrow> pa_slot p i \<le> pa_mask p"
  by (simp add: pa_slot_def word_and_le1)

lemma pa_ok_put: "pa_ok n p \<Longrightarrow> pa_ok n (pa_put p i v)"
  by (simp add: pa_ok_def)

lemma pa_get_slot: "pa_ok n p \<Longrightarrow> i < n \<Longrightarrow> pa_get p i = Some (pa_slot p i)"
  using pa_word_in_bounds [of n p i] by (simp add: pa_get_def pa_word_def pa_slot_def Let_def)

lemma pa_set_put:
  "pa_ok n p \<Longrightarrow> i < n \<Longrightarrow> pa_set p i v = (if v \<le> pa_mask p then Some (pa_put p i v) else None)"
  using pa_word_in_bounds [of n p i]
  by (simp add: pa_set_def pa_word_def pa_put_def Let_def ensure_def)

interpretation packed_array: uint_slots pa_get pa_set pa_mask pa_ok
proof unfold_locales
  fix n p i v
  show "\<exists>w. pa_get p i = Some w \<and> w \<le> pa_mask p" if "pa_ok n p" "i < n"
    using that by (simp add: pa_get_slot pa_slot_le_mask)
  show "\<exists>p'. pa_set p i v = Some p' \<and> pa_ok n p' \<and> pa_mask p' = pa_mask p \<and>
      (\<forall>j<n. pa_get p' j = (if j = i then Some v else pa_get p j))"
    if "pa_ok n p" "i < n" "v \<le> pa_mask p"
    using that by (auto simp: pa_set_put pa_get_slot [of n] pa_ok_put pa_slot_put)
  show "pa_set p i v = None" if "pa_mask p < v"
    using that by (auto simp: pa_set_def ensure_def)
qed

lemma pa_get_fresh:
  assumes "pa_new b sz = Some p" "n \<le> ((sz + 7) div 8) * (64 div b)"
  shows "pa_ok n p" "i < n \<Longrightarrow> pa_slot p i = 0" "pa_bits p = b"
proof -
  have p: "p = \<lparr>pa_bits = b, pa_words = replicate ((sz + 7) div 8) 0\<rparr>" "b \<in> {1, 2, 4}"
    using assms(1) by (auto simp: pa_new_def panic_simps)
  show ok: "pa_ok n p" using assms(2) p by (simp add: pa_ok_def uints_per_word_def)
  show "pa_bits p = b" using p by simp
  show "pa_slot p i = 0" if "i < n"
    using pa_word_in_bounds [OF ok that] by (simp add: pa_slot_def p)
qed

end
