(* ===== verification/SetAssocCache.thy ===== *)
theory SetAssocCache
  imports PackedArray
begin

text \<open>
  \<open>SetAssociativeCache\<close> of \<open>crates/tigerbeetle-lsm/src/set_associative_cache.rs\<close>, with
  \<open>fastrange\<close> of \<open>crates/tigerbeetle-core/src/stdx.rs\<close>: a cache whose keys hash to a set of
  consecutive ways and which evicts by CLOCK Nth-Chance.

  The trait \<open>SetAssociativeCacheSpec\<close> is the record \<open>sac_spec\<close>: the key of a value, the hash of a
  key, and the layout constants. Slots, tags, packed counts and packed clock hands are the code's.
  The abstract state is the partial map \<open>sac_view\<close> from keys to cached values, and the theorems
  show each operation's effect on it; \<open>sac_ok\<close> is the invariant that keeps every operation clear
  of its assertions, the CLOCK bound included.
\<close>

section \<open>Static description and state\<close>

record ('k, 'v) sac_spec =
  sp_key :: "'v \<Rightarrow> 'k"
  sp_hash :: "'k \<Rightarrow> u64"
  sp_ways :: nat
  sp_tag_bits :: nat
  sp_clock_bits :: nat
  sp_line :: nat
  sp_key_size :: nat
  sp_value_size :: nat
  sp_default :: 'v

record sac_metrics =
  m_hits :: nat
  m_misses :: nat
  m_value_count :: nat

datatype UpdateOrInsert = Update | Insert

record 'v upserted =
  up_index :: nat
  up_updated :: UpdateOrInsert
  up_evicted :: "'v option"

record 'v sac =
  sac_sets :: u64
  sac_metrics :: sac_metrics
  sac_tags :: "u16 list"
  sac_values :: "'v list"
  sac_counts :: packed
  sac_clocks :: packed

record associated_set =
  as_tag :: u16
  as_offset :: nat

section \<open>Construction\<close>

definition clock_hand_bits :: "nat \<Rightarrow> nat option" where
  "clock_hand_bits ways = find (\<lambda>bits. 2 ^ bits = ways) [1, 2, 4, 8, 16, 32]"

definition is_power_of_two :: "nat \<Rightarrow> bool" where
  "is_power_of_two n \<longleftrightarrow> list_ex (\<lambda>i. 2 ^ i = n) [0..<64]"

definition is_multiple_of :: "nat \<Rightarrow> nat \<Rightarrow> bool" where
  "is_multiple_of n d \<longleftrightarrow> (if d = 0 then n = 0 else n mod d = 0)"

definition validate_layout :: "('k, 'v, 'x) sac_spec_scheme \<Rightarrow> unit option" where
  "validate_layout S =
     do { ensure (is_power_of_two (sp_key_size S));
          ensure (is_power_of_two (sp_value_size S));
          ensure (sp_ways S = 2 \<or> sp_ways S = 4 \<or> sp_ways S = 16);
          ensure (sp_tag_bits S = 8 \<or> sp_tag_bits S = 16);
          ensure (sp_clock_bits S = 1 \<or> sp_clock_bits S = 2 \<or> sp_clock_bits S = 4);
          ensure (is_power_of_two (sp_line S));
          ensure (sp_key_size S \<le> sp_value_size S);
          ensure (sp_key_size S < sp_line S);
          ensure (is_multiple_of (sp_line S) (sp_key_size S));
          (if sp_line S > sp_value_size S
           then ensure (is_multiple_of (sp_line S) (sp_value_size S))
           else ensure (is_multiple_of (sp_value_size S) (sp_line S)));
          hand \<leftarrow> clock_hand_bits (sp_ways S);
          ensure (sp_line S * 8 div (sp_ways S * sp_tag_bits S) > 0);
          ensure (sp_line S * 8 div (sp_ways S * sp_clock_bits S) > 0);
          ensure (sp_line S * 8 div hand > 0) }"

definition value_count_max_multiple :: "('k, 'v, 'x) sac_spec_scheme \<Rightarrow> nat" where
  "value_count_max_multiple S =
     max ((max (sp_value_size S) (sp_line S) div min (sp_value_size S) (sp_line S)) * sp_ways S)
         (sp_line S * 8 div sp_clock_bits S)"

definition metrics_default :: sac_metrics where
  "metrics_default = \<lparr>m_hits = 0, m_misses = 0, m_value_count = 0\<rparr>"

definition sac_reset :: "'v sac \<Rightarrow> 'v sac" where
  "sac_reset c =
     c\<lparr>sac_tags := replicate (length (sac_tags c)) 0,
       sac_counts := pa_reset (sac_counts c),
       sac_clocks := pa_reset (sac_clocks c),
       sac_metrics := metrics_default\<rparr>"

text \<open>\<open>value_count_max\<close> is a \<open>u32\<close> option widened to \<open>u64\<close>, so the products below do not wrap for
  the value sizes of the specs; the sizes are natural numbers here.\<close>

definition sac_new :: "('k, 'v, 'x) sac_spec_scheme \<Rightarrow> nat \<Rightarrow> 'v sac option" where
  "sac_new S value_count_max =
     do { validate_layout S;
          let sets = value_count_max div sp_ways S;
          ensure (value_count_max > 0);
          ensure (value_count_max \<ge> sp_ways S);
          ensure (is_multiple_of value_count_max (sp_ways S));
          let values_size_max = value_count_max * sp_value_size S;
          ensure (values_size_max \<ge> sp_line S);
          ensure (is_multiple_of values_size_max (sp_line S));
          let counts_size = value_count_max * sp_clock_bits S div 8;
          ensure (counts_size \<ge> sp_line S);
          ensure (is_multiple_of counts_size (sp_line S));
          hand \<leftarrow> clock_hand_bits (sp_ways S);
          let clocks_size = sets * hand div 8;
          ensure (is_multiple_of value_count_max (value_count_max_multiple S));
          counts \<leftarrow> pa_new (sp_clock_bits S) counts_size;
          clocks \<leftarrow> pa_new hand clocks_size;
          Some (sac_reset \<lparr>sac_sets = of_nat sets, sac_metrics = metrics_default,
                  sac_tags = replicate value_count_max 0,
                  sac_values = replicate value_count_max (sp_default S),
                  sac_counts = counts, sac_clocks = clocks\<rparr>) }"

section \<open>Lookup\<close>

definition fastrange :: "u64 \<Rightarrow> u64 \<Rightarrow> u64" where
  "fastrange word p = ucast (drop_bit 64 ((ucast word :: u128) * ucast p))"

definition associate :: "('k, 'v, 'x) sac_spec_scheme \<Rightarrow> 'v sac \<Rightarrow> 'k \<Rightarrow> associated_set" where
  "associate S c key =
     (let entropy = sp_hash S key;
          tag_mask = push_bit (sp_tag_bits S) 1 - 1;
          tag = ucast (entropy AND tag_mask);
          index = fastrange entropy (sac_sets c)
      in \<lparr>as_tag = tag, as_offset = unat index * sp_ways S\<rparr>)"

definition search_tags :: "u16 list \<Rightarrow> u16 \<Rightarrow> nat \<Rightarrow> u16" where
  "search_tags tags tag ways =
     foldl (\<lambda>bits (i, t). if t = tag then bits OR push_bit i 1 else bits) 0
       (enumerate 0 (take ways tags))"

fun search_ways :: "('k, 'v, 'x) sac_spec_scheme \<Rightarrow> 'v sac \<Rightarrow> nat \<Rightarrow> u16 \<Rightarrow> 'k \<Rightarrow> nat list
    \<Rightarrow> nat option option" where
  "search_ways S c offset ways key [] = Some None"
| "search_ways S c offset ways key (way # rest) =
     (if drop_bit way ways AND 1 = 1 then
        do { count \<leftarrow> pa_get (sac_counts c) (offset + way);
             if count > 0 then
               do { v \<leftarrow> index_at (sac_values c) (offset + way);
                    if sp_key S v = key then Some (Some way)
                    else search_ways S c offset ways key rest }
             else search_ways S c offset ways key rest }
      else search_ways S c offset ways key rest)"

definition sac_search :: "('k, 'v, 'x) sac_spec_scheme \<Rightarrow> 'v sac \<Rightarrow> associated_set \<Rightarrow> 'k
    \<Rightarrow> nat option option" where
  "sac_search S c st key =
     do { tags \<leftarrow> slice_at (sac_tags c) (as_offset st) (sp_ways S);
          let ways = search_tags tags (as_tag st) (sp_ways S);
          if ways = 0 then Some None
          else search_ways S c (as_offset st) ways key [0..<sp_ways S] }"

definition sac_get_index :: "('k, 'v, 'x) sac_spec_scheme \<Rightarrow> 'v sac \<Rightarrow> 'k
    \<Rightarrow> (nat option \<times> 'v sac) option" where
  "sac_get_index S c key =
     do { let st = associate S c key;
          found \<leftarrow> sac_search S c st key;
          case found of
            Some way \<Rightarrow>
              do { let c = c\<lparr>sac_metrics := (sac_metrics c)\<lparr>m_hits := m_hits (sac_metrics c) + 1\<rparr>\<rparr>;
                   let index = as_offset st + way;
                   old \<leftarrow> pa_get (sac_counts c) index;
                   let count = min (old + 1) (pa_mask (sac_counts c));
                   counts \<leftarrow> pa_set (sac_counts c) index count;
                   Some (Some index, c\<lparr>sac_counts := counts\<rparr>) }
          | None \<Rightarrow>
              Some (None, c\<lparr>sac_metrics := (sac_metrics c)\<lparr>m_misses := m_misses (sac_metrics c) + 1\<rparr>\<rparr>) }"

definition sac_get :: "('k, 'v, 'x) sac_spec_scheme \<Rightarrow> 'v sac \<Rightarrow> 'k \<Rightarrow> ('v option \<times> 'v sac) option" where
  "sac_get S c key =
     do { (found, c) \<leftarrow> sac_get_index S c key;
          case found of
            None \<Rightarrow> Some (None, c)
          | Some index \<Rightarrow> do { v \<leftarrow> index_at (sac_values c) index; Some (Some v, c) } }"

section \<open>Removal and demotion\<close>

definition sac_remove :: "('k, 'v, 'x) sac_spec_scheme \<Rightarrow> 'v sac \<Rightarrow> 'k \<Rightarrow> ('v option \<times> 'v sac) option" where
  "sac_remove S c key =
     do { let st = associate S c key;
          found \<leftarrow> sac_search S c st key;
          case found of
            None \<Rightarrow> Some (None, c)
          | Some way \<Rightarrow>
              do { removed \<leftarrow> index_at (sac_values c) (as_offset st + way);
                   counts \<leftarrow> pa_set (sac_counts c) (as_offset st + way) 0;
                   ensure (m_value_count (sac_metrics c) > 0);
                   Some (Some removed, c\<lparr>sac_counts := counts,
                     sac_metrics := (sac_metrics c)\<lparr>m_value_count := m_value_count (sac_metrics c) - 1\<rparr>\<rparr>) } }"

definition sac_demote :: "('k, 'v, 'x) sac_spec_scheme \<Rightarrow> 'v sac \<Rightarrow> 'k \<Rightarrow> 'v sac option" where
  "sac_demote S c key =
     do { let st = associate S c key;
          found \<leftarrow> sac_search S c st key;
          case found of
            None \<Rightarrow> Some c
          | Some way \<Rightarrow>
              do { counts \<leftarrow> pa_set (sac_counts c) (as_offset st + way) 1;
                   Some (c\<lparr>sac_counts := counts\<rparr>) } }"

section \<open>Upsert and the CLOCK hand\<close>

text \<open>
  The \<open>while safety_count <= clock_iterations_max\<close> loop, with the iterations left
  (\<open>clock_iterations_max + 1 - safety_count\<close>) as its fuel: none left is the failed assertion that
  follows the loop. It returns the counts, the way it stopped at, and whether that way's value was
  evicted to free it.
\<close>

fun clock_hand :: "nat \<Rightarrow> nat \<Rightarrow> nat \<Rightarrow> packed \<Rightarrow> nat \<Rightarrow> (packed \<times> nat \<times> bool) option" where
  "clock_hand ways offset 0 counts way = None"
| "clock_hand ways offset (Suc left) counts way =
     do { count \<leftarrow> pa_get counts (offset + way);
          if count = 0 then Some (counts, way, False)
          else
            do { counts \<leftarrow> pa_set counts (offset + way) (count - 1);
                 if count - 1 = 0 then Some (counts, way, True)
                 else clock_hand ways offset left counts ((way + 1) mod ways) } }"

definition clock_iterations_max :: "('k, 'v, 'x) sac_spec_scheme \<Rightarrow> nat" where
  "clock_iterations_max S =
     (let count_max = 2 ^ sp_clock_bits S - 1 in sp_ways S * (count_max - 1))"

definition sac_upsert :: "('k, 'v, 'x) sac_spec_scheme \<Rightarrow> 'v sac \<Rightarrow> 'v \<Rightarrow> ('v upserted \<times> 'v sac) option" where
  "sac_upsert S c v =
     do { let key = sp_key S v;
          let st = associate S c key;
          found \<leftarrow> sac_search S c st key;
          case found of
            Some way \<Rightarrow>
              do { let index = as_offset st + way;
                   counts \<leftarrow> pa_set (sac_counts c) index 1;
                   evicted \<leftarrow> index_at (sac_values c) index;
                   vals \<leftarrow> index_set (sac_values c) index v;
                   Some (\<lparr>up_index = index, up_updated = Update, up_evicted = Some evicted\<rparr>,
                         c\<lparr>sac_counts := counts, sac_values := vals\<rparr>) }
          | None \<Rightarrow>
              do { let clock_index = as_offset st div sp_ways S;
                   start \<leftarrow> pa_get (sac_clocks c) clock_index;
                   (counts, way, freed) \<leftarrow>
                     clock_hand (sp_ways S) (as_offset st) (clock_iterations_max S + 1)
                       (sac_counts c) (unat start);
                   let index = as_offset st + way;
                   evicted \<leftarrow> (if freed then map_option Some (index_at (sac_values c) index) else Some None);
                   at \<leftarrow> pa_get counts index;
                   ensure (at = 0);
                   tags \<leftarrow> index_set (sac_tags c) index (as_tag st);
                   vals \<leftarrow> index_set (sac_values c) index v;
                   counts \<leftarrow> pa_set counts index 1;
                   clocks \<leftarrow> pa_set (sac_clocks c) clock_index (of_nat ((way + 1) mod sp_ways S));
                   let metrics = (if evicted = None
                     then (sac_metrics c)\<lparr>m_value_count := m_value_count (sac_metrics c) + 1\<rparr>
                     else sac_metrics c);
                   Some (\<lparr>up_index = index, up_updated = Insert, up_evicted = evicted\<rparr>,
                         c\<lparr>sac_tags := tags, sac_values := vals, sac_counts := counts,
                           sac_clocks := clocks, sac_metrics := metrics\<rparr>) } }"

lemmas sac_defs [model_defs] = clock_hand_bits_def validate_layout_def value_count_max_multiple_def
  metrics_default_def sac_reset_def sac_new_def fastrange_def associate_def search_tags_def
  sac_search_def sac_get_index_def sac_get_def sac_remove_def sac_demote_def
  clock_iterations_max_def sac_upsert_def is_power_of_two_def is_multiple_of_def

section \<open>Slots as a partial map\<close>

text \<open>
  Free-standing facts on \<open>n\<close> slots \<open>f\<close>, each empty or holding a value, no key twice: what
  overwriting or clearing one slot does to the map from keys to values.
\<close>

definition slots_inj :: "('v \<Rightarrow> 'k) \<Rightarrow> nat \<Rightarrow> (nat \<Rightarrow> 'v option) \<Rightarrow> bool" where
  "slots_inj key n f \<longleftrightarrow>
     (\<forall>i<n. \<forall>j<n. \<forall>v w. f i = Some v \<longrightarrow> f j = Some w \<longrightarrow> key v = key w \<longrightarrow> i = j)"

definition slots_view :: "('v \<Rightarrow> 'k) \<Rightarrow> nat \<Rightarrow> (nat \<Rightarrow> 'v option) \<Rightarrow> 'k \<Rightarrow> 'v option" where
  "slots_view key n f k =
     (case find (\<lambda>i. map_option key (f i) = Some k) [0..<n] of None \<Rightarrow> None | Some i \<Rightarrow> f i)"

lemma slots_view_Some:
  assumes "slots_inj key n f"
  shows "slots_view key n f k = Some v \<longleftrightarrow> (\<exists>i<n. f i = Some v \<and> key v = k)"
proof
  assume "slots_view key n f k = Some v"
  then show "\<exists>i<n. f i = Some v \<and> key v = k"
    by (auto simp: slots_view_def find_Some_iff split: option.splits)
next
  assume "\<exists>i<n. f i = Some v \<and> key v = k"
  then obtain i where i: "i < n" "f i = Some v" "key v = k" by blast
  show "slots_view key n f k = Some v"
  proof (cases "find (\<lambda>i. map_option key (f i) = Some k) [0..<n]")
    case None
    then show ?thesis using i by (auto simp: find_None_iff)
  next
    case (Some j)
    then have "j < n" "map_option key (f j) = Some k" by (auto simp: find_Some_iff)
    with i assms have "j = i" by (auto simp: slots_inj_def)
    with Some i show ?thesis by (simp add: slots_view_def)
  qed
qed

lemma slots_view_None:
  "slots_view key n f k = None \<longleftrightarrow> (\<forall>i<n. \<forall>v. f i = Some v \<longrightarrow> key v \<noteq> k)"
  by (auto simp: slots_view_def find_None_iff find_Some_iff split: option.splits)

lemma slots_view_cong:
  assumes "\<And>i. i < n \<Longrightarrow> f i = g i"
  shows "slots_view key n f k = slots_view key n g k"
proof -
  have "find (\<lambda>i. map_option key (f i) = Some k) [0..<n] = find (\<lambda>i. map_option key (g i) = Some k) [0..<n]"
    using assms by (intro find_cong) auto
  moreover have "find (\<lambda>i. map_option key (g i) = Some k) [0..<n] = Some i \<Longrightarrow> f i = g i" for i
    using assms by (auto simp: find_Some_iff)
  ultimately show ?thesis by (simp add: slots_view_def split: option.splits)
qed

lemma slots_inj_cong: "(\<And>i. i < n \<Longrightarrow> f i = g i) \<Longrightarrow> slots_inj key n f = slots_inj key n g"
  by (auto simp: slots_inj_def)

lemma slots_inj_put:
  assumes "slots_inj key n f" "\<And>j w. j < n \<Longrightarrow> j \<noteq> i \<Longrightarrow> f j = Some w \<Longrightarrow> key w \<noteq> key v"
  shows "slots_inj key n (f(i := Some v))"
  using assms unfolding slots_inj_def by (metis fun_upd_apply option.inject)

lemma slots_inj_clear: "slots_inj key n f \<Longrightarrow> slots_inj key n (f(i := None))"
  by (auto simp: slots_inj_def)

lemma ex_slot_upd:
  "i < n \<Longrightarrow> (\<exists>j<n. (f(i := x)) j = Some w \<and> P) \<longleftrightarrow>
     (x = Some w \<and> P) \<or> (\<exists>j<n. j \<noteq> i \<and> f j = Some w \<and> P)"
  by (metis fun_upd_apply)

lemma slots_view_put:
  assumes "slots_inj key n f" "i < n" "\<And>j w. j < n \<Longrightarrow> j \<noteq> i \<Longrightarrow> f j = Some w \<Longrightarrow> key w \<noteq> key v"
  shows "slots_view key n (f(i := Some v)) k =
    (if k = key v then Some v else if map_option key (f i) = Some k then None else slots_view key n f k)"
proof (rule option_eqI)
  fix w
  have "slots_inj key n (f(i := Some v))"
    using assms(1,3) by (rule slots_inj_put)
  note put = slots_view_Some [OF this]
  show "slots_view key n (f(i := Some v)) k = Some w \<longleftrightarrow>
    (if k = key v then Some v else if map_option key (f i) = Some k then None else slots_view key n f k) = Some w"
  proof (cases "k = key v")
    case True
    then show ?thesis using assms(2,3) by (auto simp: put)
  next
    case False
    have inj: "\<And>j. j < n \<Longrightarrow> f i = Some u \<Longrightarrow> f j = Some w \<Longrightarrow> key w = key u \<Longrightarrow> j = i" for u
      using assms(1,2) unfolding slots_inj_def by blast
    show ?thesis using False unfolding put ex_slot_upd [OF assms(2)]
      by (cases "f i") (auto simp: slots_view_Some [OF assms(1)] dest: inj)
  qed
qed

lemma slots_view_clear:
  assumes "slots_inj key n f" "i < n" "f i = Some v"
  shows "slots_view key n (f(i := None)) k = (if k = key v then None else slots_view key n f k)"
proof (rule option_eqI)
  fix w
  show "slots_view key n (f(i := None)) k = Some w \<longleftrightarrow>
    (if k = key v then None else slots_view key n f k) = Some w"
  proof -
    have inj: "\<And>j. j < n \<Longrightarrow> f j = Some w \<Longrightarrow> key w = key v \<Longrightarrow> j = i"
      using assms unfolding slots_inj_def by blast
    show ?thesis using assms(3)
      unfolding slots_view_Some [OF slots_inj_clear [OF assms(1)]] ex_slot_upd [OF assms(2)]
      by (auto simp: slots_view_Some [OF assms(1)] dest: inj)
  qed
qed

section \<open>The invariant and the abstract map\<close>

definition sac_spec_ok :: "('k, 'v, 'x) sac_spec_scheme \<Rightarrow> bool" where
  "sac_spec_ok S \<longleftrightarrow> sp_ways S \<in> {2, 4, 16} \<and> sp_tag_bits S \<in> {8, 16} \<and> sp_clock_bits S \<in> {1, 2, 4}"

definition sac_size :: "('k, 'v, 'x) sac_spec_scheme \<Rightarrow> 'v sac \<Rightarrow> nat" where
  "sac_size S c = unat (sac_sets c) * sp_ways S"

definition sac_cell :: "'v sac \<Rightarrow> nat \<Rightarrow> 'v option" where
  "sac_cell c i = (if pa_slot (sac_counts c) i = 0 then None else Some (sac_values c ! i))"

definition sac_view :: "('k, 'v, 'x) sac_spec_scheme \<Rightarrow> 'v sac \<Rightarrow> 'k \<Rightarrow> 'v option" where
  "sac_view S c = slots_view (sp_key S) (sac_size S c) (sac_cell c)"

definition sac_cells_ok :: "('k, 'v, 'x) sac_spec_scheme \<Rightarrow> 'v sac \<Rightarrow> bool" where
  "sac_cells_ok S c \<longleftrightarrow> slots_inj (sp_key S) (sac_size S c) (sac_cell c) \<and>
     (\<forall>i < sac_size S c. \<forall>v. sac_cell c i = Some v \<longrightarrow>
        as_offset (associate S c (sp_key S v)) = i div sp_ways S * sp_ways S \<and>
        sac_tags c ! i = as_tag (associate S c (sp_key S v)))"

definition sac_ok :: "('k, 'v, 'x) sac_spec_scheme \<Rightarrow> 'v sac \<Rightarrow> bool" where
  "sac_ok S c \<longleftrightarrow>
     sac_spec_ok S \<and> sac_sets c > 0 \<and>
     length (sac_tags c) = sac_size S c \<and> length (sac_values c) = sac_size S c \<and>
     pa_ok (sac_size S c) (sac_counts c) \<and> pa_bits (sac_counts c) = sp_clock_bits S \<and>
     pa_ok (unat (sac_sets c)) (sac_clocks c) \<and> 2 ^ pa_bits (sac_clocks c) = sp_ways S \<and>
     m_value_count (sac_metrics c) = card {i. i < sac_size S c \<and> sac_cell c i \<noteq> None} \<and>
     sac_cells_ok S c"

lemma unat_widen: "unat (ucast (w :: u64) :: u128) = unat w"
proof -
  have "unat w < 2 ^ 64" using unsigned_less [of w] by simp
  then show ?thesis by (simp add: unsigned_ucast_eq take_bit_nat_eq_self)
qed

lemma fastrange_less:
  assumes "p > 0" shows "unat (fastrange w p) < unat p"
proof -
  have p: "0 < unat p" using assms by (simp add: word_neq_0_conv unat_gt_0)
  have lt: "unat w * unat p < 2 ^ 64 * unat p"
    using p unsigned_less [of w] by simp
  also have "\<dots> \<le> 2 ^ 64 * 2 ^ 64"
  proof (rule mult_le_mono2)
    have "unat p < 2 ^ 64" using unsigned_less [of p] by simp
    then show "unat p \<le> 2 ^ 64" by simp
  qed
  also have "\<dots> = (2 :: nat) ^ 128" by simp
  finally have small: "unat w * unat p < 2 ^ 128" .
  have "unat ((ucast w :: u128) * ucast p) = unat w * unat p"
    using small by (simp add: unat_mult_small unat_widen)
  then have "unat (drop_bit 64 ((ucast w :: u128) * ucast p)) = unat w * unat p div 2 ^ 64"
    by (simp add: drop_bit_eq_div unat_div_distrib)
  moreover have less: "unat w * unat p div 2 ^ 64 < unat p"
    using lt by (simp add: less_mult_imp_div_less mult.commute)
  moreover have "unat p < 2 ^ 64" using unsigned_less [of p] by simp
  ultimately show ?thesis
    by (simp add: fastrange_def unsigned_ucast_eq take_bit_nat_eq_self)
qed

lemma associate_in_range:
  assumes "sac_ok S c"
  shows "as_offset (associate S c k) + sp_ways S \<le> sac_size S c"
    "as_offset (associate S c k) mod sp_ways S = 0"
    "as_offset (associate S c k) div sp_ways S < unat (sac_sets c)"
proof -
  let ?i = "unat (fastrange (sp_hash S k) (sac_sets c))"
  have i: "?i < unat (sac_sets c)" using assms by (simp add: sac_ok_def fastrange_less)
  have o: "as_offset (associate S c k) = ?i * sp_ways S" by (simp add: associate_def Let_def)
  have "Suc ?i * sp_ways S \<le> sac_size S c"
    using i unfolding sac_size_def by (intro mult_le_mono1) simp
  then show "as_offset (associate S c k) + sp_ways S \<le> sac_size S c" by (simp add: o)
  show "as_offset (associate S c k) mod sp_ways S = 0" by (simp add: o)
  have "0 < sp_ways S" using assms by (auto simp: sac_ok_def sac_spec_ok_def)
  with i show "as_offset (associate S c k) div sp_ways S < unat (sac_sets c)" by (simp add: o)
qed

lemma associate_frame:
  "sac_sets c' = sac_sets c \<Longrightarrow> associate S c' = associate S c"
  "sac_sets c' = sac_sets c \<Longrightarrow> sac_size S c' = sac_size S c"
  by (simp_all add: associate_def sac_size_def fun_eq_iff)

lemma sac_view_Some:
  "sac_ok S c \<Longrightarrow> sac_view S c k = Some v \<longleftrightarrow> (\<exists>i < sac_size S c. sac_cell c i = Some v \<and> sp_key S v = k)"
  unfolding sac_view_def by (rule slots_view_Some) (simp add: sac_ok_def sac_cells_ok_def)

lemma sac_view_key: "sac_ok S c \<Longrightarrow> sac_view S c k = Some v \<Longrightarrow> sp_key S v = k"
  by (auto simp: sac_view_Some)

section \<open>Search\<close>

lemma search_tags_bit:
  assumes "ways \<le> 16" "n < 16"
  shows "bit (search_tags tags tag ways) n \<longleftrightarrow> n < ways \<and> n < length tags \<and> tags ! n = tag"
proof -
  have "bit (foldl (\<lambda>bits (i, t). if t = tag then bits OR push_bit i 1 else bits) b (enumerate m xs)) n
      \<longleftrightarrow> bit b n \<or> (m \<le> n \<and> n - m < length xs \<and> xs ! (n - m) = tag)" for b :: u16 and m xs
  proof (induction xs arbitrary: b m)
    case (Cons x xs)
    show ?case using assms(2)
      by (simp add: Cons.IH bit_simps nth_Cons' split del: if_split split: if_split)
         (auto simp: le_Suc_eq Suc_diff_le not_less_eq_eq)
  qed simp
  from this [of 0 0 "take ways tags"] show ?thesis by (auto simp: search_tags_def)
qed

lemma drop_bit_and_1: "drop_bit n (w :: 'a::len word) AND 1 = 1 \<longleftrightarrow> bit w n"
  by (simp add: and_one_eq bit_iff_odd_drop_bit odd_iff_mod_2_eq_one)

definition way_holds :: "('k, 'v, 'x) sac_spec_scheme \<Rightarrow> 'v sac \<Rightarrow> 'k \<Rightarrow> nat \<Rightarrow> bool" where
  "way_holds S c k i \<longleftrightarrow> map_option (sp_key S) (sac_cell c i) = Some k"

lemma search_ways_find:
  assumes ok: "sac_ok S c" and off: "off = as_offset (associate S c k)"
    and ws: "\<forall>w\<in>set ws. w < sp_ways S"
    and bits: "\<And>w. w < sp_ways S \<Longrightarrow> bit ways w \<longleftrightarrow> sac_tags c ! (off + w) = as_tag (associate S c k)"
  shows "search_ways S c off ways k ws = Some (find (\<lambda>w. way_holds S c k (off + w)) ws)"
  using ws
proof (induction ws)
  case (Cons w ws)
  then have w: "w < sp_ways S" and IH: "search_ways S c off ways k ws = Some (find (\<lambda>w. way_holds S c k (off + w)) ws)"
    by simp_all
  have i: "off + w < sac_size S c" using associate_in_range [OF ok, of k] w off by simp
  have get: "pa_get (sac_counts c) (off + w) = Some (pa_slot (sac_counts c) (off + w))"
    using ok i pa_get_slot by (auto simp: sac_ok_def)
  have val: "index_at (sac_values c) (off + w) = Some (sac_values c ! (off + w))"
    using ok i by (simp add: sac_ok_def)
  have tag: "way_holds S c k (off + w) \<Longrightarrow> bit ways w"
    using ok i bits [OF w] by (auto simp: way_holds_def sac_ok_def sac_cells_ok_def)
  show ?case
    using get val tag IH
    by (auto simp: drop_bit_and_1 way_holds_def sac_cell_def word_gt_0 split: if_splits)
qed simp

lemma sac_search_find:
  assumes ok: "sac_ok S c" and st: "st = associate S c k"
  shows "sac_search S c st k = Some (find (\<lambda>w. way_holds S c k (as_offset st + w)) [0..<sp_ways S])"
proof -
  let ?off = "as_offset st"
  let ?ways = "search_tags (take (sp_ways S) (drop ?off (sac_tags c))) (as_tag st) (sp_ways S)"
  have range: "?off + sp_ways S \<le> length (sac_tags c)"
    using associate_in_range [OF ok, of k] ok st by (simp add: sac_ok_def)
  have W: "sp_ways S \<le> 16" using ok by (auto simp: sac_ok_def sac_spec_ok_def)
  have bits: "bit ?ways w \<longleftrightarrow> sac_tags c ! (?off + w) = as_tag (associate S c k)" if "w < sp_ways S" for w
    using that W range by (simp add: search_tags_bit st)
  note find = search_ways_find [OF ok arg_cong [OF st, of as_offset] _ bits, of "[0..<sp_ways S]"]
  have "find (\<lambda>w. way_holds S c k (?off + w)) [0..<sp_ways S] = None" if "?ways = 0"
  proof (rule ccontr)
    assume "find (\<lambda>w. way_holds S c k (?off + w)) [0..<sp_ways S] \<noteq> None"
    then obtain w where w: "w < sp_ways S" "way_holds S c k (?off + w)" by (auto simp: find_None_iff)
    then have "sac_tags c ! (?off + w) = as_tag (associate S c k)"
      using ok range by (auto simp: way_holds_def sac_ok_def sac_cells_ok_def)
    with bits [OF w(1)] that show False by simp
  qed
  with find range show ?thesis by (simp add: sac_search_def Let_def)
qed

text \<open>A search answers with the way of the key's value, or shows that no slot of the whole cache
  holds the key.\<close>

lemma sac_search_cases:
  assumes ok: "sac_ok S c"
  shows "(\<exists>w v. sac_search S c (associate S c k) k = Some (Some w) \<and> w < sp_ways S \<and>
      as_offset (associate S c k) + w < sac_size S c \<and>
      sac_cell c (as_offset (associate S c k) + w) = Some v \<and> sp_key S v = k \<and> sac_view S c k = Some v) \<or>
    (sac_search S c (associate S c k) k = Some None \<and> sac_view S c k = None \<and>
      (\<forall>i v. i < sac_size S c \<longrightarrow> sac_cell c i = Some v \<longrightarrow> sp_key S v \<noteq> k))"
proof (cases "find (\<lambda>w. way_holds S c k (as_offset (associate S c k) + w)) [0..<sp_ways S]")
  case (Some w)
  then have w: "w < sp_ways S" "way_holds S c k (as_offset (associate S c k) + w)"
    by (auto simp: find_Some_iff)
  then obtain v where v: "sac_cell c (as_offset (associate S c k) + w) = Some v" "sp_key S v = k"
    by (auto simp: way_holds_def)
  have i: "as_offset (associate S c k) + w < sac_size S c"
    using associate_in_range [OF ok, of k] w by simp
  then have "sac_view S c k = Some v" using v sac_view_Some [OF ok] by blast
  with w i v Some show ?thesis by (simp add: sac_search_find [OF ok refl])
next
  case None
  have no: "sp_key S v \<noteq> k" if i: "i < sac_size S c" "sac_cell c i = Some v" for i v
  proof
    assume k: "sp_key S v = k"
    have "as_offset (associate S c k) = i div sp_ways S * sp_ways S"
      using ok i k by (auto simp: sac_ok_def sac_cells_ok_def)
    then have "way_holds S c k (as_offset (associate S c k) + i mod sp_ways S)"
      using i k by (simp add: way_holds_def)
    moreover have "i mod sp_ways S < sp_ways S"
      using ok by (auto simp: sac_ok_def sac_spec_ok_def)
    ultimately show False using None by (auto simp: find_None_iff)
  qed
  then have "sac_view S c k = None" by (auto simp: sac_view_def slots_view_None)
  with None no show ?thesis by (simp add: sac_search_find [OF ok refl])
qed

lemma sac_search_hit:
  assumes "sac_ok S c" "sac_view S c k = Some v"
  obtains w where "sac_search S c (associate S c k) k = Some (Some w)" "w < sp_ways S"
    "as_offset (associate S c k) + w < sac_size S c" "sp_key S v = k"
    "sac_cell c (as_offset (associate S c k) + w) = Some v"
    "sac_values c ! (as_offset (associate S c k) + w) = v"
    "pa_slot (sac_counts c) (as_offset (associate S c k) + w) \<noteq> 0"
proof -
  from sac_search_cases [OF assms(1), of k] assms(2) obtain w where
    "sac_search S c (associate S c k) k = Some (Some w)" "w < sp_ways S"
    "as_offset (associate S c k) + w < sac_size S c" "sp_key S v = k"
    "sac_cell c (as_offset (associate S c k) + w) = Some v" by auto
  with that show thesis by (auto simp: sac_cell_def split: if_splits)
qed

lemma sac_search_miss:
  assumes "sac_ok S c" "sac_view S c k = None"
  shows "sac_search S c (associate S c k) k = Some None"
    "i < sac_size S c \<Longrightarrow> sac_cell c i = Some v \<Longrightarrow> sp_key S v \<noteq> k"
  using sac_search_cases [OF assms(1), of k] assms(2) by auto

section \<open>The CLOCK hand terminates within its bound\<close>

text \<open>The chances left in a set before some way must become free.\<close>

definition clock_chances :: "nat \<Rightarrow> nat \<Rightarrow> packed \<Rightarrow> nat" where
  "clock_chances ways offset counts = (\<Sum>w<ways. unat (pa_slot counts (offset + w)) - 1)"

lemma clock_chances_step:
  assumes "way < ways" "pa_slot counts (offset + way) > 1"
    and "\<And>w. w < ways \<Longrightarrow> pa_slot counts' (offset + w) =
      (if w = way then pa_slot counts (offset + way) - 1 else pa_slot counts (offset + w))"
  shows "clock_chances ways offset counts' < clock_chances ways offset counts"
proof -
  have un: "unat (pa_slot counts (offset + way) - 1) = unat (pa_slot counts (offset + way)) - 1"
    "1 < unat (pa_slot counts (offset + way))"
    using assms(2) by (simp_all add: unat_sub_le word_less_nat_alt)
  show ?thesis
    unfolding clock_chances_def
  proof (rule sum_strict_mono_ex1)
    show "\<forall>w\<in>{..<ways}. unat (pa_slot counts' (offset + w)) - 1 \<le> unat (pa_slot counts (offset + w)) - 1"
      using assms(3) un by auto
    show "\<exists>w\<in>{..<ways}. unat (pa_slot counts' (offset + w)) - 1 < unat (pa_slot counts (offset + w)) - 1"
      using assms(1,3) un by (intro bexI [of _ way]) auto
  qed simp
qed

lemma clock_hand_stops:
  assumes "clock_chances ways offset counts < left" "pa_ok n counts" "offset + ways \<le> n" "way < ways"
  shows "\<exists>counts' way' freed. clock_hand ways offset left counts way = Some (counts', way', freed) \<and>
    way' < ways \<and> pa_ok n counts' \<and> pa_bits counts' = pa_bits counts \<and>
    pa_slot counts' (offset + way') = 0 \<and> (freed \<longleftrightarrow> pa_slot counts (offset + way') \<noteq> 0) \<and>
    (\<forall>i < n. i \<noteq> offset + way' \<longrightarrow> (pa_slot counts' i = 0 \<longleftrightarrow> pa_slot counts i = 0))"
  using assms
proof (induction left arbitrary: counts way)
  case (Suc left)
  let ?i = "offset + way"
  let ?c = "pa_slot counts ?i"
  have i: "?i < n" using Suc.prems by simp
  note get = pa_get_slot [OF Suc.prems(2) i]
  show ?case
  proof (cases "?c = 0")
    case True
    then show ?thesis using Suc.prems get by simp
  next
    case False
    then have pos: "0 < unat ?c" by (simp add: unat_gt_0)
    then have un: "unat (?c - 1) = unat ?c - 1" by (simp add: unat_sub_le)
    then have le: "?c - 1 \<le> pa_mask counts"
      using pa_slot_le_mask [OF Suc.prems(2) i] by (simp add: word_le_nat_alt)
    let ?counts = "pa_put counts ?i (?c - 1)"
    have set: "pa_set counts ?i (?c - 1) = Some ?counts"
      using pa_set_put [OF Suc.prems(2) i] le by simp
    have ok: "pa_ok n ?counts" using Suc.prems(2) by (rule pa_ok_put)
    have slot: "pa_slot ?counts j = (if j = ?i then ?c - 1 else pa_slot counts j)" if "j < n" for j
      using pa_slot_put [OF Suc.prems(2) i that le] .
    show ?thesis
    proof (cases "?c - 1 = 0")
      case True
      then show ?thesis using False Suc.prems get set ok slot i by auto
    next
      case more: False
      have gt: "?c > 1" using more un pos
        by (metis One_nat_def diff_is_0_eq not_le unat_eq_zero unsigned_1 word_less_nat_alt)
      have "clock_chances ways offset ?counts < clock_chances ways offset counts"
        using Suc.prems(3) by (intro clock_chances_step [OF Suc.prems(4) gt]) (auto simp: slot)
      then have "clock_chances ways offset ?counts < left" using Suc.prems(1) by simp
      from Suc.IH [OF this ok Suc.prems(3), of "(way + 1) mod ways"] Suc.prems(4)
      obtain counts' way' freed where IH:
        "clock_hand ways offset left ?counts ((way + 1) mod ways) = Some (counts', way', freed)"
        "way' < ways" "pa_ok n counts'" "pa_bits counts' = pa_bits ?counts"
        "pa_slot counts' (offset + way') = 0" "freed \<longleftrightarrow> pa_slot ?counts (offset + way') \<noteq> 0"
        "\<forall>i < n. i \<noteq> offset + way' \<longrightarrow> (pa_slot counts' i = 0 \<longleftrightarrow> pa_slot ?counts i = 0)"
        by auto
      have same: "pa_slot ?counts j = 0 \<longleftrightarrow> pa_slot counts j = 0" if "j < n" for j
        using slot [OF that] False more by auto
      have w': "offset + way' < n" using IH(2) Suc.prems(3) by simp
      show ?thesis
        using IH same [OF w'] same False more get set by (intro exI [of _ counts'] exI [of _ way'] exI [of _ freed]) auto
    qed
  qed
qed simp

lemma sac_clock_hand:
  assumes ok: "sac_ok S c" and off: "off = as_offset (associate S c k)" and way: "way < sp_ways S"
  shows "\<exists>counts way' freed.
    clock_hand (sp_ways S) off (clock_iterations_max S + 1) (sac_counts c) way = Some (counts, way', freed) \<and>
    way' < sp_ways S \<and> pa_ok (sac_size S c) counts \<and> pa_bits counts = pa_bits (sac_counts c) \<and>
    pa_slot counts (off + way') = 0 \<and> (freed \<longleftrightarrow> pa_slot (sac_counts c) (off + way') \<noteq> 0) \<and>
    (\<forall>i < sac_size S c. i \<noteq> off + way' \<longrightarrow> (pa_slot counts i = 0 \<longleftrightarrow> pa_slot (sac_counts c) i = 0))"
proof -
  have range: "off + sp_ways S \<le> sac_size S c" using associate_in_range [OF ok] off by simp
  have pok: "pa_ok (sac_size S c) (sac_counts c)" and bits: "pa_bits (sac_counts c) = sp_clock_bits S"
    and cb: "sp_clock_bits S \<in> {1, 2, 4}"
    using ok by (simp_all add: sac_ok_def sac_spec_ok_def)
  have mask: "unat (pa_mask (sac_counts c)) = 2 ^ sp_clock_bits S - 1"
    using cb by (auto simp: pa_mask_def bits push_bit_eq_mult)
  have "unat (pa_slot (sac_counts c) (off + w)) - 1 \<le> 2 ^ sp_clock_bits S - 1 - 1" if "w < sp_ways S" for w
    using pa_slot_le_mask [OF pok, of "off + w"] range that mask by (simp add: word_le_nat_alt diff_le_mono)
  then have "clock_chances (sp_ways S) off (sac_counts c) \<le> (\<Sum>w\<in>{..<sp_ways S}. 2 ^ sp_clock_bits S - 1 - 1)"
    unfolding clock_chances_def by (intro sum_mono) simp
  then have "clock_chances (sp_ways S) off (sac_counts c) < clock_iterations_max S + 1"
    by (simp add: clock_iterations_max_def Let_def)
  from clock_hand_stops [OF this pok range way] show ?thesis .
qed

section \<open>What each operation does to the abstract map\<close>

lemma sac_cells_same:
  assumes ok: "sac_ok S c" and sets: "sac_sets c' = sac_sets c" and tags: "sac_tags c' = sac_tags c"
    and cells: "\<And>i. i < sac_size S c \<Longrightarrow> sac_cell c' i = sac_cell c i"
  shows "sac_cells_ok S c'" "sac_view S c' = sac_view S c"
    "card {i. i < sac_size S c \<and> sac_cell c' i \<noteq> None} = card {i. i < sac_size S c \<and> sac_cell c i \<noteq> None}"
proof -
  note frame = associate_frame [OF sets, of S]
  show "sac_cells_ok S c'"
    unfolding sac_cells_ok_def frame tags
    using ok cells slots_inj_cong [of "sac_size S c" "sac_cell c'" "sac_cell c" "sp_key S"]
    by (auto simp: sac_ok_def sac_cells_ok_def)
  show "sac_view S c' = sac_view S c"
    unfolding sac_view_def frame using cells by (intro ext slots_view_cong)
  show "card {i. i < sac_size S c \<and> sac_cell c' i \<noteq> None} = card {i. i < sac_size S c \<and> sac_cell c i \<noteq> None}"
    using cells by (intro arg_cong [of _ _ card]) auto
qed

lemma sac_cells_put:
  assumes ok: "sac_ok S c" and sets: "sac_sets c' = sac_sets c" and idx: "idx < sac_size S c"
    and cells: "\<And>i. i < sac_size S c \<Longrightarrow> sac_cell c' i = ((sac_cell c)(idx := Some v)) i"
    and tags: "\<And>i. i < sac_size S c \<Longrightarrow> i \<noteq> idx \<Longrightarrow> sac_tags c' ! i = sac_tags c ! i"
    and tag: "sac_tags c' ! idx = as_tag (associate S c (sp_key S v))"
    and home: "as_offset (associate S c (sp_key S v)) = idx div sp_ways S * sp_ways S"
    and fresh: "\<forall>j w. j < sac_size S c \<longrightarrow> j \<noteq> idx \<longrightarrow> sac_cell c j = Some w \<longrightarrow> sp_key S w \<noteq> sp_key S v"
  shows "sac_cells_ok S c'"
    "sac_view S c' k = (if k = sp_key S v then Some v
       else if map_option (sp_key S) (sac_cell c idx) = Some k then None else sac_view S c k)"
    "card {i. i < sac_size S c \<and> sac_cell c' i \<noteq> None} =
       (if sac_cell c idx = None then 1 else 0) + card {i. i < sac_size S c \<and> sac_cell c i \<noteq> None}"
proof -
  note frame = associate_frame [OF sets, of S]
  have inj: "slots_inj (sp_key S) (sac_size S c) (sac_cell c)" using ok by (simp add: sac_ok_def sac_cells_ok_def)
  have inj': "slots_inj (sp_key S) (sac_size S c) ((sac_cell c)(idx := Some v))"
    using fresh by (intro slots_inj_put [OF inj]) blast
  show "sac_cells_ok S c'"
    unfolding sac_cells_ok_def frame
  proof (intro conjI allI impI)
    show "slots_inj (sp_key S) (sac_size S c) (sac_cell c')"
      using inj' slots_inj_cong [of "sac_size S c" "sac_cell c'" "(sac_cell c)(idx := Some v)"] cells by blast
    fix i w assume i: "i < sac_size S c" "sac_cell c' i = Some w"
    then show "as_offset (associate S c (sp_key S w)) = i div sp_ways S * sp_ways S"
      "sac_tags c' ! i = as_tag (associate S c (sp_key S w))"
      using ok cells [OF i(1)] tags [OF i(1)] tag home
      by (auto simp: sac_ok_def sac_cells_ok_def split: if_splits)
  qed
  have "sac_view S c' k = slots_view (sp_key S) (sac_size S c) ((sac_cell c)(idx := Some v)) k"
    unfolding sac_view_def frame using cells by (rule slots_view_cong)
  also have "\<dots> = (if k = sp_key S v then Some v
       else if map_option (sp_key S) (sac_cell c idx) = Some k then None else sac_view S c k)"
    unfolding sac_view_def using fresh by (intro slots_view_put [OF inj idx]) blast
  finally show "sac_view S c' k = (if k = sp_key S v then Some v
       else if map_option (sp_key S) (sac_cell c idx) = Some k then None else sac_view S c k)" .
  have "{i. i < sac_size S c \<and> sac_cell c' i \<noteq> None} = insert idx {i. i < sac_size S c \<and> sac_cell c i \<noteq> None}"
    using cells idx by (auto split: if_splits)
  then show "card {i. i < sac_size S c \<and> sac_cell c' i \<noteq> None} =
       (if sac_cell c idx = None then 1 else 0) + card {i. i < sac_size S c \<and> sac_cell c i \<noteq> None}"
    using idx by (auto simp: card_insert_if)
qed

lemma sac_counts_put:
  assumes ok: "sac_ok S c" and i: "i < sac_size S c" and v: "v \<le> pa_mask (sac_counts c)"
  shows "pa_set (sac_counts c) i v = Some (pa_put (sac_counts c) i v)"
    "pa_ok (sac_size S c) (pa_put (sac_counts c) i v)"
    "j < sac_size S c \<Longrightarrow> pa_slot (pa_put (sac_counts c) i v) j = (if j = i then v else pa_slot (sac_counts c) j)"
    "pa_get (sac_counts c) i = Some (pa_slot (sac_counts c) i)"
proof -
  have pok: "pa_ok (sac_size S c) (sac_counts c)" using ok by (simp add: sac_ok_def)
  show "pa_set (sac_counts c) i v = Some (pa_put (sac_counts c) i v)"
    "pa_ok (sac_size S c) (pa_put (sac_counts c) i v)"
    "j < sac_size S c \<Longrightarrow> pa_slot (pa_put (sac_counts c) i v) j = (if j = i then v else pa_slot (sac_counts c) j)"
    "pa_get (sac_counts c) i = Some (pa_slot (sac_counts c) i)"
    using pa_set_put [OF pok i] pa_ok_put [OF pok] pa_slot_put [OF pok i _ v] pa_get_slot [OF pok i] v by simp_all
qed

lemma counts_mask_pos: "sac_ok S c \<Longrightarrow> 1 \<le> pa_mask (sac_counts c)"
  by (auto simp: sac_ok_def sac_spec_ok_def pa_mask_def push_bit_eq_mult)

lemma sac_get_refines:
  assumes ok: "sac_ok S c"
  shows "\<exists>c'. sac_get S c k = Some (sac_view S c k, c') \<and> sac_ok S c' \<and> sac_view S c' = sac_view S c"
proof (cases "sac_view S c k")
  case None
  note Miss = None sac_search_miss [OF ok None]
  let ?c = "c\<lparr>sac_metrics := (sac_metrics c)\<lparr>m_misses := m_misses (sac_metrics c) + 1\<rparr>\<rparr>"
  have "sac_get S c k = Some (None, ?c)"
    using Miss by (simp add: sac_get_def sac_get_index_def Let_def)
  moreover have "sac_cell ?c = sac_cell c" by (simp add: sac_cell_def fun_eq_iff)
  then have "sac_ok S ?c" "sac_view S ?c = sac_view S c"
    using ok by (simp_all add: sac_ok_def sac_cells_ok_def sac_view_def sac_size_def associate_def)
  ultimately show ?thesis using Miss by simp
next
  case (Some v)
  from sac_search_hit [OF ok Some] obtain w where
    Hit: "sac_search S c (associate S c k) k = Some (Some w)" "w < sp_ways S"
    "as_offset (associate S c k) + w < sac_size S c" "sp_key S v = k"
    "sac_cell c (as_offset (associate S c k) + w) = Some v"
    "sac_values c ! (as_offset (associate S c k) + w) = v"
    "pa_slot (sac_counts c) (as_offset (associate S c k) + w) \<noteq> 0" .
  let ?i = "as_offset (associate S c k) + w"
  let ?old = "pa_slot (sac_counts c) ?i"
  let ?count = "min (?old + 1) (pa_mask (sac_counts c))"
  let ?c = "c\<lparr>sac_metrics := (sac_metrics c)\<lparr>m_hits := m_hits (sac_metrics c) + 1\<rparr>,
    sac_counts := pa_put (sac_counts c) ?i ?count\<rparr>"
  have le: "?count \<le> pa_mask (sac_counts c)" by simp
  note put = sac_counts_put [OF ok Hit(3) le]
  have mask: "unat (pa_mask (sac_counts c)) \<le> 15"
    using ok by (auto simp: sac_ok_def sac_spec_ok_def pa_mask_def push_bit_eq_mult)
  have "unat ?old \<le> 15"
    using pa_slot_le_mask [of "sac_size S c" "sac_counts c" ?i] Hit(3) ok mask
    by (simp add: sac_ok_def word_le_nat_alt)
  then have "unat (?old + 1) = unat ?old + 1" by (simp add: unat_add_small)
  then have pos: "?count \<noteq> 0"
    using counts_mask_pos [OF ok] by (auto simp: min_def word_le_nat_alt unat_eq_zero)
  have get: "sac_get S c k = Some (Some v, ?c)"
    using Hit put ok by (simp add: sac_get_def sac_get_index_def Let_def sac_ok_def)
  have cells: "sac_cell ?c i = sac_cell c i" if "i < sac_size S c" for i
    using put(3) [OF that] pos Hit(7) by (auto simp: sac_cell_def split: if_splits)
  note same = sac_cells_same [OF ok, of ?c, OF _ _ cells]
  have "sac_ok S ?c"
    using ok same put(2) by (simp add: sac_ok_def sac_size_def)
  with get same Some show ?thesis by simp
qed

lemma sac_demote_refines:
  assumes ok: "sac_ok S c"
  shows "\<exists>c'. sac_demote S c k = Some c' \<and> sac_ok S c' \<and> sac_view S c' = sac_view S c"
proof (cases "sac_view S c k")
  case None
  then show ?thesis using ok sac_search_miss [OF ok None] by (simp add: sac_demote_def Let_def)
next
  case (Some v)
  from sac_search_hit [OF ok Some] obtain w where
    Hit: "sac_search S c (associate S c k) k = Some (Some w)"
    "as_offset (associate S c k) + w < sac_size S c"
    "pa_slot (sac_counts c) (as_offset (associate S c k) + w) \<noteq> 0" .
  let ?i = "as_offset (associate S c k) + w"
  let ?c = "c\<lparr>sac_counts := pa_put (sac_counts c) ?i 1\<rparr>"
  note put = sac_counts_put [OF ok Hit(2) counts_mask_pos [OF ok]]
  have cells: "sac_cell ?c i = sac_cell c i" if "i < sac_size S c" for i
    using put(3) [OF that] Hit(3) by (auto simp: sac_cell_def split: if_splits)
  note same = sac_cells_same [OF ok, of ?c, OF _ _ cells]
  have "sac_ok S ?c" using ok same put(2) by (simp add: sac_ok_def sac_size_def)
  with same Hit put show ?thesis by (simp add: sac_demote_def Let_def)
qed

lemma sac_remove_refines:
  assumes ok: "sac_ok S c"
  shows "\<exists>c'. sac_remove S c k = Some (sac_view S c k, c') \<and> sac_ok S c' \<and>
    sac_view S c' = (sac_view S c)(k := None)"
proof (cases "sac_view S c k")
  case None
  then show ?thesis using ok sac_search_miss [OF ok None]
    by (auto simp: sac_remove_def Let_def fun_upd_idem)
next
  case (Some v)
  from sac_search_hit [OF ok Some] obtain w where
    Hit: "sac_search S c (associate S c k) k = Some (Some w)" "w < sp_ways S"
    "as_offset (associate S c k) + w < sac_size S c" "sp_key S v = k"
    "sac_cell c (as_offset (associate S c k) + w) = Some v"
    "sac_values c ! (as_offset (associate S c k) + w) = v"
    "pa_slot (sac_counts c) (as_offset (associate S c k) + w) \<noteq> 0" .
  let ?i = "as_offset (associate S c k) + w"
  let ?c = "c\<lparr>sac_counts := pa_put (sac_counts c) ?i 0,
    sac_metrics := (sac_metrics c)\<lparr>m_value_count := m_value_count (sac_metrics c) - 1\<rparr>\<rparr>"
  let ?occ = "{i. i < sac_size S c \<and> sac_cell c i \<noteq> None}"
  note put = sac_counts_put [OF ok Hit(3), of 0, simplified]
  have cells: "sac_cell ?c i = ((sac_cell c)(?i := None)) i" if "i < sac_size S c" for i
    using put(3) [OF that] by (auto simp: sac_cell_def)
  have size: "sac_size S ?c = sac_size S c" "associate S ?c = associate S c"
    by (simp_all add: sac_size_def associate_def fun_eq_iff)
  have inj: "slots_inj (sp_key S) (sac_size S c) (sac_cell c)" using ok by (simp add: sac_ok_def sac_cells_ok_def)
  have cells_ok: "sac_cells_ok S ?c"
    unfolding sac_cells_ok_def size
  proof (intro conjI allI impI)
    show "slots_inj (sp_key S) (sac_size S c) (sac_cell ?c)"
      using slots_inj_clear [OF inj, of ?i] slots_inj_cong [of "sac_size S c" "sac_cell ?c" "(sac_cell c)(?i := None)"] cells
      by blast
    fix i u assume i: "i < sac_size S c" "sac_cell ?c i = Some u"
    then show "as_offset (associate S c (sp_key S u)) = i div sp_ways S * sp_ways S"
      "sac_tags ?c ! i = as_tag (associate S c (sp_key S u))"
      using ok cells [OF i(1)] by (auto simp: sac_ok_def sac_cells_ok_def split: if_splits)
  qed
  have occ: "{i. i < sac_size S c \<and> sac_cell ?c i \<noteq> None} = ?occ - {?i}"
    using cells by (auto split: if_splits)
  have pos: "?i \<in> ?occ" "finite ?occ" using Hit(3,5) by simp_all
  then have count: "m_value_count (sac_metrics c) > 0"
    using ok by (auto simp: sac_ok_def card_gt_0_iff)
  have "card (?occ - {?i}) = card ?occ - 1" using pos by simp
  then have "sac_ok S ?c"
    unfolding sac_ok_def size occ using ok cells_ok put(2) by (simp add: sac_ok_def)
  moreover have "sac_view S ?c = (sac_view S c)(k := None)"
  proof
    fix x
    have "sac_view S ?c x = slots_view (sp_key S) (sac_size S c) ((sac_cell c)(?i := None)) x"
      unfolding sac_view_def size using cells by (rule slots_view_cong)
    also have "\<dots> = ((sac_view S c)(k := None)) x"
      using slots_view_clear [OF inj Hit(3,5)] Hit(4) by (simp add: sac_view_def)
    finally show "sac_view S ?c x = ((sac_view S c)(k := None)) x" .
  qed
  moreover have "sac_remove S c k = Some (Some v, ?c)"
    using Hit put count ok by (simp add: sac_remove_def Let_def sac_ok_def)
  ultimately show ?thesis using Some by simp
qed

text \<open>An upsert that finds its key overwrites the value and hands back the old one.\<close>

lemma sac_upsert_update:
  assumes ok: "sac_ok S c" and hit: "sac_view S c (sp_key S v) = Some old"
  shows "\<exists>i c'. sac_upsert S c v = Some (\<lparr>up_index = i, up_updated = Update, up_evicted = Some old\<rparr>, c') \<and>
    sac_ok S c' \<and> sac_view S c' = (sac_view S c)(sp_key S v \<mapsto> v)"
proof -
  from sac_search_hit [OF ok hit] obtain w where
    Hit: "sac_search S c (associate S c (sp_key S v)) (sp_key S v) = Some (Some w)" "w < sp_ways S"
    "as_offset (associate S c (sp_key S v)) + w < sac_size S c" "sp_key S old = sp_key S v"
    "sac_cell c (as_offset (associate S c (sp_key S v)) + w) = Some old"
    "sac_values c ! (as_offset (associate S c (sp_key S v)) + w) = old"
    "pa_slot (sac_counts c) (as_offset (associate S c (sp_key S v)) + w) \<noteq> 0" .
  let ?i = "as_offset (associate S c (sp_key S v)) + w"
  let ?c = "c\<lparr>sac_counts := pa_put (sac_counts c) ?i 1, sac_values := (sac_values c)[?i := v]\<rparr>"
  note put = sac_counts_put [OF ok Hit(3) counts_mask_pos [OF ok]]
  have len: "length (sac_values c) = sac_size S c" using ok by (simp add: sac_ok_def)
  have cells: "sac_cell ?c i = ((sac_cell c)(?i := Some v)) i" if "i < sac_size S c" for i
    using put(3) [OF that] that len by (auto simp: sac_cell_def)
  have inj: "slots_inj (sp_key S) (sac_size S c) (sac_cell c)" using ok by (simp add: sac_ok_def sac_cells_ok_def)
  have home: "as_offset (associate S c (sp_key S v)) = ?i div sp_ways S * sp_ways S"
    "sac_tags ?c ! ?i = as_tag (associate S c (sp_key S v))"
    using ok Hit(3-5) by (auto simp: sac_ok_def sac_cells_ok_def)
  have fresh: "\<forall>j u. j < sac_size S c \<longrightarrow> j \<noteq> ?i \<longrightarrow> sac_cell c j = Some u \<longrightarrow> sp_key S u \<noteq> sp_key S v"
    using inj Hit(3-5) unfolding slots_inj_def by (metis (no_types))
  note put_cells = sac_cells_put [OF ok _ Hit(3) cells _ home(2) home(1) fresh]
  have ok': "sac_ok S ?c"
    using ok put_cells(1,3) put(2) Hit(5) by (simp add: sac_ok_def sac_size_def)
  have "sac_view S ?c = (sac_view S c)(sp_key S v \<mapsto> v)"
    using put_cells(2) Hit(4,5) by (auto simp: fun_eq_iff)
  with ok' Hit put len show ?thesis by (auto simp: sac_upsert_def Let_def)
qed

text \<open>An upsert that misses takes a free or an evicted way; the CLOCK assertion never fires.\<close>

lemma sac_upsert_insert:
  assumes ok: "sac_ok S c" and miss: "sac_view S c (sp_key S v) = None"
  shows "\<exists>i evicted c'. sac_upsert S c v = Some (\<lparr>up_index = i, up_updated = Insert, up_evicted = evicted\<rparr>, c') \<and>
    sac_ok S c' \<and>
    (case evicted of
       None \<Rightarrow> sac_view S c' = (sac_view S c)(sp_key S v \<mapsto> v)
     | Some old \<Rightarrow> sp_key S old \<noteq> sp_key S v \<and> sac_view S c (sp_key S old) = Some old \<and>
         sac_view S c' = (sac_view S c)(sp_key S old := None, sp_key S v \<mapsto> v))"
proof -
  note Miss = sac_search_miss [OF ok miss]
  let ?st = "associate S c (sp_key S v)"
  let ?off = "as_offset ?st"
  let ?ci = "?off div sp_ways S"
  note range = associate_in_range [OF ok, of "sp_key S v"]
  have W: "sp_ways S \<in> {2, 4, 16}" and clocks: "pa_ok (unat (sac_sets c)) (sac_clocks c)"
    and hand: "2 ^ pa_bits (sac_clocks c) = sp_ways S"
    and len: "length (sac_tags c) = sac_size S c" "length (sac_values c) = sac_size S c"
    using ok by (simp_all add: sac_ok_def sac_spec_ok_def)
  have mask: "Suc (unat (pa_mask (sac_clocks c))) = sp_ways S"
    using clocks hand by (auto simp: pa_ok_def pa_mask_def push_bit_eq_mult)
  have start: "pa_get (sac_clocks c) ?ci = Some (pa_slot (sac_clocks c) ?ci)"
    by (rule pa_get_slot [OF clocks range(3)])
  have "unat (pa_slot (sac_clocks c) ?ci) < sp_ways S"
    using pa_slot_le_mask [OF clocks range(3)] mask by (simp add: word_le_nat_alt)
  from sac_clock_hand [OF ok refl this, of "sp_key S v"] obtain counts way freed where
    clock: "clock_hand (sp_ways S) ?off (clock_iterations_max S + 1) (sac_counts c)
      (unat (pa_slot (sac_clocks c) ?ci)) = Some (counts, way, freed)"
    and way: "way < sp_ways S" and counts: "pa_ok (sac_size S c) counts" "pa_bits counts = pa_bits (sac_counts c)"
      "pa_slot counts (?off + way) = 0" "freed \<longleftrightarrow> pa_slot (sac_counts c) (?off + way) \<noteq> 0"
    and others: "\<forall>i < sac_size S c. i \<noteq> ?off + way \<longrightarrow> (pa_slot counts i = 0 \<longleftrightarrow> pa_slot (sac_counts c) i = 0)"
    by blast
  let ?i = "?off + way"
  have i: "?i < sac_size S c" using range(1) way by simp
  have one: "1 \<le> pa_mask counts" using counts_mask_pos [OF ok] counts(2) by (simp add: pa_mask_def)
  let ?clock = "of_nat ((way + 1) mod sp_ways S) :: u64"
  have hand_le: "x < sp_ways S \<Longrightarrow> (of_nat x :: u64) \<le> pa_mask (sac_clocks c)" for x
    using mask W by (auto simp: word_le_nat_alt unsigned_of_nat take_bit_nat_eq_self)
  have clock_le: "?clock \<le> pa_mask (sac_clocks c)" using way by (intro hand_le) simp
  let ?evicted = "sac_cell c ?i"
  let ?metrics = "if ?evicted = None
    then (sac_metrics c)\<lparr>m_value_count := m_value_count (sac_metrics c) + 1\<rparr> else sac_metrics c"
  let ?c = "c\<lparr>sac_tags := (sac_tags c)[?i := as_tag ?st], sac_values := (sac_values c)[?i := v],
    sac_counts := pa_put counts ?i 1, sac_clocks := pa_put (sac_clocks c) ?ci ?clock, sac_metrics := ?metrics\<rparr>"
  note slot = pa_slot_put [OF counts(1) i _ one]
  have cells: "sac_cell ?c j = ((sac_cell c)(?i := Some v)) j" if "j < sac_size S c" for j
    using slot [OF that] others that len by (auto simp: sac_cell_def)
  have home: "?off = ?i div sp_ways S * sp_ways S"
    using range(2) way by (auto simp: mod_eq_0_iff_dvd elim!: dvdE)
  have tags: "sac_tags ?c ! j = sac_tags c ! j" if "j < sac_size S c" "j \<noteq> ?i" for j
    using that by simp
  have tag: "sac_tags ?c ! ?i = as_tag ?st" using i len by simp
  have fresh: "\<forall>j w. j < sac_size S c \<longrightarrow> j \<noteq> ?i \<longrightarrow> sac_cell c j = Some w \<longrightarrow> sp_key S w \<noteq> sp_key S v"
    using Miss(2) by blast
  have sets: "sac_sets ?c = sac_sets c" by simp
  note put_cells = sac_cells_put [OF ok sets i cells tags tag home fresh]
  have size: "sac_size S ?c = sac_size S c" by (simp add: sac_size_def)
  have count: "m_value_count (sac_metrics ?c) = card {j. j < sac_size S c \<and> sac_cell ?c j \<noteq> None}"
  proof -
    have "m_value_count (sac_metrics ?c) = (if ?evicted = None then 1 else 0) +
        card {j. j < sac_size S c \<and> sac_cell c j \<noteq> None}"
      using ok by (simp add: sac_ok_def)
    also note put_cells(3) [symmetric]
    finally show ?thesis .
  qed
  have "length (sac_tags ?c) = sac_size S c \<and> length (sac_values ?c) = sac_size S c \<and>
      pa_ok (sac_size S c) (sac_counts ?c) \<and> pa_bits (sac_counts ?c) = sp_clock_bits S \<and>
      pa_ok (unat (sac_sets ?c)) (sac_clocks ?c) \<and> 2 ^ pa_bits (sac_clocks ?c) = sp_ways S \<and>
      sac_spec_ok S \<and> sac_sets ?c > 0"
    using ok pa_ok_put [OF counts(1)] pa_ok_put [OF clocks] counts(2) by (simp add: sac_ok_def)
  then have ok': "sac_ok S ?c"
    using count put_cells(1) unfolding sac_ok_def size by blast
  have ev: "(if freed then map_option Some (index_at (sac_values c) ?i) else Some None) = Some ?evicted"
    using counts(4) i len by (simp add: sac_cell_def)
  have up: "sac_upsert S c v = Some (\<lparr>up_index = ?i, up_updated = Insert, up_evicted = ?evicted\<rparr>, ?c)"
    using Miss(1) start clock ev i len pa_get_slot [OF counts(1) i] counts(3)
      pa_set_put [OF counts(1) i] one pa_set_put [OF clocks range(3)] clock_le
    by (simp add: sac_upsert_def Let_def del: clock_hand.simps)
  have "case ?evicted of None \<Rightarrow> sac_view S ?c = (sac_view S c)(sp_key S v \<mapsto> v)
     | Some old \<Rightarrow> sp_key S old \<noteq> sp_key S v \<and> sac_view S c (sp_key S old) = Some old \<and>
         sac_view S ?c = (sac_view S c)(sp_key S old := None, sp_key S v \<mapsto> v)"
    using put_cells(2) Miss(2) i sac_view_Some [OF ok] by (auto simp: fun_eq_iff split: option.split)
  with up ok' show ?thesis by blast
qed

section \<open>A fresh cache\<close>

lemma pa_reset_frame [simp]:
  "pa_bits (pa_reset p) = pa_bits p" "pa_ok n (pa_reset p) = pa_ok n p"
  "pa_ok n p \<Longrightarrow> i < n \<Longrightarrow> pa_slot (pa_reset p) i = 0"
proof -
  show "pa_bits (pa_reset p) = pa_bits p" "pa_ok n (pa_reset p) = pa_ok n p"
    by (simp_all add: pa_reset_def pa_ok_def uints_per_word_def)
  show "pa_slot (pa_reset p) i = 0" if "pa_ok n p" "i < n"
    using pa_word_in_bounds [OF that] by (simp add: pa_slot_def pa_reset_def uints_per_word_def)
qed

lemma sac_reset_empty:
  assumes "sac_spec_ok S" "sac_sets c > 0" "length (sac_tags c) = sac_size S c"
    "length (sac_values c) = sac_size S c" "pa_ok (sac_size S c) (sac_counts c)"
    "pa_bits (sac_counts c) = sp_clock_bits S" "pa_ok (unat (sac_sets c)) (sac_clocks c)"
    "2 ^ pa_bits (sac_clocks c) = sp_ways S"
  shows "sac_ok S (sac_reset c)" "sac_view S (sac_reset c) = Map.empty"
proof -
  have size: "sac_size S (sac_reset c) = sac_size S c" by (simp add: sac_size_def sac_reset_def)
  have cells: "sac_cell (sac_reset c) i = None" if "i < sac_size S c" for i
    using assms(5) that by (simp add: sac_cell_def sac_reset_def)
  then have none: "{i. i < sac_size S c \<and> sac_cell (sac_reset c) i \<noteq> None} = {}" by simp
  have "sac_cells_ok S (sac_reset c)"
    using cells by (simp add: sac_cells_ok_def slots_inj_def size)
  then show "sac_ok S (sac_reset c)"
    unfolding sac_ok_def size none using assms by (simp add: sac_reset_def metrics_default_def)
  show "sac_view S (sac_reset c) = Map.empty"
    using cells by (auto simp: sac_view_def slots_view_None size fun_eq_iff)
qed

lemma sac_reset_ok: "sac_ok S c \<Longrightarrow> sac_ok S (sac_reset c) \<and> sac_view S (sac_reset c) = Map.empty"
  using sac_reset_empty [of S c] by (simp add: sac_ok_def)

text \<open>The layouts the program instantiates: the default one over 16-, 64- and 128-byte values,
  and the grid's.\<close>

definition program_layout :: "('k, 'v, 'x) sac_spec_scheme \<Rightarrow> bool" where
  "program_layout S \<longleftrightarrow> sp_ways S = 16 \<and> sp_tag_bits S = 8 \<and> sp_clock_bits S = 2 \<and>
     (sp_line S, sp_value_size S) \<in> {(64, 16), (64, 64), (64, 128), (16, 8)}"

lemma sac_new_empty:
  assumes new: "sac_new S n = Some c" and layout: "program_layout S" and small: "n < 2 ^ 64"
  shows "sac_ok S c \<and> sac_view S c = Map.empty"
proof -
  from layout have S: "sp_ways S = 16" "sp_tag_bits S = 8" "sp_clock_bits S = 2"
    and sizes: "(sp_line S, sp_value_size S) \<in> {(64, 16), (64, 64), (64, 128), (16, 8)}"
    by (simp_all add: program_layout_def)
  have hand: "clock_hand_bits 16 = Some 4" by (simp add: clock_hand_bits_def)
  from new obtain counts clocks where
    c: "c = sac_reset \<lparr>sac_sets = of_nat (n div 16), sac_metrics = metrics_default,
      sac_tags = replicate n 0, sac_values = replicate n (sp_default S), sac_counts = counts, sac_clocks = clocks\<rparr>"
    and n: "0 < n" "16 \<le> n" "is_multiple_of n (value_count_max_multiple S)"
    and counts: "pa_new 2 (n * 2 div 8) = Some counts"
    and clocks: "pa_new 4 (n div 16 * 4 div 8) = Some clocks"
    by (auto simp: sac_new_def bind_Some_iff hand S Let_def split: if_splits)
  have "value_count_max_multiple S \<in> {64, 256}"
    using sizes by (auto simp: value_count_max_multiple_def S)
  then have "64 dvd value_count_max_multiple S" "value_count_max_multiple S \<noteq> 0" by auto
  then have "64 dvd n" using n(3)
    by (auto simp: is_multiple_of_def mod_eq_0_iff_dvd intro: dvd_trans)
  then obtain q where q: "n = 64 * q" by (elim dvdE)
  have sets: "unat (of_nat (n div 16) :: u64) = n div 16"
    using small by (simp add: unsigned_of_nat take_bit_nat_eq_self)
  then have pos: "0 < (of_nat (n div 16) :: u64)"
    using n(2) by (metis div_greater_zero_iff unat_gt_0 word_gt_0 zero_less_numeral)
  have room: "n \<le> ((n * 2 div 8 + 7) div 8) * (64 div 2)" "n div 16 \<le> ((n div 16 * 4 div 8 + 7) div 8) * (64 div 4)"
    by (simp_all add: q)
  note counts_ok = pa_get_fresh(1,3) [OF counts room(1)]
  note clocks_ok = pa_get_fresh(1,3) [OF clocks room(2)]
  let ?c = "\<lparr>sac_sets = of_nat (n div 16) :: u64, sac_metrics = metrics_default,
      sac_tags = replicate n 0, sac_values = replicate n (sp_default S), sac_counts = counts, sac_clocks = clocks\<rparr>"
  have size: "sac_size S ?c = n" using sets by (simp add: sac_size_def S q)
  have "sac_spec_ok S" by (simp add: sac_spec_ok_def S)
  moreover have "sac_sets ?c > 0" using pos by simp
  moreover have "length (sac_tags ?c) = sac_size S ?c" "length (sac_values ?c) = sac_size S ?c"
    unfolding size by simp_all
  moreover have "pa_ok (sac_size S ?c) (sac_counts ?c)" "pa_bits (sac_counts ?c) = sp_clock_bits S"
    unfolding size S using counts_ok by simp_all
  moreover have "pa_ok (unat (sac_sets ?c)) (sac_clocks ?c)" "2 ^ pa_bits (sac_clocks ?c) = sp_ways S"
    using clocks_ok sets by (simp_all add: S)
  ultimately show ?thesis unfolding c by (blast intro: sac_reset_empty)
qed

end
