(* ===== verification/CacheMap.thy ===== *)
theory CacheMap
  imports SetAssocCache
begin

text \<open>
  \<open>CacheMap\<close> of \<open>crates/tigerbeetle-lsm/src/cache_map.rs\<close>: the set-associative cache over a hash-map
  stash that catches evictions, with one open scope whose changes are kept or rolled back from a
  log. \<open>constants::VERIFY\<close> is true in the program, so the branches it guards are modelled.

  What a client sees of a key is its \<open>cm_entry\<close>: found, not found, or deleted (a tombstone). The
  locale \<open>objects_cache\<close> states what the state machine relies on: a lookup is the entry, an upsert
  changes exactly one, and closing a scope with a discard brings back the entries of its opening.
\<close>

section \<open>Static description and state\<close>

record ('k, 'v) cm_spec = "('k, 'v) sac_spec" +
  sp_tombstone_from_key :: "'k \<Rightarrow> 'v option"
  sp_tombstone :: "'v \<Rightarrow> bool"

record cm_options =
  co_cache_value_count_max :: nat
  co_stash_value_count_max :: nat
  co_scope_value_count_max :: nat

datatype ('k, 'v) RollbackLogAction =
  Restore 'v
| RestoreTombstone 'k
| Remove 'k

record ('k, 'v) rollback_log =
  rl_actions :: "('k, 'v) RollbackLogAction list"
  rl_capacity :: nat

record ('k, 'v) cm =
  cm_cache :: "'v sac option"
  cm_stash :: "('k, 'v) hmap"
  cm_scope_is_active :: bool
  cm_log :: "('k, 'v) rollback_log"
  cm_options :: cm_options

datatype 'v GetOrTombstone = Found 'v | NotFound | Tombstone

datatype ScopeCloseMode = Persist | Discard

section \<open>Operations\<close>

definition rl_append :: "('k, 'v) rollback_log \<Rightarrow> ('k, 'v) RollbackLogAction \<Rightarrow> ('k, 'v) rollback_log option" where
  "rl_append log action =
     do { ensure (length (rl_actions log) < rl_capacity log);
          Some (log\<lparr>rl_actions := rl_actions log @ [action]\<rparr>) }"

definition cm_new :: "('k, 'v) cm_spec \<Rightarrow> cm_options \<Rightarrow> ('k, 'v) cm option" where
  "cm_new S options =
     do { ensure (co_stash_value_count_max options > 0);
          cache \<leftarrow> (if co_cache_value_count_max options \<noteq> 0
                   then map_option Some (sac_new S (co_cache_value_count_max options)) else Some None);
          Some \<lparr>cm_cache = cache, cm_stash = [], cm_scope_is_active = False,
                cm_log = \<lparr>rl_actions = [], rl_capacity = co_scope_value_count_max options\<rparr>,
                cm_options = options\<rparr> }"

definition stash_within :: "('k, 'v) cm \<Rightarrow> bool" where
  "stash_within m \<longleftrightarrow> length (cm_stash m) \<le> co_stash_value_count_max (cm_options m)"

definition cm_reset :: "('k, 'v) cm \<Rightarrow> ('k, 'v) cm option" where
  "cm_reset m =
     do { ensure (\<not> cm_scope_is_active m);
          ensure (rl_actions (cm_log m) = []);
          ensure (stash_within m);
          Some (m\<lparr>cm_cache := map_option sac_reset (cm_cache m), cm_stash := [],
                  cm_scope_is_active := False, cm_log := (cm_log m)\<lparr>rl_actions := []\<rparr>\<rparr>) }"

text \<open>A lookup in the cache part, if there is one: \<open>cache.as_mut().and_then(|cache| cache.get(key))\<close>
  and the same for \<open>remove\<close>.\<close>

definition cache_get :: "('k, 'v) cm_spec \<Rightarrow> ('k, 'v) cm \<Rightarrow> 'k \<Rightarrow> ('v option \<times> ('k, 'v) cm) option" where
  "cache_get S m key =
     (case cm_cache m of
        None \<Rightarrow> Some (None, m)
      | Some c \<Rightarrow> do { (v, c) \<leftarrow> sac_get S c key; Some (v, m\<lparr>cm_cache := Some c\<rparr>) })"

definition cache_remove :: "('k, 'v) cm_spec \<Rightarrow> ('k, 'v) cm \<Rightarrow> 'k \<Rightarrow> ('v option \<times> ('k, 'v) cm) option" where
  "cache_remove S m key =
     (case cm_cache m of
        None \<Rightarrow> Some (None, m)
      | Some c \<Rightarrow> do { (v, c) \<leftarrow> sac_remove S c key; Some (v, m\<lparr>cm_cache := Some c\<rparr>) })"

definition cm_get :: "('k, 'v) cm_spec \<Rightarrow> ('k, 'v) cm \<Rightarrow> 'k \<Rightarrow> ('v option \<times> ('k, 'v) cm) option" where
  "cm_get S m key =
     do { (from_cache, m) \<leftarrow> cache_get S m key;
          case from_cache of
            Some v \<Rightarrow> Some (Some v, m)
          | None \<Rightarrow>
              (case hm_get (cm_stash m) key of
                 Some v \<Rightarrow> Some (if sp_tombstone S v then None else Some v, m)
               | None \<Rightarrow> Some (None, m)) }"

definition cm_has :: "('k, 'v) cm_spec \<Rightarrow> ('k, 'v) cm \<Rightarrow> 'k \<Rightarrow> (bool \<times> ('k, 'v) cm) option" where
  "cm_has S m key = do { (v, m) \<leftarrow> cm_get S m key; Some (v \<noteq> None, m) }"

definition cm_get_or_tombstone :: "('k, 'v) cm_spec \<Rightarrow> ('k, 'v) cm \<Rightarrow> 'k
    \<Rightarrow> ('v GetOrTombstone \<times> ('k, 'v) cm) option" where
  "cm_get_or_tombstone S m key =
     do { (from_cache, m) \<leftarrow> cache_get S m key;
          case from_cache of
            Some v \<Rightarrow> Some (Found v, m)
          | None \<Rightarrow>
              (case hm_get (cm_stash m) key of
                 Some v \<Rightarrow> Some (if sp_tombstone S v then Tombstone else Found v, m)
               | None \<Rightarrow> Some (NotFound, m)) }"

definition stash_upsert :: "('k, 'v) cm_spec \<Rightarrow> ('k, 'v) cm \<Rightarrow> 'v \<Rightarrow> ('v option \<times> ('k, 'v) cm) option" where
  "stash_upsert S m v =
     do { let old = hm_get (cm_stash m) (sp_key S v);
          let m = m\<lparr>cm_stash := hm_insert (sp_key S v) v (cm_stash m)\<rparr>;
          ensure (stash_within m);
          Some (old, m) }"

definition stash_remove :: "('k, 'v) cm \<Rightarrow> 'k \<Rightarrow> ('v option \<times> ('k, 'v) cm) option" where
  "stash_remove m key =
     do { ensure (stash_within m);
          Some (hm_get (cm_stash m) key, m\<lparr>cm_stash := hm_remove key (cm_stash m)\<rparr>) }"

definition is_none_or :: "('v \<Rightarrow> bool) \<Rightarrow> 'v option \<Rightarrow> bool" where
  "is_none_or P x = (case x of None \<Rightarrow> True | Some v \<Rightarrow> P v)"

definition fetch_upsert :: "('k, 'v) cm_spec \<Rightarrow> ('k, 'v) cm \<Rightarrow> 'v \<Rightarrow> ('v option \<times> ('k, 'v) cm) option" where
  "fetch_upsert S m v =
     (case cm_cache m of
        None \<Rightarrow> stash_upsert S m v
      | Some c \<Rightarrow>
          do { let key = sp_key S v;
               (result, c) \<leftarrow> sac_upsert S c v;
               let m = m\<lparr>cm_cache := Some c\<rparr>;
               case up_evicted result of
                 Some evicted \<Rightarrow>
                   (case up_updated result of
                      Update \<Rightarrow>
                        do { ensure (sp_key S evicted = key);
                             ensure (is_none_or (sp_tombstone S) (hm_get (cm_stash m) key));
                             Some (Some evicted, m) }
                    | Insert \<Rightarrow>
                        do { ensure (sp_key S evicted \<noteq> key);
                             (stash_updated, m) \<leftarrow> stash_upsert S m evicted;
                             ensure (is_none_or (sp_tombstone S) stash_updated);
                             stash_remove m key })
               | None \<Rightarrow>
                   do { ensure (up_updated result = Insert);
                        stash_remove m key } })"

definition cm_log_append :: "('k, 'v) cm \<Rightarrow> ('k, 'v) RollbackLogAction \<Rightarrow> ('k, 'v) cm option" where
  "cm_log_append m action = map_option (\<lambda>log. m\<lparr>cm_log := log\<rparr>) (rl_append (cm_log m) action)"

definition rollback_action :: "('k, 'v) cm_spec \<Rightarrow> 'v \<Rightarrow> 'v option \<Rightarrow> ('k, 'v) RollbackLogAction" where
  "rollback_action S v updated =
     (case updated of
        None \<Rightarrow> Remove (sp_key S v)
      | Some old \<Rightarrow> if sp_tombstone S old then RestoreTombstone (sp_key S v) else Restore old)"

definition cm_upsert :: "('k, 'v) cm_spec \<Rightarrow> ('k, 'v) cm \<Rightarrow> 'v \<Rightarrow> ('k, 'v) cm option" where
  "cm_upsert S m v =
     do { (updated, m) \<leftarrow> fetch_upsert S m v;
          if cm_scope_is_active m then cm_log_append m (rollback_action S v updated) else Some m }"

definition cm_remove :: "('k, 'v) cm_spec \<Rightarrow> ('k, 'v) cm \<Rightarrow> 'k \<Rightarrow> ('k, 'v) cm option" where
  "cm_remove S m key =
     do { (cache_removed, m) \<leftarrow> cache_remove S m key;
          tombstone_object \<leftarrow> sp_tombstone_from_key S key;
          ensure (stash_within m);
          let stash_removed = hm_get (cm_stash m) key;
          let m = m\<lparr>cm_stash := hm_insert key tombstone_object (cm_stash m)\<rparr>;
          old_value \<leftarrow> (case cache_removed of Some v \<Rightarrow> Some v | None \<Rightarrow> stash_removed);
          ensure (\<not> sp_tombstone S old_value);
          if cm_scope_is_active m then cm_log_append m (Restore old_value) else Some m }"

definition cm_scope_open :: "('k, 'v) cm \<Rightarrow> ('k, 'v) cm option" where
  "cm_scope_open m =
     do { ensure (\<not> cm_scope_is_active m);
          ensure (rl_actions (cm_log m) = []);
          Some (m\<lparr>cm_scope_is_active := True\<rparr>) }"

definition cm_replay :: "('k, 'v) cm_spec \<Rightarrow> ('k, 'v) RollbackLogAction \<Rightarrow> ('k, 'v) cm \<Rightarrow> ('k, 'v) cm option" where
  "cm_replay S action m =
     (case action of
        Restore v \<Rightarrow> do { ensure (\<not> sp_tombstone S v); cm_upsert S m v }
      | RestoreTombstone key \<Rightarrow> cm_remove S m key
      | Remove key \<Rightarrow>
          do { (removed, m) \<leftarrow> cache_remove S m key;
               let cache_removed = (removed \<noteq> None);
               (stash_value, m) \<leftarrow> stash_remove m key;
               (case stash_value of
                  Some v \<Rightarrow> ensure (\<not> cache_removed \<or> sp_tombstone S v)
                | None \<Rightarrow> ensure cache_removed);
               Some m })"

fun cm_replay_all :: "('k, 'v) cm_spec \<Rightarrow> ('k, 'v) RollbackLogAction list \<Rightarrow> ('k, 'v) cm \<Rightarrow> ('k, 'v) cm option" where
  "cm_replay_all S [] m = Some m"
| "cm_replay_all S (action # rest) m = do { m \<leftarrow> cm_replay S action m; cm_replay_all S rest m }"

definition cm_scope_close :: "('k, 'v) cm_spec \<Rightarrow> ('k, 'v) cm \<Rightarrow> ScopeCloseMode \<Rightarrow> ('k, 'v) cm option" where
  "cm_scope_close S m mode =
     do { ensure (cm_scope_is_active m);
          let m = m\<lparr>cm_scope_is_active := False\<rparr>;
          case mode of
            Persist \<Rightarrow> Some (m\<lparr>cm_log := (cm_log m)\<lparr>rl_actions := []\<rparr>\<rparr>)
          | Discard \<Rightarrow>
              do { let actions = rl_actions (cm_log m);
                   let m = m\<lparr>cm_log := (cm_log m)\<lparr>rl_actions := []\<rparr>\<rparr>;
                   m \<leftarrow> cm_replay_all S (rev actions) m;
                   Some (m\<lparr>cm_log := (cm_log m)\<lparr>rl_actions := []\<rparr>\<rparr>) } }"

definition cm_compact :: "('k, 'v) cm \<Rightarrow> ('k, 'v) cm option" where
  "cm_compact m =
     do { ensure (\<not> cm_scope_is_active m);
          ensure (rl_actions (cm_log m) = []);
          ensure (stash_within m);
          Some (m\<lparr>cm_stash := []\<rparr>) }"

lemmas cm_defs [model_defs] = rl_append_def cm_new_def stash_within_def cm_reset_def cache_get_def
  cache_remove_def cm_get_def cm_has_def cm_get_or_tombstone_def stash_upsert_def stash_remove_def
  is_none_or_def fetch_upsert_def cm_log_append_def rollback_action_def cm_upsert_def cm_remove_def
  cm_scope_open_def cm_replay_def cm_scope_close_def cm_compact_def

section \<open>The interface a client relies on\<close>

definition entry_value :: "'v GetOrTombstone \<Rightarrow> 'v option" where
  "entry_value e = (case e of Found v \<Rightarrow> Some v | _ \<Rightarrow> None)"

text \<open>
  \<open>entry m\<close> is what the map says of each key, \<open>base m\<close> what it said when the open scope was opened.
  Lookups and upserts may refuse (a full stash or rollback log panics); the laws say what holds when
  they answer.
\<close>

locale objects_cache =
  fixes ok :: "'m \<Rightarrow> bool"
    and entry :: "'m \<Rightarrow> 'k \<Rightarrow> 'v GetOrTombstone"
    and base :: "'m \<Rightarrow> 'k \<Rightarrow> 'v GetOrTombstone"
    and in_scope :: "'m \<Rightarrow> bool"
    and key :: "'v \<Rightarrow> 'k"
    and live :: "'v \<Rightarrow> bool"
    and get :: "'m \<Rightarrow> 'k \<Rightarrow> ('v option \<times> 'm) option"
    and upsert :: "'m \<Rightarrow> 'v \<Rightarrow> 'm option"
    and scope_open :: "'m \<Rightarrow> 'm option"
    and scope_close :: "'m \<Rightarrow> ScopeCloseMode \<Rightarrow> 'm option"
  assumes entry_found: "ok m \<Longrightarrow> entry m k = Found v \<Longrightarrow> key v = k \<and> live v"
    and get_entry: "ok m \<Longrightarrow> \<exists>m'. get m k = Some (entry_value (entry m k), m') \<and> ok m' \<and>
      entry m' = entry m \<and> base m' = base m \<and> in_scope m' = in_scope m"
    and upsert_entry: "ok m \<Longrightarrow> live v \<Longrightarrow> upsert m v = Some m' \<Longrightarrow>
      ok m' \<and> entry m' = (entry m)(key v := Found v) \<and> in_scope m' = in_scope m \<and>
      (in_scope m \<longrightarrow> base m' = base m)"
    and open_entry: "ok m \<Longrightarrow> scope_open m = Some m' \<Longrightarrow>
      ok m' \<and> entry m' = entry m \<and> base m' = entry m \<and> in_scope m'"
    and close_entry: "ok m \<Longrightarrow> in_scope m \<Longrightarrow> scope_close m mode = Some m' \<Longrightarrow>
      ok m' \<and> entry m' = (case mode of Persist \<Rightarrow> entry m | Discard \<Rightarrow> base m) \<and> \<not> in_scope m'"
begin

text \<open>A session: the upserts of one scope, in order.\<close>

fun upserts :: "'m \<Rightarrow> 'v list \<Rightarrow> 'm option" where
  "upserts m [] = Some m"
| "upserts m (v # vs) = do { m \<leftarrow> upsert m v; upserts m vs }"

lemma upserts_entry:
  assumes "ok m" "list_all live vs" "upserts m vs = Some m'"
  shows "ok m'" "entry m' = foldl (\<lambda>e v. e(key v := Found v)) (entry m) vs"
    "in_scope m' = in_scope m" "in_scope m \<Longrightarrow> base m' = base m"
proof -
  have "ok m' \<and> entry m' = foldl (\<lambda>e v. e(key v := Found v)) (entry m) vs \<and>
      in_scope m' = in_scope m \<and> (in_scope m \<longrightarrow> base m' = base m)"
    using assms
  proof (induction vs arbitrary: m)
    case (Cons v vs)
    from Cons.prems obtain m1 where m1: "upsert m v = Some m1" "upserts m1 vs = Some m'"
      by (auto simp: bind_Some_iff)
    from upsert_entry [OF Cons.prems(1) _ m1(1)] Cons.prems(2) have
      "ok m1" "entry m1 = (entry m)(key v := Found v)" "in_scope m1 = in_scope m"
      "in_scope m \<longrightarrow> base m1 = base m" by simp_all
    with Cons.IH [OF _ _ m1(2)] Cons.prems(2) show ?case by simp
  qed simp
  then show "ok m'" "entry m' = foldl (\<lambda>e v. e(key v := Found v)) (entry m) vs"
    "in_scope m' = in_scope m" "in_scope m \<Longrightarrow> base m' = base m" by blast+
qed

text \<open>A discarded session leaves no trace; a persisted one leaves exactly its upserts.\<close>

lemma session:
  assumes "ok m" "list_all live vs" "scope_open m = Some m1" "upserts m1 vs = Some m2"
    "scope_close m2 mode = Some m3"
  shows "ok m3" "\<not> in_scope m3"
    "mode = Discard \<Longrightarrow> entry m3 = entry m"
    "mode = Persist \<Longrightarrow> entry m3 = foldl (\<lambda>e v. e(key v := Found v)) (entry m) vs"
proof -
  note o = open_entry [OF assms(1,3)]
  note u = upserts_entry [OF _ assms(2,4)]
  have "in_scope m2" using o u by simp
  note c = close_entry [OF u(1) this assms(5)]
  show "ok m3" "\<not> in_scope m3" using c o by simp_all
  show "mode = Discard \<Longrightarrow> entry m3 = entry m"
    "mode = Persist \<Longrightarrow> entry m3 = foldl (\<lambda>e v. e(key v := Found v)) (entry m) vs"
    using c o u by simp_all
qed

end

section \<open>The invariant of a cache map\<close>

definition cm_spec_ok :: "('k, 'v) cm_spec \<Rightarrow> bool" where
  "cm_spec_ok S \<longleftrightarrow> sac_spec_ok S \<and>
     (\<forall>k t. sp_tombstone_from_key S k = Some t \<longrightarrow> sp_key S t = k \<and> sp_tombstone S t)"

definition cm_cached :: "('k, 'v) cm_spec \<Rightarrow> ('k, 'v) cm \<Rightarrow> 'k \<Rightarrow> 'v option" where
  "cm_cached S m k = (case cm_cache m of None \<Rightarrow> None | Some c \<Rightarrow> sac_view S c k)"

definition cm_entry :: "('k, 'v) cm_spec \<Rightarrow> ('k, 'v) cm \<Rightarrow> 'k \<Rightarrow> 'v GetOrTombstone" where
  "cm_entry S m k =
     (case cm_cached S m k of
        Some v \<Rightarrow> Found v
      | None \<Rightarrow>
          (case hm_get (cm_stash m) k of
             None \<Rightarrow> NotFound
           | Some v \<Rightarrow> if sp_tombstone S v then Tombstone else Found v))"

definition cm_core_ok :: "('k, 'v) cm_spec \<Rightarrow> ('k, 'v) cm \<Rightarrow> bool" where
  "cm_core_ok S m \<longleftrightarrow>
     (case cm_cache m of None \<Rightarrow> True | Some c \<Rightarrow> sac_ok S c) \<and>
     hm_ok (cm_stash m) \<and>
     (\<forall>k v. hm_get (cm_stash m) k = Some v \<longrightarrow> sp_key S v = k \<and> cm_cached S m k = None) \<and>
     (\<forall>k v. cm_cached S m k = Some v \<longrightarrow> \<not> sp_tombstone S v)"

text \<open>Undoing one logged action, on entries.\<close>

definition undo_action :: "('k, 'v) cm_spec \<Rightarrow> ('k, 'v) RollbackLogAction \<Rightarrow> ('k \<Rightarrow> 'v GetOrTombstone)
    \<Rightarrow> 'k \<Rightarrow> 'v GetOrTombstone" where
  "undo_action S action e =
     (case action of
        Restore v \<Rightarrow> e(sp_key S v := Found v)
      | RestoreTombstone k \<Rightarrow> e(k := Tombstone)
      | Remove k \<Rightarrow> e(k := NotFound))"

definition cm_base :: "('k, 'v) cm_spec \<Rightarrow> ('k, 'v) cm \<Rightarrow> 'k \<Rightarrow> 'v GetOrTombstone" where
  "cm_base S m = foldr (undo_action S) (rl_actions (cm_log m)) (cm_entry S m)"

text \<open>An action can be undone on \<open>e\<close>: a restored value is live, and a key whose insertion is
  undone is there.\<close>

definition undoable :: "('k, 'v) cm_spec \<Rightarrow> ('k, 'v) RollbackLogAction \<Rightarrow> ('k \<Rightarrow> 'v GetOrTombstone) \<Rightarrow> bool" where
  "undoable S action e =
     (case action of
        Restore v \<Rightarrow> \<not> sp_tombstone S v
      | RestoreTombstone k \<Rightarrow> (\<exists>v. e k = Found v)
      | Remove k \<Rightarrow> (\<exists>v. e k = Found v))"

fun log_undoable :: "('k, 'v) cm_spec \<Rightarrow> ('k, 'v) RollbackLogAction list \<Rightarrow> ('k \<Rightarrow> 'v GetOrTombstone) \<Rightarrow> bool" where
  "log_undoable S [] e = True"
| "log_undoable S (a # rest) e = (undoable S a e \<and> log_undoable S rest (undo_action S a e))"

definition cm_ok :: "('k, 'v) cm_spec \<Rightarrow> ('k, 'v) cm \<Rightarrow> bool" where
  "cm_ok S m \<longleftrightarrow> cm_core_ok S m \<and> (\<not> cm_scope_is_active m \<longrightarrow> rl_actions (cm_log m) = []) \<and>
     log_undoable S (rev (rl_actions (cm_log m))) (cm_entry S m)"

section \<open>Lookups and upserts on entries\<close>

definition same_scope :: "('k, 'v) cm \<Rightarrow> ('k, 'v) cm \<Rightarrow> bool" where
  "same_scope m m' \<longleftrightarrow> cm_scope_is_active m' = cm_scope_is_active m \<and> cm_log m' = cm_log m \<and>
     cm_options m' = cm_options m"

lemma same_scope_trans: "same_scope a b \<Longrightarrow> same_scope b c \<Longrightarrow> same_scope a c"
  by (simp add: same_scope_def)

lemma cache_get_refines:
  assumes "cm_core_ok S m"
  shows "\<exists>m'. cache_get S m k = Some (cm_cached S m k, m') \<and> cm_core_ok S m' \<and>
    cm_cached S m' = cm_cached S m \<and> cm_stash m' = cm_stash m \<and> same_scope m m'"
proof (cases "cm_cache m")
  case None
  then show ?thesis using assms by (simp add: cache_get_def cm_cached_def same_scope_def)
next
  case (Some c)
  then have "sac_ok S c" using assms by (simp add: cm_core_ok_def)
  from sac_get_refines [OF this, of k] obtain c' where
    c': "sac_get S c k = Some (sac_view S c k, c')" "sac_ok S c'" "sac_view S c' = sac_view S c" by blast
  let ?m = "m\<lparr>cm_cache := Some c'\<rparr>"
  have "cm_cached S ?m = cm_cached S m" using Some c'(3) by (simp add: cm_cached_def fun_eq_iff)
  with assms Some c' show ?thesis
    by (intro exI [of _ ?m]) (simp add: cache_get_def cm_cached_def same_scope_def cm_core_ok_def)
qed

lemma cache_remove_refines:
  assumes "cm_core_ok S m"
  shows "\<exists>m'. cache_remove S m k = Some (cm_cached S m k, m') \<and> cm_core_ok S m' \<and>
    cm_cached S m' = (cm_cached S m)(k := None) \<and> cm_stash m' = cm_stash m \<and> same_scope m m'"
proof (cases "cm_cache m")
  case None
  then show ?thesis using assms by (auto simp: cache_remove_def cm_cached_def same_scope_def fun_eq_iff)
next
  case (Some c)
  then have "sac_ok S c" using assms by (simp add: cm_core_ok_def)
  from sac_remove_refines [OF this, of k] obtain c' where
    c': "sac_remove S c k = Some (sac_view S c k, c')" "sac_ok S c'" "sac_view S c' = (sac_view S c)(k := None)"
    by blast
  let ?m = "m\<lparr>cm_cache := Some c'\<rparr>"
  have cached: "cm_cached S ?m = (cm_cached S m)(k := None)"
    using Some c'(3) by (simp add: cm_cached_def fun_eq_iff)
  have "cm_core_ok S ?m"
    unfolding cm_core_ok_def cached using assms c'(2) by (auto simp: cm_core_ok_def)
  with Some c' cached show ?thesis
    by (intro exI [of _ ?m]) (simp add: cache_remove_def cm_cached_def same_scope_def)
qed

lemma cm_entry_cong:
  "cm_cached S m' = cm_cached S m \<Longrightarrow> cm_stash m' = cm_stash m \<Longrightarrow> cm_entry S m' = cm_entry S m"
  by (rule ext) (simp add: cm_entry_def split: option.split)

lemma cm_scope_frame [simp]:
  "cm_cached S (m\<lparr>cm_scope_is_active := b\<rparr>) = cm_cached S m"
  "cm_cached S (m\<lparr>cm_log := l\<rparr>) = cm_cached S m"
  "cm_cached S (m\<lparr>cm_stash := st\<rparr>) = cm_cached S m"
  "cm_entry S (m\<lparr>cm_scope_is_active := b\<rparr>) = cm_entry S m"
  "cm_entry S (m\<lparr>cm_log := l\<rparr>) = cm_entry S m"
  "cm_core_ok S (m\<lparr>cm_scope_is_active := b\<rparr>) = cm_core_ok S m"
  "cm_core_ok S (m\<lparr>cm_log := l\<rparr>) = cm_core_ok S m"
proof -
  show c: "cm_cached S (m\<lparr>cm_scope_is_active := b\<rparr>) = cm_cached S m"
    "cm_cached S (m\<lparr>cm_log := l\<rparr>) = cm_cached S m"
    "cm_cached S (m\<lparr>cm_stash := st\<rparr>) = cm_cached S m"
    by (simp_all add: cm_cached_def fun_eq_iff)
  show "cm_entry S (m\<lparr>cm_scope_is_active := b\<rparr>) = cm_entry S m"
    "cm_entry S (m\<lparr>cm_log := l\<rparr>) = cm_entry S m"
    by (intro cm_entry_cong; simp add: c)+
  show "cm_core_ok S (m\<lparr>cm_scope_is_active := b\<rparr>) = cm_core_ok S m"
    "cm_core_ok S (m\<lparr>cm_log := l\<rparr>) = cm_core_ok S m"
    by (simp_all add: cm_core_ok_def c)
qed

lemma cm_entry_found:
  assumes "cm_core_ok S m" "cm_entry S m k = Found v"
  shows "sp_key S v = k \<and> \<not> sp_tombstone S v"
proof (cases "cm_cached S m k")
  case None
  with assms show ?thesis
    by (auto simp: cm_entry_def cm_core_ok_def split: option.splits if_splits)
next
  case (Some u)
  then obtain c where c: "cm_cache m = Some c" "sac_view S c k = Some u"
    by (auto simp: cm_cached_def split: option.splits)
  then have "sac_ok S c" using assms(1) by (simp add: cm_core_ok_def)
  from sac_view_key [OF this c(2)] Some assms show ?thesis
    by (auto simp: cm_entry_def cm_core_ok_def)
qed

lemma cm_get_refines:
  assumes ok: "cm_core_ok S m"
  shows "\<exists>m'. cm_get S m k = Some (entry_value (cm_entry S m k), m') \<and> cm_core_ok S m' \<and>
    cm_entry S m' = cm_entry S m \<and> same_scope m m'"
proof -
  from cache_get_refines [OF ok, of k] obtain m' where
    m': "cache_get S m k = Some (cm_cached S m k, m')" "cm_core_ok S m'"
    "cm_cached S m' = cm_cached S m" "cm_stash m' = cm_stash m" "same_scope m m'" by blast
  have "cm_get S m k = Some (entry_value (cm_entry S m k), m')"
    using m'(1,4) by (simp add: cm_get_def cm_entry_def entry_value_def split: option.split)
  then show ?thesis using m'(2,5) cm_entry_cong [OF m'(3,4)] by blast
qed

lemma cm_get_or_tombstone_refines:
  assumes ok: "cm_core_ok S m"
  shows "\<exists>m'. cm_get_or_tombstone S m k = Some (cm_entry S m k, m') \<and> cm_core_ok S m' \<and>
    cm_entry S m' = cm_entry S m \<and> same_scope m m'"
proof -
  from cache_get_refines [OF ok, of k] obtain m' where
    m': "cache_get S m k = Some (cm_cached S m k, m')" "cm_core_ok S m'"
    "cm_cached S m' = cm_cached S m" "cm_stash m' = cm_stash m" "same_scope m m'" by blast
  have "cm_get_or_tombstone S m k = Some (cm_entry S m k, m')"
    using m'(1,4) by (simp add: cm_get_or_tombstone_def cm_entry_def split: option.split)
  then show ?thesis using m'(2,5) cm_entry_cong [OF m'(3,4)] by blast
qed

text \<open>The old value \<open>fetch_upsert\<close> hands back is what the entry of the key was.\<close>

definition old_entry :: "('k, 'v) cm_spec \<Rightarrow> 'v option \<Rightarrow> 'v GetOrTombstone" where
  "old_entry S old =
     (case old of None \<Rightarrow> NotFound | Some v \<Rightarrow> if sp_tombstone S v then Tombstone else Found v)"

definition upserted_ok :: "('k, 'v) cm_spec \<Rightarrow> ('k, 'v) cm \<Rightarrow> 'v \<Rightarrow> 'v option \<Rightarrow> ('k, 'v) cm \<Rightarrow> bool" where
  "upserted_ok S m v old m' \<longleftrightarrow> cm_core_ok S m' \<and> cm_entry S m' = (cm_entry S m)(sp_key S v := Found v) \<and>
     same_scope m m' \<and> old_entry S old = cm_entry S m (sp_key S v) \<and>
     (\<forall>u. old = Some u \<longrightarrow> sp_key S u = sp_key S v) \<and>
     length (cm_stash m') \<le> Suc (length (cm_stash m))"

lemma length_hm_remove_le: "length (hm_remove k m) \<le> length m"
  by (simp add: hm_remove_def length_delete_le)

lemma length_hm_insert_le: "length (hm_insert k v m) \<le> Suc (length m)"
  by (simp add: length_hm_insert)

lemma stash_only_upsert:
  assumes ok: "cm_core_ok S m" and cache: "cm_cache m = None" and live: "\<not> sp_tombstone S v"
    and m': "m' = m\<lparr>cm_stash := hm_insert (sp_key S v) v (cm_stash m)\<rparr>"
  shows "upserted_ok S m v (hm_get (cm_stash m) (sp_key S v)) m'"
  using assms length_hm_insert_le
  by (auto simp: upserted_ok_def cm_core_ok_def cm_entry_def cm_cached_def same_scope_def old_entry_def
      fun_eq_iff split: option.split)

lemma cached_upsert:
  assumes ok: "cm_core_ok S m" and live: "\<not> sp_tombstone S v"
    and cache': "sac_ok S c'" and stash': "hm_ok stash'"
    and cached: "\<And>k. sac_view S c' k = (if k = sp_key S v then Some v else if k \<in> moved then None else cm_cached S m k)"
    and stash: "\<And>k. hm_get stash' k = (if k = sp_key S v then None else if k \<in> moved then cm_cached S m k else hm_get (cm_stash m) k)"
    and moved: "\<And>k. k \<in> moved \<Longrightarrow> \<exists>u. cm_cached S m k = Some u \<and> sp_key S u = k"
    and len: "length stash' \<le> Suc (length (cm_stash m))"
    and old: "old_entry S old = cm_entry S m (sp_key S v)" "\<And>u. old = Some u \<Longrightarrow> sp_key S u = sp_key S v"
  shows "upserted_ok S m v old (m\<lparr>cm_cache := Some c', cm_stash := stash'\<rparr>)" (is "upserted_ok S m v old ?m")
proof -
  have cached': "cm_cached S ?m k = (if k = sp_key S v then Some v else if k \<in> moved then None else cm_cached S m k)" for k
    using cached by (simp add: cm_cached_def)
  note cached'' = cached' [unfolded cm_scope_frame]
  have core: "hm_get (cm_stash m) k = Some u \<Longrightarrow> sp_key S u = k \<and> cm_cached S m k = None"
    "cm_cached S m k = Some u \<Longrightarrow> \<not> sp_tombstone S u" for k u
    using ok by (auto simp: cm_core_ok_def)
  have "cm_core_ok S ?m"
    unfolding cm_core_ok_def
  proof (intro conjI allI impI)
    show "case cm_cache ?m of None \<Rightarrow> True | Some c \<Rightarrow> sac_ok S c" "hm_ok (cm_stash ?m)"
      using cache' stash' by simp_all
    fix k u assume u: "hm_get (cm_stash ?m) k = Some u"
    then have get: "hm_get stash' k = Some u" by simp
    show "sp_key S u = k" "cm_cached S ?m k = None"
      using get core(1) moved [of k] unfolding stash cached' by (auto split: if_splits)
  next
    fix k u assume "cm_cached S ?m k = Some u"
    then show "\<not> sp_tombstone S u"
      using live core(2) unfolding cached' by (auto split: if_splits)
  qed
  moreover have "cm_entry S ?m = (cm_entry S m)(sp_key S v := Found v)"
  proof
    fix k
    show "cm_entry S ?m k = ((cm_entry S m)(sp_key S v := Found v)) k"
      using moved [of k] core(2) by (auto simp: cm_entry_def cached'' stash split: option.split)
  qed
  ultimately show ?thesis
    using len old by (simp add: upserted_ok_def same_scope_def)
qed

lemma fetch_upsert_refines:
  assumes ok: "cm_core_ok S m" and live: "\<not> sp_tombstone S v" and up: "fetch_upsert S m v = Some (old, m')"
  shows "upserted_ok S m v old m'"
proof (cases "cm_cache m")
  case None
  with up have "m' = m\<lparr>cm_stash := hm_insert (sp_key S v) v (cm_stash m)\<rparr>" "old = hm_get (cm_stash m) (sp_key S v)"
    by (auto simp: fetch_upsert_def stash_upsert_def Let_def panic_simps)
  with stash_only_upsert [OF ok None live] show ?thesis by simp
next
  case (Some c)
  have c: "sac_ok S c" and view: "cm_cached S m = sac_view S c"
    using ok Some by (simp_all add: cm_core_ok_def cm_cached_def fun_eq_iff)
  have stash: "hm_ok (cm_stash m)" "\<And>k u. hm_get (cm_stash m) k = Some u \<Longrightarrow> sp_key S u = k \<and> sac_view S c k = None"
    "\<And>k u. sac_view S c k = Some u \<Longrightarrow> \<not> sp_tombstone S u"
    using ok by (auto simp: cm_core_ok_def view)
  show ?thesis
  proof (cases "sac_view S c (sp_key S v)")
    case hit: (Some u)
    from sac_upsert_update [OF c hit] obtain i c' where
      c': "sac_upsert S c v = Some (\<lparr>up_index = i, up_updated = Update, up_evicted = Some u\<rparr>, c')"
      "sac_ok S c'" "sac_view S c' = (sac_view S c)(sp_key S v \<mapsto> v)" by blast
    from up Some c'(1) have m': "old = Some u" "m' = m\<lparr>cm_cache := Some c'\<rparr>"
      by (auto simp: fetch_upsert_def Let_def panic_simps)
    have "upserted_ok S m v (Some u) (m\<lparr>cm_cache := Some c', cm_stash := cm_stash m\<rparr>)"
    proof (rule cached_upsert [OF ok live c'(2) stash(1), where moved = "{}"])
      show "hm_get (cm_stash m) k = (if k = sp_key S v then None else if k \<in> {} then cm_cached S m k else hm_get (cm_stash m) k)" for k
        using stash(2) [of "sp_key S v"] hit by (cases "hm_get (cm_stash m) (sp_key S v)") auto
      show "old_entry S (Some u) = cm_entry S m (sp_key S v)"
        using hit stash(3) by (simp add: old_entry_def cm_entry_def view)
    qed (use c'(3) hit sac_view_key [OF c hit] in \<open>auto simp: view\<close>)
    with m' show ?thesis by simp
  next
    case miss: None
    from sac_upsert_insert [OF c miss] obtain i evicted c' where
      up': "sac_upsert S c v = Some (\<lparr>up_index = i, up_updated = Insert, up_evicted = evicted\<rparr>, c')"
      and c': "sac_ok S c'" and effect: "case evicted of
         None \<Rightarrow> sac_view S c' = (sac_view S c)(sp_key S v \<mapsto> v)
       | Some e \<Rightarrow> sp_key S e \<noteq> sp_key S v \<and> sac_view S c (sp_key S e) = Some e \<and>
           sac_view S c' = (sac_view S c)(sp_key S e := None, sp_key S v \<mapsto> v)" by blast
    have old_key: "hm_get (cm_stash m) (sp_key S v) = Some w \<Longrightarrow> sp_key S w = sp_key S v" for w
      using stash(2) by blast
    have old: "old_entry S (hm_get (cm_stash m) (sp_key S v)) = cm_entry S m (sp_key S v)"
      using miss by (simp add: old_entry_def cm_entry_def view)
    show ?thesis
    proof (cases evicted)
      case None
      with up Some up' have m': "old = hm_get (cm_stash m) (sp_key S v)"
        "m' = m\<lparr>cm_cache := Some c', cm_stash := hm_remove (sp_key S v) (cm_stash m)\<rparr>"
        by (auto simp: fetch_upsert_def stash_remove_def Let_def panic_simps)
      have "upserted_ok S m v old (m\<lparr>cm_cache := Some c', cm_stash := hm_remove (sp_key S v) (cm_stash m)\<rparr>)"
        unfolding m'(1)
        by (rule cached_upsert [OF ok live c' hm_ok_remove [OF stash(1)], where moved = "{}"])
          (use effect None old old_key le_SucI [OF length_hm_remove_le] in \<open>auto simp: view\<close>)
      with m' show ?thesis by simp
    next
      case (Some e)
      let ?stash = "hm_remove (sp_key S v) (hm_insert (sp_key S e) e (cm_stash m))"
      from effect Some have e: "sp_key S e \<noteq> sp_key S v" "sac_view S c (sp_key S e) = Some e"
        "sac_view S c' = (sac_view S c)(sp_key S e := None, sp_key S v \<mapsto> v)" by simp_all
      from up \<open>cm_cache m = Some c\<close> up' Some e(1) have m': "old = hm_get (cm_stash m) (sp_key S v)"
        "m' = m\<lparr>cm_cache := Some c', cm_stash := ?stash\<rparr>"
        by (auto simp: fetch_upsert_def stash_remove_def stash_upsert_def Let_def bind_Some_iff)
      have len: "length ?stash \<le> Suc (length (cm_stash m))"
        by (rule order_trans [OF length_hm_remove_le length_hm_insert_le])
      have "upserted_ok S m v old (m\<lparr>cm_cache := Some c', cm_stash := ?stash\<rparr>)"
        unfolding m'(1)
      proof (rule cached_upsert [OF ok live c', where moved = "{sp_key S e}"])
        show "hm_ok ?stash" using stash(1) by simp
        show "sac_view S c' k = (if k = sp_key S v then Some v
            else if k \<in> {sp_key S e} then None else cm_cached S m k)" for k
          by (simp add: e(3) view)
        show "hm_get ?stash k = (if k = sp_key S v then None
            else if k \<in> {sp_key S e} then cm_cached S m k else hm_get (cm_stash m) k)" for k
          by (simp add: e(2) view)
      qed (use e(2) old old_key len in \<open>simp_all add: view\<close>)
      with m' show ?thesis by simp
    qed
  qed
qed

text \<open>Room in the stash is all an upsert needs.\<close>

lemma fetch_upsert_total:
  assumes ok: "cm_core_ok S m" and room: "length (cm_stash m) < co_stash_value_count_max (cm_options m)"
  shows "\<exists>old m'. fetch_upsert S m v = Some (old, m')"
proof (cases "cm_cache m")
  case None
  have "length (hm_insert (sp_key S v) v (cm_stash m)) \<le> co_stash_value_count_max (cm_options m)"
    using room length_hm_insert_le [of "sp_key S v" v "cm_stash m"] by linarith
  with None show ?thesis by (simp add: fetch_upsert_def stash_upsert_def stash_within_def Let_def)
next
  case (Some c)
  have c: "sac_ok S c" and view: "cm_cached S m = sac_view S c"
    using ok Some by (simp_all add: cm_core_ok_def cm_cached_def fun_eq_iff)
  have disjoint: "sac_view S c k = Some u \<Longrightarrow> hm_get (cm_stash m) k = None" for k u
    using ok by (cases "hm_get (cm_stash m) k") (auto simp: cm_core_ok_def view)
  show ?thesis
  proof (cases "sac_view S c (sp_key S v)")
    case hit: (Some u)
    from sac_upsert_update [OF c hit] obtain i c' where
      "sac_upsert S c v = Some (\<lparr>up_index = i, up_updated = Update, up_evicted = Some u\<rparr>, c')" by blast
    with Some hit disjoint [OF hit] sac_view_key [OF c hit] show ?thesis
      by (simp add: fetch_upsert_def Let_def is_none_or_def)
  next
    case miss: None
    from sac_upsert_insert [OF c miss] obtain i evicted c' where
      up': "sac_upsert S c v = Some (\<lparr>up_index = i, up_updated = Insert, up_evicted = evicted\<rparr>, c')"
      and effect: "case evicted of None \<Rightarrow> True
       | Some e \<Rightarrow> sp_key S e \<noteq> sp_key S v \<and> sac_view S c (sp_key S e) = Some e" by (force split: option.splits)
    show ?thesis
    proof (cases evicted)
      case None
      with Some up' room show ?thesis
        by (simp add: fetch_upsert_def Let_def stash_remove_def stash_within_def)
    next
      case (Some e)
      with effect have e: "sp_key S e \<noteq> sp_key S v" "hm_get (cm_stash m) (sp_key S e) = None"
        using disjoint by auto
      have "length (hm_insert (sp_key S e) e (cm_stash m)) \<le> co_stash_value_count_max (cm_options m)"
        using room length_hm_insert_le [of "sp_key S e" e "cm_stash m"] by linarith
      with Some up' e \<open>cm_cache m = Some c\<close> show ?thesis
        by (simp add: fetch_upsert_def Let_def stash_upsert_def stash_remove_def stash_within_def is_none_or_def)
    qed
  qed
qed

section \<open>Scopes\<close>

lemma cm_remove_unscoped:
  assumes ok: "cm_spec_ok S" "cm_core_ok S m" and scope: "\<not> cm_scope_is_active m"
    and r: "cm_remove S m k = Some m'"
  shows "cm_core_ok S m' \<and> cm_entry S m' = (cm_entry S m)(k := Tombstone) \<and> same_scope m m' \<and>
    length (cm_stash m') \<le> Suc (length (cm_stash m))"
proof -
  from cache_remove_refines [OF ok(2), of k] obtain m1 where
    m1: "cache_remove S m k = Some (cm_cached S m k, m1)" "cm_core_ok S m1"
    "cm_cached S m1 = (cm_cached S m)(k := None)" "cm_stash m1 = cm_stash m" "same_scope m m1" by blast
  from r m1(1,5) scope obtain t where t: "sp_tombstone_from_key S k = Some t"
    and m': "m' = m1\<lparr>cm_stash := hm_insert k t (cm_stash m)\<rparr>"
    by (auto simp: cm_remove_def Let_def same_scope_def m1(4) panic_simps split: if_splits option.splits)
  have ts: "sp_key S t = k" "sp_tombstone S t" using ok(1) t by (auto simp: cm_spec_ok_def)
  have cached: "cm_cached S m' = (cm_cached S m)(k := None)"
    using m1(3) m' by (simp add: cm_cached_def fun_eq_iff)
  have "cm_core_ok S m'"
    unfolding cm_core_ok_def cached using ok(2) m1(2) ts by (auto simp: m' cm_core_ok_def)
  moreover have "cm_entry S m' = (cm_entry S m)(k := Tombstone)"
    using ts by (auto simp: cm_entry_def m' m1(3) fun_eq_iff split: option.split)
  ultimately show ?thesis
    using m1(5) length_hm_insert_le by (auto simp: m' same_scope_def)
qed

lemma cm_replay_refines:
  assumes ok: "cm_spec_ok S" "cm_core_ok S m" and scope: "\<not> cm_scope_is_active m"
    and can: "undoable S action (cm_entry S m)" and r: "cm_replay S action m = Some m'"
  shows "cm_core_ok S m' \<and> cm_entry S m' = undo_action S action (cm_entry S m) \<and> same_scope m m' \<and>
    length (cm_stash m') \<le> Suc (length (cm_stash m))"
proof (cases action)
  case (Restore v)
  then have live: "\<not> sp_tombstone S v" using can by (simp add: undoable_def)
  from r Restore scope obtain old where "fetch_upsert S m v = Some (old, m')"
    by (auto simp: cm_replay_def cm_upsert_def panic_simps split: if_splits)
       (metis cm_core_ok_def fetch_upsert_refines live ok(2) same_scope_def upserted_ok_def)
  from fetch_upsert_refines [OF ok(2) live this] Restore show ?thesis
    by (simp add: upserted_ok_def undo_action_def)
next
  case (RestoreTombstone k)
  with cm_remove_unscoped [OF ok scope] r show ?thesis by (simp add: cm_replay_def undo_action_def)
next
  case (Remove k)
  from cache_remove_refines [OF ok(2), of k] obtain m1 where
    m1: "cache_remove S m k = Some (cm_cached S m k, m1)" "cm_core_ok S m1"
    "cm_cached S m1 = (cm_cached S m)(k := None)" "cm_stash m1 = cm_stash m" "same_scope m m1" by blast
  from r m1(1) Remove have m': "m' = m1\<lparr>cm_stash := hm_remove k (cm_stash m)\<rparr>"
    by (auto simp: cm_replay_def stash_remove_def m1(4) Let_def panic_simps)
  have cached: "cm_cached S m' = (cm_cached S m)(k := None)"
    using m1(3) m' by (simp add: cm_cached_def fun_eq_iff)
  have "cm_core_ok S m'"
    unfolding cm_core_ok_def cached using ok(2) m1(2) by (auto simp: m' cm_core_ok_def)
  moreover have "cm_entry S m' = (cm_entry S m)(k := NotFound)"
    by (auto simp: cm_entry_def m' m1(3) fun_eq_iff split: option.split)
  ultimately show ?thesis
    using m1(5) le_SucI [OF length_hm_remove_le] Remove by (auto simp: m' same_scope_def undo_action_def)
qed

lemma cm_replay_all_refines:
  assumes "cm_spec_ok S" "cm_core_ok S m" "\<not> cm_scope_is_active m"
    and "log_undoable S actions (cm_entry S m)" "cm_replay_all S actions m = Some m'"
  shows "cm_core_ok S m' \<and> cm_entry S m' = fold (undo_action S) actions (cm_entry S m) \<and> same_scope m m' \<and>
    length (cm_stash m') \<le> length actions + length (cm_stash m)"
  using assms(2-)
proof (induction actions arbitrary: m)
  case (Cons a rest)
  from Cons.prems(4) obtain m1 where m1: "cm_replay S a m = Some m1" "cm_replay_all S rest m1 = Some m'"
    by (auto simp: panic_simps)
  from Cons.prems(3) have can: "undoable S a (cm_entry S m)" "log_undoable S rest (undo_action S a (cm_entry S m))"
    by simp_all
  note step = cm_replay_refines [OF assms(1) Cons.prems(1,2) can(1) m1(1)]
  then have "\<not> cm_scope_is_active m1" using Cons.prems(2) by (simp add: same_scope_def)
  with Cons.IH [OF _ this _ m1(2)] step can(2) show ?case
    by (auto simp: same_scope_def)
qed (simp add: same_scope_def)

lemma cm_upsert_refines:
  assumes ok: "cm_ok S m" and live: "\<not> sp_tombstone S v" and up: "cm_upsert S m v = Some m'"
  shows "cm_ok S m' \<and> cm_entry S m' = (cm_entry S m)(sp_key S v := Found v) \<and>
    cm_scope_is_active m' = cm_scope_is_active m \<and>
    (cm_scope_is_active m \<longrightarrow> cm_base S m' = cm_base S m)"
proof -
  have core: "cm_core_ok S m" using ok by (simp add: cm_ok_def)
  from up obtain old m1 where m1: "fetch_upsert S m v = Some (old, m1)"
    and m': "(if cm_scope_is_active m1 then cm_log_append m1 (rollback_action S v old) else Some m1) = Some m'"
    by (auto simp: cm_upsert_def bind_Some_iff)
  note u = fetch_upsert_refines [OF core live m1]
  then have scope: "cm_scope_is_active m1 = cm_scope_is_active m" and log: "cm_log m1 = cm_log m"
    and entry: "cm_entry S m1 = (cm_entry S m)(sp_key S v := Found v)" and core1: "cm_core_ok S m1"
    by (simp_all add: upserted_ok_def same_scope_def)
  show ?thesis
  proof (cases "cm_scope_is_active m")
    case False
    with m' scope have "m' = m1" by simp
    with ok False scope log entry core1 show ?thesis by (simp add: cm_ok_def)
  next
    case True
    let ?a = "rollback_action S v old"
    from m' True scope log have m'': "m' = m1\<lparr>cm_log := (cm_log m)\<lparr>rl_actions := rl_actions (cm_log m) @ [?a]\<rparr>\<rparr>"
      by (auto simp: cm_log_append_def rl_append_def panic_simps)
    have entry': "cm_entry S m' = cm_entry S m1" and core': "cm_core_ok S m'"
      using core1 by (simp_all add: m'')
    have undo: "undo_action S ?a (cm_entry S m1) = cm_entry S m" and can: "undoable S ?a (cm_entry S m1)"
      using u unfolding entry
      by (auto simp: upserted_ok_def undo_action_def undoable_def rollback_action_def old_entry_def
          fun_eq_iff split: option.splits if_splits)
    have "cm_base S m' = cm_base S m"
      by (simp add: cm_base_def entry' undo) (simp add: m'' undo)
    moreover have "cm_ok S m'"
      using ok can undo core' True scope by (simp add: cm_ok_def entry') (simp add: m'' undo)
    ultimately show ?thesis using entry entry' True scope by (simp add: m'')
  qed
qed

lemma cm_scope_open_refines:
  assumes "cm_ok S m" "cm_scope_open m = Some m'"
  shows "cm_ok S m' \<and> cm_entry S m' = cm_entry S m \<and> cm_base S m' = cm_entry S m \<and> cm_scope_is_active m'"
proof -
  from assms(2) have m': "m' = m\<lparr>cm_scope_is_active := True\<rparr>" "rl_actions (cm_log m) = []"
    by (auto simp: cm_scope_open_def panic_simps)
  have "cm_entry S m' = cm_entry S m" "cm_core_ok S m'"
    using assms(1) by (simp_all add: m' cm_ok_def)
  with m' show ?thesis by (simp add: cm_ok_def cm_base_def)
qed

lemma cm_scope_close_refines:
  assumes spec: "cm_spec_ok S" and ok: "cm_ok S m" and close: "cm_scope_close S m mode = Some m'"
  shows "cm_ok S m' \<and> cm_entry S m' = (case mode of Persist \<Rightarrow> cm_entry S m | Discard \<Rightarrow> cm_base S m) \<and>
    \<not> cm_scope_is_active m'"
proof -
  let ?m = "m\<lparr>cm_scope_is_active := False, cm_log := (cm_log m)\<lparr>rl_actions := []\<rparr>\<rparr>"
  have m: "cm_entry S ?m = cm_entry S m" "cm_core_ok S ?m"
    using ok by (simp_all add: cm_ok_def)
  show ?thesis
  proof (cases mode)
    case Persist
    with close have "m' = ?m" by (auto simp: cm_scope_close_def panic_simps)
    with m Persist show ?thesis by (simp add: cm_ok_def)
  next
    case Discard
    let ?acts = "rev (rl_actions (cm_log m))"
    from close Discard obtain m1 where m1: "cm_replay_all S ?acts ?m = Some m1"
      and m': "m' = m1\<lparr>cm_log := (cm_log m1)\<lparr>rl_actions := []\<rparr>\<rparr>"
      by (auto simp: cm_scope_close_def panic_simps)
    have "log_undoable S ?acts (cm_entry S ?m)" using ok m(1) by (simp add: cm_ok_def)
    from cm_replay_all_refines [OF spec m(2) _ this m1]
    have r: "cm_core_ok S m1" "cm_entry S m1 = fold (undo_action S) ?acts (cm_entry S m)" "same_scope ?m m1"
      using m(1) by auto
    have "cm_entry S m' = cm_entry S m1" "cm_core_ok S m'"
      using r(1) by (simp_all add: m')
    with r Discard show ?thesis
      by (simp add: m' cm_ok_def cm_base_def same_scope_def foldr_conv_fold)
  qed
qed

text \<open>A discard always completes when the stash has room for the values the replay may displace.\<close>

lemma cm_replay_total:
  assumes ok: "cm_core_ok S m" and scope: "\<not> cm_scope_is_active m"
    and can: "undoable S action (cm_entry S m)" and plain: "\<forall>k. action \<noteq> RestoreTombstone k"
    and room: "length (cm_stash m) < co_stash_value_count_max (cm_options m)"
  shows "\<exists>m'. cm_replay S action m = Some m'"
proof (cases action)
  case (Restore v)
  then have live: "\<not> sp_tombstone S v" using can by (simp add: undoable_def)
  obtain old m1 where m1: "fetch_upsert S m v = Some (old, m1)" using fetch_upsert_total [OF ok room] by blast
  from fetch_upsert_refines [OF ok live m1] scope have "\<not> cm_scope_is_active m1"
    by (simp add: upserted_ok_def same_scope_def)
  with Restore live m1 show ?thesis by (simp add: cm_replay_def cm_upsert_def)
next
  case (Remove k)
  from cache_remove_refines [OF ok, of k] obtain m1 where
    m1: "cache_remove S m k = Some (cm_cached S m k, m1)" "cm_stash m1 = cm_stash m" "same_scope m m1" by blast
  from can Remove obtain v where "cm_entry S m k = Found v" by (auto simp: undoable_def)
  then have "cm_cached S m k \<noteq> None \<longleftrightarrow> hm_get (cm_stash m) k = None"
    using ok by (cases "cm_cached S m k"; cases "hm_get (cm_stash m) k")
      (auto simp: cm_entry_def cm_core_ok_def)
  with m1 Remove room show ?thesis
    by (auto simp: cm_replay_def stash_remove_def stash_within_def same_scope_def Let_def split: option.split)
qed (use plain in blast)

lemma cm_replay_all_total:
  assumes spec: "cm_spec_ok S" and "cm_core_ok S m" "\<not> cm_scope_is_active m"
    and "log_undoable S actions (cm_entry S m)" "\<forall>k. RestoreTombstone k \<notin> set actions"
    and "length actions + length (cm_stash m) \<le> co_stash_value_count_max (cm_options m)"
  shows "\<exists>m'. cm_replay_all S actions m = Some m'"
  using assms(2-)
proof (induction actions arbitrary: m)
  case (Cons a rest)
  then have can: "undoable S a (cm_entry S m)" and room: "length (cm_stash m) < co_stash_value_count_max (cm_options m)"
    by auto
  from Cons.prems(4) have "\<forall>k. a \<noteq> RestoreTombstone k" by auto
  from cm_replay_total [OF Cons.prems(1,2) can this room] obtain m1 where m1: "cm_replay S a m = Some m1" by blast
  from cm_replay_refines [OF spec Cons.prems(1,2) can m1] Cons.prems
  have "\<exists>m'. cm_replay_all S rest m1 = Some m'"
    by (intro Cons.IH) (auto simp: same_scope_def)
  with m1 show ?case by simp
qed simp

lemma cm_discard_total:
  assumes spec: "cm_spec_ok S" and ok: "cm_ok S m" and scope: "cm_scope_is_active m"
    and plain: "\<forall>k. RestoreTombstone k \<notin> set (rl_actions (cm_log m))"
    and room: "length (rl_actions (cm_log m)) + length (cm_stash m) \<le> co_stash_value_count_max (cm_options m)"
  shows "\<exists>m'. cm_scope_close S m Discard = Some m'"
proof -
  let ?m = "m\<lparr>cm_scope_is_active := False, cm_log := (cm_log m)\<lparr>rl_actions := []\<rparr>\<rparr>"
  have "\<exists>m'. cm_replay_all S (rev (rl_actions (cm_log m))) ?m = Some m'"
    using ok plain room by (intro cm_replay_all_total [OF spec]) (simp_all add: cm_ok_def)
  with scope show ?thesis by (auto simp: cm_scope_close_def)
qed

lemma cm_new_empty:
  assumes new: "cm_new S options = Some m" and layout: "program_layout S"
    and small: "co_cache_value_count_max options < 2 ^ 64"
  shows "cm_ok S m" "cm_entry S m k = NotFound" "\<not> cm_scope_is_active m" "cm_stash m = []"
proof -
  from new obtain cache where m: "m = \<lparr>cm_cache = cache, cm_stash = [], cm_scope_is_active = False,
      cm_log = \<lparr>rl_actions = [], rl_capacity = co_scope_value_count_max options\<rparr>, cm_options = options\<rparr>"
    and cache: "(if co_cache_value_count_max options \<noteq> 0
       then map_option Some (sac_new S (co_cache_value_count_max options)) else Some None) = Some cache"
    by (auto simp: cm_new_def bind_Some_iff)
  have "case cache of None \<Rightarrow> True | Some c \<Rightarrow> sac_ok S c \<and> sac_view S c = Map.empty"
    using cache sac_new_empty [OF _ layout small] by (auto split: if_splits option.split)
  then show "cm_ok S m" "cm_entry S m k = NotFound" "\<not> cm_scope_is_active m" "cm_stash m = []"
    by (auto simp: m cm_ok_def cm_core_ok_def cm_cached_def cm_entry_def split: option.splits)
qed

text \<open>A cache map over any sound spec is an \<open>objects_cache\<close>.\<close>

lemma cm_objects_cache:
  assumes spec: "cm_spec_ok S"
  shows "objects_cache (cm_ok S) (cm_entry S) (cm_base S) cm_scope_is_active (sp_key S)
    (\<lambda>v. \<not> sp_tombstone S v) (cm_get S) (cm_upsert S) cm_scope_open (cm_scope_close S)"
proof
  fix m :: "('a, 'b) cm" and k v m' mode
  show "sp_key S v = k \<and> \<not> sp_tombstone S v" if "cm_ok S m" "cm_entry S m k = Found v"
    using that by (intro cm_entry_found) (simp_all add: cm_ok_def)
  show "\<exists>m'. cm_get S m k = Some (entry_value (cm_entry S m k), m') \<and> cm_ok S m' \<and>
      cm_entry S m' = cm_entry S m \<and> cm_base S m' = cm_base S m \<and>
      cm_scope_is_active m' = cm_scope_is_active m" if "cm_ok S m"
    using that cm_get_refines [of S m k] unfolding cm_ok_def cm_base_def same_scope_def by auto
  show "cm_ok S m' \<and> cm_entry S m' = (cm_entry S m)(sp_key S v := Found v) \<and>
      cm_scope_is_active m' = cm_scope_is_active m \<and>
      (cm_scope_is_active m \<longrightarrow> cm_base S m' = cm_base S m)"
    if "cm_ok S m" "\<not> sp_tombstone S v" "cm_upsert S m v = Some m'"
    using that by (rule cm_upsert_refines)
  show "cm_ok S m' \<and> cm_entry S m' = cm_entry S m \<and> cm_base S m' = cm_entry S m \<and> cm_scope_is_active m'"
    if "cm_ok S m" "cm_scope_open m = Some m'"
    using that by (rule cm_scope_open_refines)
  show "cm_ok S m' \<and> cm_entry S m' = (case mode of Persist \<Rightarrow> cm_entry S m | Discard \<Rightarrow> cm_base S m) \<and>
      \<not> cm_scope_is_active m'" if "cm_ok S m" "cm_scope_close S m mode = Some m'"
    using spec that by (rule cm_scope_close_refines)
qed

end
