(* ===== verification/Grooves.thy ===== *)
theory Grooves
  imports Types Hash CacheMap
begin

text \<open>
  The objects caches of \<open>crates/tigerbeetle-vsr/src/groove.rs\<close>: what \<open>CacheMap\<close> is instantiated with
  for accounts and transfers (keyed by id) and for pending-transfer statuses (keyed by timestamp),
  and the sizes the state machine gives them. Each instance interprets \<open>objects_cache\<close>.
\<close>

definition TOMBSTONE_BIT :: u64 where
  "TOMBSTONE_BIT = push_bit 63 1"

definition account_default :: account where
  "account_default = \<lparr>a_id = 0, a_debits_pending = 0, a_debits_posted = 0, a_credits_pending = 0,
     a_credits_posted = 0, a_user_data_128 = 0, a_user_data_64 = 0, a_user_data_32 = 0,
     a_reserved = 0, a_ledger = 0, a_code = 0, a_flags = 0, a_timestamp = 0\<rparr>"

definition transfer_default :: transfer where
  "transfer_default = \<lparr>t_id = 0, t_debit_account_id = 0, t_credit_account_id = 0, t_amount = 0,
     t_pending_id = 0, t_user_data_128 = 0, t_user_data_64 = 0, t_user_data_32 = 0, t_timeout = 0,
     t_ledger = 0, t_code = 0, t_flags = 0, t_timestamp = 0\<rparr>"

definition transfer_pending_default :: transfer_pending where
  "transfer_pending_default = \<lparr>tp_timestamp = 0, tp_status = StNone\<rparr>"

text \<open>\<open>low_level_hash\<close> always answers, so \<open>the\<close> below is never asked of a panic.\<close>

definition account_cache_spec :: "(u128, account) cm_spec" where
  "account_cache_spec = \<lparr>sp_key = a_id, sp_hash = (\<lambda>key. the (hash_inline_u128 key)),
     sp_ways = 16, sp_tag_bits = 8, sp_clock_bits = 2, sp_line = 64, sp_key_size = 16, sp_value_size = 128,
     sp_default = account_default,
     sp_tombstone_from_key = (\<lambda>key. Some (account_default\<lparr>a_id := key, a_timestamp := TOMBSTONE_BIT\<rparr>)),
     sp_tombstone = (\<lambda>v. a_timestamp v AND TOMBSTONE_BIT \<noteq> 0)\<rparr>"

definition transfer_cache_spec :: "(u128, transfer) cm_spec" where
  "transfer_cache_spec = \<lparr>sp_key = t_id, sp_hash = (\<lambda>key. the (hash_inline_u128 key)),
     sp_ways = 16, sp_tag_bits = 8, sp_clock_bits = 2, sp_line = 64, sp_key_size = 16, sp_value_size = 128,
     sp_default = transfer_default,
     sp_tombstone_from_key = (\<lambda>key. Some (transfer_default\<lparr>t_id := key, t_timestamp := TOMBSTONE_BIT\<rparr>)),
     sp_tombstone = (\<lambda>v. t_timestamp v AND TOMBSTONE_BIT \<noteq> 0)\<rparr>"

definition transfer_pending_cache_spec :: "(u64, transfer_pending) cm_spec" where
  "transfer_pending_cache_spec = \<lparr>sp_key = (\<lambda>v. tp_timestamp v AND NOT TOMBSTONE_BIT),
     sp_hash = (\<lambda>key. the (hash_inline_u64 key)),
     sp_ways = 16, sp_tag_bits = 8, sp_clock_bits = 2, sp_line = 64, sp_key_size = 8, sp_value_size = 16,
     sp_default = transfer_pending_default,
     sp_tombstone_from_key = (\<lambda>key. if key AND TOMBSTONE_BIT = 0
        then Some (transfer_pending_default\<lparr>tp_timestamp := key OR TOMBSTONE_BIT\<rparr>) else None),
     sp_tombstone = (\<lambda>v. tp_timestamp v AND TOMBSTONE_BIT \<noteq> 0)\<rparr>"

text \<open>Options of the state machine's caches; \<open>LSM_COMPACTION_OPS\<close> is a parameter of the
  configuration (32 in production, 4 in the test profile).\<close>

definition objects_cache_options :: "nat \<Rightarrow> cm_options" where
  "objects_cache_options lsm_compaction_ops =
     \<lparr>co_cache_value_count_max = 256, co_stash_value_count_max = lsm_compaction_ops * 32,
       co_scope_value_count_max = 32\<rparr>"

lemmas groove_defs [model_defs] = TOMBSTONE_BIT_def account_default_def transfer_default_def
  transfer_pending_default_def account_cache_spec_def transfer_cache_spec_def
  transfer_pending_cache_spec_def objects_cache_options_def

lemma tombstone_bit_live: "key AND TOMBSTONE_BIT = 0 \<Longrightarrow> key AND NOT TOMBSTONE_BIT = key"
proof (rule bit_word_eqI)
  fix n assume n: "key AND TOMBSTONE_BIT = 0" "n < LENGTH(64)"
  have "bit (key AND TOMBSTONE_BIT) n = bit (0 :: u64) n" using n by simp
  then show "bit (key AND NOT TOMBSTONE_BIT) n = bit key n" using n(2) by (auto simp: bit_simps)
qed

lemma tombstone_bit_key: "key AND TOMBSTONE_BIT = 0 \<Longrightarrow> (key OR TOMBSTONE_BIT) AND NOT TOMBSTONE_BIT = key"
proof -
  assume live: "key AND TOMBSTONE_BIT = 0"
  have "(key OR TOMBSTONE_BIT) AND NOT TOMBSTONE_BIT = key AND NOT TOMBSTONE_BIT"
    by (rule bit_word_eqI) (auto simp: bit_simps)
  with tombstone_bit_live [OF live] show ?thesis by simp
qed

lemma tombstone_bit_or: "(key OR TOMBSTONE_BIT) AND TOMBSTONE_BIT \<noteq> 0"
proof -
  have "bit ((key OR TOMBSTONE_BIT) AND TOMBSTONE_BIT) 63" by (simp add: TOMBSTONE_BIT_def bit_simps)
  then show ?thesis by (metis bit_0_eq bot_apply bot_bool_def)
qed

lemma tombstone_bit_clear: "unat ts < 2 ^ 63 \<Longrightarrow> ts AND TOMBSTONE_BIT = 0"
proof -
  assume small: "unat ts < 2 ^ 63"
  have "\<not> bit ts 63"
  proof
    assume "bit ts 63"
    then have "bit (unat ts) 63" by (simp add: bit_unsigned_iff)
    then have "odd (unat ts div 2 ^ 63)" by (simp add: bit_iff_odd)
    moreover have "unat ts div 2 ^ 63 = 0" using small by simp
    ultimately show False by simp
  qed
  then show ?thesis using and_exp_nonzero_iff_bit [of 63 ts] by (simp add: TOMBSTONE_BIT_def)
qed

lemma groove_specs_ok:
  "cm_spec_ok account_cache_spec" "cm_spec_ok transfer_cache_spec" "cm_spec_ok transfer_pending_cache_spec"
proof -
  have "TOMBSTONE_BIT AND TOMBSTONE_BIT \<noteq> 0" by (simp add: TOMBSTONE_BIT_def)
  then show "cm_spec_ok account_cache_spec" "cm_spec_ok transfer_cache_spec"
    by (simp_all add: cm_spec_ok_def sac_spec_ok_def account_cache_spec_def transfer_cache_spec_def)
  show "cm_spec_ok transfer_pending_cache_spec"
    using tombstone_bit_key tombstone_bit_or
    by (auto simp: cm_spec_ok_def sac_spec_ok_def transfer_pending_cache_spec_def transfer_pending_default_def)
qed

lemma groove_layouts:
  "program_layout account_cache_spec" "program_layout transfer_cache_spec" "program_layout transfer_pending_cache_spec"
  by (simp_all add: program_layout_def account_cache_spec_def transfer_cache_spec_def transfer_pending_cache_spec_def)

interpretation accounts_objects: objects_cache "cm_ok account_cache_spec" "cm_entry account_cache_spec"
  "cm_base account_cache_spec" cm_scope_is_active "sp_key account_cache_spec"
  "\<lambda>v. \<not> sp_tombstone account_cache_spec v" "cm_get account_cache_spec" "cm_upsert account_cache_spec"
  cm_scope_open "cm_scope_close account_cache_spec"
  by (rule cm_objects_cache [OF groove_specs_ok(1)])

interpretation transfers_objects: objects_cache "cm_ok transfer_cache_spec" "cm_entry transfer_cache_spec"
  "cm_base transfer_cache_spec" cm_scope_is_active "sp_key transfer_cache_spec"
  "\<lambda>v. \<not> sp_tombstone transfer_cache_spec v" "cm_get transfer_cache_spec" "cm_upsert transfer_cache_spec"
  cm_scope_open "cm_scope_close transfer_cache_spec"
  by (rule cm_objects_cache [OF groove_specs_ok(2)])

interpretation transfers_pending_objects: objects_cache "cm_ok transfer_pending_cache_spec"
  "cm_entry transfer_pending_cache_spec" "cm_base transfer_pending_cache_spec" cm_scope_is_active
  "sp_key transfer_pending_cache_spec" "\<lambda>v. \<not> sp_tombstone transfer_pending_cache_spec v"
  "cm_get transfer_pending_cache_spec" "cm_upsert transfer_pending_cache_spec"
  cm_scope_open "cm_scope_close transfer_pending_cache_spec"
  by (rule cm_objects_cache [OF groove_specs_ok(3)])

end
