(* ===== verification/Chains.thy ===== *)
theory Chains
  imports Prelude
begin

text \<open>
  Linked chains of events, shared by the account and transfer batches of
  \<open>crates/tigerbeetle-vsr/src/state_machine.rs\<close>: consecutive events whose \<open>linked\<close> flag is set
  belong to one chain with the event after them, and a chain commits or rolls back as one.

  The locale \<open>linked_batch\<close> is the bookkeeping both batch loops do, over what the client fixes:
  which events are linked, which results mean created, how a failed member is marked, and what a
  created event does to the state. Its two lemmas advance the loop invariant over one event.
\<close>

definition mark_failed :: "('r \<Rightarrow> 'r) \<Rightarrow> nat \<Rightarrow> 'r list \<Rightarrow> 'r list" where
  "mark_failed fail start results = take start results @ map fail (drop start results)"

locale linked_batch =
  fixes linked :: "'e \<Rightarrow> bool"
    and created :: "'r \<Rightarrow> bool"
    and fail :: "'r \<Rightarrow> 'r"
    and apply_event :: "'s \<Rightarrow> 'e \<Rightarrow> 'r \<Rightarrow> 's"
  assumes fail_not_created [simp]: "\<not> created (fail r)"
    and apply_not_created: "\<not> created r \<Longrightarrow> apply_event s e r = s"
begin

definition applied :: "'s \<Rightarrow> 'e list \<Rightarrow> 'r list \<Rightarrow> 's" where
  "applied s events results = foldl (\<lambda>s (e, r). apply_event s e r) s (zip events results)"

definition atomic :: "'e list \<Rightarrow> 'r list \<Rightarrow> bool" where
  "atomic events results \<longleftrightarrow>
     (\<forall>i. Suc i < length results \<longrightarrow> linked (events ! i) \<longrightarrow>
        (created (results ! i) \<longleftrightarrow> created (results ! Suc i)))"

lemma applied_Nil [simp]: "applied s events [] = s"
  by (simp add: applied_def)

lemma atomic_Nil [simp]: "atomic events []"
  by (simp add: atomic_def)

lemma applied_snoc:
  "k < length events \<Longrightarrow> length results = k \<Longrightarrow>
     applied s (take (Suc k) events) (results @ [r]) =
     apply_event (applied s (take k events) results) (events ! k) r"
  by (simp add: applied_def take_Suc_conv_app_nth)

lemma applied_none: "list_all (\<lambda>r. \<not> created r) results \<Longrightarrow> applied s events results = s"
proof (induction results arbitrary: s events)
  case (Cons r results)
  then show ?case by (cases events) (auto simp: applied_def apply_not_created)
qed simp

lemma applied_split:
  assumes "n \<le> length results" "length results \<le> length events"
  shows "applied s events results =
    applied (applied s (take n events) (take n results)) (drop n events) (drop n results)"
proof -
  have "zip events results = zip (take n events @ drop n events) (take n results @ drop n results)" by simp
  also have "\<dots> = zip (take n events) (take n results) @ zip (drop n events) (drop n results)"
    using assms by (subst zip_append) auto
  finally show ?thesis by (simp add: applied_def)
qed

lemma mark_failed_simps [simp]:
  "mark_failed fail n results = [] \<longleftrightarrow> results = []"
  "length (mark_failed fail n results) = length results"
  "n \<le> length results \<Longrightarrow> take n (mark_failed fail n results) = take n results"
  "n \<le> length results \<Longrightarrow> drop n (mark_failed fail n results) = map fail (drop n results)"
  "i < length results \<Longrightarrow> created (mark_failed fail n results ! i) \<longleftrightarrow> i < n \<and> created (results ! i)"
  by (auto simp: mark_failed_def nth_append min_def)

lemma applied_mark_failed:
  assumes "n \<le> length results" "length results \<le> length events"
  shows "applied s events (mark_failed fail n results) = applied s (take n events) (take n results)"
proof -
  have "list_all (\<lambda>r. \<not> created r) (drop n (mark_failed fail n results))"
    using assms by (auto simp: list_all_iff)
  then show ?thesis
    using applied_split [of n "mark_failed fail n results" events s] assms
    by (simp add: applied_none)
qed

lemma atomic_snoc:
  "atomic events (results @ [r]) \<longleftrightarrow> atomic events results \<and>
     (results \<noteq> [] \<longrightarrow> linked (events ! (length results - 1)) \<longrightarrow>
       (created (results ! (length results - 1)) \<longleftrightarrow> created r))"
proof (cases "length results")
  case 0
  then show ?thesis by (simp add: atomic_def)
next
  case (Suc m)
  from Suc have "results \<noteq> []" by auto
  with Suc show ?thesis
    unfolding atomic_def by (simp add: All_less_Suc) (auto simp: nth_append)
qed

lemma atomic_mark_failed:
  assumes "atomic events results" "n \<le> length results" "0 < n \<longrightarrow> \<not> linked (events ! (n - 1))"
  shows "atomic events (mark_failed fail n results)"
  unfolding atomic_def
proof (intro allI impI)
  fix i assume i: "Suc i < length (mark_failed fail n results)" "linked (events ! i)"
  then have "Suc i \<noteq> n" using assms(3) by auto
  with i assms(1) show "created (mark_failed fail n results ! i) \<longleftrightarrow> created (mark_failed fail n results ! Suc i)"
    by (auto simp: atomic_def)
qed

text \<open>
  The invariant after \<open>k\<close> events: the current state is the base state with exactly the created
  events applied; chains are atomic; and while a chain is open and unbroken, the snapshot its
  rollback would restore is the state before its first event.
\<close>

definition chain_ok :: "'s \<Rightarrow> 'e list \<Rightarrow> nat \<Rightarrow> 'r list \<Rightarrow> nat option \<Rightarrow> bool \<Rightarrow> 's \<Rightarrow> 's \<Rightarrow> bool" where
  "chain_ok s events k results chain broken current snapshot \<longleftrightarrow>
     k \<le> length events \<and> length results = k \<and>
     current = applied s (take k events) results \<and> atomic events results \<and>
     (case chain of
        None \<Rightarrow> \<not> broken \<and> (0 < k \<longrightarrow> k < length events \<longrightarrow> \<not> linked (events ! (k - 1)))
      | Some n \<Rightarrow> n < k \<and> (0 < n \<longrightarrow> \<not> linked (events ! (n - 1))) \<and>
          (\<forall>i. n \<le> i \<longrightarrow> i < k \<longrightarrow> (created (results ! i) \<longleftrightarrow> \<not> broken)) \<and>
          (\<not> broken \<longrightarrow> snapshot = applied s (take n events) (take n results)))"

lemma chain_ok_init: "chain_ok s events 0 [] None False s snapshot"
  by (simp add: chain_ok_def)

lemma chain_ok_record:
  assumes inv: "chain_ok s events k results chain broken current snapshot" and k: "k < length events"
    and chain': "chain' = (if linked (events ! k) \<and> chain = None then Some k else chain)"
    and r: "created r \<longrightarrow> \<not> broken"
    and current': "current' = apply_event current (events ! k) r"
    and snapshot': "chain' \<noteq> None \<longrightarrow> \<not> broken \<longrightarrow> snapshot' = (if chain = None then current else snapshot)"
  shows "chain' = None \<or> broken \<or> created r \<Longrightarrow>
      chain_ok s events (Suc k) (results @ [r]) chain' broken current' snapshot'"
    and "chain' = Some n \<Longrightarrow> \<not> broken \<Longrightarrow> \<not> created r \<Longrightarrow>
      chain_ok s events (Suc k) (mark_failed fail n results @ [r]) chain' True snapshot' any"
proof -
  have len: "length results = k" and at: "atomic events results"
    and cur: "current = applied s (take k events) results"
    using inv by (simp_all add: chain_ok_def)
  have entry: "current' = applied s (take (Suc k) events) (results @ [r])"
    unfolding applied_snoc [OF k len] current' cur ..
  have members: "n \<le> k \<and> (0 < n \<longrightarrow> \<not> linked (events ! (n - 1))) \<and>
      (\<forall>i. n \<le> i \<longrightarrow> i < k \<longrightarrow> (created (results ! i) \<longleftrightarrow> \<not> broken))" if "chain' = Some n" for n
    using inv k that unfolding chain' by (auto simp: chain_ok_def split: if_splits option.splits)
  have snap: "snapshot' = applied s (take n events) (take n results)" if c: "chain' = Some n" "\<not> broken" for n
  proof (cases chain)
    case None
    then have "n = k" using c chain' by (auto split: if_splits)
    with None c snapshot' cur len show ?thesis by simp
  next
    case (Some m)
    then have "m = n" using c chain' by simp
    with Some c snapshot' inv show ?thesis by (simp add: chain_ok_def)
  qed
  have pair: "k \<noteq> 0 \<and> linked (events ! (k - 1)) \<longrightarrow> n \<le> k - 1 \<and> k - 1 < k" if "chain' = Some n" for n
    using members [OF that] by (cases "n = k") auto
  show "chain_ok s events (Suc k) (results @ [r]) chain' broken current' snapshot'"
    if "chain' = None \<or> broken \<or> created r"
  proof (cases chain')
    case None
    then have "chain = None" "\<not> linked (events ! k)" "\<not> broken"
      using chain' inv by (auto simp: chain_ok_def split: if_splits)
    moreover from this have "atomic events (results @ [r])"
      using inv k len at by (auto simp: atomic_snoc chain_ok_def)
    ultimately show ?thesis using None k len entry by (simp add: chain_ok_def)
  next
    case (Some n)
    then have cr: "created r \<longleftrightarrow> \<not> broken" using that r by auto
    have "atomic events (results @ [r])"
      using at len members [OF Some] pair [OF Some] cr by (auto simp: atomic_snoc)
    moreover have "\<forall>i. n \<le> i \<longrightarrow> i < Suc k \<longrightarrow> (created ((results @ [r]) ! i) \<longleftrightarrow> \<not> broken)"
      using members [OF Some] len cr by (auto simp: nth_append less_Suc_eq)
    ultimately show ?thesis
      using Some k len entry members [OF Some] snap [OF Some] by (simp add: chain_ok_def)
  qed
  show "chain_ok s events (Suc k) (mark_failed fail n results @ [r]) chain' True snapshot' any"
    if c: "chain' = Some n" "\<not> broken" "\<not> created r"
  proof -
    let ?rs = "mark_failed fail n results @ [r]"
    note m = members [OF c(1)]
    have "applied s (take (Suc k) events) ?rs =
        apply_event (applied s (take k events) (mark_failed fail n results)) (events ! k) r"
      using k len by (intro applied_snoc) simp_all
    also have "\<dots> = applied s (take k events) (mark_failed fail n results)"
      by (rule apply_not_created [OF c(3)])
    also have "\<dots> = applied s (take n events) (take n results)"
      using applied_mark_failed [of n results "take k events" s] k len m by (simp add: min_absorb1)
    finally have entry': "snapshot' = applied s (take (Suc k) events) ?rs"
      using snap [OF c(1,2)] by simp
    have "atomic events (mark_failed fail n results)"
      using atomic_mark_failed [OF at] m len by simp
    then have at': "atomic events ?rs"
      using len pair [OF c(1)] c(3) by (auto simp: atomic_snoc)
    have "\<forall>i. n \<le> i \<longrightarrow> i < Suc k \<longrightarrow> \<not> created (?rs ! i)"
      using len c(3) by (auto simp: nth_append less_Suc_eq)
    with k len entry' at' m c(1) show ?thesis by (simp add: chain_ok_def)
  qed
qed

lemma chain_ok_complete:
  assumes "chain_ok s events (Suc k) results chain broken current snapshot"
    and "Suc k < length events \<longrightarrow> \<not> linked (events ! k)"
  shows "chain_ok s events (Suc k) results None False current any"
  using assms by (simp add: chain_ok_def)

lemma chain_ok_done:
  assumes "chain_ok s events (length events) results None broken current snapshot"
  shows "length results = length events" "current = applied s events results" "atomic events results"
  using assms by (simp_all add: chain_ok_def)

end

end
