(* ===== verification/BatchAccounts.thy ===== *)
theory BatchAccounts
  imports Prefetch Accounting Grooves Chains
begin

text \<open>
  \<open>execute_create_accounts\<close> of \<open>crates/tigerbeetle-vsr/src/state_machine.rs\<close>: a batch of account
  creations over the persistent objects cache, with linked chains that commit or roll back as one.

  The loop body is split in three, as in the source: the labelled block \<open>'result\<close>
  (\<open>ca_evaluate\<close>), the breaking of a chain (\<open>ca_chain_error\<close>) and the completion of one
  (\<open>ca_chain_complete\<close>). The theorems relate the cache the batch leaves behind to the results it
  reports: exactly the events answered \<open>Created\<close> are there.
\<close>

record CreateAccountResult =
  car_status :: CreateAccountStatus
  car_timestamp :: u64

record ca_state =
  ca_objects :: "(u128, account) cm"
  ca_results :: "CreateAccountResult list"
  ca_chain :: "nat option"
  ca_broken :: bool
  ca_key_max :: u64

text \<open>\<open>timestamp - events.len() as u64 + index as u64 + 1\<close>.\<close>

definition event_timestamp :: "u64 \<Rightarrow> nat \<Rightarrow> nat \<Rightarrow> u64 option" where
  "event_timestamp timestamp len index =
     do { first \<leftarrow> checked_sub timestamp (of_nat len);
          current \<leftarrow> checked_add first (of_nat index);
          checked_add current 1 }"

text \<open>A linked event opens a chain unless one is open.\<close>

definition ca_open_chain :: "nat \<Rightarrow> account \<Rightarrow> ca_state \<Rightarrow> ca_state option" where
  "ca_open_chain index event st =
     (if af_linked (a_flags event) \<and> ca_chain st = None then
        do { ensure (\<not> ca_broken st);
             objects \<leftarrow> cm_scope_open (ca_objects st);
             Some (st\<lparr>ca_chain := Some index, ca_objects := objects\<rparr>) }
      else Some st)"

definition ca_regresses :: "account \<Rightarrow> u64 \<Rightarrow> account option \<Rightarrow> u64 \<Rightarrow> u64 set \<Rightarrow> account_prefetch_keys
    \<Rightarrow> bool option" where
  "ca_regresses event timestamp_event existing running_key_max transfer_timestamps prefetch =
     (if af_imported (a_flags event) \<and> existing = None then
        do { ensure (a_timestamp event \<noteq> 0);
             ensure (a_timestamp event \<le> timestamp_event);
             if a_timestamp event \<le> running_key_max \<or> a_timestamp event \<in> transfer_timestamps then
               do { ensure (pk_contains (apk_transfer_timestamps prefetch) (a_timestamp event)); Some True }
             else Some False }
      else Some False)"

definition ca_result_timestamp :: "account \<Rightarrow> u64 \<Rightarrow> account option \<Rightarrow> CreateAccountStatus \<Rightarrow> u64 option" where
  "ca_result_timestamp event timestamp_event existing status =
     (if status = CA_Created then
        Some (if af_imported (a_flags event) then a_timestamp event else timestamp_event)
      else if status = CA_Exists then map_option a_timestamp existing
      else Some timestamp_event)"

text \<open>Lookup, validation and insertion of an event that passed the chain and batch checks.\<close>

definition ca_apply :: "u64 \<Rightarrow> account_prefetch_keys \<Rightarrow> u64 set \<Rightarrow> account \<Rightarrow> u64 \<Rightarrow> ca_state
    \<Rightarrow> (CreateAccountStatus \<times> u64 \<times> ca_state) option" where
  "ca_apply timestamp prefetch transfer_timestamps event timestamp_event st =
     do { (existing, objects) \<leftarrow> cm_get account_cache_spec (ca_objects st) (a_id event);
          let st = st\<lparr>ca_objects := objects\<rparr>;
          ensure (existing = None \<longrightarrow> pk_contains (apk_account_ids prefetch) (a_id event));
          regresses \<leftarrow> ca_regresses event timestamp_event existing (ca_key_max st) transfer_timestamps prefetch;
          if regresses then Some (CA_ImportedEventTimestampMustNotRegress, timestamp_event, st)
          else
            do { status \<leftarrow> create_account event timestamp_event existing;
                 ts \<leftarrow> ca_result_timestamp event timestamp_event existing status;
                 if status = CA_Created then
                   do { objects \<leftarrow> cm_upsert account_cache_spec (ca_objects st) (event\<lparr>a_timestamp := ts\<rparr>);
                        Some (status, ts, st\<lparr>ca_objects := objects, ca_key_max := max (ca_key_max st) ts\<rparr>) }
                 else Some (status, ts, st) } }"

definition ca_evaluate :: "account list \<Rightarrow> u64 \<Rightarrow> account_prefetch_keys \<Rightarrow> u64 set \<Rightarrow> nat \<Rightarrow> account \<Rightarrow> ca_state
    \<Rightarrow> (CreateAccountStatus \<times> u64 \<times> ca_state) option" where
  "ca_evaluate events timestamp prefetch transfer_timestamps index event st =
     do { timestamp_event \<leftarrow> event_timestamp timestamp (length events) index;
          st \<leftarrow> ca_open_chain index event st;
          if af_linked (a_flags event) \<and> index = length events - 1 then
            Some (CA_LinkedEventChainOpen, timestamp_event, st)
          else if ca_broken st then Some (CA_LinkedEventFailed, timestamp_event, st)
          else if batch_imported_accounts events \<noteq> af_imported (a_flags event) then
            Some (if af_imported (a_flags event) then CA_ImportedEventNotExpected
                  else CA_ImportedEventExpected, timestamp_event, st)
          else if af_imported (a_flags event) \<and> (a_timestamp event = 0 \<or> timestamp \<le> a_timestamp event) then
            Some (CA_ImportedEventTimestampMustNotAdvance, timestamp_event, st)
          else if \<not> af_imported (a_flags event) \<and> a_timestamp event \<noteq> 0 then
            Some (CA_TimestampMustBeZero, timestamp_event, st)
          else ca_apply timestamp prefetch transfer_timestamps event timestamp_event st }"

definition fail_account :: "CreateAccountResult \<Rightarrow> CreateAccountResult" where
  "fail_account r = r\<lparr>car_status := CA_LinkedEventFailed\<rparr>"

definition ca_chain_error :: "CreateAccountStatus \<Rightarrow> ca_state \<Rightarrow> ca_state option" where
  "ca_chain_error status st =
     (case ca_chain st of
        Some chain_start \<Rightarrow>
          if status \<noteq> CA_Created \<and> \<not> ca_broken st then
            do { objects \<leftarrow> cm_scope_close account_cache_spec (ca_objects st) Discard;
                 Some (st\<lparr>ca_broken := True, ca_objects := objects,
                          ca_results := mark_failed fail_account chain_start (ca_results st)\<rparr>) }
          else Some st
      | None \<Rightarrow> Some st)"

definition ca_chain_complete :: "account \<Rightarrow> CreateAccountStatus \<Rightarrow> ca_state \<Rightarrow> ca_state option" where
  "ca_chain_complete event status st =
     (if ca_chain st \<noteq> None \<and> (\<not> af_linked (a_flags event) \<or> status = CA_LinkedEventChainOpen) then
        do { objects \<leftarrow> (if \<not> ca_broken st then cm_scope_close account_cache_spec (ca_objects st) Persist
                        else Some (ca_objects st));
             Some (st\<lparr>ca_objects := objects, ca_chain := None, ca_broken := False\<rparr>) }
      else Some st)"

definition ca_event :: "account list \<Rightarrow> u64 \<Rightarrow> account_prefetch_keys \<Rightarrow> u64 set \<Rightarrow> nat \<Rightarrow> account \<Rightarrow> ca_state
    \<Rightarrow> ca_state option" where
  "ca_event events timestamp prefetch transfer_timestamps index event st =
     do { (status, ts, st) \<leftarrow> ca_evaluate events timestamp prefetch transfer_timestamps index event st;
          st \<leftarrow> ca_chain_error status st;
          let st = st\<lparr>ca_results := ca_results st @ [\<lparr>car_status = status, car_timestamp = ts\<rparr>]\<rparr>;
          ca_chain_complete event status st }"

fun ca_loop :: "account list \<Rightarrow> u64 \<Rightarrow> account_prefetch_keys \<Rightarrow> u64 set \<Rightarrow> nat \<Rightarrow> account list \<Rightarrow> ca_state
    \<Rightarrow> ca_state option" where
  "ca_loop events timestamp prefetch transfer_timestamps index [] st = Some st"
| "ca_loop events timestamp prefetch transfer_timestamps index (event # rest) st =
     do { st \<leftarrow> ca_event events timestamp prefetch transfer_timestamps index event st;
          ca_loop events timestamp prefetch transfer_timestamps (Suc index) rest st }"

definition execute_create_accounts :: "account list \<Rightarrow> u64 \<Rightarrow> account_prefetch_keys \<Rightarrow> (u128, account) cm \<Rightarrow> u64
    \<Rightarrow> u64 set \<Rightarrow> (CreateAccountResult list \<times> (u128, account) cm) option" where
  "execute_create_accounts events timestamp prefetch accounts_objects accounts_key_max transfer_timestamps =
     do { st \<leftarrow> ca_loop events timestamp prefetch transfer_timestamps 0 events
              \<lparr>ca_objects = accounts_objects, ca_results = [], ca_chain = None, ca_broken = False,
                ca_key_max = accounts_key_max\<rparr>;
          ensure (ca_chain st = None);
          ensure (\<not> ca_broken st);
          Some (ca_results st, ca_objects st) }"

lemmas batch_accounts_defs [model_defs] = event_timestamp_def ca_open_chain_def ca_regresses_def
  ca_result_timestamp_def ca_apply_def ca_evaluate_def fail_account_def mark_failed_def ca_chain_error_def
  ca_chain_complete_def ca_event_def execute_create_accounts_def

section \<open>What a batch leaves behind\<close>

definition created :: "CreateAccountResult \<Rightarrow> bool" where
  "created r \<longleftrightarrow> car_status r = CA_Created"

definition apply_created :: "(u128 \<Rightarrow> account GetOrTombstone) \<Rightarrow> account \<Rightarrow> CreateAccountResult
    \<Rightarrow> u128 \<Rightarrow> account GetOrTombstone" where
  "apply_created e event r =
     (if created r then e(a_id event := Found (event\<lparr>a_timestamp := car_timestamp r\<rparr>)) else e)"

definition created_entries :: "(u128 \<Rightarrow> account GetOrTombstone) \<Rightarrow> account list \<Rightarrow> CreateAccountResult list
    \<Rightarrow> u128 \<Rightarrow> account GetOrTombstone" where
  "created_entries e events results = foldl (\<lambda>e (event, r). apply_created e event r) e (zip events results)"

definition chains_atomic :: "account list \<Rightarrow> CreateAccountResult list \<Rightarrow> bool" where
  "chains_atomic events results \<longleftrightarrow>
     (\<forall>i. Suc i < length results \<longrightarrow> af_linked (a_flags (events ! i)) \<longrightarrow>
        (created (results ! i) \<longleftrightarrow> created (results ! Suc i)))"

interpretation account_batch: linked_batch "\<lambda>event. af_linked (a_flags event)" created fail_account apply_created
  by unfold_locales (simp_all add: created_def fail_account_def apply_created_def)

lemma account_batch_defs:
  "account_batch.applied = created_entries" "account_batch.atomic = chains_atomic"
  by (simp_all add: fun_eq_iff account_batch.applied_def created_entries_def account_batch.atomic_def chains_atomic_def)

text \<open>
  The loop invariant after \<open>k\<close> events: that of a linked batch, on the entries of the cache and, as
  the snapshot of an open chain, the entries its scope would restore.
\<close>

definition ca_inv :: "(u128 \<Rightarrow> account GetOrTombstone) \<Rightarrow> account list \<Rightarrow> nat \<Rightarrow> ca_state \<Rightarrow> bool" where
  "ca_inv e events k st \<longleftrightarrow>
     cm_ok account_cache_spec (ca_objects st) \<and>
     (cm_scope_is_active (ca_objects st) \<longleftrightarrow> ca_chain st \<noteq> None \<and> \<not> ca_broken st) \<and>
     account_batch.chain_ok e events k (ca_results st) (ca_chain st) (ca_broken st)
       (cm_entry account_cache_spec (ca_objects st)) (cm_base account_cache_spec (ca_objects st))"

lemma create_account_not_chain:
  "create_account a ts ex = Some status \<Longrightarrow> status \<noteq> CA_LinkedEventChainOpen"
  by (auto simp: create_account_def create_account_exists_def split: if_splits option.splits)

text \<open>What evaluating event \<open>k\<close> does, before any chain handling.\<close>

definition ca_evaluated :: "account \<Rightarrow> nat \<Rightarrow> ca_state \<Rightarrow> CreateAccountStatus \<Rightarrow> u64 \<Rightarrow> ca_state \<Rightarrow> bool" where
  "ca_evaluated event k st status ts st' \<longleftrightarrow>
     ca_results st' = ca_results st \<and> ca_broken st' = ca_broken st \<and>
     ca_chain st' = (if af_linked (a_flags event) \<and> ca_chain st = None then Some k else ca_chain st) \<and>
     cm_ok account_cache_spec (ca_objects st') \<and>
     cm_entry account_cache_spec (ca_objects st') =
       (if status = CA_Created then (cm_entry account_cache_spec (ca_objects st))
          (a_id event := Found (event\<lparr>a_timestamp := ts\<rparr>))
        else cm_entry account_cache_spec (ca_objects st)) \<and>
     (cm_scope_is_active (ca_objects st') \<longleftrightarrow> ca_chain st' \<noteq> None \<and> \<not> ca_broken st') \<and>
     (ca_broken st \<longrightarrow> status \<noteq> CA_Created) \<and>
     (cm_scope_is_active (ca_objects st') \<longrightarrow> cm_base account_cache_spec (ca_objects st') =
       (if ca_chain st = None then cm_entry account_cache_spec (ca_objects st)
        else cm_base account_cache_spec (ca_objects st)))"

lemma ca_open_chain_evaluated:
  assumes ok: "cm_ok account_cache_spec (ca_objects st)"
    and scope: "cm_scope_is_active (ca_objects st) \<longleftrightarrow> ca_chain st \<noteq> None \<and> \<not> ca_broken st"
    and o: "ca_open_chain k event st = Some st'" and status: "status \<noteq> CA_Created"
  shows "ca_evaluated event k st status ts st'"
proof (cases "af_linked (a_flags event) \<and> ca_chain st = None")
  case True
  with o obtain objects where "cm_scope_open (ca_objects st) = Some objects" "\<not> ca_broken st"
    "st' = st\<lparr>ca_chain := Some k, ca_objects := objects\<rparr>"
    by (auto simp: ca_open_chain_def panic_simps)
  with accounts_objects.open_entry [OF ok] True status show ?thesis by (simp add: ca_evaluated_def)
next
  case False
  with o have "st' = st" by (auto simp: ca_open_chain_def)
  with ok scope False status show ?thesis by (auto simp: ca_evaluated_def)
qed

lemma account_live: "unat ts < 2 ^ 63 \<Longrightarrow> \<not> sp_tombstone account_cache_spec (a\<lparr>a_timestamp := ts\<rparr>)"
  using tombstone_bit_clear [of ts] by (simp add: account_cache_spec_def)

lemma account_cache_key [simp]: "sp_key account_cache_spec = a_id"
  by (simp add: account_cache_spec_def)

lemma event_timestamp_le:
  assumes "event_timestamp timestamp len index = Some te" "index < len" "len < 2 ^ 64"
  shows "unat te \<le> unat timestamp"
proof -
  have len: "unat (of_nat len :: u64) = len" "unat (of_nat index :: u64) = index"
    using assms(2,3) by (simp_all add: unsigned_of_nat take_bit_nat_eq_self)
  from assms(1) obtain a b where steps: "checked_sub timestamp (of_nat len) = Some a"
    "checked_add a (of_nat index) = Some b" "checked_add b 1 = Some te"
    by (auto simp: event_timestamp_def bind_Some_iff)
  have "unat a = unat timestamp - len" "len \<le> unat timestamp"
    using checked_sub_unat [OF steps(1)] steps(1) len by (simp_all add: checked_sub_eq_Some)
  moreover have "unat b = unat a + index" "unat te = unat b + 1"
    using checked_add_unat [OF steps(2)] checked_add_unat [OF steps(3)] len by simp_all
  ultimately show ?thesis using assms(2) by simp
qed

lemma ca_apply_effect:
  assumes ok: "cm_ok account_cache_spec (ca_objects st)"
    and small: "unat timestamp < 2 ^ 63" "unat te \<le> unat timestamp"
    and imported: "af_imported (a_flags event) \<longrightarrow> a_timestamp event < timestamp"
    and r: "ca_apply timestamp prefetch transfer_ts event te st = Some (status, ts, st')"
  shows "\<exists>objs km. st' = st\<lparr>ca_objects := objs, ca_key_max := km\<rparr> \<and> cm_ok account_cache_spec objs \<and>
    cm_entry account_cache_spec objs =
      (if status = CA_Created then (cm_entry account_cache_spec (ca_objects st))
         (a_id event := Found (event\<lparr>a_timestamp := ts\<rparr>))
       else cm_entry account_cache_spec (ca_objects st)) \<and>
    cm_scope_is_active objs = cm_scope_is_active (ca_objects st) \<and>
    (cm_scope_is_active objs \<longrightarrow> cm_base account_cache_spec objs = cm_base account_cache_spec (ca_objects st))"
proof -
  from accounts_objects.get_entry [OF ok, of "a_id event"] obtain o1 where
    get: "cm_get account_cache_spec (ca_objects st) (a_id event) =
      Some (entry_value (cm_entry account_cache_spec (ca_objects st) (a_id event)), o1)"
    and o1: "cm_ok account_cache_spec o1" "cm_entry account_cache_spec o1 = cm_entry account_cache_spec (ca_objects st)"
      "cm_base account_cache_spec o1 = cm_base account_cache_spec (ca_objects st)"
      "cm_scope_is_active o1 = cm_scope_is_active (ca_objects st)" by blast
  let ?same = "st' = st\<lparr>ca_objects := o1\<rparr> \<and> status \<noteq> CA_Created"
  let ?new = "status = CA_Created \<and>
     (\<exists>objs. cm_upsert account_cache_spec o1 (event\<lparr>a_timestamp := ts\<rparr>) = Some objs \<and>
       st' = st\<lparr>ca_objects := objs, ca_key_max := max (ca_key_max st) ts\<rparr>) \<and>
     ts = (if af_imported (a_flags event) then a_timestamp event else te)"
  from r get have "?same \<or> ?new"
    by (auto simp: ca_apply_def Let_def bind_Some_iff ca_result_timestamp_def split: if_splits)
  then show ?thesis
  proof
    assume ?same
    with o1 show ?thesis by (intro exI [of _ o1] exI [of _ "ca_key_max st"]) simp
  next
    assume ?new
    then obtain objs where created: "status = CA_Created"
      and up: "cm_upsert account_cache_spec o1 (event\<lparr>a_timestamp := ts\<rparr>) = Some objs"
      and st': "st' = st\<lparr>ca_objects := objs, ca_key_max := max (ca_key_max st) ts\<rparr>"
      and ts: "ts = (if af_imported (a_flags event) then a_timestamp event else te)" by blast
    have "unat ts < 2 ^ 63"
      using small imported ts by (auto simp: word_less_nat_alt split: if_splits)
    from accounts_objects.upsert_entry [OF o1(1) account_live [OF this] up] o1 created st' show ?thesis
      by (intro exI [of _ objs] exI [of _ "max (ca_key_max st) ts"]) simp
  qed
qed

lemma ca_evaluate_evaluated:
  assumes ok: "cm_ok account_cache_spec (ca_objects st)"
    and scope: "cm_scope_is_active (ca_objects st) \<longleftrightarrow> ca_chain st \<noteq> None \<and> \<not> ca_broken st"
    and small: "unat timestamp < 2 ^ 63" "k < length events" "length events < 2 ^ 64"
    and r: "ca_evaluate events timestamp prefetch transfer_ts k event st = Some (status, ts, st')"
  shows "ca_evaluated event k st status ts st'"
    "status = CA_LinkedEventChainOpen \<longleftrightarrow> af_linked (a_flags event) \<and> k = length events - 1"
proof -
  from r obtain te st1 where te: "event_timestamp timestamp (length events) k = Some te"
    and o: "ca_open_chain k event st = Some st1"
    by (auto simp: ca_evaluate_def bind_Some_iff)
  have te_le: "unat te \<le> unat timestamp" by (rule event_timestamp_le [OF te small(2,3)])
  note opened = ca_open_chain_evaluated [OF ok scope o]
  let ?apply = "ca_apply timestamp prefetch transfer_ts event te st1 = Some (status, ts, st') \<and>
     \<not> ca_broken st1 \<and> (af_imported (a_flags event) \<longrightarrow> a_timestamp event < timestamp) \<and>
     \<not> (af_linked (a_flags event) \<and> k = length events - 1)"
  have "(st' = st1 \<and> status \<noteq> CA_Created \<and>
      (status = CA_LinkedEventChainOpen \<longleftrightarrow> af_linked (a_flags event) \<and> k = length events - 1)) \<or> ?apply"
    using r te o by (auto simp: ca_evaluate_def split: if_splits)
  moreover have "ca_evaluated event k st status ts st' \<and> status \<noteq> CA_LinkedEventChainOpen" if a: ?apply
  proof -
    have st1: "ca_evaluated event k st CA_Exists 0 st1" by (rule opened) simp
    then have ok1: "cm_ok account_cache_spec (ca_objects st1)" by (simp add: ca_evaluated_def)
    from a obtain objs km where st': "st' = st1\<lparr>ca_objects := objs, ca_key_max := km\<rparr>"
      and e: "cm_ok account_cache_spec objs" "cm_entry account_cache_spec objs =
      (if status = CA_Created then (cm_entry account_cache_spec (ca_objects st1))
         (a_id event := Found (event\<lparr>a_timestamp := ts\<rparr>))
       else cm_entry account_cache_spec (ca_objects st1))"
      "cm_scope_is_active objs = cm_scope_is_active (ca_objects st1)"
      "cm_scope_is_active objs \<longrightarrow> cm_base account_cache_spec objs = cm_base account_cache_spec (ca_objects st1)"
      using ca_apply_effect [OF ok1 small(1) te_le] by blast
    have "status \<noteq> CA_LinkedEventChainOpen"
      using a by (auto simp: ca_apply_def Let_def bind_Some_iff dest!: create_account_not_chain split: if_splits)
    with st1 e a show ?thesis by (auto simp: ca_evaluated_def st')
  qed
  ultimately show "ca_evaluated event k st status ts st'"
    "status = CA_LinkedEventChainOpen \<longleftrightarrow> af_linked (a_flags event) \<and> k = length events - 1"
    using opened by blast+
qed

section \<open>The loop keeps the invariant\<close>

text \<open>Evaluating event \<open>k\<close>, breaking the chain if it failed, and recording its result.\<close>

lemma ca_record_inv:
  assumes inv: "ca_inv e events k st" and k: "k < length events"
    and ev: "ca_evaluated (events ! k) k st status ts st1"
    and err: "ca_chain_error status st1 = Some st2"
  shows "ca_inv e events (Suc k) (st2\<lparr>ca_results := ca_results st2 @ [\<lparr>car_status = status, car_timestamp = ts\<rparr>]\<rparr>)"
proof -
  let ?S = account_cache_spec
  let ?r = "\<lparr>car_status = status, car_timestamp = ts\<rparr>"
  let ?snap = "if ca_chain st = None then cm_entry ?S (ca_objects st) else cm_base ?S (ca_objects st)"
  have cr: "created ?r \<longleftrightarrow> status = CA_Created" by (simp add: created_def)
  have st1: "ca_results st1 = ca_results st" "ca_broken st1 = ca_broken st" "cm_ok ?S (ca_objects st1)"
    "cm_scope_is_active (ca_objects st1) \<longleftrightarrow> ca_chain st1 \<noteq> None \<and> \<not> ca_broken st1"
    "ca_chain st1 = (if af_linked (a_flags (events ! k)) \<and> ca_chain st = None then Some k else ca_chain st)"
    and entry1: "cm_entry ?S (ca_objects st1) = apply_created (cm_entry ?S (ca_objects st)) (events ! k) ?r"
    and base1: "ca_chain st1 \<noteq> None \<longrightarrow> \<not> ca_broken st \<longrightarrow> cm_base ?S (ca_objects st1) = ?snap"
    using ev by (simp_all add: ca_evaluated_def apply_created_def cr)
  have chain: "account_batch.chain_ok e events k (ca_results st) (ca_chain st) (ca_broken st)
      (cm_entry ?S (ca_objects st)) (cm_base ?S (ca_objects st))"
    using inv by (simp add: ca_inv_def)
  have healthy: "created ?r \<longrightarrow> \<not> ca_broken st"
    using ev cr by (auto simp: ca_evaluated_def)
  note advance = account_batch.chain_ok_record [OF chain k st1(5) healthy entry1 base1]
  show ?thesis
  proof (cases "ca_chain st1 = None \<or> ca_broken st \<or> created ?r")
    case True
    then have "st2 = st1" using err st1(2) cr by (auto simp: ca_chain_error_def split: option.splits if_splits)
    with advance(1) [OF True] st1 show ?thesis by (simp add: ca_inv_def)
  next
    case False
    then obtain n where n: "ca_chain st1 = Some n" and broke: "\<not> ca_broken st" "\<not> created ?r" by auto
    then obtain objects where close: "cm_scope_close ?S (ca_objects st1) Discard = Some objects"
      and st2: "st2 = st1\<lparr>ca_broken := True, ca_objects := objects,
        ca_results := mark_failed fail_account n (ca_results st)\<rparr>"
      using err st1(1,2) cr by (auto simp: ca_chain_error_def panic_simps)
    have "cm_scope_is_active (ca_objects st1)" using st1(2,4) n broke by simp
    from accounts_objects.close_entry [OF st1(3) this close]
    have "cm_ok ?S objects" "cm_entry ?S objects = cm_base ?S (ca_objects st1)" "\<not> cm_scope_is_active objects"
      by simp_all
    with advance(2) [OF n broke] st2 n show ?thesis by (simp add: ca_inv_def)
  qed
qed

lemma ca_complete_inv:
  assumes inv: "ca_inv e events (Suc k) st"
    and status: "status = CA_LinkedEventChainOpen \<longleftrightarrow> af_linked (a_flags (events ! k)) \<and> k = length events - 1"
    and c: "ca_chain_complete (events ! k) status st = Some st'"
  shows "ca_inv e events (Suc k) st'"
proof (cases "ca_chain st \<noteq> None \<and> (\<not> af_linked (a_flags (events ! k)) \<or> status = CA_LinkedEventChainOpen)")
  case False
  with c inv show ?thesis by (auto simp: ca_chain_complete_def split: if_splits)
next
  case True
  have ok: "cm_ok account_cache_spec (ca_objects st)"
    and scope: "cm_scope_is_active (ca_objects st) \<longleftrightarrow> \<not> ca_broken st"
    using inv True by (auto simp: ca_inv_def)
  have last: "Suc k < length events \<longrightarrow> \<not> af_linked (a_flags (events ! k))"
    using True status by auto
  from True c obtain objects where
    close: "(if \<not> ca_broken st then cm_scope_close account_cache_spec (ca_objects st) Persist
       else Some (ca_objects st)) = Some objects"
    and st': "st' = st\<lparr>ca_objects := objects, ca_chain := None, ca_broken := False\<rparr>"
    by (auto simp: ca_chain_complete_def bind_Some_iff)
  have "cm_ok account_cache_spec objects \<and> \<not> cm_scope_is_active objects \<and>
      cm_entry account_cache_spec objects = cm_entry account_cache_spec (ca_objects st)"
    using close ok scope accounts_objects.close_entry [OF ok, of Persist objects] by (cases "ca_broken st") simp_all
  then show ?thesis
    using inv st' by (auto simp: ca_inv_def intro: account_batch.chain_ok_complete [OF _ last])
qed

lemma ca_event_inv:
  assumes inv: "ca_inv e events k st" and k: "k < length events" "length events < 2 ^ 64" "unat timestamp < 2 ^ 63"
    and r: "ca_event events timestamp prefetch transfer_ts k (events ! k) st = Some st'"
  shows "ca_inv e events (Suc k) st'"
proof -
  from r obtain status ts st1 st2 where
    1: "ca_evaluate events timestamp prefetch transfer_ts k (events ! k) st = Some (status, ts, st1)"
    and 2: "ca_chain_error status st1 = Some st2"
    and 3: "ca_chain_complete (events ! k) status
      (st2\<lparr>ca_results := ca_results st2 @ [\<lparr>car_status = status, car_timestamp = ts\<rparr>]\<rparr>) = Some st'"
    by (auto simp: ca_event_def bind_Some_iff)
  have "cm_ok account_cache_spec (ca_objects st)"
    "cm_scope_is_active (ca_objects st) \<longleftrightarrow> ca_chain st \<noteq> None \<and> \<not> ca_broken st"
    using inv by (simp_all add: ca_inv_def)
  note ev = ca_evaluate_evaluated [OF this k(3,1,2) 1]
  show ?thesis by (rule ca_complete_inv [OF ca_record_inv [OF inv k(1) ev(1) 2] ev(2) 3])
qed

lemma ca_loop_inv:
  assumes "ca_inv e events k st" "rest = drop k events" "length events < 2 ^ 64" "unat timestamp < 2 ^ 63"
    and "ca_loop events timestamp prefetch transfer_ts k rest st = Some st'"
  shows "ca_inv e events (length events) st'"
  using assms
proof (induction rest arbitrary: k st)
  case Nil
  then have "k = length events" by (simp add: ca_inv_def account_batch.chain_ok_def)
  with Nil show ?case by simp
next
  case (Cons event rest)
  from Cons.prems(2) have k: "k < length events" by (metis drop_eq_Nil linorder_not_less list.distinct(1))
  with Cons.prems(2) have event: "event = events ! k" "rest = drop (Suc k) events"
    by (metis Cons_nth_drop_Suc list.inject)+
  from Cons.prems(5) obtain st1 where
    st1: "ca_event events timestamp prefetch transfer_ts k event st = Some st1"
    "ca_loop events timestamp prefetch transfer_ts (Suc k) rest st1 = Some st'"
    by (auto simp: bind_Some_iff)
  have "ca_inv e events (Suc k) st1"
    using ca_event_inv [OF Cons.prems(1) k Cons.prems(3,4)] st1(1) event by simp
  with Cons.IH event(2) Cons.prems(3,4) st1(2) show ?case by blast
qed

lemma execute_create_accounts_refines:
  assumes ok: "cm_ok account_cache_spec objects" "\<not> cm_scope_is_active objects"
    and small: "length events < 2 ^ 64" "unat timestamp < 2 ^ 63"
    and r: "execute_create_accounts events timestamp prefetch objects key_max transfer_ts = Some (results, objects')"
  shows "length results = length events" "cm_ok account_cache_spec objects'" "\<not> cm_scope_is_active objects'"
    "cm_entry account_cache_spec objects' =
       created_entries (cm_entry account_cache_spec objects) events results"
    "chains_atomic events results"
proof -
  let ?st = "\<lparr>ca_objects = objects, ca_results = [], ca_chain = None, ca_broken = False, ca_key_max = key_max\<rparr>"
  from r obtain st where st: "ca_loop events timestamp prefetch transfer_ts 0 events ?st = Some st"
    "ca_chain st = None" "results = ca_results st" "objects' = ca_objects st"
    by (auto simp: execute_create_accounts_def panic_simps)
  have "ca_inv (cm_entry account_cache_spec objects) events 0 ?st"
    using ok by (simp add: ca_inv_def account_batch.chain_ok_init)
  from ca_loop_inv [OF this _ small st(1)]
  have inv: "ca_inv (cm_entry account_cache_spec objects) events (length events) st" by simp
  then have "account_batch.chain_ok (cm_entry account_cache_spec objects) events (length events) (ca_results st)
      None (ca_broken st) (cm_entry account_cache_spec (ca_objects st)) (cm_base account_cache_spec (ca_objects st))"
    using st(2) by (simp add: ca_inv_def)
  from account_batch.chain_ok_done [OF this] inv st
  show "length results = length events" "cm_ok account_cache_spec objects'" "\<not> cm_scope_is_active objects'"
    "cm_entry account_cache_spec objects' =
       created_entries (cm_entry account_cache_spec objects) events results"
    "chains_atomic events results"
    by (simp_all add: ca_inv_def account_batch_defs)
qed

end
