(* ===== verification/BatchTransfers.thy ===== *)
theory BatchTransfers
  imports BatchAccounts
begin

text \<open>
  \<open>execute_create_transfers\<close> of \<open>crates/tigerbeetle-vsr/src/state_machine.rs\<close>: a batch of transfers
  over the three persistent objects caches (accounts, transfers, pending statuses), with linked
  chains, in-batch orphaned ids and the running key range.

  The loop body is cut at the source's own seams: opening a chain, the checks of the labelled
  block, the post/void branch (\<open>ct_post_void\<close>), the regular branch (\<open>ct_regular\<close>), the breaking and
  the completion of a chain.
\<close>

record CreateTransferResult =
  ctr_status :: CreateTransferStatus
  ctr_timestamp :: u64
  ctr_amount_actual :: u128

record ct_state =
  ct_accounts :: "(u128, account) cm"
  ct_transfers :: "(u128, transfer) cm"
  ct_pending :: "(u64, transfer_pending) cm"
  ct_results :: "CreateTransferResult list"
  ct_chain :: "nat option"
  ct_broken :: bool
  ct_key_max :: u64
  ct_key_max_snapshot :: "u64 option"
  ct_orphaned :: "u128 set"

text \<open>What the batch reads and never changes: the prefetched key sets, the committed account
  timestamps and the committed orphaned ids.\<close>

record ct_env =
  ce_events :: "transfer list"
  ce_timestamp :: u64
  ce_account_timestamps :: "u64 set"
  ce_account_timestamps_enqueued :: "u64 prefetch_keys"
  ce_is_orphaned :: "u128 \<Rightarrow> bool"
  ce_prefetch :: transfer_prefetch_keys

text \<open>An evaluated event: its status, result timestamp and applied amount.\<close>

type_synonym ct_verdict = "CreateTransferStatus \<times> u64 \<times> u128 \<times> ct_state"

definition ct_open_chain :: "nat \<Rightarrow> transfer \<Rightarrow> ct_state \<Rightarrow> ct_state option" where
  "ct_open_chain index event st =
     (if tf_linked (t_flags event) \<and> ct_chain st = None then
        do { ensure (\<not> ct_broken st);
             accounts \<leftarrow> cm_scope_open (ct_accounts st);
             transfers \<leftarrow> cm_scope_open (ct_transfers st);
             pendings \<leftarrow> cm_scope_open (ct_pending st);
             Some (st\<lparr>ct_chain := Some index, ct_accounts := accounts, ct_transfers := transfers,
                      ct_pending := pendings, ct_key_max_snapshot := Some (ct_key_max st)\<rparr>) }
      else Some st)"

definition read_cached_account :: "(u128, account) cm \<Rightarrow> transfer_prefetch_keys \<Rightarrow> u128
    \<Rightarrow> (account option \<times> (u128, account) cm) option" where
  "read_cached_account accounts_objects prefetch account_id =
     do { (account, accounts_objects) \<leftarrow> cm_get account_cache_spec accounts_objects account_id;
          ensure (account = None \<longrightarrow> pk_contains (tpk_account_ids prefetch) account_id);
          Some (account, accounts_objects) }"

definition ct_read_account :: "ct_env \<Rightarrow> u128 \<Rightarrow> ct_state \<Rightarrow> (account option \<times> ct_state) option" where
  "ct_read_account env account_id st =
     do { (account, accounts) \<leftarrow> read_cached_account (ct_accounts st) (ce_prefetch env) account_id;
          Some (account, st\<lparr>ct_accounts := accounts\<rparr>) }"

text \<open>A transfer lookup whose miss must have been prefetched.\<close>

definition ct_read_transfer :: "ct_env \<Rightarrow> u128 \<Rightarrow> ct_state \<Rightarrow> (transfer option \<times> ct_state) option" where
  "ct_read_transfer env transfer_id st =
     do { (t, transfers) \<leftarrow> cm_get transfer_cache_spec (ct_transfers st) transfer_id;
          ensure (t = None \<longrightarrow> pk_contains (tpk_transfer_ids (ce_prefetch env)) transfer_id);
          Some (t, st\<lparr>ct_transfers := transfers\<rparr>) }"

definition ct_upsert_accounts :: "account \<Rightarrow> account \<Rightarrow> ct_state \<Rightarrow> ct_state option" where
  "ct_upsert_accounts dr cr st =
     do { accounts \<leftarrow> cm_upsert account_cache_spec (ct_accounts st) dr;
          accounts \<leftarrow> cm_upsert account_cache_spec accounts cr;
          Some (st\<lparr>ct_accounts := accounts\<rparr>) }"

definition ct_upsert_transfer :: "transfer \<Rightarrow> ct_state \<Rightarrow> ct_state option" where
  "ct_upsert_transfer t st =
     do { transfers \<leftarrow> cm_upsert transfer_cache_spec (ct_transfers st) t;
          Some (st\<lparr>ct_transfers := transfers\<rparr>) }"

definition ct_upsert_pending :: "u64 \<Rightarrow> TransferPendingStatus \<Rightarrow> ct_state \<Rightarrow> ct_state option" where
  "ct_upsert_pending timestamp status st =
     do { pendings \<leftarrow> cm_upsert transfer_pending_cache_spec (ct_pending st)
                      \<lparr>tp_timestamp = timestamp, tp_status = status\<rparr>;
          Some (st\<lparr>ct_pending := pendings\<rparr>) }"

definition event_time :: "transfer \<Rightarrow> u64 \<Rightarrow> u64" where
  "event_time event timestamp_event =
     (if tf_imported (t_flags event) then t_timestamp event else timestamp_event)"

section \<open>Posting or voiding\<close>

definition ct_post_void_exists :: "transfer \<Rightarrow> u64 \<Rightarrow> transfer \<Rightarrow> transfer option \<Rightarrow> ct_state \<Rightarrow> ct_verdict option" where
  "ct_post_void_exists event timestamp_event e pending st =
     (if t_flags event \<noteq> t_flags e then Some (CT_ExistsWithDifferentFlags, timestamp_event, 0, st)
      else if t_pending_id event \<noteq> t_pending_id e then
        Some (CT_ExistsWithDifferentPendingId, timestamp_event, 0, st)
      else if t_timeout event \<noteq> t_timeout e then
        Some (CT_ExistsWithDifferentTimeout, timestamp_event, 0, st)
      else
        do { p \<leftarrow> pending;
             status \<leftarrow> post_or_void_pending_transfer_exists event e p;
             Some (status, if status = CT_Exists then t_timestamp e else timestamp_event, 0, st) })"

text \<open>A post or void that validated: the pending's status, both accounts and the stored record.\<close>

definition ct_post_void_apply :: "transfer \<Rightarrow> u64 \<Rightarrow> transfer \<Rightarrow> account \<Rightarrow> account \<Rightarrow> u128 \<Rightarrow> ct_state
    \<Rightarrow> ct_state option" where
  "ct_post_void_apply event ts p dr cr amount_actual st =
     do { st \<leftarrow> ct_upsert_pending (t_timestamp p)
                (if tf_post_pending_transfer (t_flags event) then StPosted else StVoided) st;
          (dr_new, cr_new) \<leftarrow> commit_post_void_accounts event p amount_actual dr cr;
          ensure (a_id dr_new = a_id dr);
          ensure (a_id cr_new = a_id cr);
          st \<leftarrow> ct_upsert_accounts dr_new cr_new st;
          stored \<leftarrow> fold_post_void_transfer event p amount_actual ts;
          ct_upsert_transfer stored st }"

definition ct_post_void_pending :: "ct_env \<Rightarrow> transfer \<Rightarrow> u64 \<Rightarrow> transfer \<Rightarrow> ct_state \<Rightarrow> ct_verdict option" where
  "ct_post_void_pending env event timestamp_event p st =
     do { (dr, st) \<leftarrow> ct_read_account env (t_debit_account_id p) st;
          dr \<leftarrow> dr;
          (cr, st) \<leftarrow> ct_read_account env (t_credit_account_id p) st;
          cr \<leftarrow> cr;
          (row, pendings) \<leftarrow> cm_get transfer_pending_cache_spec (ct_pending st) (t_timestamp p);
          let st = st\<lparr>ct_pending := pendings\<rparr>;
          let pending_status = (case row of None \<Rightarrow> StNone | Some row \<Rightarrow> tp_status row);
          ensure (pending_status = StNone \<longrightarrow>
            pk_contains (tpk_pending_timestamps (ce_prefetch env)) (t_timestamp p));
          result \<leftarrow> post_or_void_pending_transfer event timestamp_event p dr cr pending_status
            (ct_key_max st) (ce_account_timestamps env) (ce_account_timestamps_enqueued env);
          if pv_status result = CT_Created then
            do { let ts = event_time event timestamp_event;
                 st \<leftarrow> ct_post_void_apply event ts p dr cr (pv_amount_actual result) st;
                 Some (CT_Created, ts, pv_amount_actual result, st) }
          else Some (pv_status result, timestamp_event, pv_amount_actual result, st) }"

definition ct_post_void :: "ct_env \<Rightarrow> transfer \<Rightarrow> u64 \<Rightarrow> transfer option \<Rightarrow> ct_state \<Rightarrow> ct_verdict option" where
  "ct_post_void env event timestamp_event existing st =
     (if tf_has_padding (t_flags event) then Some (CT_ReservedFlag, timestamp_event, 0, st)
      else if t_id event = 0 then Some (CT_IdMustNotBeZero, timestamp_event, 0, st)
      else if t_id event = -1 then Some (CT_IdMustNotBeIntMax, timestamp_event, 0, st)
      else
        do { (pending, st) \<leftarrow> ct_read_transfer env (t_pending_id event) st;
             case existing of
               Some e \<Rightarrow> ct_post_void_exists event timestamp_event e pending st
             | None \<Rightarrow>
                 (case pending of
                    None \<Rightarrow> Some (CT_PendingTransferNotFound, timestamp_event, 0, st)
                  | Some p \<Rightarrow>
                      if \<not> tf_pending (t_flags p) then
                        Some (CT_PendingTransferNotPending, timestamp_event, 0, st)
                      else ct_post_void_pending env event timestamp_event p st) })"

section \<open>Regular and pending transfers\<close>

definition ct_regresses :: "ct_env \<Rightarrow> transfer \<Rightarrow> u64 \<Rightarrow> transfer option \<Rightarrow> ct_state \<Rightarrow> bool option" where
  "ct_regresses env event timestamp_event existing st =
     (if tf_imported (t_flags event) \<and> existing = None then
        do { ensure (t_timestamp event \<noteq> 0);
             ensure (t_timestamp event \<le> timestamp_event);
             ensure (pk_contains (ce_account_timestamps_enqueued env) (t_timestamp event));
             Some (t_timestamp event \<le> ct_key_max st \<or> t_timestamp event \<in> ce_account_timestamps env) }
      else Some False)"

definition ct_result_timestamp :: "transfer \<Rightarrow> u64 \<Rightarrow> transfer option \<Rightarrow> CreateTransferStatus \<Rightarrow> u64 option" where
  "ct_result_timestamp event timestamp_event existing status =
     (if status = CT_Created then Some (event_time event timestamp_event)
      else if status = CT_Exists then map_option t_timestamp existing
      else Some timestamp_event)"

definition ct_regular_apply :: "transfer \<Rightarrow> u64 \<Rightarrow> account \<Rightarrow> account \<Rightarrow> u128 \<Rightarrow> ct_state \<Rightarrow> ct_state option" where
  "ct_regular_apply event ts dr_account cr_account amount_actual st =
     do { let (dr_new, cr_new) = commit_transfer_accounts event amount_actual dr_account cr_account;
          ensure (a_id dr_new = a_id dr_account);
          ensure (a_id cr_new = a_id cr_account);
          st \<leftarrow> ct_upsert_accounts dr_new cr_new st;
          let stored = event\<lparr>t_amount := amount_actual, t_timestamp := ts\<rparr>;
          st \<leftarrow> ct_upsert_transfer stored st;
          if tf_pending (t_flags stored) then ct_upsert_pending (t_timestamp stored) StPending st
          else Some st }"

definition ct_regular :: "ct_env \<Rightarrow> transfer \<Rightarrow> u64 \<Rightarrow> transfer option \<Rightarrow> ct_state \<Rightarrow> ct_verdict option" where
  "ct_regular env event timestamp_event existing st =
     do { (dr, st) \<leftarrow> ct_read_account env (t_debit_account_id event) st;
          (cr, st) \<leftarrow> ct_read_account env (t_credit_account_id event) st;
          case dr of
            None \<Rightarrow> Some (CT_DebitAccountNotFound, timestamp_event, 0, st)
          | Some dr_account \<Rightarrow>
              (case cr of
                 None \<Rightarrow> Some (CT_CreditAccountNotFound, timestamp_event, 0, st)
               | Some cr_account \<Rightarrow>
                   do { regresses \<leftarrow> ct_regresses env event timestamp_event existing st;
                        if regresses then
                          Some (CT_ImportedEventTimestampMustNotRegress, timestamp_event, 0, st)
                        else
                          do { outcome \<leftarrow> create_transfer_outcome event timestamp_event existing dr_account cr_account;
                               ts \<leftarrow> ct_result_timestamp event timestamp_event existing (o_status outcome);
                               if o_status outcome = CT_Created then
                                 do { st \<leftarrow> ct_regular_apply event ts dr_account cr_account (o_amount_actual outcome) st;
                                      Some (CT_Created, ts, o_amount_actual outcome, st) }
                               else Some (o_status outcome, ts, 0, st) } }) }"

section \<open>One event and the loop\<close>

definition ct_apply :: "ct_env \<Rightarrow> transfer \<Rightarrow> u64 \<Rightarrow> ct_state \<Rightarrow> ct_verdict option" where
  "ct_apply env event timestamp_event st =
     do { (existing, st) \<leftarrow> ct_read_transfer env (t_id event) st;
          if t_id event \<in> ct_orphaned st \<or> ce_is_orphaned env (t_id event) then
            Some (CT_IdAlreadyFailed, timestamp_event, 0, st)
          else
            do { (status, ts, amount, st) \<leftarrow>
                   (if is_post_or_void event then ct_post_void env event timestamp_event existing st
                    else ct_regular env event timestamp_event existing st);
                 Some (status, ts, amount,
                   if status = CT_Created then st\<lparr>ct_key_max := max (ct_key_max st) ts\<rparr> else st) } }"

definition ct_evaluate :: "ct_env \<Rightarrow> nat \<Rightarrow> transfer \<Rightarrow> ct_state \<Rightarrow> ct_verdict option" where
  "ct_evaluate env index event st =
     do { timestamp_event \<leftarrow> event_timestamp (ce_timestamp env) (length (ce_events env)) index;
          st \<leftarrow> ct_open_chain index event st;
          if tf_linked (t_flags event) \<and> index = length (ce_events env) - 1 then
            Some (CT_LinkedEventChainOpen, timestamp_event, 0, st)
          else if ct_broken st then Some (CT_LinkedEventFailed, timestamp_event, 0, st)
          else if batch_imported_transfers (ce_events env) \<noteq> tf_imported (t_flags event) then
            Some (if tf_imported (t_flags event) then CT_ImportedEventNotExpected
                  else CT_ImportedEventExpected, timestamp_event, 0, st)
          else if tf_imported (t_flags event) \<and>
              (t_timestamp event = 0 \<or> ce_timestamp env \<le> t_timestamp event) then
            Some (CT_ImportedEventTimestampMustNotAdvance, timestamp_event, 0, st)
          else if \<not> tf_imported (t_flags event) \<and> t_timestamp event \<noteq> 0 then
            Some (CT_TimestampMustBeZero, timestamp_event, 0, st)
          else ct_apply env event timestamp_event st }"

definition fail_transfer :: "CreateTransferResult \<Rightarrow> CreateTransferResult" where
  "fail_transfer r = r\<lparr>ctr_status := CT_LinkedEventFailed\<rparr>"

definition ct_close_scopes :: "ScopeCloseMode \<Rightarrow> ct_state \<Rightarrow> ct_state option" where
  "ct_close_scopes mode st =
     do { accounts \<leftarrow> cm_scope_close account_cache_spec (ct_accounts st) mode;
          transfers \<leftarrow> cm_scope_close transfer_cache_spec (ct_transfers st) mode;
          pendings \<leftarrow> cm_scope_close transfer_pending_cache_spec (ct_pending st) mode;
          Some (st\<lparr>ct_accounts := accounts, ct_transfers := transfers, ct_pending := pendings\<rparr>) }"

definition ct_chain_error :: "transfer \<Rightarrow> CreateTransferStatus \<Rightarrow> ct_state \<Rightarrow> ct_state option" where
  "ct_chain_error event status st =
     (if status \<noteq> CT_Created then
        do { let st = (if transient status then st\<lparr>ct_orphaned := insert (t_id event) (ct_orphaned st)\<rparr> else st);
             case ct_chain st of
               Some chain_start \<Rightarrow>
                 if \<not> ct_broken st then
                   do { st \<leftarrow> ct_close_scopes Discard (st\<lparr>ct_broken := True\<rparr>);
                        Some (st\<lparr>ct_key_max := (case ct_key_max_snapshot st of
                                                  Some snapshot \<Rightarrow> snapshot | None \<Rightarrow> ct_key_max st),
                                 ct_results := mark_failed fail_transfer chain_start (ct_results st)\<rparr>) }
                 else Some st
             | None \<Rightarrow> Some st }
      else Some st)"

definition ct_chain_complete :: "transfer \<Rightarrow> CreateTransferStatus \<Rightarrow> ct_state \<Rightarrow> ct_state option" where
  "ct_chain_complete event status st =
     (if ct_chain st \<noteq> None \<and> (\<not> tf_linked (t_flags event) \<or> status = CT_LinkedEventChainOpen) then
        do { st \<leftarrow> (if \<not> ct_broken st then ct_close_scopes Persist st else Some st);
             Some (st\<lparr>ct_chain := None, ct_broken := False, ct_key_max_snapshot := None\<rparr>) }
      else Some st)"

definition ct_event :: "ct_env \<Rightarrow> nat \<Rightarrow> transfer \<Rightarrow> ct_state \<Rightarrow> ct_state option" where
  "ct_event env index event st =
     do { (status, ts, amount_actual, st) \<leftarrow> ct_evaluate env index event st;
          st \<leftarrow> ct_chain_error event status st;
          let st = st\<lparr>ct_results := ct_results st @
            [\<lparr>ctr_status = status, ctr_timestamp = ts, ctr_amount_actual = amount_actual\<rparr>]\<rparr>;
          ct_chain_complete event status st }"

fun ct_loop :: "ct_env \<Rightarrow> nat \<Rightarrow> transfer list \<Rightarrow> ct_state \<Rightarrow> ct_state option" where
  "ct_loop env index [] st = Some st"
| "ct_loop env index (event # rest) st =
     do { st \<leftarrow> ct_event env index event st;
          ct_loop env (Suc index) rest st }"

definition execute_create_transfers :: "ct_env \<Rightarrow> (u128, account) cm \<Rightarrow> (u128, transfer) cm
    \<Rightarrow> (u64, transfer_pending) cm \<Rightarrow> u64 \<Rightarrow> u128 set \<Rightarrow> (CreateTransferResult list \<times> ct_state) option" where
  "execute_create_transfers env accounts_objects transfers_objects transfers_pending_objects
       transfers_key_max working_orphaned =
     do { st \<leftarrow> ct_loop env 0 (ce_events env)
              \<lparr>ct_accounts = accounts_objects, ct_transfers = transfers_objects,
                ct_pending = transfers_pending_objects, ct_results = [], ct_chain = None,
                ct_broken = False, ct_key_max = transfers_key_max, ct_key_max_snapshot = None,
                ct_orphaned = working_orphaned\<rparr>;
          ensure (ct_chain st = None);
          ensure (\<not> ct_broken st);
          Some (ct_results st, st) }"

lemmas batch_transfers_defs [model_defs] = ct_open_chain_def read_cached_account_def ct_read_account_def
  ct_read_transfer_def ct_upsert_accounts_def ct_upsert_transfer_def ct_upsert_pending_def event_time_def
  ct_post_void_exists_def ct_post_void_apply_def ct_post_void_pending_def ct_post_void_def
  ct_regresses_def ct_result_timestamp_def ct_regular_apply_def ct_regular_def ct_apply_def
  ct_evaluate_def fail_transfer_def ct_close_scopes_def ct_chain_error_def ct_chain_complete_def
  ct_event_def execute_create_transfers_def

section \<open>What the caches say, as one view\<close>

type_synonym ledger_view =
  "(u128 \<Rightarrow> account GetOrTombstone) \<times> (u128 \<Rightarrow> transfer GetOrTombstone) \<times> (u64 \<Rightarrow> transfer_pending GetOrTombstone)"

definition ct_view :: "ct_state \<Rightarrow> ledger_view" where
  "ct_view st = (cm_entry account_cache_spec (ct_accounts st), cm_entry transfer_cache_spec (ct_transfers st),
     cm_entry transfer_pending_cache_spec (ct_pending st))"

definition ct_base :: "ct_state \<Rightarrow> ledger_view" where
  "ct_base st = (cm_base account_cache_spec (ct_accounts st), cm_base transfer_cache_spec (ct_transfers st),
     cm_base transfer_pending_cache_spec (ct_pending st))"

definition ct_caches_ok :: "bool \<Rightarrow> ct_state \<Rightarrow> bool" where
  "ct_caches_ok scoped st \<longleftrightarrow>
     cm_ok account_cache_spec (ct_accounts st) \<and> cm_ok transfer_cache_spec (ct_transfers st) \<and>
     cm_ok transfer_pending_cache_spec (ct_pending st) \<and>
     cm_scope_is_active (ct_accounts st) = scoped \<and> cm_scope_is_active (ct_transfers st) = scoped \<and>
     cm_scope_is_active (ct_pending st) = scoped"

text \<open>\<open>st'\<close> is \<open>st\<close> with the caches moved to the view \<open>v\<close>, within the same scope.\<close>

definition ct_moves :: "bool \<Rightarrow> ct_state \<Rightarrow> ledger_view \<Rightarrow> ct_state \<Rightarrow> bool" where
  "ct_moves scoped st v st' \<longleftrightarrow>
     ct_results st' = ct_results st \<and> ct_chain st' = ct_chain st \<and> ct_broken st' = ct_broken st \<and>
     ct_caches_ok scoped st' \<and> ct_view st' = v \<and> (scoped \<longrightarrow> ct_base st' = ct_base st)"

lemma ct_moves_refl: "ct_caches_ok b st \<Longrightarrow> ct_moves b st (ct_view st) st"
  by (simp add: ct_moves_def)

lemma ct_moves_trans: "ct_moves b st v st' \<Longrightarrow> ct_moves b st' w st'' \<Longrightarrow> ct_moves b st w st''"
  by (simp add: ct_moves_def)

lemma ct_moves_ok: "ct_moves b st v st' \<Longrightarrow> ct_caches_ok b st'" "ct_moves b st v st' \<Longrightarrow> ct_view st' = v"
  by (simp_all add: ct_moves_def)

lemma ct_read_account_moves:
  assumes ok: "ct_caches_ok b st" and r: "ct_read_account env k st = Some (found, st')"
  shows "ct_moves b st (ct_view st) st'" "found = entry_value (fst (ct_view st) k)"
proof -
  have "cm_ok account_cache_spec (ct_accounts st)" using ok by (simp add: ct_caches_ok_def)
  from accounts_objects.get_entry [OF this, of k] r ok
  show "ct_moves b st (ct_view st) st'" "found = entry_value (fst (ct_view st) k)"
    by (auto simp: ct_read_account_def read_cached_account_def panic_simps ct_moves_def ct_caches_ok_def
        ct_view_def ct_base_def)
qed

lemma ct_read_transfer_moves:
  assumes ok: "ct_caches_ok b st" and r: "ct_read_transfer env k st = Some (found, st')"
  shows "ct_moves b st (ct_view st) st'" "found = entry_value (fst (snd (ct_view st)) k)"
proof -
  have "cm_ok transfer_cache_spec (ct_transfers st)" using ok by (simp add: ct_caches_ok_def)
  from transfers_objects.get_entry [OF this, of k] r ok
  show "ct_moves b st (ct_view st) st'" "found = entry_value (fst (snd (ct_view st)) k)"
    by (auto simp: ct_read_transfer_def panic_simps ct_moves_def ct_caches_ok_def ct_view_def ct_base_def)
qed

lemma ct_read_pending_moves:
  assumes ok: "ct_caches_ok b st" and r: "cm_get transfer_pending_cache_spec (ct_pending st) k = Some (found, pendings)"
  shows "ct_moves b st (ct_view st) (st\<lparr>ct_pending := pendings\<rparr>)"
proof -
  have "cm_ok transfer_pending_cache_spec (ct_pending st)" using ok by (simp add: ct_caches_ok_def)
  from transfers_pending_objects.get_entry [OF this, of k] r ok show ?thesis
    by (auto simp: ct_moves_def ct_caches_ok_def ct_view_def ct_base_def)
qed

lemma ct_read_pending_value:
  assumes ok: "ct_caches_ok b st" and r: "cm_get transfer_pending_cache_spec (ct_pending st) k = Some (found, pendings)"
  shows "found = entry_value (snd (snd (ct_view st)) k)"
proof -
  have "cm_ok transfer_pending_cache_spec (ct_pending st)" using ok by (simp add: ct_caches_ok_def)
  from transfers_pending_objects.get_entry [OF this, of k] r show ?thesis by (auto simp: ct_view_def)
qed

lemma ct_found_live:
  assumes "ct_caches_ok b st"
  shows "fst (ct_view st) k = Found a \<Longrightarrow> a_id a = k \<and> a_timestamp a AND TOMBSTONE_BIT = 0"
    "fst (snd (ct_view st)) k = Found t \<Longrightarrow> t_id t = k \<and> t_timestamp t AND TOMBSTONE_BIT = 0"
  using assms accounts_objects.entry_found [of "ct_accounts st" k a] transfers_objects.entry_found [of "ct_transfers st" k t]
  by (simp_all add: ct_caches_ok_def ct_view_def account_cache_spec_def transfer_cache_spec_def)

lemma ct_upsert_accounts_moves:
  assumes ok: "ct_caches_ok b st" and v: "ct_view st = (A, T, P)"
    and live: "a_timestamp dr AND TOMBSTONE_BIT = 0" "a_timestamp cr AND TOMBSTONE_BIT = 0"
    and r: "ct_upsert_accounts dr cr st = Some st'"
  shows "ct_moves b st (A(a_id dr := Found dr, a_id cr := Found cr), T, P) st'"
proof -
  from r obtain a1 a2 where up: "cm_upsert account_cache_spec (ct_accounts st) dr = Some a1"
    "cm_upsert account_cache_spec a1 cr = Some a2" "st' = st\<lparr>ct_accounts := a2\<rparr>"
    by (auto simp: ct_upsert_accounts_def bind_Some_iff)
  have ok0: "cm_ok account_cache_spec (ct_accounts st)" using ok by (simp add: ct_caches_ok_def)
  have live': "\<not> sp_tombstone account_cache_spec dr" "\<not> sp_tombstone account_cache_spec cr"
    using live by (simp_all add: account_cache_spec_def)
  from accounts_objects.upsert_entry [OF ok0 live'(1) up(1)] have ok1: "cm_ok account_cache_spec a1" by simp
  from accounts_objects.upsert_entry [OF ok0 live'(1) up(1)] accounts_objects.upsert_entry [OF ok1 live'(2) up(2)]
  show ?thesis using ok v up(3)
    by (simp add: ct_moves_def ct_caches_ok_def ct_view_def ct_base_def)
qed

lemma transfer_cache_key [simp]: "sp_key transfer_cache_spec = t_id"
  by (simp add: transfer_cache_spec_def)

lemma ct_upsert_transfer_moves:
  assumes ok: "ct_caches_ok b st" and v: "ct_view st = (A, T, P)"
    and live: "t_timestamp t AND TOMBSTONE_BIT = 0" and r: "ct_upsert_transfer t st = Some st'"
  shows "ct_moves b st (A, T(t_id t := Found t), P) st'"
proof -
  from r obtain t1 where up: "cm_upsert transfer_cache_spec (ct_transfers st) t = Some t1" "st' = st\<lparr>ct_transfers := t1\<rparr>"
    by (auto simp: ct_upsert_transfer_def bind_Some_iff)
  have ok0: "cm_ok transfer_cache_spec (ct_transfers st)" using ok by (simp add: ct_caches_ok_def)
  have "\<not> sp_tombstone transfer_cache_spec t" using live by (simp add: transfer_cache_spec_def)
  from transfers_objects.upsert_entry [OF ok0 this up(1)] show ?thesis using ok v up(2)
    by (simp add: ct_moves_def ct_caches_ok_def ct_view_def ct_base_def)
qed

lemma ct_upsert_pending_moves:
  assumes ok: "ct_caches_ok b st" and v: "ct_view st = (A, T, P)"
    and live: "ts AND TOMBSTONE_BIT = 0" and r: "ct_upsert_pending ts status st = Some st'"
  shows "ct_moves b st (A, T, P(ts := Found \<lparr>tp_timestamp = ts, tp_status = status\<rparr>)) st'"
proof -
  let ?row = "\<lparr>tp_timestamp = ts, tp_status = status\<rparr>"
  from r obtain p1 where up: "cm_upsert transfer_pending_cache_spec (ct_pending st) ?row = Some p1"
    "st' = st\<lparr>ct_pending := p1\<rparr>"
    by (auto simp: ct_upsert_pending_def bind_Some_iff)
  have ok0: "cm_ok transfer_pending_cache_spec (ct_pending st)" using ok by (simp add: ct_caches_ok_def)
  have live': "\<not> sp_tombstone transfer_pending_cache_spec ?row" using live by (simp add: transfer_pending_cache_spec_def)
  have "sp_key transfer_pending_cache_spec ?row = ts"
    using live by (simp add: transfer_pending_cache_spec_def tombstone_bit_live)
  with transfers_pending_objects.upsert_entry [OF ok0 live' up(1)] show ?thesis using ok v up(2)
    by (simp add: ct_moves_def ct_caches_ok_def ct_view_def ct_base_def)
qed

section \<open>What a created transfer does to the view\<close>

text \<open>These mirror \<open>persist_transfer\<close> and \<open>persist_post_void\<close>, on entries instead of stores.\<close>

definition apply_post_void :: "ledger_view \<Rightarrow> transfer \<Rightarrow> u128 \<Rightarrow> u64 \<Rightarrow> ledger_view" where
  "apply_post_void v event amount ts =
     (case v of (A, T, P) \<Rightarrow>
       case T (t_pending_id event) of
         Found p \<Rightarrow>
           (case (A (t_debit_account_id p), A (t_credit_account_id p)) of
              (Found dr, Found cr) \<Rightarrow>
                (case commit_post_void_accounts event p amount dr cr of
                   Some (dr', cr') \<Rightarrow>
                     (A(a_id dr' := Found dr', a_id cr' := Found cr'),
                      T(t_id event := Found (folded_transfer event p amount ts)),
                      P(t_timestamp p := Found \<lparr>tp_timestamp = t_timestamp p,
                        tp_status = (if tf_post_pending_transfer (t_flags event) then StPosted else StVoided)\<rparr>))
                 | None \<Rightarrow> v)
            | _ \<Rightarrow> v)
       | _ \<Rightarrow> v)"

definition apply_regular :: "ledger_view \<Rightarrow> transfer \<Rightarrow> u128 \<Rightarrow> u64 \<Rightarrow> ledger_view" where
  "apply_regular v event amount ts =
     (case v of (A, T, P) \<Rightarrow>
       case (A (t_debit_account_id event), A (t_credit_account_id event)) of
         (Found dr, Found cr) \<Rightarrow>
           (case commit_transfer_accounts event amount dr cr of (dr', cr') \<Rightarrow>
             (A(a_id dr' := Found dr', a_id cr' := Found cr'),
              T(t_id event := Found (event\<lparr>t_amount := amount, t_timestamp := ts\<rparr>)),
              if tf_pending (t_flags event)
              then P(ts := Found \<lparr>tp_timestamp = ts, tp_status = StPending\<rparr>) else P))
       | _ \<Rightarrow> v)"

definition created_transfer :: "CreateTransferResult \<Rightarrow> bool" where
  "created_transfer r \<longleftrightarrow> ctr_status r = CT_Created"

definition apply_transfer :: "ledger_view \<Rightarrow> transfer \<Rightarrow> CreateTransferResult \<Rightarrow> ledger_view" where
  "apply_transfer v event r =
     (if created_transfer r then
        if is_post_or_void event then apply_post_void v event (ctr_amount_actual r) (ctr_timestamp r)
        else apply_regular v event (ctr_amount_actual r) (ctr_timestamp r)
      else v)"

abbreviation transfer_result :: "CreateTransferStatus \<Rightarrow> u64 \<Rightarrow> u128 \<Rightarrow> CreateTransferResult" where
  "transfer_result status ts amount \<equiv>
     \<lparr>ctr_status = status, ctr_timestamp = ts, ctr_amount_actual = amount\<rparr>"

lemma apply_transfer_not_created:
  "status \<noteq> CT_Created \<Longrightarrow> apply_transfer v event (transfer_result status ts amount) = v"
  by (simp add: apply_transfer_def created_transfer_def)

lemma commit_transfer_frame:
  assumes "commit_transfer_accounts event amount dr cr = (dr', cr')"
  shows "a_id dr' = a_id dr" "a_id cr' = a_id cr" "a_timestamp dr' = a_timestamp dr" "a_timestamp cr' = a_timestamp cr"
  using assms by (auto simp: commit_transfer_accounts_def Let_def split: if_splits)

lemma commit_post_void_frame:
  assumes "commit_post_void_accounts event p amount dr cr = Some (dr', cr')"
  shows "a_id dr' = a_id dr" "a_id cr' = a_id cr" "a_timestamp dr' = a_timestamp dr" "a_timestamp cr' = a_timestamp cr"
  using assms by (auto simp: commit_post_void_accounts_def Let_def panic_simps split: if_splits)

lemma entry_value_Some [simp]:
  "entry_value e = Some v \<longleftrightarrow> e = Found v" "Some v = entry_value e \<longleftrightarrow> e = Found v"
  by (cases e; auto simp: entry_value_def)+

lemma event_time_small:
  assumes "unat timestamp < 2 ^ 63" "unat te \<le> unat timestamp" "tf_imported (t_flags event) \<longrightarrow> t_timestamp event < timestamp"
  shows "event_time event te AND TOMBSTONE_BIT = 0"
  by (rule tombstone_bit_clear) (use assms in \<open>auto simp: event_time_def word_less_nat_alt\<close>)

lemma ct_regular_apply_moves:
  assumes ok: "ct_caches_ok b st" and v: "ct_view st = (A, T, P)"
    and dr: "A (t_debit_account_id event) = Found dr" and cr: "A (t_credit_account_id event) = Found cr"
    and ts: "ts AND TOMBSTONE_BIT = 0"
    and r: "ct_regular_apply event ts dr cr amount st = Some st'"
  shows "ct_moves b st (apply_regular (ct_view st) event amount ts) st'"
proof -
  obtain dr' cr' where commit: "commit_transfer_accounts event amount dr cr = (dr', cr')" by fastforce
  note frame = commit_transfer_frame [OF commit]
  from r commit obtain s1 s2 where s1: "ct_upsert_accounts dr' cr' st = Some s1"
    and s2: "ct_upsert_transfer (event\<lparr>t_amount := amount, t_timestamp := ts\<rparr>) s1 = Some s2"
    and s3: "(if tf_pending (t_flags event) then ct_upsert_pending ts StPending s2 else Some s2) = Some st'"
    by (cases "tf_pending (t_flags event)") (auto simp: ct_regular_apply_def panic_simps Let_def)
  have live: "a_timestamp dr' AND TOMBSTONE_BIT = 0" "a_timestamp cr' AND TOMBSTONE_BIT = 0"
    using ct_found_live(1) [OF ok] v dr cr frame by (metis fst_conv)+
  note m1 = ct_upsert_accounts_moves [OF ok v live s1]
  have "t_timestamp (event\<lparr>t_amount := amount, t_timestamp := ts\<rparr>) AND TOMBSTONE_BIT = 0" using ts by simp
  note m2 = ct_upsert_transfer_moves [OF ct_moves_ok [OF m1] this s2]
  show ?thesis
  proof (cases "tf_pending (t_flags event)")
    case True
    with s3 have "ct_upsert_pending ts StPending s2 = Some st'" by simp
    note m3 = ct_upsert_pending_moves [OF ct_moves_ok [OF m2] ts this]
    from ct_moves_trans [OF ct_moves_trans [OF m1 m2] m3] True v dr cr commit show ?thesis
      by (simp add: apply_regular_def)
  next
    case False
    with s3 ct_moves_trans [OF m1 m2] v dr cr commit show ?thesis
      by (simp add: apply_regular_def)
  qed
qed

lemma ct_post_void_apply_moves:
  assumes ok: "ct_caches_ok b st" and v: "ct_view st = (A, T, P)" and p: "T (t_pending_id event) = Found p"
    and dr: "A (t_debit_account_id p) = Found dr" and cr: "A (t_credit_account_id p) = Found cr"
    and ts: "ts AND TOMBSTONE_BIT = 0"
    and r: "ct_post_void_apply event ts p dr cr amount st = Some st'"
  shows "ct_moves b st (apply_post_void (ct_view st) event amount ts) st'"
proof -
  let ?status = "if tf_post_pending_transfer (t_flags event) then StPosted else StVoided"
  from r obtain s1 dr' cr' s2 where s1: "ct_upsert_pending (t_timestamp p) ?status st = Some s1"
    and commit: "commit_post_void_accounts event p amount dr cr = Some (dr', cr')"
    and s2: "ct_upsert_accounts dr' cr' s1 = Some s2"
    and s3: "ct_upsert_transfer (folded_transfer event p amount ts) s2 = Some st'"
    by (auto simp: ct_post_void_apply_def panic_simps)
  note frame = commit_post_void_frame [OF commit]
  have live: "a_timestamp dr' AND TOMBSTONE_BIT = 0" "a_timestamp cr' AND TOMBSTONE_BIT = 0"
    "t_timestamp p AND TOMBSTONE_BIT = 0"
    using ct_found_live [OF ok] v dr cr p frame by (metis fst_conv snd_conv)+
  note m1 = ct_upsert_pending_moves [OF ok v live(3) s1]
  note m2 = ct_upsert_accounts_moves [OF ct_moves_ok [OF m1] live(1,2) s2]
  have "t_timestamp (folded_transfer event p amount ts) AND TOMBSTONE_BIT = 0"
    and id: "t_id (folded_transfer event p amount ts) = t_id event"
    using ts by (simp_all add: folded_transfer_def)
  note m3 = ct_upsert_transfer_moves [OF ct_moves_ok [OF m2] this(1) s3]
  from ct_moves_trans [OF ct_moves_trans [OF m1 m2] m3] v p dr cr commit id show ?thesis
    by (simp add: apply_post_void_def)
qed

section \<open>Evaluating an event\<close>

lemma create_transfer_limits_not_chain:
  "create_transfer_limits t ts dr cr = Some status \<Longrightarrow> status \<noteq> CT_LinkedEventChainOpen"
  unfolding create_transfer_limits_def Let_def
  by (auto split: if_split_asm option.splits bool.splits)

lemma create_transfer_not_chain:
  "create_transfer t ts ex dr cr = Some status \<Longrightarrow> status \<noteq> CT_LinkedEventChainOpen"
  unfolding create_transfer_def create_transfer_exists_def
  by (auto simp: panic_simps dest: create_transfer_limits_not_chain split: if_split_asm option.splits)

lemma pv_lifecycle_not_chain:
  "pv_lifecycle t ts p dr cr st kmax at ate m b = Some r \<Longrightarrow> pv_status r \<noteq> CT_LinkedEventChainOpen"
  unfolding pv_lifecycle_def Let_def
  by (auto simp: panic_simps split: if_split_asm option.splits TransferPendingStatus.splits)

lemma post_or_void_not_chain:
  "post_or_void_pending_transfer t ts p dr cr st kmax at ate = Some r \<Longrightarrow> pv_status r \<noteq> CT_LinkedEventChainOpen"
  unfolding post_or_void_pending_transfer_def Let_def
  by (auto simp: panic_simps dest: pv_lifecycle_not_chain split: if_split_asm)

lemma post_or_void_exists_statuses:
  "post_or_void_pending_transfer_exists t e p = Some status \<Longrightarrow>
     status \<noteq> CT_LinkedEventChainOpen \<and> status \<noteq> CT_Created"
  unfolding post_or_void_pending_transfer_exists_def Let_def
  by (auto simp: panic_simps split: if_split_asm)

lemmas pv_not_chain = post_or_void_not_chain post_or_void_exists_statuses

text \<open>The verdict of an evaluated event moves the view as \<open>apply_transfer\<close> says.\<close>

definition recorded_in :: "ledger_view \<Rightarrow> u128 \<Rightarrow> bool" where
  "recorded_in v transfer_id \<longleftrightarrow> (\<exists>t. fst (snd v) transfer_id = Found t)"

lemma apply_regular_recorded:
  assumes "A (t_debit_account_id event) = Found dr" "A (t_credit_account_id event) = Found cr"
  shows "recorded_in (apply_regular (A, T, P) event amount ts) (t_id event)"
  using assms by (simp add: recorded_in_def apply_regular_def split: prod.split)

lemma apply_post_void_recorded:
  assumes "T (t_pending_id event) = Found p" "A (t_debit_account_id p) = Found dr" "A (t_credit_account_id p) = Found cr"
    and "ct_post_void_apply event ts p dr cr amount st = Some st'"
  shows "recorded_in (apply_post_void (A, T, P) event amount ts) (t_id event)"
  using assms by (auto simp: recorded_in_def apply_post_void_def ct_post_void_apply_def bind_Some_iff)

text \<open>
  A created event passed its rules against the view: a regular transfer against both of its accounts, a
  post or void against its pending transfer, that transfer's accounts and its pending status.
\<close>

definition accepts_regular :: "(u128 \<Rightarrow> account GetOrTombstone) \<Rightarrow> transfer \<Rightarrow> u128 \<Rightarrow> bool" where
  "accepts_regular A event amount \<longleftrightarrow>
     (\<exists>dr cr te. A (t_debit_account_id event) = Found dr \<and> A (t_credit_account_id event) = Found cr \<and>
        create_transfer event te None dr cr = Some CT_Created \<and> amount = compute_amount_actual event dr cr)"

definition status_in :: "(u64 \<Rightarrow> transfer_pending GetOrTombstone) \<Rightarrow> u64 \<Rightarrow> TransferPendingStatus" where
  "status_in P ts = (case entry_value (P ts) of None \<Rightarrow> StNone | Some row \<Rightarrow> tp_status row)"

definition accepts_post_void :: "ledger_view \<Rightarrow> transfer \<Rightarrow> u128 \<Rightarrow> bool" where
  "accepts_post_void = (\<lambda>(A, T, P) event amount.
     \<exists>p dr cr te kmax at ate r. T (t_pending_id event) = Found p \<and> A (t_debit_account_id p) = Found dr \<and>
        A (t_credit_account_id p) = Found cr \<and>
        post_or_void_pending_transfer event te p dr cr (status_in P (t_timestamp p)) kmax at ate = Some r \<and>
        pv_status r = CT_Created \<and> amount = pv_amount_actual r)"

definition accepts :: "ledger_view \<Rightarrow> transfer \<Rightarrow> u128 \<Rightarrow> bool" where
  "accepts v event amount \<longleftrightarrow>
     (if is_post_or_void event then accepts_post_void v event amount else accepts_regular (fst v) event amount)"

definition ct_verdict_ok :: "bool \<Rightarrow> ct_state \<Rightarrow> transfer \<Rightarrow> ct_verdict \<Rightarrow> bool" where
  "ct_verdict_ok b st event v \<longleftrightarrow>
     (case v of (status, ts, amount, st') \<Rightarrow>
       ct_moves b st (apply_transfer (ct_view st) event (transfer_result status ts amount)) st' \<and>
       status \<noteq> CT_LinkedEventChainOpen \<and>
       (status = CT_Created \<longrightarrow> recorded_in (ct_view st') (t_id event) \<and> accepts (ct_view st) event amount))"

lemma ct_verdict_failed:
  "ct_moves b st (ct_view st) st' \<Longrightarrow> status \<noteq> CT_Created \<Longrightarrow> status \<noteq> CT_LinkedEventChainOpen \<Longrightarrow>
     ct_verdict_ok b st event (status, ts, amount, st')"
  by (simp add: ct_verdict_ok_def apply_transfer_not_created)

lemma ct_verdict_after:
  "ct_moves b st (ct_view st) st1 \<Longrightarrow> ct_verdict_ok b st1 event v \<Longrightarrow> ct_verdict_ok b st event v"
  by (auto simp: ct_verdict_ok_def ct_moves_def)

lemma ct_regular_verdict:
  assumes ok: "ct_caches_ok b st" and plain: "\<not> is_post_or_void event"
    and small: "unat timestamp < 2 ^ 63" "unat te \<le> unat timestamp" "tf_imported (t_flags event) \<longrightarrow> t_timestamp event < timestamp"
    and r: "ct_regular env event te existing st = Some v"
  shows "ct_verdict_ok b st event v"
proof -
  from r obtain dr s1 cr s2 where dr: "ct_read_account env (t_debit_account_id event) st = Some (dr, s1)"
    and cr: "ct_read_account env (t_credit_account_id event) s1 = Some (cr, s2)"
    by (auto simp: ct_regular_def bind_Some_iff)
  note m1 = ct_read_account_moves [OF ok dr]
  note m2 = ct_read_account_moves [OF ct_moves_ok(1) [OF m1(1)] cr]
  have s1v: "ct_view s1 = ct_view st" and s2v: "ct_view s2 = ct_view st"
    using ct_moves_ok(2) [OF m1(1)] ct_moves_ok(2) [OF m2(1)] by simp_all
  have moved: "ct_moves b st (ct_view st) s2" using ct_moves_trans [OF m1(1) m2(1)] s1v by simp
  have ok2: "ct_caches_ok b s2" using moved by (rule ct_moves_ok)
  show ?thesis
  proof (cases "\<exists>d c. dr = Some d \<and> cr = Some c")
    case False
    with r dr cr have "\<exists>status ts. v = (status, ts, 0, s2) \<and> status \<noteq> CT_Created \<and> status \<noteq> CT_LinkedEventChainOpen"
      by (cases dr; cases cr) (auto simp: ct_regular_def)
    then show ?thesis using ct_verdict_failed [OF moved] by blast
  next
    case True
    then obtain d c where dc: "dr = Some d" "cr = Some c" by blast
    obtain A T P where view: "ct_view s2 = (A, T, P)" by (cases "ct_view s2") auto
    have found: "A (t_debit_account_id event) = Found d" "A (t_credit_account_id event) = Found c"
      using m1(2) m2(2) dc view s1v s2v by auto
    from r dr cr dc obtain regresses where reg: "ct_regresses env event te existing s2 = Some regresses"
      by (auto simp: ct_regular_def bind_Some_iff)
    show ?thesis
    proof (cases regresses)
      case True
      with r dr cr dc reg have "v = (CT_ImportedEventTimestampMustNotRegress, te, 0, s2)"
        by (auto simp: ct_regular_def)
      then show ?thesis using ct_verdict_failed [OF moved] by simp
    next
      case False
      with r dr cr dc reg obtain outcome ts where
        out: "create_transfer_outcome event te existing d c = Some outcome"
        and ts: "ct_result_timestamp event te existing (o_status outcome) = Some ts"
        and v: "(if o_status outcome = CT_Created then
             do { st \<leftarrow> ct_regular_apply event ts d c (o_amount_actual outcome) s2;
                  Some (CT_Created, ts, o_amount_actual outcome, st) }
           else Some (o_status outcome, ts, 0, s2)) = Some v"
        by (auto simp: ct_regular_def bind_Some_iff)
      have not_chain: "o_status outcome \<noteq> CT_LinkedEventChainOpen"
        using out by (auto simp: create_transfer_outcome_def bind_Some_iff dest: create_transfer_not_chain)
      show ?thesis
      proof (cases "o_status outcome = CT_Created")
        case True
        then have "ts AND TOMBSTONE_BIT = 0"
          using ts event_time_small [OF small] by (simp add: ct_result_timestamp_def)
        from v True obtain st' where "ct_regular_apply event ts d c (o_amount_actual outcome) s2 = Some st'"
          "v = (CT_Created, ts, o_amount_actual outcome, st')" by (auto simp: bind_Some_iff)
        moreover have "accepts (ct_view s2) event (o_amount_actual outcome)"
          using out True found plain view
          by (auto simp: accepts_def accepts_regular_def create_transfer_outcome_def bind_Some_iff)
            (metis create_transfer_CreatedD(1))
        ultimately have "ct_verdict_ok b s2 event v"
          using ct_regular_apply_moves [OF ok2 view found \<open>ts AND TOMBSTONE_BIT = 0\<close>]
            apply_regular_recorded [where A = A and T = T and P = P, OF found] plain view
          by (simp add: ct_verdict_ok_def apply_transfer_def created_transfer_def ct_moves_def)
        then show ?thesis using moved by (rule ct_verdict_after [rotated])
      next
        case False
        with v have "v = (o_status outcome, ts, 0, s2)" by simp
        then show ?thesis using ct_verdict_failed [OF moved False not_chain] by simp
      qed
    qed
  qed
qed

lemma ct_post_void_pending_verdict:
  assumes ok: "ct_caches_ok b st" and pv: "is_post_or_void event"
    and p: "fst (snd (ct_view st)) (t_pending_id event) = Found p"
    and small: "unat timestamp < 2 ^ 63" "unat te \<le> unat timestamp" "tf_imported (t_flags event) \<longrightarrow> t_timestamp event < timestamp"
    and r: "ct_post_void_pending env event te p st = Some v"
  shows "ct_verdict_ok b st event v"
proof -
  from r [unfolded ct_post_void_pending_def Let_def] obtain d s1 c s2 row pendings result where
    dr: "ct_read_account env (t_debit_account_id p) st = Some (Some d, s1)"
    and cr: "ct_read_account env (t_credit_account_id p) s1 = Some (Some c, s2)"
    and row: "cm_get transfer_pending_cache_spec (ct_pending s2) (t_timestamp p) = Some (row, pendings)"
    and result: "post_or_void_pending_transfer event te p d c (case row of None \<Rightarrow> StNone | Some row \<Rightarrow> tp_status row)
      (ct_key_max (s2\<lparr>ct_pending := pendings\<rparr>)) (ce_account_timestamps env) (ce_account_timestamps_enqueued env) = Some result"
    and v: "(if pv_status result = CT_Created then
         do { st \<leftarrow> ct_post_void_apply event (event_time event te) p d c (pv_amount_actual result) (s2\<lparr>ct_pending := pendings\<rparr>);
              Some (CT_Created, event_time event te, pv_amount_actual result, st) }
       else Some (pv_status result, te, pv_amount_actual result, s2\<lparr>ct_pending := pendings\<rparr>)) = Some v"
    by (auto simp: bind_Some_iff)
  let ?s3 = "s2\<lparr>ct_pending := pendings\<rparr>"
  note m1 = ct_read_account_moves [OF ok dr]
  note m2 = ct_read_account_moves [OF ct_moves_ok(1) [OF m1(1)] cr]
  note m3 = ct_read_pending_moves [OF ct_moves_ok(1) [OF m2(1)] row]
  have s1v: "ct_view s1 = ct_view st" and s2v: "ct_view s2 = ct_view st" and s3v: "ct_view ?s3 = ct_view st"
    using ct_moves_ok(2) [OF m1(1)] ct_moves_ok(2) [OF m2(1)] ct_moves_ok(2) [OF m3] by simp_all
  have moved: "ct_moves b st (ct_view st) ?s3"
    using ct_moves_trans [OF ct_moves_trans [OF m1(1) m2(1)] m3] s2v by simp
  have ok3: "ct_caches_ok b ?s3" using moved by (rule ct_moves_ok)
  have not_chain: "pv_status result \<noteq> CT_LinkedEventChainOpen" by (rule pv_not_chain(1) [OF result])
  show ?thesis
  proof (cases "pv_status result = CT_Created")
    case True
    obtain A T P where view: "ct_view ?s3 = (A, T, P)" by (cases "ct_view ?s3") auto
    have found: "T (t_pending_id event) = Found p" "A (t_debit_account_id p) = Found d" "A (t_credit_account_id p) = Found c"
      using m1(2) m2(2) view s1v s3v p by auto
    from v True obtain st' where "ct_post_void_apply event (event_time event te) p d c (pv_amount_actual result) ?s3 = Some st'"
      "v = (CT_Created, event_time event te, pv_amount_actual result, st')" by (auto simp: bind_Some_iff)
    moreover have "accepts (ct_view ?s3) event (pv_amount_actual result)"
    proof -
      have "(case row of None \<Rightarrow> StNone | Some row \<Rightarrow> tp_status row) = status_in P (t_timestamp p)"
        using ct_read_pending_value [OF ct_moves_ok(1) [OF m2(1)] row] view s2v s3v by (simp add: status_in_def)
      with result found pv True view show ?thesis
        unfolding accepts_def accepts_post_void_def by (auto simp del: ct_state.simps) (metis)
    qed
    ultimately have "ct_verdict_ok b ?s3 event v"
      using ct_post_void_apply_moves [OF ok3 view found event_time_small [OF small]]
        apply_post_void_recorded [where T = T and A = A and P = P, OF found] pv view
      by (simp add: ct_verdict_ok_def apply_transfer_def created_transfer_def ct_moves_def)
    then show ?thesis using moved by (rule ct_verdict_after [rotated])
  next
    case False
    with v have "v = (pv_status result, te, pv_amount_actual result, ?s3)" by simp
    then show ?thesis using ct_verdict_failed [OF moved False not_chain] by simp
  qed
qed

lemma ct_post_void_verdict:
  assumes ok: "ct_caches_ok b st" and pv: "is_post_or_void event"
    and small: "unat timestamp < 2 ^ 63" "unat te \<le> unat timestamp" "tf_imported (t_flags event) \<longrightarrow> t_timestamp event < timestamp"
    and r: "ct_post_void env event te existing st = Some v"
  shows "ct_verdict_ok b st event v"
proof (cases "tf_has_padding (t_flags event) \<or> t_id event = 0 \<or> t_id event = -1")
  case True
  with r have "\<exists>status. v = (status, te, 0, st) \<and> status \<noteq> CT_Created \<and> status \<noteq> CT_LinkedEventChainOpen"
    by (auto simp: ct_post_void_def split: if_splits)
  then show ?thesis using ct_verdict_failed [OF ct_moves_refl [OF ok]] by blast
next
  case False
  with r obtain pending s1 where read: "ct_read_transfer env (t_pending_id event) st = Some (pending, s1)"
    by (auto simp: ct_post_void_def bind_Some_iff split: if_splits)
  note m = ct_read_transfer_moves [OF ok read]
  have ok1: "ct_caches_ok b s1" and view1: "ct_view s1 = ct_view st" using ct_moves_ok [OF m(1)] by simp_all
  have fails: "ct_verdict_ok b st event (status, ts, amount, s1)"
    if "status \<noteq> CT_Created" "status \<noteq> CT_LinkedEventChainOpen" for status ts amount
    using ct_verdict_failed [OF m(1) that] .
  show ?thesis
  proof (cases existing)
    case (Some e)
    with False r read have "ct_post_void_exists event te e pending s1 = Some v"
      by (auto simp: ct_post_void_def split: if_splits)
    then show ?thesis
      using fails by (auto simp: ct_post_void_exists_def bind_Some_iff dest: pv_not_chain(2) split: if_split_asm)
  next
    case None
    show ?thesis
    proof (cases "\<exists>p. pending = Some p \<and> tf_pending (t_flags p)")
      case True
      then obtain p where p: "pending = Some p" "tf_pending (t_flags p)" by blast
      with False r read None have "ct_post_void_pending env event te p s1 = Some v"
        by (auto simp: ct_post_void_def split: if_splits)
      moreover have "fst (snd (ct_view s1)) (t_pending_id event) = Found p"
        using m(2) p view1 by simp
      ultimately show ?thesis
        using ct_post_void_pending_verdict [OF ok1 pv _ small] m(1) by (blast intro: ct_verdict_after)
    next
      case no: False
      with False r read None have "v = (CT_PendingTransferNotFound, te, 0, s1) \<or> v = (CT_PendingTransferNotPending, te, 0, s1)"
        by (cases pending) (auto simp: ct_post_void_def split: if_splits)
      then show ?thesis using fails by auto
    qed
  qed
qed

lemma ct_apply_verdict:
  assumes ok: "ct_caches_ok b st"
    and small: "unat timestamp < 2 ^ 63" "unat te \<le> unat timestamp" "tf_imported (t_flags event) \<longrightarrow> t_timestamp event < timestamp"
    and r: "ct_apply env event te st = Some v"
  shows "ct_verdict_ok b st event v"
proof -
  from r obtain existing s1 where read: "ct_read_transfer env (t_id event) st = Some (existing, s1)"
    by (auto simp: ct_apply_def bind_Some_iff)
  note m = ct_read_transfer_moves [OF ok read]
  have ok1: "ct_caches_ok b s1" using ct_moves_ok(1) [OF m(1)] .
  show ?thesis
  proof (cases "t_id event \<in> ct_orphaned s1 \<or> ce_is_orphaned env (t_id event)")
    case True
    with r read have "v = (CT_IdAlreadyFailed, te, 0, s1)" by (auto simp: ct_apply_def)
    then show ?thesis using ct_verdict_failed [OF m(1)] by simp
  next
    case False
    with r read obtain status ts amount s2 where
      go: "(if is_post_or_void event then ct_post_void env event te existing s1
           else ct_regular env event te existing s1) = Some (status, ts, amount, s2)"
      and v: "v = (status, ts, amount, if status = CT_Created then s2\<lparr>ct_key_max := max (ct_key_max s2) ts\<rparr> else s2)"
      by (auto simp: ct_apply_def bind_Some_iff)
    have "ct_verdict_ok b s1 event (status, ts, amount, s2)"
      using go ct_post_void_verdict [OF ok1 _ small] ct_regular_verdict [OF ok1 _ small]
      by (cases "is_post_or_void event") auto
    then have "ct_verdict_ok b s1 event v"
      by (auto simp: v ct_verdict_ok_def ct_moves_def ct_caches_ok_def ct_view_def ct_base_def)
    then show ?thesis using m(1) by (rule ct_verdict_after [rotated])
  qed
qed

section \<open>The batch as a whole\<close>

definition transfers_applied :: "ledger_view \<Rightarrow> transfer list \<Rightarrow> CreateTransferResult list \<Rightarrow> ledger_view" where
  "transfers_applied v events results = foldl (\<lambda>v (event, r). apply_transfer v event r) v (zip events results)"

definition transfer_chains_atomic :: "transfer list \<Rightarrow> CreateTransferResult list \<Rightarrow> bool" where
  "transfer_chains_atomic events results \<longleftrightarrow>
     (\<forall>i. Suc i < length results \<longrightarrow> tf_linked (t_flags (events ! i)) \<longrightarrow>
        (created_transfer (results ! i) \<longleftrightarrow> created_transfer (results ! Suc i)))"

interpretation transfer_batch: linked_batch "\<lambda>event. tf_linked (t_flags event)" created_transfer
  fail_transfer apply_transfer
  by unfold_locales (simp_all add: created_transfer_def fail_transfer_def apply_transfer_def)

lemma transfer_batch_defs:
  "transfer_batch.applied = transfers_applied" "transfer_batch.atomic = transfer_chains_atomic"
  by (simp_all add: fun_eq_iff transfer_batch.applied_def transfers_applied_def transfer_batch.atomic_def
      transfer_chains_atomic_def)

definition ct_scoped :: "ct_state \<Rightarrow> bool" where
  "ct_scoped st \<longleftrightarrow> ct_chain st \<noteq> None \<and> \<not> ct_broken st"

definition ct_inv :: "ledger_view \<Rightarrow> transfer list \<Rightarrow> nat \<Rightarrow> ct_state \<Rightarrow> bool" where
  "ct_inv v events k st \<longleftrightarrow> ct_caches_ok (ct_scoped st) st \<and>
     transfer_batch.chain_ok v events k (ct_results st) (ct_chain st) (ct_broken st) (ct_view st) (ct_base st)"

text \<open>What evaluating event \<open>k\<close> does, before any chain handling.\<close>

definition ct_evaluated :: "transfer \<Rightarrow> nat \<Rightarrow> ct_state \<Rightarrow> CreateTransferResult \<Rightarrow> ct_state \<Rightarrow> bool" where
  "ct_evaluated event k st r st' \<longleftrightarrow>
     ct_results st' = ct_results st \<and> ct_broken st' = ct_broken st \<and>
     ct_chain st' = (if tf_linked (t_flags event) \<and> ct_chain st = None then Some k else ct_chain st) \<and>
     ct_caches_ok (ct_scoped st') st' \<and> ct_view st' = apply_transfer (ct_view st) event r \<and>
     (ct_broken st \<longrightarrow> \<not> created_transfer r) \<and>
     (created_transfer r \<longrightarrow> recorded_in (ct_view st') (t_id event) \<and> accepts (ct_view st) event (ctr_amount_actual r)) \<and>
     (ct_scoped st' \<longrightarrow> ct_base st' = (if ct_chain st = None then ct_view st else ct_base st))"

lemma ct_open_chain_evaluated:
  assumes ok: "ct_caches_ok (ct_scoped st) st" and o: "ct_open_chain k event st = Some st'"
    and r: "\<not> created_transfer r"
  shows "ct_evaluated event k st r st'"
proof (cases "tf_linked (t_flags event) \<and> ct_chain st = None")
  case True
  with o obtain accounts transfers pendings where
    opens: "cm_scope_open (ct_accounts st) = Some accounts" "cm_scope_open (ct_transfers st) = Some transfers"
      "cm_scope_open (ct_pending st) = Some pendings" "\<not> ct_broken st"
    and st': "st' = st\<lparr>ct_chain := Some k, ct_accounts := accounts, ct_transfers := transfers,
      ct_pending := pendings, ct_key_max_snapshot := Some (ct_key_max st)\<rparr>"
    by (auto simp: ct_open_chain_def panic_simps)
  have "cm_ok account_cache_spec (ct_accounts st)" "cm_ok transfer_cache_spec (ct_transfers st)"
    "cm_ok transfer_pending_cache_spec (ct_pending st)"
    using ok by (simp_all add: ct_caches_ok_def)
  with accounts_objects.open_entry [OF _ opens(1)] transfers_objects.open_entry [OF _ opens(2)]
    transfers_pending_objects.open_entry [OF _ opens(3)] True opens(4) r
  show ?thesis
    by (simp add: st' ct_evaluated_def ct_caches_ok_def ct_scoped_def ct_view_def ct_base_def
        transfer_batch.apply_not_created)
next
  case False
  with o have "st' = st" by (auto simp: ct_open_chain_def)
  with ok False r show ?thesis
    by (auto simp: ct_evaluated_def ct_scoped_def transfer_batch.apply_not_created)
qed

lemma ct_evaluate_evaluated:
  assumes ok: "ct_caches_ok (ct_scoped st) st"
    and small: "unat (ce_timestamp env) < 2 ^ 63" "k < length (ce_events env)" "length (ce_events env) < 2 ^ 64"
    and r: "ct_evaluate env k event st = Some (status, ts, amount, st')"
  shows "ct_evaluated event k st (transfer_result status ts amount) st'"
    "status = CT_LinkedEventChainOpen \<longleftrightarrow> tf_linked (t_flags event) \<and> k = length (ce_events env) - 1"
proof -
  from r obtain te st1 where te: "event_timestamp (ce_timestamp env) (length (ce_events env)) k = Some te"
    and o: "ct_open_chain k event st = Some st1"
    by (auto simp: ct_evaluate_def bind_Some_iff)
  have te_le: "unat te \<le> unat (ce_timestamp env)" by (rule event_timestamp_le [OF te small(2,3)])
  note opened = ct_open_chain_evaluated [OF ok o]
  let ?apply = "ct_apply env event te st1 = Some (status, ts, amount, st') \<and> \<not> ct_broken st1 \<and>
     (tf_imported (t_flags event) \<longrightarrow> t_timestamp event < ce_timestamp env) \<and>
     \<not> (tf_linked (t_flags event) \<and> k = length (ce_events env) - 1)"
  have "(st' = st1 \<and> status \<noteq> CT_Created \<and>
      (status = CT_LinkedEventChainOpen \<longleftrightarrow> tf_linked (t_flags event) \<and> k = length (ce_events env) - 1)) \<or> ?apply"
    using r te o by (auto simp: ct_evaluate_def split: if_splits)
  moreover have "ct_evaluated event k st (transfer_result status ts amount) st' \<and> status \<noteq> CT_LinkedEventChainOpen"
    if a: ?apply
  proof -
    have st1: "ct_evaluated event k st (transfer_result CT_Exists 0 0) st1"
      by (rule opened) (simp add: created_transfer_def)
    then have view1: "ct_view st1 = ct_view st" and ok1: "ct_caches_ok (ct_scoped st1) st1"
      by (simp_all add: ct_evaluated_def apply_transfer_def created_transfer_def)
    have "ct_verdict_ok (ct_scoped st1) st1 event (status, ts, amount, st')"
      using ct_apply_verdict [OF ok1 small(1) te_le] a by blast
    then have m: "ct_moves (ct_scoped st1) st1 (apply_transfer (ct_view st) event (transfer_result status ts amount)) st'"
      and not_chain: "status \<noteq> CT_LinkedEventChainOpen"
      and recorded: "status = CT_Created \<longrightarrow> recorded_in (ct_view st') (t_id event) \<and> accepts (ct_view st) event amount"
      by (simp_all add: ct_verdict_ok_def view1)
    then have "ct_scoped st' = ct_scoped st1" by (simp add: ct_moves_def ct_scoped_def)
    with m st1 a not_chain recorded show ?thesis by (simp add: ct_evaluated_def ct_moves_def created_transfer_def)
  qed
  moreover have "ct_evaluated event k st (transfer_result status ts amount) st1" if "status \<noteq> CT_Created"
    using that by (intro opened) (simp add: created_transfer_def)
  ultimately show "ct_evaluated event k st (transfer_result status ts amount) st'"
    "status = CT_LinkedEventChainOpen \<longleftrightarrow> tf_linked (t_flags event) \<and> k = length (ce_events env) - 1"
    by blast+
qed

lemma ct_close_scopes_moves:
  assumes ok: "ct_caches_ok True st" and c: "ct_close_scopes mode st = Some st'"
  shows "\<exists>accounts transfers pendings.
    st' = st\<lparr>ct_accounts := accounts, ct_transfers := transfers, ct_pending := pendings\<rparr> \<and>
    ct_caches_ok False st' \<and> ct_view st' = (case mode of Persist \<Rightarrow> ct_view st | Discard \<Rightarrow> ct_base st)"
proof -
  from c obtain accounts transfers pendings where
    close: "cm_scope_close account_cache_spec (ct_accounts st) mode = Some accounts"
      "cm_scope_close transfer_cache_spec (ct_transfers st) mode = Some transfers"
      "cm_scope_close transfer_pending_cache_spec (ct_pending st) mode = Some pendings"
    and st': "st' = st\<lparr>ct_accounts := accounts, ct_transfers := transfers, ct_pending := pendings\<rparr>"
    by (auto simp: ct_close_scopes_def bind_Some_iff)
  have "cm_ok account_cache_spec (ct_accounts st)" "cm_ok transfer_cache_spec (ct_transfers st)"
    "cm_ok transfer_pending_cache_spec (ct_pending st)" "cm_scope_is_active (ct_accounts st)"
    "cm_scope_is_active (ct_transfers st)" "cm_scope_is_active (ct_pending st)"
    using ok by (simp_all add: ct_caches_ok_def)
  then have closed: "cm_ok account_cache_spec accounts \<and> \<not> cm_scope_is_active accounts"
    "cm_ok transfer_cache_spec transfers \<and> \<not> cm_scope_is_active transfers"
    "cm_ok transfer_pending_cache_spec pendings \<and> \<not> cm_scope_is_active pendings"
    "(cm_entry account_cache_spec accounts, cm_entry transfer_cache_spec transfers,
       cm_entry transfer_pending_cache_spec pendings) = (case mode of Persist \<Rightarrow> ct_view st | Discard \<Rightarrow> ct_base st)"
    using accounts_objects.close_entry [OF _ _ close(1)] transfers_objects.close_entry [OF _ _ close(2)]
      transfers_pending_objects.close_entry [OF _ _ close(3)]
    by (cases mode; simp add: ct_view_def ct_base_def)+
  then have "ct_caches_ok False st' \<and> ct_view st' = (case mode of Persist \<Rightarrow> ct_view st | Discard \<Rightarrow> ct_base st)"
    by (simp add: st' ct_caches_ok_def ct_view_def [of "st\<lparr>ct_accounts := _, ct_transfers := _, ct_pending := _\<rparr>"])
  then show ?thesis using st' by blast
qed

lemma ct_record_inv:
  assumes inv: "ct_inv v events k st" and k: "k < length events"
    and ev: "ct_evaluated (events ! k) k st (transfer_result status ts amount) st1"
    and err: "ct_chain_error (events ! k) status st1 = Some st2"
  shows "ct_inv v events (Suc k) (st2\<lparr>ct_results := ct_results st2 @ [transfer_result status ts amount]\<rparr>)"
proof -
  let ?r = "transfer_result status ts amount"
  let ?snap = "if ct_chain st = None then ct_view st else ct_base st"
  have cr: "created_transfer ?r \<longleftrightarrow> status = CT_Created" by (simp add: created_transfer_def)
  have st1: "ct_results st1 = ct_results st" "ct_broken st1 = ct_broken st" "ct_caches_ok (ct_scoped st1) st1"
    and chain1: "ct_chain st1 = (if tf_linked (t_flags (events ! k)) \<and> ct_chain st = None then Some k else ct_chain st)"
    and view1: "ct_view st1 = apply_transfer (ct_view st) (events ! k) ?r"
    and base1: "ct_chain st1 \<noteq> None \<longrightarrow> \<not> ct_broken st \<longrightarrow> ct_base st1 = ?snap"
    and healthy: "created_transfer ?r \<longrightarrow> \<not> ct_broken st"
    using ev by (auto simp: ct_evaluated_def ct_scoped_def)
  have chain: "transfer_batch.chain_ok v events k (ct_results st) (ct_chain st) (ct_broken st) (ct_view st) (ct_base st)"
    using inv by (simp add: ct_inv_def)
  note advance = transfer_batch.chain_ok_record [OF chain k chain1 healthy view1 base1]
  show ?thesis
  proof (cases "ct_chain st1 = None \<or> ct_broken st \<or> created_transfer ?r")
    case True
    then have "ct_results st2 = ct_results st1 \<and> ct_chain st2 = ct_chain st1 \<and> ct_broken st2 = ct_broken st1 \<and>
        ct_accounts st2 = ct_accounts st1 \<and> ct_transfers st2 = ct_transfers st1 \<and> ct_pending st2 = ct_pending st1"
      using err st1(2) cr by (auto simp: ct_chain_error_def Let_def split: option.splits if_splits)
    with advance(1) [OF True] st1 show ?thesis
      by (simp add: ct_inv_def ct_scoped_def ct_caches_ok_def ct_view_def ct_base_def)
  next
    case False
    then obtain n where n: "ct_chain st1 = Some n" and broke: "\<not> ct_broken st" "\<not> created_transfer ?r" by auto
    let ?st = "(if transient status then st1\<lparr>ct_orphaned := insert (t_id (events ! k)) (ct_orphaned st1)\<rparr> else st1)
      \<lparr>ct_broken := True\<rparr>"
    from err n broke cr st1(2) obtain st3 where close: "ct_close_scopes Discard ?st = Some st3"
      and st2: "\<exists>km. st2 = st3\<lparr>ct_key_max := km, ct_results := mark_failed fail_transfer n (ct_results st3)\<rparr>"
      by (cases "transient status") (auto simp: ct_chain_error_def Let_def bind_Some_iff)
    have "ct_caches_ok True ?st"
      using st1(2,3) n broke by (simp add: ct_scoped_def ct_caches_ok_def)
    from ct_close_scopes_moves [OF this close] obtain accounts transfers pendings where
      st3: "st3 = ?st\<lparr>ct_accounts := accounts, ct_transfers := transfers, ct_pending := pendings\<rparr>"
      and closed: "ct_caches_ok False st3" "ct_view st3 = ct_base ?st" by auto
    from st2 obtain km where st2: "st2 = st3\<lparr>ct_key_max := km, ct_results := mark_failed fail_transfer n (ct_results st3)\<rparr>"
      by blast
    let ?st4 = "st2\<lparr>ct_results := ct_results st2 @ [?r]\<rparr>"
    have "ct_base ?st = ct_base st1" by (simp add: ct_base_def)
    with closed have view4: "ct_view ?st4 = ct_base st1" and ok4: "ct_caches_ok False ?st4"
      by (simp_all add: st2 ct_view_def ct_caches_ok_def)
    have st4: "ct_results ?st4 = mark_failed fail_transfer n (ct_results st) @ [?r]"
      "ct_chain ?st4 = ct_chain st1" "ct_broken ?st4 = True"
      using st1(1) by (simp_all add: st2 st3)
    have "transfer_batch.chain_ok v events (Suc k) (ct_results ?st4) (ct_chain ?st4) (ct_broken ?st4)
        (ct_view ?st4) (ct_base ?st4)"
      unfolding st4 view4 by (rule advance(2) [OF n broke])
    moreover have "ct_scoped ?st4 = False" using st4(3) by (simp add: ct_scoped_def)
    ultimately show ?thesis using ok4 by (simp add: ct_inv_def)
  qed
qed

lemma ct_complete_inv:
  assumes inv: "ct_inv v events (Suc k) st"
    and status: "status = CT_LinkedEventChainOpen \<longleftrightarrow> tf_linked (t_flags (events ! k)) \<and> k = length events - 1"
    and c: "ct_chain_complete (events ! k) status st = Some st'"
  shows "ct_inv v events (Suc k) st'"
proof (cases "ct_chain st \<noteq> None \<and> (\<not> tf_linked (t_flags (events ! k)) \<or> status = CT_LinkedEventChainOpen)")
  case False
  with c inv show ?thesis by (auto simp: ct_chain_complete_def split: if_splits)
next
  case True
  have last: "Suc k < length events \<longrightarrow> \<not> tf_linked (t_flags (events ! k))"
    using True status by auto
  from True c obtain st1 where close: "(if \<not> ct_broken st then ct_close_scopes Persist st else Some st) = Some st1"
    and st': "st' = st1\<lparr>ct_chain := None, ct_broken := False, ct_key_max_snapshot := None\<rparr>"
    by (auto simp: ct_chain_complete_def bind_Some_iff)
  have "ct_caches_ok False st1 \<and> ct_view st1 = ct_view st \<and> ct_results st1 = ct_results st"
  proof (cases "ct_broken st")
    case True
    with close inv show ?thesis by (simp add: ct_inv_def ct_scoped_def)
  next
    case False
    with True inv have "ct_caches_ok True st" by (simp add: ct_inv_def ct_scoped_def)
    from ct_close_scopes_moves [OF this] False close show ?thesis by fastforce
  qed
  then show ?thesis
    using inv st' by (auto simp: ct_inv_def ct_scoped_def ct_caches_ok_def ct_view_def
        intro: transfer_batch.chain_ok_complete [OF _ last])
qed

lemma ct_loop_inv:
  assumes "ct_inv v (ce_events env) k st" "rest = drop k (ce_events env)"
    and "length (ce_events env) < 2 ^ 64" "unat (ce_timestamp env) < 2 ^ 63"
    and "ct_loop env k rest st = Some st'"
  shows "ct_inv v (ce_events env) (length (ce_events env)) st'"
  using assms
proof (induction rest arbitrary: k st)
  case Nil
  then have "k = length (ce_events env)" by (simp add: ct_inv_def transfer_batch.chain_ok_def)
  with Nil show ?case by simp
next
  case (Cons event rest)
  from Cons.prems(2) have k: "k < length (ce_events env)" by (metis drop_eq_Nil linorder_not_less list.distinct(1))
  with Cons.prems(2) have event: "event = ce_events env ! k" "rest = drop (Suc k) (ce_events env)"
    by (metis Cons_nth_drop_Suc list.inject)+
  from Cons.prems(5) obtain st1 where st1: "ct_event env k event st = Some st1" "ct_loop env (Suc k) rest st1 = Some st'"
    by (auto simp: bind_Some_iff)
  from st1(1) obtain status ts amount s1 s2 where
    1: "ct_evaluate env k event st = Some (status, ts, amount, s1)"
    and 2: "ct_chain_error event status s1 = Some s2"
    and 3: "ct_chain_complete event status (s2\<lparr>ct_results := ct_results s2 @ [transfer_result status ts amount]\<rparr>) = Some st1"
    by (auto simp: ct_event_def bind_Some_iff)
  have "ct_caches_ok (ct_scoped st) st" using Cons.prems(1) by (simp add: ct_inv_def)
  note ev = ct_evaluate_evaluated [OF this Cons.prems(4) k Cons.prems(3) 1, unfolded event]
  have "ct_inv v (ce_events env) (Suc k) st1"
    by (rule ct_complete_inv [OF ct_record_inv [OF Cons.prems(1) k ev(1) 2 [unfolded event]] ev(2) 3 [unfolded event]])
  with Cons.IH event(2) Cons.prems(3,4) st1(2) show ?case by blast
qed

lemma execute_create_transfers_refines:
  assumes ok: "cm_ok account_cache_spec accounts" "cm_ok transfer_cache_spec transfers"
      "cm_ok transfer_pending_cache_spec pendings"
    and idle: "\<not> cm_scope_is_active accounts" "\<not> cm_scope_is_active transfers" "\<not> cm_scope_is_active pendings"
    and small: "length (ce_events env) < 2 ^ 64" "unat (ce_timestamp env) < 2 ^ 63"
    and r: "execute_create_transfers env accounts transfers pendings key_max orphaned = Some (results, st')"
  shows "length results = length (ce_events env)" "ct_caches_ok False st'"
    "ct_view st' = transfers_applied (cm_entry account_cache_spec accounts, cm_entry transfer_cache_spec transfers,
       cm_entry transfer_pending_cache_spec pendings) (ce_events env) results"
    "transfer_chains_atomic (ce_events env) results"
proof -
  let ?st = "\<lparr>ct_accounts = accounts, ct_transfers = transfers, ct_pending = pendings, ct_results = [],
     ct_chain = None, ct_broken = False, ct_key_max = key_max, ct_key_max_snapshot = None, ct_orphaned = orphaned\<rparr>"
  let ?v = "(cm_entry account_cache_spec accounts, cm_entry transfer_cache_spec transfers,
     cm_entry transfer_pending_cache_spec pendings)"
  from r have st: "ct_loop env 0 (ce_events env) ?st = Some st'" "ct_chain st' = None" "results = ct_results st'"
    by (auto simp: execute_create_transfers_def panic_simps)
  have "ct_inv ?v (ce_events env) 0 ?st"
    using ok idle transfer_batch.chain_ok_init [of ?v "ce_events env"]
    by (simp add: ct_inv_def ct_scoped_def ct_caches_ok_def ct_view_def)
  from ct_loop_inv [OF this _ small st(1)]
  have inv: "ct_inv ?v (ce_events env) (length (ce_events env)) st'" by simp
  then have "transfer_batch.chain_ok ?v (ce_events env) (length (ce_events env)) (ct_results st') None
      (ct_broken st') (ct_view st') (ct_base st')"
    using st(2) by (simp add: ct_inv_def)
  from transfer_batch.chain_ok_done [OF this] inv st
  show "length results = length (ce_events env)" "ct_caches_ok False st'"
    "ct_view st' = transfers_applied ?v (ce_events env) results"
    "transfer_chains_atomic (ce_events env) results"
    by (simp_all add: ct_inv_def ct_scoped_def transfer_batch_defs)
qed

end
