(* ===== verification/LedgerRules.thy ===== *)
theory LedgerRules
  imports Accounting
begin

text \<open>
  What the per-event rules of \<open>crates/tigerbeetle-vsr/src/state_machine.rs\<close> guarantee: double entry
  to the unit, account limits that survive every created transfer, release of pending amounts,
  maximal balancing amounts, and idempotent resubmission. Sample events serve the witnesses.
\<close>

section \<open>Created accounts and sample data\<close>

lemma create_account_CreatedD:
  assumes "create_account a ts ex = Some CA_Created"
  shows "ex = None" "ts \<noteq> 0" "a_reserved a = 0" "\<not> af_has_padding (a_flags a)" "a_id a \<noteq> 0" "a_id a \<noteq> -1"
    "\<not> af_are_mutually_exclusive (a_flags a)" "a_debits_pending a = 0" "a_debits_posted a = 0"
    "a_credits_pending a = 0" "a_credits_posted a = 0" "a_ledger a \<noteq> 0" "a_code a \<noteq> 0"
    "\<not> af_imported (a_flags a) \<Longrightarrow> a_timestamp a = 0"
proof -
  have ex: "ex = None"
    using assms unfolding create_account_def
    by (cases ex) (simp_all add: create_account_exists_def split: if_split_asm)
  then show "ex = None" .
  show "ts \<noteq> 0" "a_reserved a = 0" "\<not> af_has_padding (a_flags a)" "a_id a \<noteq> 0" "a_id a \<noteq> -1"
    "\<not> af_are_mutually_exclusive (a_flags a)" "a_debits_pending a = 0" "a_debits_posted a = 0"
    "a_credits_pending a = 0" "a_credits_posted a = 0" "a_ledger a \<noteq> 0" "a_code a \<noteq> 0"
    "\<not> af_imported (a_flags a) \<Longrightarrow> a_timestamp a = 0"
    using assms unfolding create_account_def ex by (auto split: if_split_asm)
qed

lemma created_account_inv: "create_account a ts ex = Some CA_Created \<Longrightarrow> account_inv (a\<lparr>a_timestamp := ts'\<rparr>)"
  using create_account_CreatedD [of a ts ex]
  by (auto simp: account_inv_def debits_total_def credits_total_def af_are_mutually_exclusive_def)

definition account_event_a :: account where
  "account_event_a = \<lparr>a_id = 1, a_debits_pending = 0, a_debits_posted = 0, a_credits_pending = 0,
     a_credits_posted = 0, a_user_data_128 = 0, a_user_data_64 = 0, a_user_data_32 = 0,
     a_reserved = 0, a_ledger = 1, a_code = 1, a_flags = 0, a_timestamp = 0\<rparr>"

definition transfer_event_t :: transfer where
  "transfer_event_t = \<lparr>t_id = 1, t_debit_account_id = 1, t_credit_account_id = 2, t_amount = 100,
     t_pending_id = 0, t_user_data_128 = 0, t_user_data_64 = 0, t_user_data_32 = 0, t_timeout = 0,
     t_ledger = 1, t_code = 1, t_flags = 0, t_timestamp = 0\<rparr>"

lemmas [model_defs] = account_event_a_def transfer_event_t_def


definition debit_account_a :: account where
  "debit_account_a = account_event_a\<lparr>a_timestamp := 2\<rparr>"

definition credit_account_b :: account where
  "credit_account_b = account_event_a\<lparr>a_id := 2, a_timestamp := 3\<rparr>"

definition pending_event_p :: transfer where
  "pending_event_p = transfer_event_t\<lparr>t_id := 7, t_flags := 2\<rparr>"

definition post_event :: transfer where
  "post_event = \<lparr>t_id = 8, t_debit_account_id = 0, t_credit_account_id = 0, t_amount = 60,
     t_pending_id = 7, t_user_data_128 = 0, t_user_data_64 = 0, t_user_data_32 = 0, t_timeout = 0,
     t_ledger = 0, t_code = 0, t_flags = 4, t_timestamp = 0\<rparr>"

lemmas [model_defs] = checked_add_def checked_sub_def checked_mul_def TIMESTAMP_MIN_def TIMESTAMP_MAX_def
  debit_account_a_def credit_account_b_def pending_event_p_def post_event_def

section \<open>Double entry\<close>

text \<open>C6. A transfer that \<open>create_transfer\<close> accepts moves exactly its actual amount: the debit side of
  the debit account and the credit side of the credit account grow by it, pending or posted as the
  flags say, nothing else of either account's balances changes, and both accounts keep their
  invariant (no balance sum overflows, no limit is passed).\<close>

theorem created_transfer_double_entry:
  assumes "create_transfer t ts ex dr cr = Some CT_Created" "account_inv dr" "account_inv cr"
  shows "case commit_transfer_accounts t (compute_amount_actual t dr cr) dr cr of (dr', cr') \<Rightarrow>
    (let amount = unat (compute_amount_actual t dr cr);
         pending = (if tf_pending (t_flags t) then amount else 0);
         posted = (if tf_pending (t_flags t) then 0 else amount)
     in debit_by dr dr' pending posted \<and> credit_by cr cr' pending posted \<and>
        account_inv dr' \<and> account_inv cr')"
proof -
  obtain dr' cr' where commit: "commit_transfer_accounts t (compute_amount_actual t dr cr) dr cr = (dr', cr')"
    by fastforce
  show ?thesis
    using commit_transfer_accounts_exact [OF assms(1) commit refl]
      create_transfer_account_inv [OF assms(1) commit assms(2,3)]
    by (simp add: commit Let_def)
qed

theorem created_transfer_double_entry_witness:
  "case commit_transfer_accounts transfer_event_t (compute_amount_actual transfer_event_t debit_account_a credit_account_b)
      debit_account_a credit_account_b of (dr', cr') \<Rightarrow>
    debit_by debit_account_a dr' 0 100 \<and> credit_by credit_account_b cr' 0 100"
proof -
  have created: "create_transfer transfer_event_t 5 None debit_account_a credit_account_b = Some CT_Created"
    by (simp add: model_defs)
  have inv: "account_inv debit_account_a" "account_inv credit_account_b"
    by (simp_all add: model_defs account_inv_def debits_total_def credits_total_def)
  have "unat (compute_amount_actual transfer_event_t debit_account_a credit_account_b) = 100"
    "tf_pending (t_flags transfer_event_t) = False"
    by (simp_all add: model_defs)
  with created_transfer_double_entry [OF created inv] show ?thesis
    by (auto simp: Let_def split: prod.splits)
qed

section \<open>Posting and voiding\<close>

text \<open>C16. A post or void that validates against a pending transfer whose amount both accounts still
  hold is applied without a panic: the whole pending amount is released on both sides, exactly the
  posted amount (nothing for a void, at most the pending amount for a post) arrives on the posted
  balances, the other balances stay, and both accounts keep their invariant.\<close>

theorem post_void_releases:
  assumes "post_or_void_pending_transfer t ts p dr cr st kmax at ate = Some r" "pv_status r = CT_Created"
    and "account_inv dr" "account_inv cr"
    and "unat (t_amount p) \<le> unat (a_debits_pending dr)" "unat (t_amount p) \<le> unat (a_credits_pending cr)"
    and "tf_closing_debit (t_flags p) \<longrightarrow> af_closed (a_flags dr)"
    and "tf_closing_credit (t_flags p) \<longrightarrow> af_closed (a_flags cr)"
  shows "\<exists>dr' cr'. commit_post_void_accounts t p (pv_amount_actual r) dr cr = Some (dr', cr') \<and>
    (let posted = (if tf_post_pending_transfer (t_flags t) then unat (pv_amount_actual r) else 0)
     in unat (a_debits_pending dr) = unat (a_debits_pending dr') + unat (t_amount p) \<and>
        unat (a_credits_pending cr) = unat (a_credits_pending cr') + unat (t_amount p) \<and>
        unat (a_debits_posted dr') = unat (a_debits_posted dr) + posted \<and>
        unat (a_credits_posted cr') = unat (a_credits_posted cr) + posted \<and>
        posted \<le> unat (t_amount p) \<and>
        a_credits_pending dr' = a_credits_pending dr \<and> a_credits_posted dr' = a_credits_posted dr \<and>
        a_debits_pending cr' = a_debits_pending cr \<and> a_debits_posted cr' = a_debits_posted cr \<and>
        account_inv dr' \<and> account_inv cr')"
proof -
  obtain dr' cr' where c: "commit_post_void_accounts t p (pv_amount_actual r) dr cr = Some (dr', cr')"
    using commit_post_void_no_panic [OF assms(1,2)] assms(7,8) by blast
  show ?thesis
    using commit_post_void_exact [OF c assms(5,6,3,4)] post_void_account_inv [OF c assms(5,6,3,4)] assms(5,6) c
    by (intro exI [of _ dr'] exI [of _ cr']) (auto simp: Let_def)
qed

theorem post_void_releases_witness:
  "\<exists>dr' cr'. commit_post_void_accounts post_event pending_event_p 60
      (debit_account_a\<lparr>a_debits_pending := 100\<rparr>) (credit_account_b\<lparr>a_credits_pending := 100\<rparr>) = Some (dr', cr') \<and>
    unat (a_debits_posted dr') = 60 \<and> unat (a_credits_posted cr') = 60"
proof -
  let ?dr = "debit_account_a\<lparr>a_debits_pending := 100\<rparr>"
  let ?cr = "credit_account_b\<lparr>a_credits_pending := 100\<rparr>"
  let ?r = "\<lparr>pv_status = CT_Created, pv_amount_actual = 60, pv_is_post = True\<rparr>"
  have r: "post_or_void_pending_transfer post_event 9 pending_event_p ?dr ?cr StPending 4 {} pk_empty = Some ?r"
    by (simp add: model_defs)
  have inv: "account_inv ?dr" "account_inv ?cr"
    by (simp_all add: model_defs account_inv_def debits_total_def credits_total_def)
  from post_void_releases [OF r _ inv] obtain dr' cr' where
    "commit_post_void_accounts post_event pending_event_p 60 ?dr ?cr = Some (dr', cr')"
    "unat (a_debits_posted dr') = unat (a_debits_posted ?dr) +
       (if tf_post_pending_transfer (t_flags post_event) then 60 else 0)"
    "unat (a_credits_posted cr') = unat (a_credits_posted ?cr) +
       (if tf_post_pending_transfer (t_flags post_event) then 60 else 0)"
    by (auto simp: model_defs Let_def)
  then show ?thesis by (intro exI [of _ dr'] exI [of _ cr']) (simp add: model_defs)
qed

section \<open>Balancing\<close>

text \<open>C28. The amount a balancing transfer is clamped to is as large as the request and the accounts
  allow: it never exceeds the request, nor the balance available on a side the flags balance against,
  and whenever it is below the request it is exactly that available balance of one such side.\<close>

theorem balancing_amount_maximal:
  assumes inv: "account_inv dr" "account_inv cr"
    and m: "m = compute_amount_actual t dr cr"
  shows "unat m \<le> unat (t_amount t) \<and>
     (tf_balancing_debit (t_flags t) \<longrightarrow> unat m \<le> unat (a_credits_posted dr) - debits_total dr) \<and>
     (tf_balancing_credit (t_flags t) \<longrightarrow> unat m \<le> unat (a_debits_posted cr) - credits_total cr) \<and>
     (unat m < unat (t_amount t) \<longrightarrow>
       (tf_balancing_debit (t_flags t) \<and> unat m = unat (a_credits_posted dr) - debits_total dr) \<or>
       (tf_balancing_credit (t_flags t) \<and> unat m = unat (a_debits_posted cr) - credits_total cr))"
proof -
  have bal: "unat (a_debits_posted dr + a_debits_pending dr) = debits_total dr"
    "unat (a_credits_posted cr + a_credits_pending cr) = credits_total cr"
    using unat_debits_total [OF inv(1)] unat_credits_total [OF inv(2)] by (simp_all add: add.commute)
  let ?A = "unat (a_credits_posted dr) - debits_total dr"
  let ?B = "unat (a_debits_posted cr) - credits_total cr"
  have "unat m = (if tf_balancing_debit (t_flags t)
      then (if tf_balancing_credit (t_flags t) then min (min (unat (t_amount t)) ?A) ?B
            else min (unat (t_amount t)) ?A)
      else (if tf_balancing_credit (t_flags t) then min (unat (t_amount t)) ?B else unat (t_amount t)))"
    unfolding m by (simp add: compute_amount_actual_def Let_def unat_min bal)
  then show ?thesis by (auto simp: min_def)
qed


theorem balancing_amount_maximal_witness:
  "unat (compute_amount_actual (transfer_event_t\<lparr>t_flags := 16\<rparr>)
     (debit_account_a\<lparr>a_credits_posted := 30\<rparr>) credit_account_b) = 30"
proof -
  let ?t = "transfer_event_t\<lparr>t_flags := 16\<rparr>"
  let ?dr = "debit_account_a\<lparr>a_credits_posted := 30\<rparr>"
  have inv: "account_inv ?dr" "account_inv credit_account_b"
    by (simp_all add: model_defs account_inv_def debits_total_def credits_total_def)
  have flags: "tf_balancing_debit (t_flags ?t)" "\<not> tf_balancing_credit (t_flags ?t)"
    "unat (a_credits_posted ?dr) - debits_total ?dr = 30" "unat (t_amount ?t) = 100"
    by (simp_all add: model_defs debits_total_def)
  from balancing_amount_maximal [OF inv refl, of ?t] flags show ?thesis by auto
qed

section \<open>Idempotency\<close>

text \<open>Creating an account is idempotent: an event that was created, submitted again at any later
  time against the account it created, is answered \<open>Exists\<close>.\<close>

theorem create_account_idempotent:
  assumes "create_account a ts None = Some CA_Created" "ts' \<noteq> 0"
  shows "create_account a ts' (Some (a\<lparr>a_timestamp := ts''\<rparr>)) = Some CA_Exists"
  using assms(2) create_account_CreatedD [OF assms(1)]
  by (simp add: create_account_def create_account_exists_def)

theorem create_account_idempotent_witness:
  "create_account account_event_a 5 None = Some CA_Created \<and>
   create_account account_event_a 7 (Some (account_event_a\<lparr>a_timestamp := 5\<rparr>)) = Some CA_Exists"
proof -
  have c: "create_account account_event_a 5 None = Some CA_Created" by (simp add: model_defs)
  show ?thesis using c create_account_idempotent [OF c, of 7 5] by simp
qed

lemma create_transfer_resubmit:
  assumes "create_transfer t ts None dr cr = Some CT_Created" "ts' \<noteq> 0"
  shows "create_transfer t ts' (Some (t\<lparr>t_amount := m, t_timestamp := ts''\<rparr>)) dr' cr' =
    Some (if m = t_amount t then CT_Exists
          else if tf_pending (t_flags t) then
            (if m < t_amount t then CT_PendingTransferHasDifferentAmount else CT_Exists)
          else CT_ExistsWithDifferentAmount)"
  using assms(2) create_transfer_CreatedD [OF assms(1)]
  by (auto simp: create_transfer_def create_transfer_exists_def)

lemma compute_amount_actual_le: "compute_amount_actual t dr cr \<le> t_amount t"
  by (auto simp: compute_amount_actual_def Let_def min_def split: if_splits)

text \<open>C31. Resubmitting a created transfer against the transfer it stored is answered \<open>Exists\<close> exactly
  when the stored amount is the requested one. A balancing transfer that was clamped is therefore
  never recognised as already existing.\<close>

theorem create_transfer_idempotent:
  assumes "create_transfer t ts None dr cr = Some CT_Created" "ts' \<noteq> 0"
    and "m = compute_amount_actual t dr cr"
  shows "create_transfer t ts' (Some (t\<lparr>t_amount := m, t_timestamp := ts''\<rparr>)) dr' cr' = Some CT_Exists
     \<longleftrightarrow> m = t_amount t"
  using create_transfer_resubmit [OF assms(1,2), where m = m and ts'' = ts'' and dr' = dr' and cr' = cr'] compute_amount_actual_le [of t dr cr]
  by (auto simp: assms(3))

theorem create_transfer_idempotent_witness:
  "create_transfer transfer_event_t 9 (Some (transfer_event_t\<lparr>t_amount := 100, t_timestamp := 5\<rparr>))
     debit_account_a credit_account_b = Some CT_Exists"
proof -
  have c: "create_transfer transfer_event_t 5 None debit_account_a credit_account_b = Some CT_Created"
    and m: "100 = compute_amount_actual transfer_event_t debit_account_a credit_account_b"
    by (simp_all add: model_defs)
  have later: "(9 :: u64) \<noteq> 0" and full: "(100 :: u128) = t_amount transfer_event_t"
    by (simp_all add: model_defs)
  show ?thesis by (rule iffD2 [OF create_transfer_idempotent [OF c later m] full])
qed

text \<open>Resubmitting a created post or void against the record it stored is answered \<open>Exists\<close>,
  also when the event left the account ids, ledger, code, user data or amount to be taken from the
  pending transfer.\<close>

theorem post_void_idempotent:
  assumes r: "post_or_void_pending_transfer t ts p dr cr st kmax at ate = Some r" "pv_status r = CT_Created"
    and later: "t_timestamp p < ts'"
  shows "post_or_void_pending_transfer_exists t (folded_transfer t p (pv_amount_actual r) ts') p
     = Some CT_Exists"
proof -
  note d = post_or_void_CreatedD [OF r]
  have post: "tf_post_pending_transfer (t_flags t) \<longleftrightarrow> \<not> tf_void_pending_transfer (t_flags t)"
    using d(2) by blast
  have given: "(t_debit_account_id t \<noteq> 0 \<and> t_debit_account_id t \<noteq> t_debit_account_id p) = False"
    "(t_credit_account_id t \<noteq> 0 \<and> t_credit_account_id t \<noteq> t_credit_account_id p) = False"
    "(t_ledger t \<noteq> 0 \<and> t_ledger t \<noteq> t_ledger p) = False"
    "(t_code t \<noteq> 0 \<and> t_code t \<noteq> t_code p) = False"
    using d(14-17) by blast+
  have amount: "(tf_void_pending_transfer (t_flags t) \<and>
      (if t_amount t = 0 then pv_amount t p \<noteq> t_amount p else t_amount t \<noteq> pv_amount t p)) = False"
    "(tf_post_pending_transfer (t_flags t) \<and>
      (if t_amount t = -1 then pv_amount t p \<noteq> t_amount p else t_amount t \<noteq> pv_amount t p)) = False"
    "(tf_post_pending_transfer (t_flags t) \<and> t_amount p < pv_amount t p) = False"
    using post d(11) by (auto simp: pv_amount_def)
  show ?thesis
    unfolding post_or_void_pending_transfer_exists_def folded_transfer_def d(10)
      transfer.select_convs given amount if_False
    using d(4-7) post later by (simp add: is_post_or_void_def)
qed

theorem post_void_idempotent_witness:
  "post_or_void_pending_transfer_exists post_event
     (folded_transfer post_event (pending_event_p\<lparr>t_timestamp := 4\<rparr>) 60 9) (pending_event_p\<lparr>t_timestamp := 4\<rparr>)
     = Some CT_Exists"
proof -
  let ?r = "\<lparr>pv_status = CT_Created, pv_amount_actual = 60, pv_is_post = True\<rparr>"
  have r: "post_or_void_pending_transfer post_event 9 (pending_event_p\<lparr>t_timestamp := 4\<rparr>) debit_account_a
      credit_account_b StPending 4 {} pk_empty = Some ?r"
    by (simp add: model_defs)
  from post_void_idempotent [OF r, of 9] show ?thesis by (simp add: model_defs)
qed

section \<open>Undefined flag bits\<close>

lemma or_and_frame: "bits AND u = bits \<Longrightarrow> u AND m = 0 \<Longrightarrow> (flags OR bits) AND m = flags AND m" for flags bits u m :: "'a::len word"
proof -
  assume "bits AND u = bits" "u AND m = 0"
  then have "bits AND m = 0" by (metis and.assoc and_zero_eq)
  then show ?thesis by (simp add: bit.conj_disj_distrib2)
qed

lemma undefined_flag_bits:
  assumes "bits AND 0x1C0 = bits"
  shows "af_has_padding (flags OR bits) = af_has_padding flags" "af_are_mutually_exclusive (flags OR bits) = af_are_mutually_exclusive flags"
    "af_imported (flags OR bits) = af_imported flags"
  by (simp_all add: af_has_padding_def af_are_mutually_exclusive_def af_imported_def af_debits_must_not_exceed_credits_def
      af_credits_must_not_exceed_debits_def or_and_frame [OF assms])

text \<open>C40. \<open>AccountFlags::has_padding\<close> masks nine bits while six flags are defined: for every account and every combination of the
  undefined bits 6, 7 and 8, creating the account with those bits set gives the verdict it gives without them, so a
  valid account is created with them; \<open>ReservedFlag\<close> is the answer exactly when one of the bits 9 to 15 is set (and no
  earlier check applies).\<close>

theorem undefined_account_flags_accepted:
  assumes "undefined_bits AND 0x1C0 = undefined_bits"
  shows "create_account (a\<lparr>a_flags := a_flags a OR undefined_bits\<rparr>) timestamp None = create_account a timestamp None \<and>
    (create_account a timestamp existing = Some CA_ReservedFlag \<longleftrightarrow>
       timestamp \<noteq> 0 \<and> a_reserved a = 0 \<and> a_flags a AND 0xFE00 \<noteq> 0)"
proof
  show "create_account (a\<lparr>a_flags := a_flags a OR undefined_bits\<rparr>) timestamp None = create_account a timestamp None"
    by (simp add: create_account_def undefined_flag_bits [OF assms])
  have "(NOT 0x1FF :: u16) = 0xFE00" by (simp add: minus_equation_iff [of 512] eq_neg_iff_add_eq_0)
  then have "af_has_padding (a_flags a) \<longleftrightarrow> a_flags a AND 0xFE00 \<noteq> 0" unfolding af_has_padding_def by (simp only: )
  then show "create_account a timestamp existing = Some CA_ReservedFlag \<longleftrightarrow> timestamp \<noteq> 0 \<and> a_reserved a = 0 \<and> a_flags a AND 0xFE00 \<noteq> 0"
    by (auto simp: create_account_def create_account_exists_def split: option.splits)
qed

theorem undefined_account_flags_accepted_witness:
  "create_account (account_event_a\<lparr>a_flags := 0x1C8\<rparr>) 5 None = Some CA_Created"
  using undefined_account_flags_accepted [where undefined_bits = "0x1C0" and a = "account_event_a\<lparr>a_flags := 8\<rparr>" and timestamp = 5] by (simp add: model_defs)

end
