(* ===== verification/CacheProps.thy ===== *)
theory CacheProps
  imports Grooves
begin

text \<open>
  The caches as their clients may use them: the set-associative cache is a partial map that may
  forget, the cache map is one that does not, and a scope commits or rolls back as a whole.
\<close>

section \<open>A concrete cache\<close>

definition sample_account :: account where
  "sample_account = account_default\<lparr>a_id := 1, a_ledger := 1, a_code := 1, a_timestamp := 2\<rparr>"

definition stash_only :: "nat \<Rightarrow> cm_options" where
  "stash_only n = \<lparr>co_cache_value_count_max = 0, co_stash_value_count_max = n, co_scope_value_count_max = 32\<rparr>"

lemma powers_of_two: "is_power_of_two 16" "is_power_of_two 64" "is_power_of_two 128"
  by code_simp+

lemma account_cache_new: "\<exists>c. sac_new account_cache_spec 256 = Some c"
  by (simp add: sac_new_def validate_layout_def account_cache_spec_def powers_of_two is_multiple_of_def
      clock_hand_bits_def value_count_max_multiple_def pa_new_def Let_def)

lemma account_cache_new_ok:
  obtains c where "sac_new account_cache_spec 256 = Some c" "sac_ok account_cache_spec c"
    "sac_view account_cache_spec c = Map.empty"
proof -
  obtain c where c: "sac_new account_cache_spec 256 = Some c" using account_cache_new by blast
  from sac_new_empty [OF c groove_layouts(1)] that [OF c] show thesis by simp
qed

section \<open>The set-associative cache\<close>

text \<open>C13. An upsert into a well-formed cache always succeeds (in particular the CLOCK hand stops within
  its bound, so the assertion after the loop never fires), keeps the cache well-formed, and is a map
  update: a key that was present is overwritten and its old value handed back; otherwise the key is
  inserted, and at most one other key is forgotten, whose value is the one reported as evicted.\<close>

theorem cache_upsert_correct:
  assumes "sac_ok S c"
  shows "\<exists>r c'. sac_upsert S c v = Some (r, c') \<and> sac_ok S c' \<and>
    (case sac_view S c (sp_key S v) of
       Some old \<Rightarrow> up_updated r = Update \<and> up_evicted r = Some old \<and>
         sac_view S c' = (sac_view S c)(sp_key S v \<mapsto> v)
     | None \<Rightarrow> up_updated r = Insert \<and>
         (case up_evicted r of
            None \<Rightarrow> sac_view S c' = (sac_view S c)(sp_key S v \<mapsto> v)
          | Some e \<Rightarrow> sp_key S e \<noteq> sp_key S v \<and> sac_view S c (sp_key S e) = Some e \<and>
              sac_view S c' = (sac_view S c)(sp_key S e := None, sp_key S v \<mapsto> v)))"
proof (cases "sac_view S c (sp_key S v)")
  case None
  from sac_upsert_insert [OF assms None] None show ?thesis by fastforce
next
  case (Some old)
  from sac_upsert_update [OF assms Some] Some show ?thesis by fastforce
qed

theorem cache_upsert_correct_witness:
  "\<exists>c r c'. sac_new account_cache_spec 256 = Some c \<and> sac_upsert account_cache_spec c sample_account = Some (r, c') \<and>
     up_updated r = Insert \<and> up_evicted r = None \<and> sac_view account_cache_spec c' 1 = Some sample_account"
proof -
  obtain c where c: "sac_new account_cache_spec 256 = Some c" "sac_ok account_cache_spec c"
    and empty: "sac_view account_cache_spec c = Map.empty" by (rule account_cache_new_ok)
  have key: "sp_key account_cache_spec sample_account = 1"
    by (simp add: account_cache_spec_def sample_account_def)
  from cache_upsert_correct [OF c(2), of sample_account] obtain r c' where
    "sac_upsert account_cache_spec c sample_account = Some (r, c')" "up_updated r = Insert"
    "up_evicted r = None" "sac_view account_cache_spec c' = [1 \<mapsto> sample_account]"
    using empty key by (auto split: option.splits)
  with c(1) show ?thesis by auto
qed

text \<open>C29. Lookups, demotions and removals on a well-formed cache never panic and keep it well-formed. A
  lookup answers with the cached value and changes no entry, a demotion changes none, and a removal
  takes out exactly its key and hands back what was there.\<close>

theorem cache_access_correct:
  assumes "sac_ok S c"
  shows "(\<exists>c'. sac_get S c k = Some (sac_view S c k, c') \<and> sac_ok S c' \<and> sac_view S c' = sac_view S c) \<and>
    (\<exists>c'. sac_demote S c k = Some c' \<and> sac_ok S c' \<and> sac_view S c' = sac_view S c) \<and>
    (\<exists>c'. sac_remove S c k = Some (sac_view S c k, c') \<and> sac_ok S c' \<and> sac_view S c' = (sac_view S c)(k := None))"
  using sac_get_refines [OF assms] sac_demote_refines [OF assms] sac_remove_refines [OF assms] by blast

theorem cache_access_correct_witness:
  "\<exists>c c'. sac_new account_cache_spec 256 = Some c \<and> sac_get account_cache_spec c 7 = Some (None, c')"
proof -
  obtain c where c: "sac_new account_cache_spec 256 = Some c" "sac_ok account_cache_spec c"
    and empty: "sac_view account_cache_spec c = Map.empty" by (rule account_cache_new_ok)
  from cache_access_correct [OF c(2), of 7] empty c(1) show ?thesis by auto
qed

text \<open>A cache built by \<open>new\<close> in any layout the program instantiates is well-formed and empty, and so
  is any well-formed cache after \<open>reset\<close>.\<close>

theorem fresh_cache_empty:
  assumes "sac_new S n = Some c" "program_layout S" "n < 2 ^ 64"
  shows "sac_ok S c \<and> sac_view S c = Map.empty \<and>
    sac_ok S (sac_reset c) \<and> sac_view S (sac_reset c) = Map.empty"
  using sac_new_empty [OF assms] sac_reset_ok [of S c] by blast

theorem fresh_cache_empty_witness:
  "\<exists>c. sac_new account_cache_spec 256 = Some c \<and> sac_ok account_cache_spec c"
proof -
  obtain c where c: "sac_new account_cache_spec 256 = Some c" using account_cache_new by blast
  from fresh_cache_empty [OF c groove_layouts(1)] c show ?thesis by simp
qed

section \<open>The cache map\<close>

text \<open>The upserts of one scope, in order.\<close>

fun cm_upserts :: "('k, 'v) cm_spec \<Rightarrow> ('k, 'v) cm \<Rightarrow> 'v list \<Rightarrow> ('k, 'v) cm option" where
  "cm_upserts S m [] = Some m"
| "cm_upserts S m (v # vs) = do { m \<leftarrow> cm_upsert S m v; cm_upserts S m vs }"

lemma cm_upserts_session:
  assumes "cm_spec_ok S"
  shows "objects_cache.upserts (cm_upsert S) = cm_upserts S"
proof (intro ext)
  note oc = cm_objects_cache [OF assms]
  fix m :: "('a, 'b) cm" and vs :: "'b list"
  show "objects_cache.upserts (cm_upsert S) m vs = cm_upserts S m vs"
    by (induction vs arbitrary: m) (simp_all add: objects_cache.upserts.simps [OF oc])
qed

text \<open>C12. A scope is atomic: whatever live values are upserted between opening and closing it, a discard
  leaves every key's entry (found, not found or tombstone) as it was when the scope was opened, even
  where values moved between cache and stash in between, and a persist leaves exactly the upserted
  values on top of it. The map stays well-formed and out of scope.\<close>

theorem scope_atomic:
  assumes "cm_spec_ok S" "cm_ok S m" "\<forall>v \<in> set vs. \<not> sp_tombstone S v"
    and "cm_scope_open m = Some m1" "cm_upserts S m1 vs = Some m2" "cm_scope_close S m2 mode = Some m3"
  shows "cm_ok S m3 \<and> \<not> cm_scope_is_active m3 \<and>
    cm_entry S m3 =
      (case mode of
         Discard \<Rightarrow> cm_entry S m
       | Persist \<Rightarrow> foldl (\<lambda>e v. e(sp_key S v := Found v)) (cm_entry S m) vs)"
proof -
  note oc = cm_objects_cache [OF assms(1)]
  have live: "list_all (\<lambda>v. \<not> sp_tombstone S v) vs" using assms(3) by (simp add: list_all_iff)
  note s = objects_cache.session [OF oc assms(2) live assms(4) _ assms(6), unfolded cm_upserts_session [OF assms(1)], OF assms(5)]
  show ?thesis using s by (cases mode) simp_all
qed

definition sample_map :: "(u128, account) cm" where
  "sample_map = \<lparr>cm_cache = None, cm_stash = [(1, sample_account)], cm_scope_is_active = False,
     cm_log = \<lparr>rl_actions = [], rl_capacity = 32\<rparr>, cm_options = stash_only 128\<rparr>"

lemma sample_map_ok: "cm_ok account_cache_spec sample_map"
  by (simp add: cm_ok_def cm_core_ok_def sample_map_def cm_cached_def hm_ok_def hm_get_def
      account_cache_spec_def sample_account_def)

definition sample_update :: account where
  "sample_update = sample_account\<lparr>a_debits_posted := 5\<rparr>"

lemma sample_session:
  "\<exists>m1 m2 m3. cm_scope_open sample_map = Some m1 \<and> cm_upserts account_cache_spec m1 [sample_update] = Some m2 \<and>
     cm_scope_close account_cache_spec m2 Discard = Some m3"
  by (simp add: cm_defs sample_map_def sample_update_def sample_account_def account_cache_spec_def
      account_default_def hm_get_def hm_insert_def stash_only_def TOMBSTONE_BIT_def)

theorem scope_atomic_witness:
  "\<exists>m1 m2 m3. cm_scope_open sample_map = Some m1 \<and> cm_upserts account_cache_spec m1 [sample_update] = Some m2 \<and>
     cm_scope_close account_cache_spec m2 Discard = Some m3 \<and>
     cm_entry account_cache_spec m3 1 = Found sample_account"
proof -
  obtain m1 m2 m3 where s: "cm_scope_open sample_map = Some m1"
    "cm_upserts account_cache_spec m1 [sample_update] = Some m2"
    "cm_scope_close account_cache_spec m2 Discard = Some m3" using sample_session by blast
  have live: "\<forall>v \<in> set [sample_update]. \<not> sp_tombstone account_cache_spec v"
    by (simp add: sample_update_def sample_account_def account_cache_spec_def TOMBSTONE_BIT_def)
  have "cm_entry account_cache_spec sample_map 1 = Found sample_account"
    by (simp add: cm_entry_def cm_cached_def sample_map_def hm_get_def sample_account_def
        account_cache_spec_def TOMBSTONE_BIT_def)
  with scope_atomic [OF groove_specs_ok(1) sample_map_ok live s] s show ?thesis by auto
qed

text \<open>Rolling a scope back never panics while the stash has room for one value per logged action
  (and no tombstone is to be restored, which only tests create): a discard always completes.\<close>

theorem discard_completes:
  assumes "cm_spec_ok S" "cm_ok S m" "cm_scope_is_active m"
    and "\<forall>k. RestoreTombstone k \<notin> set (rl_actions (cm_log m))"
    and "length (rl_actions (cm_log m)) + length (cm_stash m) \<le> co_stash_value_count_max (cm_options m)"
  shows "\<exists>m'. cm_scope_close S m Discard = Some m' \<and> cm_entry S m' = cm_base S m"
  using cm_discard_total [OF assms] cm_scope_close_refines [OF assms(1,2), of Discard] by fastforce

theorem discard_completes_witness:
  "\<exists>m'. cm_scope_close account_cache_spec (sample_map\<lparr>cm_scope_is_active := True\<rparr>) Discard = Some m'"
proof -
  have "cm_ok account_cache_spec (sample_map\<lparr>cm_scope_is_active := True\<rparr>)"
    using sample_map_ok by (simp add: cm_ok_def)
  from discard_completes [OF groove_specs_ok(1) this] show ?thesis
    by (auto simp: sample_map_def stash_only_def)
qed

text \<open>C30. A cache map does not forget: an upsert of a live value is found again, no other key's entry
  changes (an evicted value is caught by the stash), and a lookup answers with the entry and changes
  none. With room in the stash the unscoped upsert never panics.\<close>

theorem cache_map_remembers:
  assumes "cm_spec_ok S" "cm_ok S m" "\<not> sp_tombstone S v"
  shows "(\<forall>m'. cm_upsert S m v = Some m' \<longrightarrow>
      cm_ok S m' \<and> cm_entry S m' = (cm_entry S m)(sp_key S v := Found v)) \<and>
    (\<exists>m'. cm_get S m k = Some (entry_value (cm_entry S m k), m') \<and> cm_ok S m' \<and> cm_entry S m' = cm_entry S m) \<and>
    (length (cm_stash m) < co_stash_value_count_max (cm_options m) \<longrightarrow> \<not> cm_scope_is_active m \<longrightarrow>
      (\<exists>m'. cm_upsert S m v = Some m'))"
proof (intro conjI impI)
  note oc = cm_objects_cache [OF assms(1)]
  show "\<forall>m'. cm_upsert S m v = Some m' \<longrightarrow>
      cm_ok S m' \<and> cm_entry S m' = (cm_entry S m)(sp_key S v := Found v)"
    using objects_cache.upsert_entry [OF oc assms(2,3)] by blast
  show "\<exists>m'. cm_get S m k = Some (entry_value (cm_entry S m k), m') \<and> cm_ok S m' \<and> cm_entry S m' = cm_entry S m"
    using objects_cache.get_entry [OF oc assms(2)] by blast
  assume room: "length (cm_stash m) < co_stash_value_count_max (cm_options m)" "\<not> cm_scope_is_active m"
  have core: "cm_core_ok S m" using assms(2) by (simp add: cm_ok_def)
  obtain old m' where up: "fetch_upsert S m v = Some (old, m')" using fetch_upsert_total [OF core room(1)] by blast
  from fetch_upsert_refines [OF core assms(3) up] room(2) have "\<not> cm_scope_is_active m'"
    by (simp add: upserted_ok_def same_scope_def)
  with up show "\<exists>m'. cm_upsert S m v = Some m'" by (simp add: cm_upsert_def)
qed

theorem cache_map_remembers_witness:
  "\<exists>m'. cm_upsert account_cache_spec sample_map sample_update = Some m' \<and>
     cm_entry account_cache_spec m' 1 = Found sample_update"
proof -
  have live: "\<not> sp_tombstone account_cache_spec sample_update"
    and key: "sp_key account_cache_spec sample_update = 1"
    by (simp_all add: sample_update_def sample_account_def account_cache_spec_def TOMBSTONE_BIT_def)
  have "length (cm_stash sample_map) < co_stash_value_count_max (cm_options sample_map)"
    "\<not> cm_scope_is_active sample_map" by (simp_all add: sample_map_def stash_only_def)
  with cache_map_remembers [OF groove_specs_ok(1) sample_map_ok live, of 1] key show ?thesis by auto
qed

end
