(* ===== verification/BatchProps.thy ===== *)
theory BatchProps
  imports BatchTransfers LedgerRules CacheProps
begin

text \<open>
  The two batch loops as properties: results and caches agree, chains are all or nothing, and the
  timestamps of created events. Concrete batches over stash-only caches serve the witnesses.
\<close>

section \<open>Concrete caches\<close>

definition empty_map :: "('k, 'v) cm" where
  "empty_map = \<lparr>cm_cache = None, cm_stash = [], cm_scope_is_active = False,
     cm_log = \<lparr>rl_actions = [], rl_capacity = 32\<rparr>, cm_options = stash_only 128\<rparr>"

definition two_accounts :: "(u128, account) cm" where
  "two_accounts = empty_map\<lparr>cm_stash := [(1, debit_account_a), (2, credit_account_b)]\<rparr>"

lemma empty_map_ok: "cm_ok S empty_map" "\<not> cm_scope_is_active empty_map"
  by (simp_all add: cm_ok_def cm_core_ok_def cm_cached_def empty_map_def)

lemma two_accounts_ok: "cm_ok account_cache_spec two_accounts" "\<not> cm_scope_is_active two_accounts"
proof -
  have live: "\<not> sp_tombstone account_cache_spec debit_account_a" "\<not> sp_tombstone account_cache_spec credit_account_b"
    by (simp_all add: account_cache_spec_def debit_account_a_def credit_account_b_def TOMBSTONE_BIT_def)
  show "cm_ok account_cache_spec two_accounts"
    by (simp add: cm_ok_def cm_core_ok_def cm_cached_def two_accounts_def empty_map_def hm_ok_def hm_get_def
        debit_account_a_def credit_account_b_def account_event_a_def)
  show "\<not> cm_scope_is_active two_accounts" by (simp add: two_accounts_def empty_map_def)
qed

lemmas map_defs = empty_map_def two_accounts_def stash_only_def hm_get_def hm_insert_def hm_remove_def
  ensure_def

section \<open>Batches of accounts\<close>

text \<open>C15. A batch of account creations answers every event, and the objects cache it leaves holds what
  it held before plus exactly the events answered \<open>Created\<close>, stamped with the timestamps it
  reports. Within a linked chain either every event is created or none is, whatever error broke it
  and wherever in the chain; the cache is well-formed and no scope is left open.\<close>

theorem create_accounts_batch_atomic:
  assumes "cm_ok account_cache_spec objects" "\<not> cm_scope_is_active objects"
    and "length events < 2 ^ 64" "unat timestamp < 2 ^ 63"
    and "execute_create_accounts events timestamp prefetch objects key_max transfer_ts = Some (results, objects')"
  shows "length results = length events \<and>
    cm_ok account_cache_spec objects' \<and> \<not> cm_scope_is_active objects' \<and>
    cm_entry account_cache_spec objects' =
      created_entries (cm_entry account_cache_spec objects) events results \<and>
    chains_atomic events results"
  using execute_create_accounts_refines [OF assms] by blast

definition account_batch_events :: "account list" where
  "account_batch_events = [account_event_a\<lparr>a_flags := 1\<rparr>, account_event_a\<lparr>a_id := 2, a_code := 0\<rparr>]"

lemma account_batch_run:
  "\<exists>objects'. execute_create_accounts account_batch_events 10 (prefetch_create_accounts account_batch_events)
     empty_map 0 {} =
   Some ([\<lparr>car_status = CA_LinkedEventFailed, car_timestamp = 9\<rparr>,
          \<lparr>car_status = CA_CodeMustNotBeZero, car_timestamp = 10\<rparr>], objects')"
  by (simp add: account_batch_events_def batch_accounts_defs cm_defs map_defs account_flag_defs prefetch_defs
      account_cache_spec_def account_event_a_def create_account_def checked_add_def checked_sub_def
      TOMBSTONE_BIT_def)

theorem create_accounts_batch_atomic_witness:
  "\<exists>results objects'. execute_create_accounts account_batch_events 10 (prefetch_create_accounts account_batch_events)
     empty_map 0 {} = Some (results, objects') \<and> length results = 2 \<and>
     cm_entry account_cache_spec objects' = cm_entry account_cache_spec empty_map"
proof -
  let ?rs = "[\<lparr>car_status = CA_LinkedEventFailed, car_timestamp = 9\<rparr>,
          \<lparr>car_status = CA_CodeMustNotBeZero, car_timestamp = 10\<rparr>]"
  obtain objects' where run: "execute_create_accounts account_batch_events 10
      (prefetch_create_accounts account_batch_events) empty_map 0 {} = Some (?rs, objects')"
    using account_batch_run by blast
  have small: "length account_batch_events < 2 ^ 64" "unat (10 :: u64) < 2 ^ 63"
    by (simp_all add: account_batch_events_def)
  from create_accounts_batch_atomic [OF empty_map_ok small run] run show ?thesis
    by (auto simp: created_entries_def apply_created_def created_def account_batch_events_def)
qed

section \<open>Batches of transfers\<close>

text \<open>C3. A batch of transfers answers every event, and the three objects caches it leaves say exactly
  what applying the created events in order says: each created transfer is stored with its actual
  amount and timestamp, both accounts carry its balance changes, and a pending transfer's status row
  advances. Within a linked chain either every event is created or none is; a chain that breaks
  leaves nothing behind in any of the three caches, and no scope is left open.\<close>

theorem create_transfers_batch_atomic:
  assumes "cm_ok account_cache_spec accounts" "cm_ok transfer_cache_spec transfers"
      "cm_ok transfer_pending_cache_spec pendings"
    and "\<not> cm_scope_is_active accounts" "\<not> cm_scope_is_active transfers" "\<not> cm_scope_is_active pendings"
    and "length (ce_events env) < 2 ^ 64" "unat (ce_timestamp env) < 2 ^ 63"
    and "execute_create_transfers env accounts transfers pendings key_max orphaned = Some (results, st)"
  shows "length results = length (ce_events env) \<and> ct_caches_ok False st \<and>
    ct_view st = transfers_applied (cm_entry account_cache_spec accounts, cm_entry transfer_cache_spec transfers,
      cm_entry transfer_pending_cache_spec pendings) (ce_events env) results \<and>
    transfer_chains_atomic (ce_events env) results"
  using execute_create_transfers_refines [OF assms] by blast

definition transfer_batch_env :: "transfer list \<Rightarrow> ct_env" where
  "transfer_batch_env events = \<lparr>ce_events = events, ce_timestamp = 10, ce_account_timestamps = {},
     ce_account_timestamps_enqueued = pk_empty, ce_is_orphaned = (\<lambda>_. False),
     ce_prefetch = prefetch_create_transfers events (\<lambda>_. None)\<rparr>"

lemma transfer_batch_run:
  "\<exists>st. execute_create_transfers (transfer_batch_env [transfer_event_t]) two_accounts empty_map empty_map 0 {} =
   Some ([\<lparr>ctr_status = CT_Created, ctr_timestamp = 10, ctr_amount_actual = 100\<rparr>], st)"
  by (simp add: transfer_batch_env_def batch_transfers_defs event_timestamp_def cm_defs map_defs prefetch_defs
      account_flag_defs transfer_flag_defs accounting_defs account_cache_spec_def transfer_cache_spec_def transfer_pending_cache_spec_def
      transfer_event_t_def account_event_a_def debit_account_a_def credit_account_b_def
      checked_add_def checked_sub_def checked_mul_def TOMBSTONE_BIT_def TIMESTAMP_MAX_def NS_PER_S_def
      debits_exceed_credits_def credits_exceed_debits_def timeout_ns_def)

theorem create_transfers_batch_atomic_witness:
  "\<exists>st. execute_create_transfers (transfer_batch_env [transfer_event_t]) two_accounts empty_map empty_map 0 {} =
      Some ([\<lparr>ctr_status = CT_Created, ctr_timestamp = 10, ctr_amount_actual = 100\<rparr>], st) \<and>
    fst (snd (ct_view st)) 1 = Found (transfer_event_t\<lparr>t_timestamp := 10\<rparr>)"
proof -
  let ?rs = "[\<lparr>ctr_status = CT_Created, ctr_timestamp = 10, ctr_amount_actual = 100\<rparr>]"
  obtain st where run: "execute_create_transfers (transfer_batch_env [transfer_event_t]) two_accounts empty_map
      empty_map 0 {} = Some (?rs, st)" using transfer_batch_run by blast
  have small: "length (ce_events (transfer_batch_env [transfer_event_t])) < 2 ^ 64"
    "unat (ce_timestamp (transfer_batch_env [transfer_event_t])) < 2 ^ 63"
    by (simp_all add: transfer_batch_env_def)
  have found: "cm_entry account_cache_spec two_accounts 1 = Found debit_account_a"
    "cm_entry account_cache_spec two_accounts 2 = Found credit_account_b"
    by (simp_all add: cm_entry_def cm_cached_def map_defs account_cache_spec_def debit_account_a_def
        credit_account_b_def account_event_a_def TOMBSTONE_BIT_def)
  have plain: "\<not> is_post_or_void transfer_event_t" "t_debit_account_id transfer_event_t = 1"
    "t_credit_account_id transfer_event_t = 2" "t_id transfer_event_t = 1" "t_amount transfer_event_t = 100"
    by (simp_all add: model_defs)
  from create_transfers_batch_atomic [OF two_accounts_ok(1) empty_map_ok(1) empty_map_ok(1)
      two_accounts_ok(2) empty_map_ok(2) empty_map_ok(2) small run]
  have "ct_view st = transfers_applied (cm_entry account_cache_spec two_accounts, cm_entry transfer_cache_spec empty_map,
      cm_entry transfer_pending_cache_spec empty_map) [transfer_event_t] ?rs"
    by (simp add: transfer_batch_env_def)
  then have "fst (snd (ct_view st)) 1 = Found (transfer_event_t\<lparr>t_amount := 100, t_timestamp := 10\<rparr>)"
    by (simp add: transfers_applied_def apply_transfer_def created_transfer_def plain apply_regular_def found
        split: prod.split)
  moreover have "transfer_event_t\<lparr>t_amount := 100, t_timestamp := 10\<rparr> = transfer_event_t\<lparr>t_timestamp := 10\<rparr>"
    by (simp add: transfer_event_t_def)
  ultimately show ?thesis using run by auto
qed

end
