(* ===== verification/Wire.thy ===== *)
theory Wire
  imports Types Bytes
begin

text \<open>
  The request and reply bodies of \<open>crates/tigerbeetle-vsr/src/state_machine.rs\<close>: arrays of fixed-size
  little-endian records. An encoder fills a zeroed record image field by field (\<open>record_image\<close>, the
  \<open>record[a..b].copy_from_slice(..)\<close> of the source); a decoder reads fields at the same offsets and
  refuses a body that is not a whole number of records. \<open>None\<close> is a panic (a slice out of bounds);
  the inner option of a decoder is the refusal.
\<close>

section \<open>Record images\<close>

text \<open>\<open>record[off..off + bs.len()].copy_from_slice(bs)\<close>, out of bounds being a panic.\<close>

definition put_at :: "nat \<Rightarrow> u8 list \<Rightarrow> u8 list \<Rightarrow> u8 list option" where
  "put_at off bs r =
     (if off + length bs \<le> length r then Some (take off r @ bs @ drop (off + length bs) r) else None)"

fun put_fields :: "(nat \<times> u8 list) list \<Rightarrow> u8 list \<Rightarrow> u8 list option" where
  "put_fields [] r = Some r"
| "put_fields ((off, bs) # fs) r = do { r \<leftarrow> put_at off bs r; put_fields fs r }"

definition record_image :: "nat \<Rightarrow> (nat \<times> u8 list) list \<Rightarrow> u8 list option" where
  "record_image width fs = put_fields fs (replicate width 0)"

text \<open>Fields that follow each other from \<open>off\<close> on, and the offset after the last.\<close>

fun contiguous :: "nat \<Rightarrow> (nat \<times> u8 list) list \<Rightarrow> bool" where
  "contiguous off [] = True"
| "contiguous off ((o', bs) # fs) \<longleftrightarrow> o' = off \<and> contiguous (off + length bs) fs"

fun fields_bytes :: "(nat \<times> u8 list) list \<Rightarrow> u8 list" where
  "fields_bytes [] = []"
| "fields_bytes ((o', bs) # fs) = bs @ fields_bytes fs"

lemma put_fields_contiguous:
  "contiguous off fs \<Longrightarrow> off + length (fields_bytes fs) \<le> length r \<Longrightarrow>
   put_fields fs r = Some (take off r @ fields_bytes fs @ drop (off + length (fields_bytes fs)) r)"
proof (induction off fs arbitrary: r rule: contiguous.induct)
  case (2 off o' bs fs)
  then have "o' = off" "off + length bs \<le> length r" by simp_all
  let ?r = "take off r @ bs @ drop (off + length bs) r"
  have "put_fields fs ?r = Some (take (off + length bs) ?r @ fields_bytes fs @ drop (off + length bs + length (fields_bytes fs)) ?r)"
    using 2 by simp
  moreover have "take (off + length bs) ?r = take off r @ bs" using \<open>off + length bs \<le> length r\<close> by simp
  moreover have "drop (off + length bs + length (fields_bytes fs)) ?r = drop (off + length bs + length (fields_bytes fs)) r"
    using \<open>off + length bs \<le> length r\<close> by (simp add: add.commute)
  ultimately show ?case using \<open>o' = off\<close> \<open>off + length bs \<le> length r\<close>
    by (simp add: put_at_def add.assoc)
qed simp

lemma image_contiguous:
  "contiguous 0 fs \<Longrightarrow> length (fields_bytes fs) \<le> width \<Longrightarrow>
   record_image width fs = Some (fields_bytes fs @ replicate (width - length (fields_bytes fs)) 0)"
  by (simp add: record_image_def put_fields_contiguous)

text \<open>Neighbouring slices of a record join, so reading every field and writing it back restores the
  record.\<close>

definition slice_of :: "u8 list \<Rightarrow> nat \<Rightarrow> nat \<Rightarrow> u8 list" where
  "slice_of r off n = take n (drop off r)"

lemma slice_join: "o' = off + n \<Longrightarrow> slice_of r off n @ slice_of r o' k = slice_of r off (n + k)"
  by (simp only: slice_of_def take_add drop_drop add.commute [of n off])

lemma slice_join_append:
  "o' = off + n \<Longrightarrow> slice_of r off n @ slice_of r o' k @ zs = slice_of r off (n + k) @ zs"
  using slice_join [of o' off n r k] by (metis append.assoc)

lemma slice_all: "length r = n \<Longrightarrow> slice_of r 0 n = r"
  by (simp add: slice_of_def)

lemma field_at_slice: "off + n \<le> length r \<Longrightarrow> field_at r off n = Some (le_word (slice_of r off n))"
  by (simp add: field_at_def slice_of_def)

lemma le_bytes_slice:
  assumes "8 * n = LENGTH('a::len)" "off + n \<le> length r"
  shows "le_bytes n (le_word (slice_of r off n) :: 'a word) = slice_of r off n"
proof -
  have "length (slice_of r off n) = n" using assms(2) by (simp add: slice_of_def)
  then show ?thesis using le_bytes_word [of "slice_of r off n", where 'a = 'a] assms(1) by simp
qed

section \<open>Batches of records\<close>

text \<open>\<open>bytes.as_chunks::<n>()\<close> when \<open>n\<close> divides the length.\<close>

function as_chunks :: "nat \<Rightarrow> u8 list \<Rightarrow> u8 list list" where
  "as_chunks n bytes = (if n = 0 \<or> length bytes < n then [] else take n bytes # as_chunks n (drop n bytes))"
  by pat_completeness auto
termination by (relation "measure (\<lambda>(n, bytes). length bytes)") auto

declare as_chunks.simps [simp del]

lemma as_chunks_append: "n \<noteq> 0 \<Longrightarrow> length r = n \<Longrightarrow> as_chunks n (r @ bytes) = r # as_chunks n bytes"
  by (subst as_chunks.simps) simp

lemma as_chunks_Nil [simp]: "as_chunks n [] = []"
  by (subst as_chunks.simps) auto

lemma as_chunks_lengths: "r \<in> set (as_chunks n bytes) \<Longrightarrow> length r = n"
proof (induction n bytes rule: as_chunks.induct)
  case (1 n bytes)
  then show ?case by (subst (asm) (2) as_chunks.simps) (auto split: if_splits)
qed

lemma concat_as_chunks: "n \<noteq> 0 \<Longrightarrow> length bytes mod n = 0 \<Longrightarrow> concat (as_chunks n bytes) = bytes"
proof (induction n bytes rule: as_chunks.induct)
  case (1 n bytes)
  show ?case
  proof (cases "length bytes < n")
    case True
    then have "bytes = []" using 1 by simp
    then show ?thesis by simp
  next
    case False
    then have "length (drop n bytes) mod n = 0" using 1 by (simp add: le_mod_geq)
    with 1 False show ?thesis by (subst as_chunks.simps) simp
  qed
qed

text \<open>Encode a list of records, concatenating their images; decode a body into records of \<open>width\<close>
  bytes.\<close>

definition encode_batch :: "('v \<Rightarrow> u8 list option) \<Rightarrow> 'v list \<Rightarrow> u8 list option" where
  "encode_batch encode events = map_option concat (those (map encode events))"

definition decode_batch :: "nat \<Rightarrow> (u8 list \<Rightarrow> 'v option) \<Rightarrow> u8 list \<Rightarrow> 'v list option option" where
  "decode_batch width decode bytes =
     (if length bytes mod width \<noteq> 0 then Some None
      else map_option Some (those (map decode (as_chunks width bytes))))"

lemma those_map_Some: "(\<And>x. x \<in> set xs \<Longrightarrow> f x = Some (g x)) \<Longrightarrow> those (map f xs) = Some (map g xs)"
  by (induction xs) auto

lemma those_eq_Some: "those xs = Some ys \<longleftrightarrow> xs = map Some ys"
  by (induction xs arbitrary: ys) (auto split: option.splits)

lemma those_total: "(\<And>x. x \<in> set xs \<Longrightarrow> \<exists>y. f x = Some y) \<Longrightarrow> \<exists>ys. those (map f xs) = Some ys"
  by (induction xs) force+

text \<open>What a record codec promises (\<open>enc\<close> is what \<open>encode\<close> returns), and the batch codec built on
  it.\<close>

locale record_codec =
  fixes width :: nat and encode :: "'v \<Rightarrow> u8 list option" and decode :: "u8 list \<Rightarrow> 'v option"
    and enc :: "'v \<Rightarrow> u8 list"
  assumes width_pos: "width \<noteq> 0"
    and encode_enc: "encode v = Some (enc v)"
    and length_enc: "length (enc v) = width"
    and decode_enc: "decode (enc v) = Some v"
    and decode_total: "length bytes = width \<Longrightarrow> \<exists>v. decode bytes = Some v"
    and enc_decode: "decode bytes = Some v \<Longrightarrow> length bytes = width \<Longrightarrow> enc v = bytes"
begin

lemma chunks_enc: "as_chunks width (concat (map enc vs)) = map enc vs"
  by (induction vs) (simp_all add: width_pos length_enc as_chunks_append)

lemma encode_batch_total: "encode_batch encode vs = Some (concat (map enc vs))"
  by (simp add: encode_batch_def those_map_Some [where g = enc] encode_enc)

lemma length_enc_batch: "length (concat (map enc vs)) = width * length vs"
  by (induction vs) (simp_all add: length_enc)

lemma decode_encode_batch: "decode_batch width decode (concat (map enc vs)) = Some (Some vs)"
  by (simp add: decode_batch_def length_enc_batch chunks_enc those_eq_Some decode_enc)

lemma decode_batch_total:
  assumes "length bytes mod width = 0" shows "\<exists>vs. decode_batch width decode bytes = Some (Some vs)"
  using those_total [of "as_chunks width bytes" decode] decode_total as_chunks_lengths assms
  by (force simp: decode_batch_def)

lemma encode_decode_batch:
  assumes "decode_batch width decode bytes = Some (Some vs)" shows "encode_batch encode vs = Some bytes"
proof -
  have len: "length bytes mod width = 0" using assms by (auto simp: decode_batch_def split: if_splits)
  then have chunks: "map decode (as_chunks width bytes) = map Some vs"
    using assms by (simp add: decode_batch_def those_eq_Some)
  then have "length (as_chunks width bytes) = length vs" by (metis length_map)
  moreover have "enc (vs ! i) = as_chunks width bytes ! i" if "i < length vs" for i
    using that chunks calculation as_chunks_lengths [OF nth_mem, of i width bytes]
    by (metis enc_decode nth_map)
  ultimately have "map enc vs = as_chunks width bytes" by (intro nth_equalityI) simp_all
  then show ?thesis using concat_as_chunks [OF width_pos len] by (simp add: encode_batch_total)
qed

lemma batch_round_trip:
  "\<exists>bytes. encode_batch encode vs = Some bytes \<and> decode_batch width decode bytes = Some (Some vs) \<and>
     length bytes = width * length vs"
  using encode_batch_total [of vs] decode_encode_batch [of vs] length_enc_batch [of vs] by blast

lemma decode_batch_cases:
  "decode_batch width decode bytes = Some None \<and> length bytes mod width \<noteq> 0 \<or>
   (\<exists>vs. decode_batch width decode bytes = Some (Some vs) \<and> encode_batch encode vs = Some bytes)"
  using decode_batch_total [of bytes] encode_decode_batch [of bytes] by (auto simp: decode_batch_def)

end

text \<open>Integer fields of a record image.\<close>

definition le_u128 :: "u8 list \<Rightarrow> nat \<Rightarrow> u128 option" where "le_u128 bytes offset = field_at bytes offset 16"
definition le_u64 :: "u8 list \<Rightarrow> nat \<Rightarrow> u64 option" where "le_u64 bytes offset = field_at bytes offset 8"
definition le_u32 :: "u8 list \<Rightarrow> nat \<Rightarrow> u32 option" where "le_u32 bytes offset = field_at bytes offset 4"
definition le_u16 :: "u8 list \<Rightarrow> nat \<Rightarrow> u16 option" where "le_u16 bytes offset = field_at bytes offset 2"

lemmas le_at_defs [model_defs] = le_u128_def le_u64_def le_u32_def le_u16_def

section \<open>Accounts and transfers\<close>

definition account_record :: "account \<Rightarrow> u8 list option" where
  "account_record event = record_image 128 [
     (0, le_bytes 16 (a_id event)), (16, le_bytes 16 (a_debits_pending event)),
     (32, le_bytes 16 (a_debits_posted event)), (48, le_bytes 16 (a_credits_pending event)),
     (64, le_bytes 16 (a_credits_posted event)), (80, le_bytes 16 (a_user_data_128 event)),
     (96, le_bytes 8 (a_user_data_64 event)), (104, le_bytes 4 (a_user_data_32 event)),
     (108, le_bytes 4 (a_reserved event)), (112, le_bytes 4 (a_ledger event)),
     (116, le_bytes 2 (a_code event)), (118, le_bytes 2 (a_flags event)),
     (120, le_bytes 8 (a_timestamp event))]"

definition account_of_record :: "u8 list \<Rightarrow> account option" where
  "account_of_record r =
     do { id_at \<leftarrow> le_u128 r 0; debits_pending_at \<leftarrow> le_u128 r 16;
          debits_posted_at \<leftarrow> le_u128 r 32;
          credits_pending_at \<leftarrow> le_u128 r 48;
          credits_posted_at \<leftarrow> le_u128 r 64; user_data_128_at \<leftarrow> le_u128 r 80;
          user_data_64_at \<leftarrow> le_u64 r 96; user_data_32_at \<leftarrow> le_u32 r 104;
          reserved_at \<leftarrow> le_u32 r 108; ledger_at \<leftarrow> le_u32 r 112;
          code_at \<leftarrow> le_u16 r 116; flags_at \<leftarrow> le_u16 r 118;
          timestamp_at \<leftarrow> le_u64 r 120;
          Some \<lparr>a_id = id_at, a_debits_pending = debits_pending_at,
                a_debits_posted = debits_posted_at, a_credits_pending = credits_pending_at,
                a_credits_posted = credits_posted_at, a_user_data_128 = user_data_128_at,
                a_user_data_64 = user_data_64_at, a_user_data_32 = user_data_32_at,
                a_reserved = reserved_at, a_ledger = ledger_at, a_code = code_at,
                a_flags = flags_at, a_timestamp = timestamp_at\<rparr> }"

definition account_bytes :: "account \<Rightarrow> u8 list" where
  "account_bytes event = le_bytes 16 (a_id event) @ le_bytes 16 (a_debits_pending event) @
     le_bytes 16 (a_debits_posted event) @ le_bytes 16 (a_credits_pending event) @
     le_bytes 16 (a_credits_posted event) @ le_bytes 16 (a_user_data_128 event) @
     le_bytes 8 (a_user_data_64 event) @ le_bytes 4 (a_user_data_32 event) @
     le_bytes 4 (a_reserved event) @ le_bytes 4 (a_ledger event) @ le_bytes 2 (a_code event) @
     le_bytes 2 (a_flags event) @ le_bytes 8 (a_timestamp event)"

definition transfer_record :: "transfer \<Rightarrow> u8 list option" where
  "transfer_record event = record_image 128 [
     (0, le_bytes 16 (t_id event)), (16, le_bytes 16 (t_debit_account_id event)),
     (32, le_bytes 16 (t_credit_account_id event)), (48, le_bytes 16 (t_amount event)),
     (64, le_bytes 16 (t_pending_id event)), (80, le_bytes 16 (t_user_data_128 event)),
     (96, le_bytes 8 (t_user_data_64 event)), (104, le_bytes 4 (t_user_data_32 event)),
     (108, le_bytes 4 (t_timeout event)), (112, le_bytes 4 (t_ledger event)),
     (116, le_bytes 2 (t_code event)), (118, le_bytes 2 (t_flags event)),
     (120, le_bytes 8 (t_timestamp event))]"

definition transfer_of_record :: "u8 list \<Rightarrow> transfer option" where
  "transfer_of_record r =
     do { id_at \<leftarrow> le_u128 r 0; debit_account_id_at \<leftarrow> le_u128 r 16;
          credit_account_id_at \<leftarrow> le_u128 r 32; amount_at \<leftarrow> le_u128 r 48;
          pending_id_at \<leftarrow> le_u128 r 64; user_data_128_at \<leftarrow> le_u128 r 80;
          user_data_64_at \<leftarrow> le_u64 r 96; user_data_32_at \<leftarrow> le_u32 r 104;
          timeout_at \<leftarrow> le_u32 r 108; ledger_at \<leftarrow> le_u32 r 112;
          code_at \<leftarrow> le_u16 r 116; flags_at \<leftarrow> le_u16 r 118;
          timestamp_at \<leftarrow> le_u64 r 120;
          Some \<lparr>t_id = id_at, t_debit_account_id = debit_account_id_at,
                t_credit_account_id = credit_account_id_at, t_amount = amount_at,
                t_pending_id = pending_id_at, t_user_data_128 = user_data_128_at,
                t_user_data_64 = user_data_64_at, t_user_data_32 = user_data_32_at,
                t_timeout = timeout_at, t_ledger = ledger_at, t_code = code_at,
                t_flags = flags_at, t_timestamp = timestamp_at\<rparr> }"

definition transfer_bytes :: "transfer \<Rightarrow> u8 list" where
  "transfer_bytes event = le_bytes 16 (t_id event) @ le_bytes 16 (t_debit_account_id event) @
     le_bytes 16 (t_credit_account_id event) @ le_bytes 16 (t_amount event) @
     le_bytes 16 (t_pending_id event) @ le_bytes 16 (t_user_data_128 event) @
     le_bytes 8 (t_user_data_64 event) @ le_bytes 4 (t_user_data_32 event) @
     le_bytes 4 (t_timeout event) @ le_bytes 4 (t_ledger event) @ le_bytes 2 (t_code event) @
     le_bytes 2 (t_flags event) @ le_bytes 8 (t_timestamp event)"

definition account_batch_to_bytes :: "account list \<Rightarrow> u8 list option" where
  "account_batch_to_bytes events = encode_batch account_record events"

definition bytes_to_account_batch :: "u8 list \<Rightarrow> account list option option" where
  "bytes_to_account_batch bytes = decode_batch 128 account_of_record bytes"

definition transfer_batch_to_bytes :: "transfer list \<Rightarrow> u8 list option" where
  "transfer_batch_to_bytes events = encode_batch transfer_record events"

definition bytes_to_transfer_batch :: "u8 list \<Rightarrow> transfer list option option" where
  "bytes_to_transfer_batch bytes = decode_batch 128 transfer_of_record bytes"

lemmas field_simps = field_at_append1 field_at_append2 field_at_le_bytes

lemma field_at_le_bytes': "8 * n = LENGTH('a) \<Longrightarrow> field_at (le_bytes n (w :: 'a::len word)) 0 n = Some w"
  using field_at_le_bytes [of n w "[]"] by simp

interpretation account_codec: record_codec 128 account_record account_of_record account_bytes
proof
  show "account_record v = Some (account_bytes v)" for v
    by (simp add: account_record_def account_bytes_def image_contiguous)
  show "length (account_bytes v) = 128" for v by (simp add: account_bytes_def)
  show "account_of_record (account_bytes v) = Some v" for v
    by (simp add: account_of_record_def account_bytes_def le_at_defs field_simps field_at_le_bytes')
  show "\<exists>v. account_of_record bytes = Some v" if "length bytes = 128" for bytes
    using that by (simp add: account_of_record_def le_at_defs field_at_slice)
  show "account_bytes v = bytes" if "account_of_record bytes = Some v" "length bytes = 128" for bytes v
    using that
    by (auto simp: account_of_record_def le_at_defs field_at_slice account_bytes_def le_bytes_slice
        slice_join slice_join_append slice_all)
qed simp

interpretation transfer_codec: record_codec 128 transfer_record transfer_of_record transfer_bytes
proof
  show "transfer_record v = Some (transfer_bytes v)" for v
    by (simp add: transfer_record_def transfer_bytes_def image_contiguous)
  show "length (transfer_bytes v) = 128" for v by (simp add: transfer_bytes_def)
  show "transfer_of_record (transfer_bytes v) = Some v" for v
    by (simp add: transfer_of_record_def transfer_bytes_def le_at_defs field_simps field_at_le_bytes')
  show "\<exists>v. transfer_of_record bytes = Some v" if "length bytes = 128" for bytes
    using that by (simp add: transfer_of_record_def le_at_defs field_at_slice)
  show "transfer_bytes v = bytes" if "transfer_of_record bytes = Some v" "length bytes = 128" for bytes v
    using that
    by (auto simp: transfer_of_record_def le_at_defs field_at_slice transfer_bytes_def le_bytes_slice
        slice_join slice_join_append slice_all)
qed simp

end
