(* ===== verification/Replies.thy ===== *)
theory Replies
  imports Wire BatchTransfers
begin

text \<open>
  Reply bodies of the two creating operations (\<open>account_results_to_bytes\<close> and
  \<open>transfer_results_to_bytes\<close> of \<open>crates/tigerbeetle-vsr/src/state_machine.rs\<close>) and the numeric result
  codes of \<open>crates/tigerbeetle-core/src/types.rs\<close>: a client that reads a reply back knows the status
  and the timestamp of every event.
\<close>

section \<open>Numeric result codes\<close>

primrec account_status_code :: "CreateAccountStatus \<Rightarrow> u32" where
  "account_status_code CA_DeprecatedOk = 0"
| "account_status_code CA_LinkedEventFailed = 1"
| "account_status_code CA_LinkedEventChainOpen = 2"
| "account_status_code CA_TimestampMustBeZero = 3"
| "account_status_code CA_ReservedField = 4"
| "account_status_code CA_ReservedFlag = 5"
| "account_status_code CA_IdMustNotBeZero = 6"
| "account_status_code CA_IdMustNotBeIntMax = 7"
| "account_status_code CA_FlagsAreMutuallyExclusive = 8"
| "account_status_code CA_DebitsPendingMustBeZero = 9"
| "account_status_code CA_DebitsPostedMustBeZero = 10"
| "account_status_code CA_CreditsPendingMustBeZero = 11"
| "account_status_code CA_CreditsPostedMustBeZero = 12"
| "account_status_code CA_LedgerMustNotBeZero = 13"
| "account_status_code CA_CodeMustNotBeZero = 14"
| "account_status_code CA_ExistsWithDifferentFlags = 15"
| "account_status_code CA_ExistsWithDifferentUserData128 = 16"
| "account_status_code CA_ExistsWithDifferentUserData64 = 17"
| "account_status_code CA_ExistsWithDifferentUserData32 = 18"
| "account_status_code CA_ExistsWithDifferentLedger = 19"
| "account_status_code CA_ExistsWithDifferentCode = 20"
| "account_status_code CA_Exists = 21"
| "account_status_code CA_ImportedEventExpected = 22"
| "account_status_code CA_ImportedEventNotExpected = 23"
| "account_status_code CA_ImportedEventTimestampOutOfRange = 24"
| "account_status_code CA_ImportedEventTimestampMustNotAdvance = 25"
| "account_status_code CA_ImportedEventTimestampMustNotRegress = 26"
| "account_status_code CA_Created = - 1"

definition account_statuses :: "CreateAccountStatus list" where
  "account_statuses = [CA_DeprecatedOk, CA_LinkedEventFailed, CA_LinkedEventChainOpen, CA_TimestampMustBeZero,
     CA_ReservedField, CA_ReservedFlag, CA_IdMustNotBeZero, CA_IdMustNotBeIntMax,
     CA_FlagsAreMutuallyExclusive, CA_DebitsPendingMustBeZero, CA_DebitsPostedMustBeZero,
     CA_CreditsPendingMustBeZero, CA_CreditsPostedMustBeZero, CA_LedgerMustNotBeZero,
     CA_CodeMustNotBeZero, CA_ExistsWithDifferentFlags, CA_ExistsWithDifferentUserData128,
     CA_ExistsWithDifferentUserData64, CA_ExistsWithDifferentUserData32,
     CA_ExistsWithDifferentLedger, CA_ExistsWithDifferentCode, CA_Exists, CA_ImportedEventExpected,
     CA_ImportedEventNotExpected, CA_ImportedEventTimestampOutOfRange,
     CA_ImportedEventTimestampMustNotAdvance, CA_ImportedEventTimestampMustNotRegress, CA_Created]"

primrec transfer_status_code :: "CreateTransferStatus \<Rightarrow> u32" where
  "transfer_status_code CT_DeprecatedOk = 0"
| "transfer_status_code CT_LinkedEventFailed = 1"
| "transfer_status_code CT_LinkedEventChainOpen = 2"
| "transfer_status_code CT_TimestampMustBeZero = 3"
| "transfer_status_code CT_ReservedFlag = 4"
| "transfer_status_code CT_IdMustNotBeZero = 5"
| "transfer_status_code CT_IdMustNotBeIntMax = 6"
| "transfer_status_code CT_FlagsAreMutuallyExclusive = 7"
| "transfer_status_code CT_DebitAccountIdMustNotBeZero = 8"
| "transfer_status_code CT_DebitAccountIdMustNotBeIntMax = 9"
| "transfer_status_code CT_CreditAccountIdMustNotBeZero = 10"
| "transfer_status_code CT_CreditAccountIdMustNotBeIntMax = 11"
| "transfer_status_code CT_AccountsMustBeDifferent = 12"
| "transfer_status_code CT_PendingIdMustBeZero = 13"
| "transfer_status_code CT_PendingIdMustNotBeZero = 14"
| "transfer_status_code CT_PendingIdMustNotBeIntMax = 15"
| "transfer_status_code CT_PendingIdMustBeDifferent = 16"
| "transfer_status_code CT_TimeoutReservedForPendingTransfer = 17"
| "transfer_status_code CT_LedgerMustNotBeZero = 19"
| "transfer_status_code CT_CodeMustNotBeZero = 20"
| "transfer_status_code CT_DebitAccountNotFound = 21"
| "transfer_status_code CT_CreditAccountNotFound = 22"
| "transfer_status_code CT_AccountsMustHaveTheSameLedger = 23"
| "transfer_status_code CT_TransferMustHaveTheSameLedgerAsAccounts = 24"
| "transfer_status_code CT_PendingTransferNotFound = 25"
| "transfer_status_code CT_PendingTransferNotPending = 26"
| "transfer_status_code CT_PendingTransferHasDifferentDebitAccountId = 27"
| "transfer_status_code CT_PendingTransferHasDifferentCreditAccountId = 28"
| "transfer_status_code CT_PendingTransferHasDifferentLedger = 29"
| "transfer_status_code CT_PendingTransferHasDifferentCode = 30"
| "transfer_status_code CT_ExceedsPendingTransferAmount = 31"
| "transfer_status_code CT_PendingTransferHasDifferentAmount = 32"
| "transfer_status_code CT_PendingTransferAlreadyPosted = 33"
| "transfer_status_code CT_PendingTransferAlreadyVoided = 34"
| "transfer_status_code CT_PendingTransferExpired = 35"
| "transfer_status_code CT_ExistsWithDifferentFlags = 36"
| "transfer_status_code CT_ExistsWithDifferentDebitAccountId = 37"
| "transfer_status_code CT_ExistsWithDifferentCreditAccountId = 38"
| "transfer_status_code CT_ExistsWithDifferentAmount = 39"
| "transfer_status_code CT_ExistsWithDifferentPendingId = 40"
| "transfer_status_code CT_ExistsWithDifferentUserData128 = 41"
| "transfer_status_code CT_ExistsWithDifferentUserData64 = 42"
| "transfer_status_code CT_ExistsWithDifferentUserData32 = 43"
| "transfer_status_code CT_ExistsWithDifferentTimeout = 44"
| "transfer_status_code CT_ExistsWithDifferentCode = 45"
| "transfer_status_code CT_Exists = 46"
| "transfer_status_code CT_OverflowsDebitsPending = 47"
| "transfer_status_code CT_OverflowsCreditsPending = 48"
| "transfer_status_code CT_OverflowsDebitsPosted = 49"
| "transfer_status_code CT_OverflowsCreditsPosted = 50"
| "transfer_status_code CT_OverflowsDebits = 51"
| "transfer_status_code CT_OverflowsCredits = 52"
| "transfer_status_code CT_OverflowsTimeout = 53"
| "transfer_status_code CT_ExceedsCredits = 54"
| "transfer_status_code CT_ExceedsDebits = 55"
| "transfer_status_code CT_ImportedEventExpected = 56"
| "transfer_status_code CT_ImportedEventNotExpected = 57"
| "transfer_status_code CT_ImportedEventTimestampOutOfRange = 58"
| "transfer_status_code CT_ImportedEventTimestampMustNotAdvance = 59"
| "transfer_status_code CT_ImportedEventTimestampMustNotRegress = 60"
| "transfer_status_code CT_ImportedEventTimestampMustPostdateDebitAccount = 61"
| "transfer_status_code CT_ImportedEventTimestampMustPostdateCreditAccount = 62"
| "transfer_status_code CT_ImportedEventTimeoutMustBeZero = 63"
| "transfer_status_code CT_ClosingTransferMustBePending = 64"
| "transfer_status_code CT_DebitAccountAlreadyClosed = 65"
| "transfer_status_code CT_CreditAccountAlreadyClosed = 66"
| "transfer_status_code CT_ExistsWithDifferentLedger = 67"
| "transfer_status_code CT_IdAlreadyFailed = 68"
| "transfer_status_code CT_Created = - 1"

definition transfer_statuses :: "CreateTransferStatus list" where
  "transfer_statuses = [CT_DeprecatedOk, CT_LinkedEventFailed, CT_LinkedEventChainOpen, CT_TimestampMustBeZero,
     CT_ReservedFlag, CT_IdMustNotBeZero, CT_IdMustNotBeIntMax, CT_FlagsAreMutuallyExclusive,
     CT_DebitAccountIdMustNotBeZero, CT_DebitAccountIdMustNotBeIntMax,
     CT_CreditAccountIdMustNotBeZero, CT_CreditAccountIdMustNotBeIntMax,
     CT_AccountsMustBeDifferent, CT_PendingIdMustBeZero, CT_PendingIdMustNotBeZero,
     CT_PendingIdMustNotBeIntMax, CT_PendingIdMustBeDifferent,
     CT_TimeoutReservedForPendingTransfer, CT_LedgerMustNotBeZero, CT_CodeMustNotBeZero,
     CT_DebitAccountNotFound, CT_CreditAccountNotFound, CT_AccountsMustHaveTheSameLedger,
     CT_TransferMustHaveTheSameLedgerAsAccounts, CT_PendingTransferNotFound,
     CT_PendingTransferNotPending, CT_PendingTransferHasDifferentDebitAccountId,
     CT_PendingTransferHasDifferentCreditAccountId, CT_PendingTransferHasDifferentLedger,
     CT_PendingTransferHasDifferentCode, CT_ExceedsPendingTransferAmount,
     CT_PendingTransferHasDifferentAmount, CT_PendingTransferAlreadyPosted,
     CT_PendingTransferAlreadyVoided, CT_PendingTransferExpired, CT_ExistsWithDifferentFlags,
     CT_ExistsWithDifferentDebitAccountId, CT_ExistsWithDifferentCreditAccountId,
     CT_ExistsWithDifferentAmount, CT_ExistsWithDifferentPendingId,
     CT_ExistsWithDifferentUserData128, CT_ExistsWithDifferentUserData64,
     CT_ExistsWithDifferentUserData32, CT_ExistsWithDifferentTimeout, CT_ExistsWithDifferentCode,
     CT_Exists, CT_OverflowsDebitsPending, CT_OverflowsCreditsPending, CT_OverflowsDebitsPosted,
     CT_OverflowsCreditsPosted, CT_OverflowsDebits, CT_OverflowsCredits, CT_OverflowsTimeout,
     CT_ExceedsCredits, CT_ExceedsDebits, CT_ImportedEventExpected, CT_ImportedEventNotExpected,
     CT_ImportedEventTimestampOutOfRange, CT_ImportedEventTimestampMustNotAdvance,
     CT_ImportedEventTimestampMustNotRegress, CT_ImportedEventTimestampMustPostdateDebitAccount,
     CT_ImportedEventTimestampMustPostdateCreditAccount, CT_ImportedEventTimeoutMustBeZero,
     CT_ClosingTransferMustBePending, CT_DebitAccountAlreadyClosed, CT_CreditAccountAlreadyClosed,
     CT_ExistsWithDifferentLedger, CT_IdAlreadyFailed, CT_Created]"

lemma account_statuses_complete: "s \<in> set account_statuses"
  by (cases s) (simp_all add: account_statuses_def)

lemma transfer_statuses_complete: "s \<in> set transfer_statuses"
  by (cases s) (simp_all add: transfer_statuses_def)

lemma distinct_account_codes: "distinct (map account_status_code account_statuses)"
  by (simp add: account_statuses_def)

lemma distinct_transfer_codes: "distinct (map transfer_status_code transfer_statuses)"
  by (simp add: transfer_statuses_def)

lemma account_status_code_eq: "account_status_code s = account_status_code s' \<longleftrightarrow> s = s'"
  using distinct_account_codes account_statuses_complete by (auto simp: distinct_map inj_on_def)

lemma transfer_status_code_eq: "transfer_status_code s = transfer_status_code s' \<longleftrightarrow> s = s'"
  using distinct_transfer_codes transfer_statuses_complete by (auto simp: distinct_map inj_on_def)

section \<open>Results\<close>

definition result_record :: "u64 \<Rightarrow> u32 \<Rightarrow> u8 list option" where
  "result_record timestamp code = record_image 16 [(0, le_bytes 8 timestamp), (8, le_bytes 4 code)]"

definition account_results_to_bytes :: "CreateAccountResult list \<Rightarrow> u8 list option" where
  "account_results_to_bytes results =
     encode_batch (\<lambda>r. result_record (car_timestamp r) (account_status_code (car_status r))) results"

definition transfer_results_to_bytes :: "CreateTransferResult list \<Rightarrow> u8 list option" where
  "transfer_results_to_bytes results =
     encode_batch (\<lambda>r. result_record (ctr_timestamp r) (transfer_status_code (ctr_status r))) results"

definition result_bytes :: "u64 \<Rightarrow> u32 \<Rightarrow> u8 list" where
  "result_bytes timestamp code = le_bytes 8 timestamp @ le_bytes 4 code @ replicate 4 0"

lemma result_record_bytes: "result_record timestamp code = Some (result_bytes timestamp code)"
  by (simp add: result_record_def result_bytes_def image_contiguous)

lemma length_result_bytes [simp]: "length (result_bytes timestamp code) = 16"
  by (simp add: result_bytes_def)

lemma result_bytes_eq:
  "result_bytes ts code = result_bytes ts' code' \<longleftrightarrow> ts = ts' \<and> code = code'"
proof -
  have "le_bytes 8 ts = le_bytes 8 ts' \<longleftrightarrow> ts = ts'"
    using le_word_bytes [of 8 ts, simplified] le_word_bytes [of 8 ts', simplified] by metis
  moreover have "le_bytes 4 code = le_bytes 4 code' \<longleftrightarrow> code = code'"
    using le_word_bytes [of 4 code, simplified] le_word_bytes [of 4 code', simplified] by metis
  ultimately show ?thesis by (simp add: result_bytes_def)
qed

lemma encode_batch_eq:
  assumes "n \<noteq> 0" "\<And>v. length (enc v) = n"
  shows "encode_batch (\<lambda>v. Some (enc v)) xs = encode_batch (\<lambda>v. Some (enc v)) ys \<longleftrightarrow> map enc xs = map enc ys"
proof -
  have chunks: "as_chunks n (concat (map enc vs)) = map enc vs" for vs
    using assms by (induction vs) (simp_all add: as_chunks_append)
  have "encode_batch (\<lambda>v. Some (enc v)) vs = Some (concat (map enc vs))" for vs
    by (simp add: encode_batch_def those_map_Some [where g = enc])
  then show ?thesis using chunks by (metis option.inject)
qed

lemma length_encode_batch:
  assumes "\<And>v. length (enc v) = n" "encode_batch (\<lambda>v. Some (enc v)) vs = Some bytes"
  shows "length bytes = n * length vs"
proof -
  have "bytes = concat (map enc vs)"
    using assms(2) by (simp add: encode_batch_def those_map_Some [where g = enc])
  moreover have "length (concat (map enc vs)) = n * length vs"
    using assms(1) by (induction vs) simp_all
  ultimately show ?thesis by simp
qed

end
