(* ===== verification/WireProps.thy ===== *)
theory WireProps
  imports Replies Hash PackedArray
begin

text \<open>
  Properties of the representations: the wire format of batches and replies is invertible, the packed
  counter array stays in its bounds, and the hash of a cache key always terminates with a value.
\<close>

section \<open>Bodies and replies\<close>

text \<open>C27. The body of a \<open>create_transfers\<close> request round-trips: encoding a batch always succeeds, gives
  128 bytes per transfer, and decoding it gives the batch back field by field; conversely any body
  decodes to a batch that re-encodes to the same bytes, unless its length is not a multiple of 128,
  which is answered as an error and never a panic.\<close>

theorem transfer_batch_codec:
  "(\<exists>bytes. transfer_batch_to_bytes events = Some bytes \<and> length bytes = 128 * length events \<and>
      bytes_to_transfer_batch bytes = Some (Some events)) \<and>
   (case bytes_to_transfer_batch body of
      None \<Rightarrow> False
    | Some None \<Rightarrow> length body mod 128 \<noteq> 0
    | Some (Some decoded) \<Rightarrow> transfer_batch_to_bytes decoded = Some body)"
  using transfer_codec.batch_round_trip [of events] transfer_codec.decode_batch_cases [of body]
  by (auto simp: transfer_batch_to_bytes_def bytes_to_transfer_batch_def)

text \<open>The body of a \<open>create_accounts\<close> request round-trips in the same way, 128 bytes per
  account.\<close>

theorem account_batch_codec:
  "(\<exists>bytes. account_batch_to_bytes events = Some bytes \<and> length bytes = 128 * length events \<and>
      bytes_to_account_batch bytes = Some (Some events)) \<and>
   (case bytes_to_account_batch body of
      None \<Rightarrow> False
    | Some None \<Rightarrow> length body mod 128 \<noteq> 0
    | Some (Some decoded) \<Rightarrow> account_batch_to_bytes decoded = Some body)"
  using account_codec.batch_round_trip [of events] account_codec.decode_batch_cases [of body]
  by (auto simp: account_batch_to_bytes_def bytes_to_account_batch_def)

text \<open>A reply says everything the client is promised: two batches of results have the same reply
  exactly when they agree, event by event, on timestamps and statuses, because no two statuses share
  a wire code and the 16-byte records do not overlap.\<close>

theorem reply_determines_results:
  "(transfer_results_to_bytes rs = transfer_results_to_bytes rs' \<longleftrightarrow>
     map (\<lambda>r. (ctr_timestamp r, ctr_status r)) rs = map (\<lambda>r. (ctr_timestamp r, ctr_status r)) rs') \<and>
   (account_results_to_bytes as = account_results_to_bytes as' \<longleftrightarrow> as = as')"
proof
  let ?t = "\<lambda>r. result_bytes (ctr_timestamp r) (transfer_status_code (ctr_status r))"
  let ?a = "\<lambda>r. result_bytes (car_timestamp r) (account_status_code (car_status r))"
  have "map ?t rs = map ?t rs' \<longleftrightarrow>
      map (\<lambda>r. (ctr_timestamp r, ctr_status r)) rs = map (\<lambda>r. (ctr_timestamp r, ctr_status r)) rs'"
    by (induction rs arbitrary: rs') (auto simp: map_eq_Cons_conv Cons_eq_map_conv result_bytes_eq transfer_status_code_eq)
  then show "transfer_results_to_bytes rs = transfer_results_to_bytes rs' \<longleftrightarrow>
     map (\<lambda>r. (ctr_timestamp r, ctr_status r)) rs = map (\<lambda>r. (ctr_timestamp r, ctr_status r)) rs'"
    using encode_batch_eq [of 16 ?t rs rs'] by (simp add: transfer_results_to_bytes_def result_record_bytes)
  have "map ?a as = map ?a as' \<longleftrightarrow> as = as'"
    by (rule inj_map_eq_map) (auto simp: inj_def result_bytes_eq account_status_code_eq)
  then show "account_results_to_bytes as = account_results_to_bytes as' \<longleftrightarrow> as = as'"
    using encode_batch_eq [of 16 ?a as as'] by (simp add: account_results_to_bytes_def result_record_bytes)
qed

section \<open>Packed counters\<close>

text \<open>C35. A packed array of 1, 2 or 4-bit counters never indexes its words out of bounds: a write of a
  value that fits replaces exactly its own slot and leaves every other slot as it was, a read of a
  slot returns what was last written and never exceeds the slot's mask, and a value that does not fit
  is a panic instead of spilling into its neighbours.\<close>

theorem packed_array_slots:
  assumes "pa_ok n p" "i < n"
  shows "(\<exists>w. pa_get p i = Some w \<and> w \<le> pa_mask p) \<and>
    (if v \<le> pa_mask p
     then \<exists>p'. pa_set p i v = Some p' \<and> pa_ok n p' \<and> (\<forall>j \<in> {..<n}. pa_get p' j = (if j = i then Some v else pa_get p j))
     else pa_set p i v = None)"
  using packed_array.get_ok [OF assms] packed_array.set_ok [OF assms, of v] packed_array.set_refuses [of p v i]
  by (auto simp: not_le)

definition counters :: packed where
  "counters = \<lparr>pa_bits = 2, pa_words = [0]\<rparr>"

theorem packed_array_slots_witness:
  "\<exists>p'. pa_set counters 3 2 = Some p' \<and> pa_get p' 3 = Some 2 \<and> pa_get p' 4 = Some 0"
proof -
  have ok: "pa_ok 32 counters" by (simp add: pa_ok_def counters_def uints_per_word_def)
  have fits: "2 \<le> pa_mask counters" by (simp add: pa_mask_def counters_def)
  have "pa_get counters 4 = Some 0"
    by (simp add: pa_get_def counters_def pa_word_def uints_per_word_def bits_index_def Let_def)
  then show ?thesis using packed_array_slots [OF ok, of 3 2] fits by auto
qed

section \<open>Hashing\<close>

text \<open>The hash of a cache key terminates with a value for every seed and every input: the block and
  word loops consume their input, and no read runs past the end of the buffer.\<close>

theorem cache_key_hash_total:
  "(\<exists>h. low_level_hash seed input = Some h) \<and> hash_inline_u128 k \<noteq> None \<and> hash_inline_u64 j \<noteq> None"
  using low_level_hash_total by (auto simp: hash_inline_u128_def hash_inline_u64_def)

end
