(* ===== verification/StateMachine.thy ===== *)
theory StateMachine
  imports BatchTransfers Replies "HOL-Library.Product_Lexorder"
begin

text \<open>
  The accounting state machine of \<open>crates/tigerbeetle-vsr/src/state_machine.rs\<close> without a mounted
  forest (\<open>forest: None\<close>): the committed stores, their timestamp indexes, the change-event log and
  the expiry pulse, the three objects caches, and the operations that change them. A batch is
  prefetched into the caches, executed against them, and its created events are then persisted to
  the stores.
\<close>

section \<open>State\<close>

record state_machine =
  sm_commit_timestamp :: u64
  sm_prefetch_snapshot :: "u64 option"
  sm_prefetch_operation :: "u8 option"
  sm_accounts :: "(u128, account) hmap"
  sm_transfers :: "(u128, transfer) hmap"
  sm_transfers_orphaned :: "u128 set"
  sm_accounts_timestamp_max :: u64
  sm_transfers_timestamp_max :: u64
  sm_accounts_by_timestamp :: "(u64, u128) hmap"
  sm_transfers_by_timestamp :: "(u64, u128) hmap"
  sm_transfers_pending :: "(u64, transfer_pending) hmap"
  sm_account_events :: "(u64, account_event) hmap"
  sm_account_events_index :: "(u64, u64 list) hmap"
  sm_pulse_next_timestamp :: u64
  sm_accounts_objects :: "(u128, account) cm"
  sm_transfers_objects :: "(u128, transfer) cm"
  sm_transfers_pending_objects :: "(u64, transfer_pending) cm"

text \<open>\<open>StateMachine::default()\<close>; \<open>LSM_COMPACTION_OPS\<close> of the configuration is its parameter.\<close>

definition sm_default :: "nat \<Rightarrow> state_machine option" where
  "sm_default lsm_compaction_ops =
     do { accounts \<leftarrow> cm_new account_cache_spec (objects_cache_options lsm_compaction_ops);
          transfers \<leftarrow> cm_new transfer_cache_spec (objects_cache_options lsm_compaction_ops);
          pendings \<leftarrow> cm_new transfer_pending_cache_spec (objects_cache_options lsm_compaction_ops);
          Some \<lparr>sm_commit_timestamp = 0, sm_prefetch_snapshot = None, sm_prefetch_operation = None,
                sm_accounts = [], sm_transfers = [], sm_transfers_orphaned = {},
                sm_accounts_timestamp_max = 0, sm_transfers_timestamp_max = 0,
                sm_accounts_by_timestamp = [], sm_transfers_by_timestamp = [],
                sm_transfers_pending = [], sm_account_events = [], sm_account_events_index = [],
                sm_pulse_next_timestamp = TIMESTAMP_MIN,
                sm_accounts_objects = accounts, sm_transfers_objects = transfers,
                sm_transfers_pending_objects = pendings\<rparr> }"

section \<open>Writing the stores\<close>

definition sm_insert_account :: "u128 \<Rightarrow> account \<Rightarrow> state_machine \<Rightarrow> state_machine option" where
  "sm_insert_account account_id account st =
     do { ensure (a_timestamp account \<noteq> 0);
          ensure (is_none_or (\<lambda>previous. previous = account_id)
            (hm_get (sm_accounts_by_timestamp st) (a_timestamp account)));
          Some (st\<lparr>sm_accounts_by_timestamp :=
                     hm_insert (a_timestamp account) account_id (sm_accounts_by_timestamp st),
                  sm_accounts_timestamp_max := max (sm_accounts_timestamp_max st) (a_timestamp account),
                  sm_accounts := hm_insert account_id account (sm_accounts st)\<rparr>) }"

definition sm_update_account :: "account \<Rightarrow> state_machine \<Rightarrow> state_machine option" where
  "sm_update_account account st =
     do { old \<leftarrow> hm_get (sm_accounts st) (a_id account);
          ensure (a_timestamp old = a_timestamp account);
          Some (st\<lparr>sm_accounts := hm_insert (a_id account) account (sm_accounts st)\<rparr>) }"

definition sm_insert_transfer :: "u128 \<Rightarrow> transfer \<Rightarrow> state_machine \<Rightarrow> state_machine option" where
  "sm_insert_transfer transfer_id transfer st =
     do { ensure (t_timestamp transfer \<noteq> 0);
          ensure (is_none_or (\<lambda>previous. previous = transfer_id)
            (hm_get (sm_transfers_by_timestamp st) (t_timestamp transfer)));
          Some (st\<lparr>sm_transfers_by_timestamp :=
                     hm_insert (t_timestamp transfer) transfer_id (sm_transfers_by_timestamp st),
                  sm_transfers_timestamp_max := max (sm_transfers_timestamp_max st) (t_timestamp transfer),
                  sm_transfers := hm_insert transfer_id transfer (sm_transfers st)\<rparr>) }"

definition sm_insert_transfer_pending :: "transfer_pending \<Rightarrow> state_machine \<Rightarrow> state_machine option" where
  "sm_insert_transfer_pending pending st =
     do { ensure (hm_get (sm_transfers_pending st) (tp_timestamp pending) = None);
          Some (st\<lparr>sm_transfers_pending :=
                     hm_insert (tp_timestamp pending) pending (sm_transfers_pending st)\<rparr>) }"

definition sm_update_transfer_pending_status :: "u64 \<Rightarrow> TransferPendingStatus \<Rightarrow> state_machine
    \<Rightarrow> state_machine option" where
  "sm_update_transfer_pending_status timestamp status st =
     do { transfer_pending \<leftarrow> hm_get (sm_transfers_pending st) timestamp;
          ensure (tp_status transfer_pending = StPending);
          Some (st\<lparr>sm_transfers_pending := hm_insert timestamp
                     \<lparr>tp_timestamp = timestamp, tp_status = status\<rparr> (sm_transfers_pending st)\<rparr>) }"

section \<open>The change-event log\<close>

text \<open>\<open>self.account_events_index.entry(account_timestamp).or_default().push(timestamp_event)\<close> for an
  account that keeps its history.\<close>

definition sm_index_event :: "account \<Rightarrow> u64 \<Rightarrow> state_machine \<Rightarrow> state_machine" where
  "sm_index_event account timestamp_event st =
     (if af_history (a_flags account) then
        let entry = (case hm_get (sm_account_events_index st) (a_timestamp account) of
                       None \<Rightarrow> [] | Some timestamps \<Rightarrow> timestamps)
        in st\<lparr>sm_account_events_index :=
                hm_insert (a_timestamp account) (entry @ [timestamp_event]) (sm_account_events_index st)\<rparr>
      else st)"

definition sm_account_event :: "u64 \<Rightarrow> account \<Rightarrow> account \<Rightarrow> transfer_flags \<Rightarrow> TransferPendingStatus
    \<Rightarrow> transfer option \<Rightarrow> u128 \<Rightarrow> u128 \<Rightarrow> state_machine \<Rightarrow> state_machine option" where
  "sm_account_event timestamp_event dr_account cr_account flags pending_status transfer_pending
       amount_requested amount st =
     do { ensure (timestamp_event > 0);
          ensure (if pending_status \<in> {StNone, StPending} then transfer_pending = None
                  else transfer_pending \<noteq> None);
          ensure (a_ledger dr_account = a_ledger cr_account);
          let event =
            \<lparr>ev_dr_account_id = a_id dr_account,
             ev_dr_debits_pending = a_debits_pending dr_account,
             ev_dr_debits_posted = a_debits_posted dr_account,
             ev_dr_credits_pending = a_credits_pending dr_account,
             ev_dr_credits_posted = a_credits_posted dr_account,
             ev_cr_account_id = a_id cr_account,
             ev_cr_debits_pending = a_debits_pending cr_account,
             ev_cr_debits_posted = a_debits_posted cr_account,
             ev_cr_credits_pending = a_credits_pending cr_account,
             ev_cr_credits_posted = a_credits_posted cr_account,
             ev_timestamp = timestamp_event,
             ev_dr_account_timestamp = a_timestamp dr_account,
             ev_cr_account_timestamp = a_timestamp cr_account,
             ev_dr_account_flags = a_flags dr_account,
             ev_cr_account_flags = a_flags cr_account,
             ev_transfer_flags = flags,
             ev_transfer_pending_flags = (case transfer_pending of None \<Rightarrow> 0 | Some p \<Rightarrow> t_flags p),
             ev_transfer_pending_id = (case transfer_pending of None \<Rightarrow> 0 | Some p \<Rightarrow> t_id p),
             ev_amount_requested = amount_requested,
             ev_amount = amount,
             ev_ledger = a_ledger dr_account,
             ev_transfer_pending_status = pending_status\<rparr>;
          ensure (hm_get (sm_account_events st) timestamp_event = None);
          let st = st\<lparr>sm_account_events := hm_insert timestamp_event event (sm_account_events st)\<rparr>;
          Some (sm_index_event cr_account timestamp_event (sm_index_event dr_account timestamp_event st)) }"

section \<open>The expiry pulse\<close>

definition expires_at :: "transfer \<Rightarrow> u64 option" where
  "expires_at p = checked_add (t_timestamp p) (timeout_ns p)"

text \<open>The loop both pulse functions share: the pending rows that can expire, each with its expiry, its
  timestamp and the transfer's id. A row whose transfer is missing or not pending is a panic; a
  pending transfer without a timeout never expires.\<close>

fun sm_expirable :: "state_machine \<Rightarrow> (u64 \<times> transfer_pending) list \<Rightarrow> (u64 \<times> u64 \<times> u128) list option" where
  "sm_expirable st [] = Some []"
| "sm_expirable st ((pending_ts, row) # rows) =
     do { rest \<leftarrow> sm_expirable st rows;
          if tp_status row \<noteq> StPending then Some rest
          else
            do { transfer_id \<leftarrow> hm_get (sm_transfers_by_timestamp st) pending_ts;
                 p \<leftarrow> hm_get (sm_transfers st) transfer_id;
                 ensure (tf_pending (t_flags p));
                 if t_timeout p = 0 then Some rest
                 else do { expiry \<leftarrow> expires_at p; Some ((expiry, pending_ts, transfer_id) # rest) } } }"

definition sm_update_pulse_next_timestamp :: "state_machine \<Rightarrow> state_machine option" where
  "sm_update_pulse_next_timestamp st =
     do { let st = st\<lparr>sm_pulse_next_timestamp := TIMESTAMP_MAX\<rparr>;
          by_map \<leftarrow> sm_expirable st (sm_transfers_pending st);
          Some (case sort (map (\<lambda>(expiry, pending_ts, _). (expiry, pending_ts)) by_map) of
                  [] \<Rightarrow> st
                | (expiry, _) # _ \<Rightarrow> st\<lparr>sm_pulse_next_timestamp := expiry\<rparr>) }"

definition sm_pulse_needed :: "state_machine \<Rightarrow> u64 \<Rightarrow> bool" where
  "sm_pulse_needed st timestamp \<longleftrightarrow> sm_pulse_next_timestamp st \<le> timestamp"

section \<open>Persisting transfers\<close>

definition sm_commit_transfer :: "transfer \<Rightarrow> u128 \<Rightarrow> u128 \<Rightarrow> state_machine \<Rightarrow> state_machine option" where
  "sm_commit_transfer event amount_actual amount_requested st =
     do { dr \<leftarrow> hm_get (sm_accounts st) (t_debit_account_id event);
          cr \<leftarrow> hm_get (sm_accounts st) (t_credit_account_id event);
          let (dr, cr) = commit_transfer_accounts event amount_actual dr cr;
          st \<leftarrow> sm_update_account dr st;
          st \<leftarrow> sm_update_account cr st;
          st \<leftarrow> sm_account_event (t_timestamp event) dr cr (t_flags event)
                  (if tf_pending (t_flags event) then StPending else StNone) None
                  amount_requested amount_actual st;
          if t_timeout event > 0 then
            do { ensure (tf_pending (t_flags event));
                 ensure (\<not> tf_imported (t_flags event));
                 expiry \<leftarrow> expires_at event;
                 Some (if expiry < sm_pulse_next_timestamp st
                       then st\<lparr>sm_pulse_next_timestamp := expiry\<rparr> else st) }
          else Some st }"

definition sm_persist_post_void :: "transfer \<Rightarrow> u128 \<Rightarrow> state_machine \<Rightarrow> state_machine option" where
  "sm_persist_post_void event amount_actual st =
     do { p \<leftarrow> hm_get (sm_transfers st) (t_pending_id event);
          let amount_requested = t_amount event;
          stored \<leftarrow> fold_post_void_transfer event p amount_actual (t_timestamp event);
          st \<leftarrow> sm_insert_transfer (t_id stored) stored st;
          let pending_status = (if tf_post_pending_transfer (t_flags stored) then StPosted else StVoided);
          st \<leftarrow> sm_update_transfer_pending_status (t_timestamp p) pending_status st;
          dr \<leftarrow> hm_get (sm_accounts st) (t_debit_account_id stored);
          cr \<leftarrow> hm_get (sm_accounts st) (t_credit_account_id stored);
          (dr, cr) \<leftarrow> commit_post_void_accounts stored p amount_actual dr cr;
          st \<leftarrow> sm_update_account dr st;
          st \<leftarrow> sm_update_account cr st;
          st \<leftarrow> sm_account_event (t_timestamp event) dr cr (t_flags stored) pending_status (Some p)
                  amount_requested amount_actual st;
          sm_update_pulse_next_timestamp st }"

definition sm_persist_transfer :: "transfer \<Rightarrow> u128 \<Rightarrow> state_machine \<Rightarrow> state_machine option" where
  "sm_persist_transfer event amount_actual st =
     (let amount_requested = t_amount event in
      if tf_pending (t_flags event) then
        do { let event = event\<lparr>t_amount := amount_actual\<rparr>;
             st \<leftarrow> sm_insert_transfer (t_id event) event st;
             st \<leftarrow> sm_insert_transfer_pending
                     \<lparr>tp_timestamp = t_timestamp event, tp_status = StPending\<rparr> st;
             sm_commit_transfer event amount_actual amount_requested st }
      else if tf_post_pending_transfer (t_flags event) \<or> tf_void_pending_transfer (t_flags event) then
        sm_persist_post_void event amount_actual st
      else
        do { let event = event\<lparr>t_amount := amount_actual\<rparr>;
             st \<leftarrow> sm_insert_transfer (t_id event) event st;
             sm_commit_transfer event amount_actual amount_requested st })"

section \<open>Walking a batch, chain by chain\<close>

text \<open>
  The loop of \<open>persist_accounts\<close> and \<open>persist_transfers\<close>: an unlinked event persists if it was
  created; a run of linked events and the event that closes it persists if all of them were created;
  a run the batch never closes is skipped.
\<close>

fun persist_range :: "(nat \<Rightarrow> 'e \<Rightarrow> 'r \<Rightarrow> 's \<Rightarrow> 's option) \<Rightarrow> nat \<Rightarrow> ('e \<times> 'r) list \<Rightarrow> 's \<Rightarrow> 's option" where
  "persist_range persist index [] st = Some st"
| "persist_range persist index ((event, result) # rest) st =
     do { st \<leftarrow> persist index event result st; persist_range persist (Suc index) rest st }"

definition chain_stop :: "('e \<Rightarrow> bool) \<Rightarrow> 'e list \<Rightarrow> nat \<Rightarrow> nat" where
  "chain_stop linked events start = start + length (takeWhile linked (drop start events))"

function persist_chains :: "('e \<Rightarrow> bool) \<Rightarrow> ('r \<Rightarrow> bool) \<Rightarrow> (nat \<Rightarrow> 'e \<Rightarrow> 'r \<Rightarrow> 's \<Rightarrow> 's option)
    \<Rightarrow> 'e list \<Rightarrow> 'r list \<Rightarrow> nat \<Rightarrow> 's \<Rightarrow> 's option" where
  "persist_chains linked ok persist events results index st =
     (if \<not> index < length events then Some st
      else if \<not> linked (events ! index) then
        do { result \<leftarrow> index_at results index;
             st \<leftarrow> (if ok result then persist index (events ! index) result st else Some st);
             persist_chains linked ok persist events results (index + 1) st }
      else if chain_stop linked events index = length events then Some st
      else
        do { let stop = chain_stop linked events index;
             chain \<leftarrow> slice_at results index (stop + 1 - index);
             st \<leftarrow> (if list_all ok chain
                   then persist_range persist index (zip (drop index events) chain) st else Some st);
             persist_chains linked ok persist events results
               (chain_stop linked events index + 1) st })"
  by pat_completeness auto
termination
  by (relation "measure (\<lambda>(linked, created, persist, events, results, index, st). length events - index)")
    (auto simp: chain_stop_def)

declare persist_chains.simps [simp del]

definition persist_account_at :: "nat \<Rightarrow> u64 \<Rightarrow> nat \<Rightarrow> account \<Rightarrow> CreateAccountResult \<Rightarrow> state_machine
    \<Rightarrow> state_machine option" where
  "persist_account_at len timestamp index event result st =
     do { event \<leftarrow> (if \<not> af_imported (a_flags event)
                   then do { ts \<leftarrow> event_timestamp timestamp len index; Some (event\<lparr>a_timestamp := ts\<rparr>) }
                   else Some event);
          ensure (a_timestamp event = car_timestamp result);
          sm_insert_account (a_id event) event st }"

definition persist_accounts :: "account list \<Rightarrow> CreateAccountResult list \<Rightarrow> u64 \<Rightarrow> state_machine
    \<Rightarrow> state_machine option" where
  "persist_accounts events results timestamp st =
     persist_chains (\<lambda>event. af_linked (a_flags event)) (\<lambda>r. car_status r = CA_Created)
       (persist_account_at (length events) timestamp) events results 0 st"

definition persist_transfer_at :: "nat \<Rightarrow> u64 \<Rightarrow> nat \<Rightarrow> transfer \<Rightarrow> CreateTransferResult \<Rightarrow> state_machine
    \<Rightarrow> state_machine option" where
  "persist_transfer_at len timestamp index event result st =
     do { event \<leftarrow> (if \<not> tf_imported (t_flags event)
                   then do { ts \<leftarrow> event_timestamp timestamp len index; Some (event\<lparr>t_timestamp := ts\<rparr>) }
                   else Some event);
          ensure (t_timestamp event = ctr_timestamp result);
          sm_persist_transfer event (ctr_amount_actual result) st }"

definition persist_orphans :: "transfer list \<Rightarrow> CreateTransferResult list \<Rightarrow> state_machine \<Rightarrow> state_machine" where
  "persist_orphans events results st =
     foldl (\<lambda>st (event, result). if transient (ctr_status result)
       then st\<lparr>sm_transfers_orphaned := insert (t_id event) (sm_transfers_orphaned st)\<rparr> else st)
       st (zip events results)"

definition persist_transfers :: "transfer list \<Rightarrow> CreateTransferResult list \<Rightarrow> u64 \<Rightarrow> state_machine
    \<Rightarrow> state_machine option" where
  "persist_transfers events results timestamp st =
     persist_chains (\<lambda>event. tf_linked (t_flags event)) (\<lambda>r. ctr_status r = CT_Created)
       (persist_transfer_at (length events) timestamp) events results 0 (persist_orphans events results st)"

section \<open>Expiring pending transfers\<close>

definition sm_expire_one :: "u64 \<Rightarrow> u128 \<Rightarrow> state_machine \<Rightarrow> state_machine option" where
  "sm_expire_one timestamp_event transfer_id st =
     do { ensure (sm_commit_timestamp st < timestamp_event);
          let st = st\<lparr>sm_commit_timestamp := timestamp_event\<rparr>;
          p \<leftarrow> hm_get (sm_transfers st) transfer_id;
          expiry \<leftarrow> expires_at p;
          ensure (expiry \<le> timestamp_event);
          dr \<leftarrow> hm_get (sm_accounts st) (t_debit_account_id p);
          cr \<leftarrow> hm_get (sm_accounts st) (t_credit_account_id p);
          ensure (a_debits_pending dr \<ge> t_amount p);
          ensure (a_credits_pending cr \<ge> t_amount p);
          let dr_new = dr\<lparr>a_debits_pending := a_debits_pending dr - t_amount p\<rparr>;
          let cr_new = cr\<lparr>a_credits_pending := a_credits_pending cr - t_amount p\<rparr>;
          ensure (tf_closing_debit (t_flags p) \<longrightarrow> af_closed (a_flags dr_new));
          let dr_new = (if tf_closing_debit (t_flags p)
                        then dr_new\<lparr>a_flags := without_closed (a_flags dr_new)\<rparr> else dr_new);
          ensure (tf_closing_credit (t_flags p) \<longrightarrow> af_closed (a_flags cr_new));
          let cr_new = (if tf_closing_credit (t_flags p)
                        then cr_new\<lparr>a_flags := without_closed (a_flags cr_new)\<rparr> else cr_new);
          st \<leftarrow> (if t_amount p > 0 \<or> af_closed (a_flags dr_new) \<noteq> af_closed (a_flags dr)
                then sm_update_account dr_new st else Some st);
          st \<leftarrow> (if t_amount p > 0 \<or> af_closed (a_flags cr_new) \<noteq> af_closed (a_flags cr)
                then sm_update_account cr_new st else Some st);
          st \<leftarrow> sm_update_transfer_pending_status (t_timestamp p) StExpired st;
          sm_account_event timestamp_event dr_new cr_new 0 StExpired (Some p) 0 (t_amount p) st }"

fun sm_expire_due :: "u64 \<Rightarrow> nat \<Rightarrow> nat \<Rightarrow> u128 list \<Rightarrow> state_machine \<Rightarrow> state_machine option" where
  "sm_expire_due timestamp len index [] st = Some st"
| "sm_expire_due timestamp len index (transfer_id # due) st =
     do { timestamp_event \<leftarrow> event_timestamp timestamp len index;
          st \<leftarrow> sm_expire_one timestamp_event transfer_id st;
          sm_expire_due timestamp len (Suc index) due st }"

definition sm_expire_pending_transfers :: "u64 \<Rightarrow> state_machine \<Rightarrow> state_machine option" where
  "sm_expire_pending_transfers timestamp st =
     do { ensure (timestamp > sm_commit_timestamp st);
          ensure (timestamp > 0);
          expirable \<leftarrow> sm_expirable st (sm_transfers_pending st);
          let due = sort (filter (\<lambda>(expiry, _). expiry \<le> timestamp) expirable);
          st \<leftarrow> sm_expire_due timestamp (length due) 0 (map (snd \<circ> snd) due) st;
          sm_update_pulse_next_timestamp st }"

section \<open>The two creating operations\<close>

text \<open>\<open>create_accounts_prefetch\<close> and \<open>create_transfers_prefetch\<close> without a mounted forest: the committed
  objects of the enqueued keys are upserted into the caches, in the order they were enqueued.\<close>

fun prefetch_into :: "('k, 'v) cm_spec \<Rightarrow> ('k, 'v) hmap \<Rightarrow> 'k list \<Rightarrow> ('k, 'v) cm \<Rightarrow> ('k, 'v) cm option" where
  "prefetch_into S store [] objects = Some objects"
| "prefetch_into S store (key # rest) objects =
     do { objects \<leftarrow> (case hm_get store key of None \<Rightarrow> Some objects | Some v \<Rightarrow> cm_upsert S objects v);
          prefetch_into S store rest objects }"

definition found_timestamps :: "(u64, 'v) hmap \<Rightarrow> u64 list \<Rightarrow> u64 set" where
  "found_timestamps store timestamps = set (filter (\<lambda>ts. hm_get store ts \<noteq> None) timestamps)"

definition create_accounts_prefetch :: "account_prefetch_keys \<Rightarrow> state_machine
    \<Rightarrow> (u64 set \<times> state_machine) option" where
  "create_accounts_prefetch prefetch st =
     do { objects \<leftarrow> prefetch_into account_cache_spec (sm_accounts st)
                       (pk_ordered (apk_account_ids prefetch)) (sm_accounts_objects st);
          Some (found_timestamps (sm_transfers_by_timestamp st) (pk_ordered (apk_transfer_timestamps prefetch)),
                st\<lparr>sm_accounts_objects := objects\<rparr>) }"

definition create_accounts :: "account list \<Rightarrow> u64 \<Rightarrow> state_machine \<Rightarrow> (u8 list \<times> state_machine) option" where
  "create_accounts events timestamp st =
     do { ensure (sm_commit_timestamp st \<le> timestamp);
          let prefetch = prefetch_create_accounts events;
          (transfer_timestamps, st) \<leftarrow> create_accounts_prefetch prefetch st;
          (results, objects) \<leftarrow> execute_create_accounts events timestamp prefetch (sm_accounts_objects st)
             (sm_accounts_timestamp_max st) transfer_timestamps;
          st \<leftarrow> persist_accounts events results timestamp (st\<lparr>sm_accounts_objects := objects\<rparr>);
          reply \<leftarrow> account_results_to_bytes results;
          Some (reply, st) }"

definition create_transfers_prefetch :: "transfer_prefetch_keys \<Rightarrow> state_machine
    \<Rightarrow> (u64 set \<times> state_machine) option" where
  "create_transfers_prefetch prefetch st =
     do { accounts \<leftarrow> prefetch_into account_cache_spec (sm_accounts st)
                        (pk_ordered (tpk_account_ids prefetch)) (sm_accounts_objects st);
          transfers \<leftarrow> prefetch_into transfer_cache_spec (sm_transfers st)
                         (pk_ordered (tpk_transfer_ids prefetch)) (sm_transfers_objects st);
          pendings \<leftarrow> prefetch_into transfer_pending_cache_spec (sm_transfers_pending st)
                        (pk_ordered (tpk_pending_timestamps prefetch)) (sm_transfers_pending_objects st);
          Some (found_timestamps (sm_accounts_by_timestamp st) (pk_ordered (tpk_account_timestamps prefetch)),
                st\<lparr>sm_accounts_objects := accounts, sm_transfers_objects := transfers,
                   sm_transfers_pending_objects := pendings\<rparr>) }"

definition create_transfers :: "transfer list \<Rightarrow> u64 \<Rightarrow> state_machine \<Rightarrow> (u8 list \<times> state_machine) option" where
  "create_transfers events timestamp st =
     do { ensure (sm_commit_timestamp st \<le> timestamp);
          let prefetch = prefetch_create_transfers events (hm_get (sm_transfers st));
          (account_timestamps, st) \<leftarrow> create_transfers_prefetch prefetch st;
          let env = \<lparr>ce_events = events, ce_timestamp = timestamp, ce_account_timestamps = account_timestamps,
                     ce_account_timestamps_enqueued = tpk_account_timestamps prefetch,
                     ce_is_orphaned = (\<lambda>transfer_id. transfer_id \<in> sm_transfers_orphaned st),
                     ce_prefetch = prefetch\<rparr>;
          (results, ct) \<leftarrow> execute_create_transfers env (sm_accounts_objects st) (sm_transfers_objects st)
             (sm_transfers_pending_objects st) (sm_transfers_timestamp_max st) {};
          st \<leftarrow> persist_transfers events results timestamp
             (st\<lparr>sm_accounts_objects := ct_accounts ct, sm_transfers_objects := ct_transfers ct,
                sm_transfers_pending_objects := ct_pending ct\<rparr>);
          reply \<leftarrow> transfer_results_to_bytes results;
          Some (reply, st) }"

section \<open>Clock and compaction\<close>

definition sm_execute_op :: "u64 \<Rightarrow> state_machine \<Rightarrow> state_machine option" where
  "sm_execute_op timestamp st =
     do { ensure (sm_commit_timestamp st < timestamp); Some (st\<lparr>sm_commit_timestamp := timestamp\<rparr>) }"

definition sm_set_commit_timestamp :: "u64 \<Rightarrow> state_machine \<Rightarrow> state_machine" where
  "sm_set_commit_timestamp timestamp st = st\<lparr>sm_commit_timestamp := timestamp\<rparr>"

definition sm_compact :: "nat \<Rightarrow> u64 \<Rightarrow> state_machine \<Rightarrow> state_machine option" where
  "sm_compact lsm_compaction_ops op st =
     (if unat op mod lsm_compaction_ops = lsm_compaction_ops - 1 then
        do { accounts \<leftarrow> cm_compact (sm_accounts_objects st);
             transfers \<leftarrow> cm_compact (sm_transfers_objects st);
             pendings \<leftarrow> cm_compact (sm_transfers_pending_objects st);
             Some (st\<lparr>sm_accounts_objects := accounts, sm_transfers_objects := transfers,
                      sm_transfers_pending_objects := pendings\<rparr>) }
      else Some st)"

end
