(* ===== verification/Verdicts.thy ===== *)
theory Verdicts
  imports BatchTransfers LedgerRules
begin

text \<open>
  What a reported \<open>Created\<close> says about its event: the event passed its validation, it does not leave
  a chain open at the end of the batch, and (for accounts) its id was not taken before. These facts
  carry the persistence of a batch, which works from the results alone.
\<close>

section \<open>Facts about the created results of a batch\<close>

definition verdicts :: "('r \<Rightarrow> bool) \<Rightarrow> (nat \<Rightarrow> bool) \<Rightarrow> 'r list \<Rightarrow> bool" where
  "verdicts ok P results \<longleftrightarrow> (\<forall>i < length results. ok (results ! i) \<longrightarrow> P i)"

lemma verdicts_Nil [simp]: "verdicts ok P []"
  by (simp add: verdicts_def)

lemma verdicts_snoc: "verdicts ok P (results @ [r]) \<longleftrightarrow> verdicts ok P results \<and> (ok r \<longrightarrow> P (length results))"
  by (auto simp: verdicts_def nth_append less_Suc_eq)

lemma verdicts_mark_failed:
  "(\<And>r. \<not> ok (fail r)) \<Longrightarrow> verdicts ok P results \<Longrightarrow> verdicts ok P (mark_failed fail n results)"
  by (auto simp: verdicts_def mark_failed_def nth_append min_def split: if_splits)

definition distinct_ids :: "('r \<Rightarrow> bool) \<Rightarrow> (nat \<Rightarrow> 'k) \<Rightarrow> 'r list \<Rightarrow> bool" where
  "distinct_ids ok key results \<longleftrightarrow>
     (\<forall>i < length results. \<forall>j < i. ok (results ! i) \<longrightarrow> ok (results ! j) \<longrightarrow> key j \<noteq> key i)"

lemma distinct_ids_Nil [simp]: "distinct_ids ok key []"
  by (simp add: distinct_ids_def)

lemma distinct_ids_snoc:
  "distinct_ids ok key (results @ [r]) \<longleftrightarrow> distinct_ids ok key results \<and>
     (ok r \<longrightarrow> (\<forall>j < length results. ok (results ! j) \<longrightarrow> key j \<noteq> key (length results)))"
  by (auto simp: distinct_ids_def nth_append less_Suc_eq)

lemma distinct_ids_mark_failed:
  "(\<And>r. \<not> ok (fail r)) \<Longrightarrow> distinct_ids ok key results \<Longrightarrow> distinct_ids ok key (mark_failed fail n results)"
  by (auto simp: distinct_ids_def mark_failed_def nth_append min_def split: if_splits)

section \<open>Account batches\<close>

definition fresh_account :: "account \<Rightarrow> bool" where
  "fresh_account a \<longleftrightarrow> a_debits_pending a = 0 \<and> a_debits_posted a = 0 \<and> a_credits_pending a = 0 \<and>
     a_credits_posted a = 0 \<and> a_ledger a \<noteq> 0 \<and> \<not> af_are_mutually_exclusive (a_flags a)"

definition created_account :: "(u128 \<Rightarrow> account GetOrTombstone) \<Rightarrow> u64 \<Rightarrow> account list \<Rightarrow> nat \<Rightarrow> bool" where
  "created_account e timestamp events i \<longleftrightarrow> fresh_account (events ! i) \<and>
     (af_imported (a_flags (events ! i)) \<longrightarrow> a_timestamp (events ! i) < timestamp) \<and>
     \<not> (af_linked (a_flags (events ! i)) \<and> i = length events - 1) \<and> (\<forall>v. e (a_id (events ! i)) \<noteq> Found v)"

definition ca_verdicts :: "(u128 \<Rightarrow> account GetOrTombstone) \<Rightarrow> u64 \<Rightarrow> account list \<Rightarrow> CreateAccountResult list \<Rightarrow> bool" where
  "ca_verdicts e timestamp events results \<longleftrightarrow> verdicts created (created_account e timestamp events) results \<and>
     distinct_ids created (\<lambda>i. a_id (events ! i)) results"

lemma ca_verdicts_Nil [simp]: "ca_verdicts e timestamp events []"
  by (simp add: ca_verdicts_def)

lemma create_account_Created_fresh:
  "create_account a ts ex = Some CA_Created \<Longrightarrow> ex = None \<and> fresh_account a"
  by (auto simp: create_account_def create_account_exists_def fresh_account_def split: if_splits option.splits)

text \<open>An id the base or an earlier created event holds is found in the applied entries.\<close>

lemma created_entries_found:
  assumes "length results \<le> length events"
    and "(\<exists>v. e k = Found v) \<or> (\<exists>j < length results. created (results ! j) \<and> a_id (events ! j) = k)"
  shows "\<exists>v. created_entries e (take (length results) events) results k = Found v"
  using assms
proof (induction results rule: rev_induct)
  case Nil
  then show ?case by (simp add: created_entries_def)
next
  case (snoc r results)
  let ?n = "length results"
  have step: "created_entries e (take (Suc ?n) events) (results @ [r]) =
      apply_created (created_entries e (take ?n events) results) (events ! ?n) r"
    using account_batch.applied_snoc [of ?n events results e r] snoc.prems(1)
    unfolding account_batch_defs by simp
  show ?case
  proof (cases "created r \<and> a_id (events ! ?n) = k")
    case True
    then show ?thesis by (simp add: step apply_created_def)
  next
    case False
    with snoc.prems(2) have "(\<exists>v. e k = Found v) \<or> (\<exists>j < ?n. created (results ! j) \<and> a_id (events ! j) = k)"
      by (auto simp: nth_append less_Suc_eq)
    with snoc False show ?thesis by (auto simp: step apply_created_def)
  qed
qed

lemma ca_evaluate_created:
  assumes ok: "cm_ok account_cache_spec (ca_objects st)"
    and r: "ca_evaluate events timestamp prefetch transfer_ts k event st = Some (CA_Created, ts, st')"
  shows "fresh_account event" "\<not> (af_linked (a_flags event) \<and> k = length events - 1)"
    "af_imported (a_flags event) \<longrightarrow> a_timestamp event < timestamp"
    "cm_entry account_cache_spec (ca_objects st) (a_id event) \<noteq> Found v"
proof -
  from r obtain te st1 where o: "ca_open_chain k event st = Some st1"
    and a: "ca_apply timestamp prefetch transfer_ts event te st1 = Some (CA_Created, ts, st')"
    and last: "\<not> (af_linked (a_flags event) \<and> k = length events - 1)"
    and past: "af_imported (a_flags event) \<longrightarrow> a_timestamp event < timestamp"
    by (auto simp: ca_evaluate_def bind_Some_iff split: if_splits)
  show "af_imported (a_flags event) \<longrightarrow> a_timestamp event < timestamp" by (rule past)
  from last show "\<not> (af_linked (a_flags event) \<and> k = length events - 1)" by simp
  have ok1: "cm_ok account_cache_spec (ca_objects st1)"
    and same: "cm_entry account_cache_spec (ca_objects st1) = cm_entry account_cache_spec (ca_objects st)"
    using o ok accounts_objects.open_entry [OF ok]
    by (auto simp: ca_open_chain_def panic_simps split: if_splits)
  from accounts_objects.get_entry [OF ok1, of "a_id event"] obtain o1 where
    "cm_get account_cache_spec (ca_objects st1) (a_id event) =
      Some (entry_value (cm_entry account_cache_spec (ca_objects st1) (a_id event)), o1)" by blast
  with a have "create_account event te (entry_value (cm_entry account_cache_spec (ca_objects st) (a_id event))) = Some CA_Created"
    by (auto simp: ca_apply_def Let_def bind_Some_iff same split: if_splits)
  from create_account_Created_fresh [OF this]
  show "fresh_account event" "cm_entry account_cache_spec (ca_objects st) (a_id event) \<noteq> Found v"
    by (auto simp: entry_value_def)
qed

lemma ca_chain_error_results:
  "ca_chain_error status st = Some st' \<Longrightarrow>
     ca_results st' = ca_results st \<or> (\<exists>n. ca_results st' = mark_failed fail_account n (ca_results st))"
  by (auto simp: ca_chain_error_def panic_simps split: option.splits if_splits)

lemma ca_chain_complete_results: "ca_chain_complete event status st = Some st' \<Longrightarrow> ca_results st' = ca_results st"
  by (auto simp: ca_chain_complete_def bind_Some_iff split: if_splits)

lemma fail_account_not_created: "\<not> created (fail_account r)"
  by (rule account_batch.fail_not_created)

lemma ca_event_verdicts:
  assumes inv: "ca_inv e events k st" and k: "k < length events" "length events < 2 ^ 64" "unat timestamp < 2 ^ 63"
    and v: "ca_verdicts e timestamp events (ca_results st)"
    and r: "ca_event events timestamp prefetch transfer_ts k (events ! k) st = Some st'"
  shows "ca_verdicts e timestamp events (ca_results st')"
proof -
  from r obtain status ts st1 st2 where
    1: "ca_evaluate events timestamp prefetch transfer_ts k (events ! k) st = Some (status, ts, st1)"
    and 2: "ca_chain_error status st1 = Some st2"
    and 3: "ca_chain_complete (events ! k) status
      (st2\<lparr>ca_results := ca_results st2 @ [\<lparr>car_status = status, car_timestamp = ts\<rparr>]\<rparr>) = Some st'"
    by (auto simp: ca_event_def bind_Some_iff)
  let ?r = "\<lparr>car_status = status, car_timestamp = ts\<rparr>"
  have ok: "cm_ok account_cache_spec (ca_objects st)"
    and scope: "cm_scope_is_active (ca_objects st) \<longleftrightarrow> ca_chain st \<noteq> None \<and> \<not> ca_broken st"
    and chain: "length (ca_results st) = k" "cm_entry account_cache_spec (ca_objects st) =
      created_entries e (take k events) (ca_results st)"
    using inv by (simp_all add: ca_inv_def account_batch.chain_ok_def account_batch_defs)
  have "ca_results st1 = ca_results st"
    using ca_evaluate_evaluated(1) [OF ok scope k(3,1,2) 1] by (simp add: ca_evaluated_def)
  then have results: "ca_results st' = ca_results st @ [?r] \<or> (\<exists>n. ca_results st' = mark_failed fail_account n (ca_results st) @ [?r])"
    using ca_chain_error_results [OF 2] ca_chain_complete_results [OF 3] by auto
  have new: "created_account e timestamp events k \<and> (\<forall>j < k. created (ca_results st ! j) \<longrightarrow> a_id (events ! j) \<noteq> a_id (events ! k))"
    if "created ?r"
  proof -
    have c: "status = CA_Created" using that by (simp add: created_def)
    note eval = ca_evaluate_created [OF ok 1 [unfolded c]]
    have "\<not> ((\<exists>v. e (a_id (events ! k)) = Found v) \<or> (\<exists>j < k. created (ca_results st ! j) \<and> a_id (events ! j) = a_id (events ! k)))"
      using created_entries_found [of "ca_results st" events e "a_id (events ! k)"] eval(4) chain k(1) by auto
    then show ?thesis using eval(1-3) by (auto simp: created_account_def)
  qed
  have marked: "created (mark_failed fail_account n (ca_results st) ! j) \<Longrightarrow> j < k \<Longrightarrow> created (ca_results st ! j)" for n j
    using chain(1) fail_account_not_created by (auto simp: mark_failed_def nth_append min_def split: if_splits)
  have len: "length (mark_failed fail_account n (ca_results st)) = k" for n
    using chain(1) by (simp add: account_batch.mark_failed_simps)
  from results show ?thesis
    using v new marked chain(1) len
    by (auto simp: ca_verdicts_def verdicts_snoc distinct_ids_snoc verdicts_mark_failed distinct_ids_mark_failed
        fail_account_not_created)
qed

lemma ca_loop_verdicts:
  assumes "ca_inv e events k st" "ca_verdicts e timestamp events (ca_results st)" "rest = drop k events"
    and "length events < 2 ^ 64" "unat timestamp < 2 ^ 63"
    and "ca_loop events timestamp prefetch transfer_ts k rest st = Some st'"
  shows "ca_verdicts e timestamp events (ca_results st')"
  using assms
proof (induction rest arbitrary: k st)
  case (Cons event rest)
  from Cons.prems(3) have k: "k < length events" by (metis drop_eq_Nil linorder_not_less list.distinct(1))
  with Cons.prems(3) have event: "event = events ! k" "rest = drop (Suc k) events"
    by (metis Cons_nth_drop_Suc list.inject)+
  from Cons.prems(6) event(1) obtain st1 where
    st1: "ca_event events timestamp prefetch transfer_ts k (events ! k) st = Some st1"
    "ca_loop events timestamp prefetch transfer_ts (Suc k) rest st1 = Some st'"
    by (auto simp: bind_Some_iff)
  show ?case
    by (rule Cons.IH [OF ca_event_inv [OF Cons.prems(1) k Cons.prems(4,5) st1(1)]
          ca_event_verdicts [OF Cons.prems(1) k Cons.prems(4,5,2) st1(1)] event(2) Cons.prems(4,5) st1(2)])
qed simp

lemma execute_create_accounts_verdicts:
  assumes ok: "cm_ok account_cache_spec objects" "\<not> cm_scope_is_active objects"
    and small: "length events < 2 ^ 64" "unat timestamp < 2 ^ 63"
    and r: "execute_create_accounts events timestamp prefetch objects key_max transfer_ts = Some (results, objects')"
  shows "ca_verdicts (cm_entry account_cache_spec objects) timestamp events results"
proof -
  let ?st = "\<lparr>ca_objects = objects, ca_results = [], ca_chain = None, ca_broken = False, ca_key_max = key_max\<rparr>"
  from r obtain st where st: "ca_loop events timestamp prefetch transfer_ts 0 events ?st = Some st"
    "results = ca_results st"
    by (auto simp: execute_create_accounts_def panic_simps)
  have "ca_inv (cm_entry account_cache_spec objects) events 0 ?st"
    using ok by (simp add: ca_inv_def account_batch.chain_ok_init)
  from ca_loop_verdicts [OF this _ _ small st(1)] st(2) show ?thesis by simp
qed

section \<open>Transfer batches\<close>

definition post_void_flags :: "transfer_flags \<Rightarrow> bool" where
  "post_void_flags f \<longleftrightarrow> \<not> tf_pending f \<and> tf_post_pending_transfer f \<noteq> tf_void_pending_transfer f"

definition created_transfer_event :: "ledger_view \<Rightarrow> u64 \<Rightarrow> transfer list \<Rightarrow> nat \<Rightarrow> bool" where
  "created_transfer_event v timestamp events i \<longleftrightarrow> \<not> recorded_in v (t_id (events ! i)) \<and>
     (tf_imported (t_flags (events ! i)) \<longrightarrow> t_timestamp (events ! i) < timestamp) \<and>
     (if is_post_or_void (events ! i) then post_void_flags (t_flags (events ! i))
      else t_debit_account_id (events ! i) \<noteq> t_credit_account_id (events ! i)) \<and>
     \<not> (tf_linked (t_flags (events ! i)) \<and> i = length events - 1)"

text \<open>
  The transfer of every created event is in the view its batch has reached, at every length of the
  batch so far; a chain that fails later takes the view back to one that still has the earlier ones.
\<close>

lemma apply_transfer_keeps: "recorded_in v k \<Longrightarrow> recorded_in (apply_transfer v event r) k"
  by (cases v) (auto simp: recorded_in_def apply_transfer_def apply_post_void_def apply_regular_def
      split: GetOrTombstone.split option.split prod.split)

definition all_recorded :: "ledger_view \<Rightarrow> transfer list \<Rightarrow> CreateTransferResult list \<Rightarrow> bool" where
  "all_recorded v events results \<longleftrightarrow>
     (\<forall>n \<le> length results. \<forall>j < n. created_transfer (results ! j) \<longrightarrow>
        recorded_in (transfers_applied v (take n events) (take n results)) (t_id (events ! j)))"

lemma transfers_applied_keeps: "recorded_in v k \<Longrightarrow> recorded_in (transfers_applied v events results) k"
  unfolding transfers_applied_def by (rule foldl_invariant) (auto intro: apply_transfer_keeps)

lemma all_recorded_snoc:
  assumes "all_recorded v events results" "length results < length events"
    and "created_transfer r \<Longrightarrow>
      recorded_in (transfers_applied v (take (Suc (length results)) events) (results @ [r])) (t_id (events ! length results))"
  shows "all_recorded v events (results @ [r])"
  unfolding all_recorded_def
proof (intro allI impI)
  fix n j assume n: "n \<le> length (results @ [r])" "j < n" and c: "created_transfer ((results @ [r]) ! j)"
  have step: "transfers_applied v (take (Suc (length results)) events) (results @ [r]) =
      apply_transfer (transfers_applied v (take (length results) events) results) (events ! length results) r"
    using transfer_batch.applied_snoc [of "length results" events results v r] assms(2)
    unfolding transfer_batch_defs by simp
  have old: "recorded_in (transfers_applied v (take m events) (take m results)) (t_id (events ! j))"
    if "m \<le> length results" "j < m" for m
    using assms(1) that c by (simp add: all_recorded_def nth_append)
  show "recorded_in (transfers_applied v (take n events) (take n (results @ [r]))) (t_id (events ! j))"
  proof (cases "n \<le> length results")
    case True
    then show ?thesis using old n by simp
  next
    case False
    then have n': "n = Suc (length results)" using n(1) by simp
    show ?thesis
    proof (cases "j = length results")
      case True
      then show ?thesis using assms(3) c n' by simp
    next
      case False
      then have "recorded_in (transfers_applied v (take (length results) events) (take (length results) results)) (t_id (events ! j))"
        using old [of "length results"] n n' by simp
      then show ?thesis by (simp add: n' step apply_transfer_keeps)
    qed
  qed
qed

lemma all_recorded_mark_failed:
  assumes "all_recorded v events results" "length results \<le> length events"
  shows "all_recorded v events (mark_failed fail_transfer m results)"
  unfolding all_recorded_def
proof (intro allI impI)
  let ?rs = "mark_failed fail_transfer m results"
  fix n j assume n: "n \<le> length ?rs" "j < n" and c: "created_transfer (?rs ! j)"
  have j: "j < m" "j < length results" "created_transfer (results ! j)"
    using n c by (auto simp: transfer_batch.mark_failed_simps)
  let ?k = "min m n"
  have prefix: "take ?k ?rs = take ?k results" by (auto simp: mark_failed_def)
  have "recorded_in (transfers_applied v (take ?k events) (take ?k results)) (t_id (events ! j))"
    using assms(1) j n by (simp add: all_recorded_def transfer_batch.mark_failed_simps)
  then have "recorded_in (transfers_applied v (take ?k (take n events)) (take ?k (take n ?rs))) (t_id (events ! j))"
    by (simp add: prefix min.commute min.left_commute)
  then have "recorded_in (transfers_applied (transfers_applied v (take ?k (take n events)) (take ?k (take n ?rs)))
      (drop ?k (take n events)) (drop ?k (take n ?rs))) (t_id (events ! j))"
    by (rule transfers_applied_keeps)
  then show "recorded_in (transfers_applied v (take n events) (take n ?rs)) (t_id (events ! j))"
    using transfer_batch.applied_split [of ?k "take n ?rs" "take n events" v] n assms(2)
    by (simp add: transfer_batch_defs transfer_batch.mark_failed_simps)
qed

text \<open>Every created event was accepted by the view that the created events before it had left.\<close>

definition accepted_all :: "ledger_view \<Rightarrow> transfer list \<Rightarrow> CreateTransferResult list \<Rightarrow> bool" where
  "accepted_all v events results \<longleftrightarrow>
     verdicts created_transfer (\<lambda>i. accepts (transfers_applied v (take i events) (take i results)) (events ! i)
       (ctr_amount_actual (results ! i))) results"

lemma accepted_all_snoc:
  assumes "accepted_all v events results"
    and "created_transfer r \<Longrightarrow>
      accepts (transfers_applied v (take (length results) events) results) (events ! length results) (ctr_amount_actual r)"
  shows "accepted_all v events (results @ [r])"
  using assms by (auto simp: accepted_all_def verdicts_def nth_append less_Suc_eq)

lemma accepted_all_mark_failed:
  assumes "accepted_all v events results"
  shows "accepted_all v events (mark_failed fail_transfer m results)"
  unfolding accepted_all_def verdicts_def
proof (intro allI impI)
  let ?rs = "mark_failed fail_transfer m results"
  fix j assume j: "j < length ?rs" and c: "created_transfer (?rs ! j)"
  then have "j < m" "j < length results" "created_transfer (results ! j)"
    by (auto simp: transfer_batch.mark_failed_simps)
  moreover from this have "?rs ! j = results ! j" "take j ?rs = take j results"
    by (auto simp: mark_failed_def nth_append min_def)
  ultimately show "accepts (transfers_applied v (take j events) (take j ?rs)) (events ! j) (ctr_amount_actual (?rs ! j))"
    using assms by (simp add: accepted_all_def verdicts_def)
qed

definition ct_verdicts :: "ledger_view \<Rightarrow> u64 \<Rightarrow> transfer list \<Rightarrow> CreateTransferResult list \<Rightarrow> bool" where
  "ct_verdicts v timestamp events results \<longleftrightarrow>
     verdicts created_transfer (created_transfer_event v timestamp events) results \<and>
     distinct_ids created_transfer (\<lambda>i. t_id (events ! i)) results \<and> all_recorded v events results \<and>
     accepted_all v events results"

lemma ct_verdicts_Nil [simp]: "ct_verdicts v timestamp events []"
  by (simp add: ct_verdicts_def all_recorded_def accepted_all_def)

lemma ct_regular_created:
  assumes r: "ct_regular env event te existing st = Some (CT_Created, ts, amount, st')"
  shows "t_debit_account_id event \<noteq> t_credit_account_id event" "existing = None"
proof -
  from r obtain dr s1 cr s2 where reads: "ct_read_account env (t_debit_account_id event) st = Some (dr, s1)"
      "ct_read_account env (t_credit_account_id event) s1 = Some (cr, s2)"
    by (auto simp: ct_regular_def bind_Some_iff)
  with r obtain dr' cr' where "dr = Some dr'" "cr = Some cr'"
    by (cases dr; cases cr) (auto simp: ct_regular_def)
  with reads r obtain outcome where "create_transfer_outcome event te existing dr' cr' = Some outcome"
    "o_status outcome = CT_Created"
    by (auto simp: ct_regular_def bind_Some_iff split: if_splits)
  then have "create_transfer event te existing dr' cr' = Some CT_Created"
    by (auto simp: create_transfer_outcome_def bind_Some_iff)
  from create_transfer_CreatedD(1,7) [OF this]
  show "t_debit_account_id event \<noteq> t_credit_account_id event" "existing = None" by simp_all
qed

lemma ct_post_void_created:
  assumes r: "ct_post_void env event te existing st = Some (CT_Created, ts, amount, st')"
  shows "post_void_flags (t_flags event)" "existing = None"
proof -
  from r obtain pending s1 where "ct_read_transfer env (t_pending_id event) st = Some (pending, s1)"
    by (auto simp: ct_post_void_def bind_Some_iff split: if_splits)
  with r have new: "existing = None \<and> (\<exists>p. pending = Some p \<and>
      ct_post_void_pending env event te p s1 = Some (CT_Created, ts, amount, st'))"
    by (cases existing; cases pending)
      (auto simp: ct_post_void_def ct_post_void_exists_def bind_Some_iff
        dest!: post_or_void_exists_statuses split: if_splits)
  then show "existing = None" by simp
  from new obtain p dr cr st2 result where
    "post_or_void_pending_transfer event te p dr cr st2 (ct_key_max s1) (ce_account_timestamps env)
       (ce_account_timestamps_enqueued env) = Some result" "pv_status result = CT_Created"
    by (auto simp: ct_post_void_pending_def bind_Some_iff ct_read_account_def Let_def split: if_splits)
  from post_or_void_CreatedD(2,3) [OF this] show "post_void_flags (t_flags event)" by (simp add: post_void_flags_def)
qed

lemma ct_evaluate_created:
  assumes ok: "ct_caches_ok (ct_scoped st) st"
    and r: "ct_evaluate env k event st = Some (CT_Created, ts, amount, st')"
  shows "if is_post_or_void event then post_void_flags (t_flags event)
      else t_debit_account_id event \<noteq> t_credit_account_id event"
    "\<not> (tf_linked (t_flags event) \<and> k = length (ce_events env) - 1)"
    "tf_imported (t_flags event) \<longrightarrow> t_timestamp event < ce_timestamp env"
    "\<not> recorded_in (ct_view st) (t_id event)"
proof -
  from r obtain te st1 where a: "ct_apply env event te st1 = Some (CT_Created, ts, amount, st')"
    and o: "ct_open_chain k event st = Some st1"
    and past: "tf_imported (t_flags event) \<longrightarrow> t_timestamp event < ce_timestamp env"
    and last: "\<not> (tf_linked (t_flags event) \<and> k = length (ce_events env) - 1)"
    by (auto simp: ct_evaluate_def bind_Some_iff split: if_splits)
  show "\<not> (tf_linked (t_flags event) \<and> k = length (ce_events env) - 1)" by (rule last)
  show "tf_imported (t_flags event) \<longrightarrow> t_timestamp event < ce_timestamp env" by (rule past)
  from a show "if is_post_or_void event then post_void_flags (t_flags event)
      else t_debit_account_id event \<noteq> t_credit_account_id event"
    using ct_regular_created(1) ct_post_void_created(1)
    by (auto simp: ct_apply_def bind_Some_iff split: if_splits)
  have st1: "ct_view st1 = ct_view st" "ct_caches_ok (ct_scoped st1) st1"
    using ct_open_chain_evaluated [OF ok o, of "transfer_result CT_Exists 0 0"]
    by (simp_all add: ct_evaluated_def apply_transfer_def created_transfer_def)
  from a obtain existing s1 where read: "ct_read_transfer env (t_id event) st1 = Some (existing, s1)"
    by (auto simp: ct_apply_def bind_Some_iff)
  with a have "existing = None"
    using ct_regular_created(2) ct_post_void_created(2)
    by (auto simp: ct_apply_def bind_Some_iff split: if_splits)
  with ct_read_transfer_moves(2) [OF st1(2) read] st1(1) show "\<not> recorded_in (ct_view st) (t_id event)"
    by (auto simp: recorded_in_def entry_value_def)
qed

lemma ct_chain_error_results:
  assumes "ct_chain_error event status st = Some st'"
  shows "ct_results st' = ct_results st \<or> (\<exists>n. ct_results st' = mark_failed fail_transfer n (ct_results st))"
proof -
  have same: "ct_results st2 = ct_results st1" if "ct_close_scopes mode st1 = Some st2" for mode st1 st2
    using that by (auto simp: ct_close_scopes_def bind_Some_iff)
  show ?thesis
    using assms by (auto simp: ct_chain_error_def Let_def bind_Some_iff dest!: same split: option.splits if_splits) blast+
qed

lemma ct_chain_complete_results: "ct_chain_complete event status st = Some st' \<Longrightarrow> ct_results st' = ct_results st"
  by (auto simp: ct_chain_complete_def ct_close_scopes_def bind_Some_iff split: if_splits)

lemma fail_transfer_not_created: "\<not> created_transfer (fail_transfer r)"
  by (rule transfer_batch.fail_not_created)

lemma ct_event_verdicts:
  assumes inv: "ct_inv v (ce_events env) k st" and k: "k < length (ce_events env)"
      "length (ce_events env) < 2 ^ 64" "unat (ce_timestamp env) < 2 ^ 63"
    and vs: "ct_verdicts v (ce_timestamp env) (ce_events env) (ct_results st)"
    and r: "ct_event env k (ce_events env ! k) st = Some st'"
  shows "ct_inv v (ce_events env) (Suc k) st'" "ct_verdicts v (ce_timestamp env) (ce_events env) (ct_results st')"
proof -
  let ?event = "ce_events env ! k"
  from r obtain status ts amount s1 s2 where
    1: "ct_evaluate env k ?event st = Some (status, ts, amount, s1)"
    and 2: "ct_chain_error ?event status s1 = Some s2"
    and 3: "ct_chain_complete ?event status (s2\<lparr>ct_results := ct_results s2 @ [transfer_result status ts amount]\<rparr>) = Some st'"
    by (auto simp: ct_event_def bind_Some_iff)
  let ?r = "transfer_result status ts amount"
  have ok: "ct_caches_ok (ct_scoped st) st" and len: "length (ct_results st) = k"
    and view: "ct_view st = transfers_applied v (take k (ce_events env)) (ct_results st)"
    using inv by (simp_all add: ct_inv_def transfer_batch.chain_ok_def transfer_batch_defs)
  note ev = ct_evaluate_evaluated [OF ok k(3,1,2) 1]
  show "ct_inv v (ce_events env) (Suc k) st'"
    by (rule ct_complete_inv [OF ct_record_inv [OF inv k(1) ev(1) 2] ev(2) 3])
  have same: "ct_results s1 = ct_results st" using ev(1) by (simp add: ct_evaluated_def)
  show "ct_verdicts v (ce_timestamp env) (ce_events env) (ct_results st')"
  proof (cases "status = CT_Created")
    case True
    then have c: "created_transfer ?r" by (simp add: created_transfer_def)
    have "ct_results st' = ct_results st @ [?r]"
      using 2 3 same True by (auto simp: ct_chain_error_def dest!: ct_chain_complete_results)
    moreover have "recorded_in (transfers_applied v (take (Suc k) (ce_events env)) (ct_results st @ [?r])) (t_id ?event)"
      using ev(1) c transfer_batch.applied_snoc [OF k(1) len, of v ?r]
      unfolding ct_evaluated_def transfer_batch_defs view by metis
    moreover have "all_recorded v (ce_events env) (ct_results st)" using vs by (simp add: ct_verdicts_def)
    moreover note created = ct_evaluate_created [OF ok 1 [unfolded True]]
    have "\<not> recorded_in v (t_id ?event)" using created(4) unfolding view by (rule contrapos_nn) (rule transfers_applied_keeps)
    moreover have "t_id (ce_events env ! j) \<noteq> t_id ?event" if "j < k" "created_transfer (ct_results st ! j)" for j
    proof
      assume "t_id (ce_events env ! j) = t_id ?event"
      moreover have "recorded_in (transfers_applied v (take k (ce_events env)) (take k (ct_results st))) (t_id (ce_events env ! j))"
        using vs [unfolded ct_verdicts_def all_recorded_def] that len by blast
      ultimately show False using created(4) len by (simp add: view)
    qed
    moreover have "accepts (transfers_applied v (take k (ce_events env)) (ct_results st)) ?event amount"
      using ev(1) c by (simp add: ct_evaluated_def view)
    ultimately show ?thesis
      using vs created(1-3) len k(1)
      by (simp add: accepted_all_snoc ct_verdicts_def verdicts_snoc distinct_ids_snoc created_transfer_event_def all_recorded_snoc)
  next
    case False
    then have c: "\<not> created_transfer ?r" by (simp add: created_transfer_def)
    have "ct_results st' = ct_results st @ [?r] \<or> (\<exists>n. ct_results st' = mark_failed fail_transfer n (ct_results st) @ [?r])"
      using ct_chain_error_results [OF 2] ct_chain_complete_results [OF 3] same by auto
    then show ?thesis
      using vs c len k(1)
      by (auto simp: ct_verdicts_def verdicts_snoc distinct_ids_snoc verdicts_mark_failed distinct_ids_mark_failed
          fail_transfer_not_created transfer_batch.mark_failed_simps
          intro!: all_recorded_snoc all_recorded_mark_failed accepted_all_snoc accepted_all_mark_failed)
  qed
qed

lemma ct_loop_verdicts:
  assumes "ct_inv v (ce_events env) k st" "ct_verdicts v (ce_timestamp env) (ce_events env) (ct_results st)"
    and "rest = drop k (ce_events env)" "length (ce_events env) < 2 ^ 64" "unat (ce_timestamp env) < 2 ^ 63"
    and "ct_loop env k rest st = Some st'"
  shows "ct_verdicts v (ce_timestamp env) (ce_events env) (ct_results st')"
  using assms
proof (induction rest arbitrary: k st)
  case (Cons event rest)
  from Cons.prems(3) have k: "k < length (ce_events env)" by (metis drop_eq_Nil linorder_not_less list.distinct(1))
  with Cons.prems(3) have event: "event = ce_events env ! k" "rest = drop (Suc k) (ce_events env)"
    by (metis Cons_nth_drop_Suc list.inject)+
  from Cons.prems(6) event(1) obtain st1 where st1: "ct_event env k (ce_events env ! k) st = Some st1"
    "ct_loop env (Suc k) rest st1 = Some st'"
    by (auto simp: bind_Some_iff)
  show ?case
    by (rule Cons.IH [OF ct_event_verdicts [OF Cons.prems(1) k Cons.prems(4,5,2) st1(1)] event(2) Cons.prems(4,5) st1(2)])
qed simp

lemma execute_create_transfers_verdicts:
  assumes ok: "cm_ok account_cache_spec accounts" "cm_ok transfer_cache_spec transfers"
      "cm_ok transfer_pending_cache_spec pendings"
    and idle: "\<not> cm_scope_is_active accounts" "\<not> cm_scope_is_active transfers" "\<not> cm_scope_is_active pendings"
    and small: "length (ce_events env) < 2 ^ 64" "unat (ce_timestamp env) < 2 ^ 63"
    and r: "execute_create_transfers env accounts transfers pendings key_max orphaned = Some (results, st')"
  shows "ct_verdicts (cm_entry account_cache_spec accounts, cm_entry transfer_cache_spec transfers,
     cm_entry transfer_pending_cache_spec pendings) (ce_timestamp env) (ce_events env) results"
proof -
  let ?st = "\<lparr>ct_accounts = accounts, ct_transfers = transfers, ct_pending = pendings, ct_results = [],
     ct_chain = None, ct_broken = False, ct_key_max = key_max, ct_key_max_snapshot = None, ct_orphaned = orphaned\<rparr>"
  let ?v = "(cm_entry account_cache_spec accounts, cm_entry transfer_cache_spec transfers,
     cm_entry transfer_pending_cache_spec pendings)"
  from r have st: "ct_loop env 0 (ce_events env) ?st = Some st'" "results = ct_results st'"
    by (auto simp: execute_create_transfers_def panic_simps)
  have "ct_inv ?v (ce_events env) 0 ?st"
    using ok idle transfer_batch.chain_ok_init [of ?v "ce_events env"]
    by (simp add: ct_inv_def ct_scoped_def ct_caches_ok_def ct_view_def)
  from ct_loop_verdicts [OF this _ _ small st(1)] st(2) show ?thesis by simp
qed

end
