(* ===== verification/Persist.thy ===== *)
theory Persist
  imports StateMachine Verdicts
begin

text \<open>
  Persisting a batch: what \<open>persist_accounts\<close> and \<open>persist_transfers\<close> leave in the committed stores is
  what applying the created events in order leaves there, the same function that describes the
  objects caches. The walk over chains is proved once, for any event and result type.
\<close>

section \<open>The walk over chains\<close>

lemma persist_range_inv:
  assumes step: "\<And>i s s'. i < length events \<Longrightarrow> ok (results ! i) \<Longrightarrow> I i s \<Longrightarrow>
      persist i (events ! i) (results ! i) s = Some s' \<Longrightarrow> I (Suc i) s'"
    and len: "length results = length events"
    and "list_all ok (take n (drop index results))" "index + n \<le> length events" "I index s"
    and "persist_range persist index (zip (take n (drop index events)) (take n (drop index results))) s = Some s'"
  shows "I (index + n) s'"
  using assms(3-)
proof (induction n arbitrary: index s)
  case 0
  then show ?case by simp
next
  case (Suc n)
  then have i: "index < length events" by simp
  then have ds: "drop index events = events ! index # drop (Suc index) events"
    "drop index results = results ! index # drop (Suc index) results"
    using len by (simp_all add: Cons_nth_drop_Suc)
  from Suc.prems(4) ds obtain s1 where s1: "persist index (events ! index) (results ! index) s = Some s1"
    "persist_range persist (Suc index) (zip (take n (drop (Suc index) events)) (take n (drop (Suc index) results))) s1 = Some s'"
    by (auto simp: bind_Some_iff)
  have "ok (results ! index)" "list_all ok (take n (drop (Suc index) results))" using Suc.prems(1) ds by simp_all
  note one = step [OF i this(1) Suc.prems(3) s1(1)]
  from Suc.IH [OF \<open>list_all ok (take n (drop (Suc index) results))\<close> _ one s1(2)] Suc.prems(2)
  show ?case by simp
qed

text \<open>Where no event is created, the invariant is only carried along.\<close>

lemma skip_range:
  assumes skip: "\<And>i s. i < length results \<Longrightarrow> \<not> ok (results ! i) \<Longrightarrow> I i s \<Longrightarrow> I (Suc i) s"
    and "\<And>j. index \<le> j \<Longrightarrow> j < index + n \<Longrightarrow> \<not> ok (results ! j)" "index + n \<le> length results" "I index s"
  shows "I (index + n) s"
  using assms(2-)
proof (induction n)
  case (Suc n)
  then have "I (index + n) s" by simp
  with skip [of "index + n" s] Suc.prems(1) [of "index + n"] Suc.prems(2) show ?case by simp
qed simp

text \<open>Results of consecutive linked events agree, so the members of a chain are all created or none is.\<close>

lemma chain_agrees:
  assumes atomic: "\<And>i. Suc i < length results \<Longrightarrow> linked (events ! i) \<Longrightarrow> ok (results ! i) = ok (results ! Suc i)"
    and linked: "\<And>i. index \<le> i \<Longrightarrow> i < index + n \<Longrightarrow> linked (events ! i)"
    and "index + n < length results" "j \<le> n"
  shows "ok (results ! (index + j)) = ok (results ! index)"
  using assms(4)
proof (induction j)
  case (Suc j)
  then show ?case using atomic [of "index + j"] linked [of "index + j"] assms(3) by simp
qed simp

lemma chain_stop_linked:
  assumes "index \<le> i" "i < chain_stop linked events index"
  shows "linked (events ! i)"
proof -
  let ?n = "length (takeWhile linked (drop index events))"
  have "i - index < ?n" using assms by (auto simp: chain_stop_def)
  then have "takeWhile linked (drop index events) ! (i - index) = drop index events ! (i - index)"
    "takeWhile linked (drop index events) ! (i - index) \<in> set (takeWhile linked (drop index events))"
    by (auto intro: takeWhile_nth nth_mem)
  moreover have "index \<le> length events" using \<open>i - index < ?n\<close> by (cases "index \<le> length events") auto
  ultimately show ?thesis using assms(1) by (auto dest!: set_takeWhileD)
qed

lemma chain_stop_le: "index \<le> length events \<Longrightarrow> chain_stop linked events index \<le> length events"
  using length_takeWhile_le [of linked "drop index events"] by (simp add: chain_stop_def)

lemma chain_stop_ge: "index \<le> chain_stop linked events index"
  by (simp add: chain_stop_def)

lemma persist_chains_inv:
  assumes step: "\<And>i s s'. i < length events \<Longrightarrow> ok (results ! i) \<Longrightarrow> I i s \<Longrightarrow>
      persist i (events ! i) (results ! i) s = Some s' \<Longrightarrow> I (Suc i) s'"
    and skip: "\<And>i s. i < length results \<Longrightarrow> \<not> ok (results ! i) \<Longrightarrow> I i s \<Longrightarrow> I (Suc i) s"
    and len: "length results = length events"
    and atomic: "\<And>i. Suc i < length results \<Longrightarrow> linked (events ! i) \<Longrightarrow> ok (results ! i) = ok (results ! Suc i)"
    and last: "\<And>i. i < length results \<Longrightarrow> ok (results ! i) \<Longrightarrow> \<not> (linked (events ! i) \<and> i = length events - 1)"
    and "I index s" "index \<le> length events" "persist_chains linked ok persist events results index s = Some s'"
  shows "I (length events) s'"
  using assms(6-8)
proof (induction "length events - index" arbitrary: index s rule: less_induct)
  case less
  note unfold = persist_chains.simps [of linked ok persist events results index s]
  show ?case
  proof (cases "index < length events")
    case False
    with less.prems(1,2) less.prems(3) [unfolded unfold] show ?thesis by simp
  next
    case True
    show ?thesis
    proof (cases "linked (events ! index)")
      case False
      with less.prems(3) True len obtain s1 where
        s1: "(if ok (results ! index) then persist index (events ! index) (results ! index) s else Some s) = Some s1"
        and rest: "persist_chains linked ok persist events results (index + 1) s1 = Some s'"
        by (auto simp: unfold bind_Some_iff index_at_def)
      have one: "I (index + 1) s1"
        using s1 step [OF True _ less.prems(1)] skip [OF _ _ less.prems(1)] True len by (cases "ok (results ! index)") auto
      have "length events - (index + 1) < length events - index" using True by simp
      from less.hyps [OF this one _ rest] True show ?thesis by simp
    next
      case linked: True
      define stop where "stop = chain_stop linked events index"
      have "drop index events = events ! index # drop (Suc index) events" using True by (simp add: Cons_nth_drop_Suc)
      then have stop: "index < stop" "stop \<le> length events"
        using chain_stop_le [of index events linked] True linked by (auto simp: stop_def chain_stop_def)
      have members: "index \<le> i \<Longrightarrow> i < stop \<Longrightarrow> linked (events ! i)" for i
        unfolding stop_def by (rule chain_stop_linked)
      have agree: "ok (results ! (index + j)) = ok (results ! index)" if "j \<le> n" "index + n < length results" "index + n \<le> stop" for j n
        using chain_agrees [of results linked events ok index n j] atomic members that by simp
      show ?thesis
      proof (cases "stop = length events")
        case open_chain: True
        then have s': "s' = s"
          using less.prems(3) True linked by (simp add: unfold flip: stop_def)
        let ?m = "length events - 1 - index"
        have m: "index + ?m = length events - 1" using True by simp
        have "\<not> ok (results ! (length events - 1))"
          using last [of "length events - 1"] members [of "length events - 1"] open_chain True len by fastforce
        then have first: "\<not> ok (results ! index)" using agree [of ?m ?m] m open_chain True len by simp
        have "\<not> ok (results ! j)" if "index \<le> j" "j < index + (length events - index)" for j
          using agree [of "j - index" ?m] m first that open_chain True len by simp
        then have "I (index + (length events - index)) s"
          by (intro skip_range [where ok = ok and results = results and I = I] less.prems(1))
            (use skip len True in auto)
        then show ?thesis using True s' by simp
      next
        case False
        let ?n = "Suc stop - index"
        have n: "index + ?n \<le> length results" using stop False len by simp
        let ?chain = "take ?n (drop index results)"
        from less.prems(3) True linked False n obtain s1 where
          s1: "(if list_all ok ?chain then persist_range persist index (zip (drop index events) ?chain) s else Some s) = Some s1"
          and rest: "persist_chains linked ok persist events results (Suc stop) s1 = Some s'"
          by (auto simp: unfold bind_Some_iff Let_def slice_at_def simp flip: stop_def)
        have same: "ok (results ! j) = ok (results ! index)" if "index \<le> j" "j < index + ?n" for j
          using agree [of "j - index" "stop - index"] stop False len that by simp
        have zips: "zip (drop index events) ?chain = zip (take ?n (drop index events)) ?chain"
          by (rule nth_equalityI) (auto simp: len)
        have "I (index + ?n) s1"
        proof (cases "ok (results ! index)")
          case True
          then have all: "list_all ok ?chain" using same n by (auto simp: list_all_length)
          with s1 zips have range: "persist_range persist index (zip (take ?n (drop index events)) ?chain) s = Some s1" by simp
          have bound: "index + ?n \<le> length events" using n len by simp
          show ?thesis
            by (rule persist_range_inv [where ok = ok and I = I and persist = persist, OF _ len all bound less.prems(1) range])
              (rule step)
        next
          case False
          have "?chain = results ! index # take (stop - index) (drop (Suc index) results)"
            using n stop by (simp add: Suc_diff_le flip: Cons_nth_drop_Suc)
          with False have "\<not> list_all ok ?chain" by simp
          with s1 have "s1 = s" by simp
          then show ?thesis
            by (auto intro!: skip_range [where ok = ok and results = results and I = I] skip n less.prems(1) simp: same False)
        qed
        then have "I (Suc stop) s1" using stop by simp
        moreover have "length events - Suc stop < length events - index" using stop True by simp
        ultimately show ?thesis using less.hyps [OF _ _ _ rest] stop False by simp
      qed
    qed
  qed
qed

text \<open>The effect of the events before the \<open>i\<close>th, and of one more.\<close>

lemma foldl_zip_take_Suc:
  assumes "i < length events" "length results = length events"
  shows "foldl (\<lambda>v (e, r). app v e r) v (zip (take (Suc i) events) (take (Suc i) results)) =
    app (foldl (\<lambda>v (e, r). app v e r) v (zip (take i events) (take i results))) (events ! i) (results ! i)"
  using assms by (simp add: take_Suc_conv_app_nth)

lemma persist_chains_applied:
  assumes step: "\<And>i s s'. i < length events \<Longrightarrow> ok (results ! i) \<Longrightarrow> I i s \<Longrightarrow>
      V s = foldl (\<lambda>v (e, r). app v e r) v0 (zip (take i events) (take i results)) \<Longrightarrow>
      persist i (events ! i) (results ! i) s = Some s' \<Longrightarrow> I (Suc i) s' \<and> V s' = app (V s) (events ! i) (results ! i)"
    and skip: "\<And>i s. i < length results \<Longrightarrow> \<not> ok (results ! i) \<Longrightarrow> I i s \<Longrightarrow> I (Suc i) s"
    and noop: "\<And>v e r. \<not> ok r \<Longrightarrow> app v e r = v"
    and len: "length results = length events"
    and atomic: "\<And>i. Suc i < length results \<Longrightarrow> linked (events ! i) \<Longrightarrow> ok (results ! i) = ok (results ! Suc i)"
    and last: "\<And>i. i < length results \<Longrightarrow> ok (results ! i) \<Longrightarrow> \<not> (linked (events ! i) \<and> i = length events - 1)"
    and start: "I 0 s" "V s = v0" and r: "persist_chains linked ok persist events results 0 s = Some s'"
  shows "I (length events) s' \<and> V s' = foldl (\<lambda>v (e, r). app v e r) v0 (zip events results)"
proof -
  let ?at = "\<lambda>i. foldl (\<lambda>v (e, r). app v e r) v0 (zip (take i events) (take i results))"
  have "I (length events) s' \<and> V s' = ?at (length events)"
  proof (rule persist_chains_inv [where I = "\<lambda>i s. I i s \<and> V s = ?at i", OF _ _ len atomic last _ _ r])
    show "I (Suc i) s' \<and> V s' = ?at (Suc i)"
      if "i < length events" "ok (results ! i)" "I i s \<and> V s = ?at i"
        "persist i (events ! i) (results ! i) s = Some s'" for i s s'
      using step [OF that(1,2) _ _ that(4)] that(3) foldl_zip_take_Suc [OF that(1) len, of app v0] by simp
    show "I (Suc i) s \<and> V s = ?at (Suc i)" if "i < length results" "\<not> ok (results ! i)" "I i s \<and> V s = ?at i" for i s
      using skip [OF that(1,2)] that foldl_zip_take_Suc [OF _ len, of i app v0] len by (simp add: noop)
  qed (use start in auto)
  then show ?thesis using len by simp
qed

section \<open>The committed stores as a view\<close>

definition store_entry :: "('k, 'v) hmap \<Rightarrow> 'k \<Rightarrow> 'v GetOrTombstone" where
  "store_entry m key = (case hm_get m key of None \<Rightarrow> NotFound | Some v \<Rightarrow> Found v)"

type_synonym stores = "(u128, account) hmap \<times> (u128, transfer) hmap \<times> (u64, transfer_pending) hmap \<times> (u64, u128) hmap"

definition sm_stores :: "state_machine \<Rightarrow> stores" where
  "sm_stores st = (sm_accounts st, sm_transfers st, sm_transfers_pending st, sm_transfers_by_timestamp st)"

definition store_view :: "state_machine \<Rightarrow> ledger_view" where
  "store_view st = (store_entry (sm_accounts st), store_entry (sm_transfers st), store_entry (sm_transfers_pending st))"

lemma store_view_stores: "sm_stores st = (A, T, P, B) \<Longrightarrow> store_view st = (store_entry A, store_entry T, store_entry P)"
  by (simp add: store_view_def sm_stores_def)

lemma store_entry_insert [simp]: "store_entry (hm_insert key v m) = (store_entry m)(key := Found v)"
  by (auto simp: store_entry_def)

lemma store_entry_Some: "hm_get m key = Some v \<Longrightarrow> store_entry m key = Found v"
  by (simp add: store_entry_def)

lemma store_entry_Found [simp]: "store_entry m key = Found v \<longleftrightarrow> hm_get m key = Some v"
  by (simp add: store_entry_def split: option.split)

lemma sm_stores_sel:
  "sm_stores st = (A, T, P, B) \<longleftrightarrow> sm_accounts st = A \<and> sm_transfers st = T \<and> sm_transfers_pending st = P \<and>
     sm_transfers_by_timestamp st = B"
  by (simp add: sm_stores_def)

lemma sm_account_event_stores:
  assumes "sm_account_event ts dr cr flags status p requested amount st = Some st'"
  shows "sm_stores st' = sm_stores st"
  using assms by (auto simp: sm_account_event_def sm_index_event_def sm_stores_def panic_simps Let_def)

lemma sm_update_pulse_only:
  assumes "sm_update_pulse_next_timestamp st = Some st'"
  obtains ts where "st' = st\<lparr>sm_pulse_next_timestamp := ts\<rparr>"
proof -
  from assms obtain xs :: "(u64 \<times> u64) list" where
    "st' = (case xs of [] \<Rightarrow> st\<lparr>sm_pulse_next_timestamp := TIMESTAMP_MAX\<rparr>
     | (expiry, _) # _ \<Rightarrow> st\<lparr>sm_pulse_next_timestamp := TIMESTAMP_MAX, sm_pulse_next_timestamp := expiry\<rparr>)"
    by (auto simp: sm_update_pulse_next_timestamp_def bind_Some_iff Let_def)
  then show thesis using that by (auto split: list.splits prod.splits)
qed

lemma sm_update_pulse_stores: "sm_update_pulse_next_timestamp st = Some st' \<Longrightarrow> sm_stores st' = sm_stores st"
  by (erule sm_update_pulse_only) (simp add: sm_stores_def)

lemma sm_update_account_stores:
  assumes "sm_update_account a st = Some st'" "sm_stores st = (A, T, P, B)"
  obtains old where "hm_get A (a_id a) = Some old" "a_timestamp old = a_timestamp a"
    "sm_stores st' = (hm_insert (a_id a) a A, T, P, B)"
  using assms by (auto simp: sm_update_account_def sm_stores_def panic_simps)

lemma sm_insert_account_stores:
  assumes "sm_insert_account account_id a st = Some st'" "sm_stores st = (A, T, P, B)"
  shows "sm_stores st' = (hm_insert account_id a A, T, P, B)"
  using assms by (auto simp: sm_insert_account_def sm_stores_def panic_simps)

lemma sm_insert_transfer_stores:
  assumes "sm_insert_transfer transfer_id t st = Some st'" "sm_stores st = (A, T, P, B)"
  shows "sm_stores st' = (A, hm_insert transfer_id t T, P, hm_insert (t_timestamp t) transfer_id B) \<and>
    (hm_get B (t_timestamp t) = None \<or> hm_get B (t_timestamp t) = Some transfer_id)"
  using assms by (auto simp: sm_insert_transfer_def sm_stores_def panic_simps is_none_or_def split: option.splits)

lemma sm_insert_transfer_pending_stores:
  assumes "sm_insert_transfer_pending row st = Some st'" "sm_stores st = (A, T, P, B)"
  shows "sm_stores st' = (A, T, hm_insert (tp_timestamp row) row P, B) \<and> hm_get P (tp_timestamp row) = None"
  using assms by (auto simp: sm_insert_transfer_pending_def sm_stores_def panic_simps)

lemma sm_update_transfer_pending_status_stores:
  assumes "sm_update_transfer_pending_status ts status st = Some st'" "sm_stores st = (A, T, P, B)"
  obtains row where "hm_get P ts = Some row" "tp_status row = StPending"
    "sm_stores st' = (A, T, hm_insert ts \<lparr>tp_timestamp = ts, tp_status = status\<rparr> P, B)"
  using assms by (auto simp: sm_update_transfer_pending_status_def sm_stores_def panic_simps)

lemma sm_commit_transfer_stores:
  assumes r: "sm_commit_transfer event amount requested st = Some st'" and s: "sm_stores st = (A, T, P, B)"
  obtains dr cr dr' cr' where "hm_get A (t_debit_account_id event) = Some dr"
    "hm_get A (t_credit_account_id event) = Some cr" "commit_transfer_accounts event amount dr cr = (dr', cr')"
    "sm_stores st' = (hm_insert (a_id cr') cr' (hm_insert (a_id dr') dr' A), T, P, B)"
proof -
  obtain dr cr where accounts: "hm_get A (t_debit_account_id event) = Some dr"
      "hm_get A (t_credit_account_id event) = Some cr"
    using assms by (auto simp: sm_commit_transfer_def sm_stores_sel bind_Some_iff)
  obtain dr' cr' where commit: "commit_transfer_accounts event amount dr cr = (dr', cr')"
    by (cases "commit_transfer_accounts event amount dr cr")
  from r accounts commit s obtain s1 s2 s3 where
    s1: "sm_update_account dr' st = Some s1" and s2: "sm_update_account cr' s1 = Some s2"
    and s3: "sm_account_event (t_timestamp event) dr' cr' (t_flags event)
       (if tf_pending (t_flags event) then StPending else StNone) None requested amount s2 = Some s3"
    and st': "st' = s3 \<or> (\<exists>ts. st' = s3\<lparr>sm_pulse_next_timestamp := ts\<rparr>)"
    by (auto simp: sm_commit_transfer_def sm_stores_sel panic_simps Let_def split: if_split_asm)
  have "sm_stores s1 = (hm_insert (a_id dr') dr' A, T, P, B)"
    by (rule sm_update_account_stores [OF s1 s])
  then have "sm_stores s2 = (hm_insert (a_id cr') cr' (hm_insert (a_id dr') dr' A), T, P, B)"
    by (rule sm_update_account_stores [OF s2])
  with sm_account_event_stores [OF s3] st'
  have "sm_stores st' = (hm_insert (a_id cr') cr' (hm_insert (a_id dr') dr' A), T, P, B)"
    by (auto simp: sm_stores_def)
  with that accounts commit show thesis by blast
qed

text \<open>What one persisted event does to the stores.\<close>

lemma sm_persist_regular_stores:
  assumes plain: "\<not> is_post_or_void event" and r: "sm_persist_transfer event amount st = Some st'"
    and s: "sm_stores st = (A, T, P, B)"
  obtains dr cr dr' cr' where "hm_get A (t_debit_account_id event) = Some dr"
    "hm_get A (t_credit_account_id event) = Some cr" "commit_transfer_accounts event amount dr cr = (dr', cr')"
    "sm_stores st' = (hm_insert (a_id cr') cr' (hm_insert (a_id dr') dr' A),
       hm_insert (t_id event) (event\<lparr>t_amount := amount\<rparr>) T,
       if tf_pending (t_flags event)
       then hm_insert (t_timestamp event) \<lparr>tp_timestamp = t_timestamp event, tp_status = StPending\<rparr> P else P,
       hm_insert (t_timestamp event) (t_id event) B)"
    "hm_get B (t_timestamp event) = None \<or> hm_get B (t_timestamp event) = Some (t_id event)"
proof -
  let ?event = "event\<lparr>t_amount := amount\<rparr>"
  let ?row = "\<lparr>tp_timestamp = t_timestamp event, tp_status = StPending\<rparr>"
  obtain s1 s2 where
    s1: "sm_insert_transfer (t_id event) ?event st = Some s1"
    and s2: "if tf_pending (t_flags event) then sm_insert_transfer_pending ?row s1 = Some s2 else s2 = s1"
    and commit: "sm_commit_transfer ?event amount (t_amount event) s2 = Some st'"
    using plain r by (auto simp: sm_persist_transfer_def is_post_or_void_def bind_Some_iff Let_def split: if_split_asm)
  note v1 = sm_insert_transfer_stores [OF s1 s]
  have v2: "sm_stores s2 = (A, hm_insert (t_id event) ?event T,
      if tf_pending (t_flags event) then hm_insert (t_timestamp event) ?row P else P,
      hm_insert (t_timestamp event) (t_id event) B)"
    using s2 v1 by (auto dest!: sm_insert_transfer_pending_stores split: if_split_asm)
  have "commit_transfer_accounts ?event amount dr cr = commit_transfer_accounts event amount dr cr" for dr cr
    by (simp add: commit_transfer_accounts_def)
  with sm_commit_transfer_stores [OF commit v2] v1 that show thesis by simp metis
qed

lemma sm_persist_post_void_stores:
  assumes r: "sm_persist_post_void event amount st = Some st'" and s: "sm_stores st = (A, T, P, B)"
  obtains p dr cr dr' cr' row where "hm_get T (t_pending_id event) = Some p"
    "hm_get A (t_debit_account_id p) = Some dr" "hm_get A (t_credit_account_id p) = Some cr"
    "commit_post_void_accounts event p amount dr cr = Some (dr', cr')"
    "hm_get P (t_timestamp p) = Some row" "tp_status row = StPending"
    "sm_stores st' = (hm_insert (a_id cr') cr' (hm_insert (a_id dr') dr' A),
       hm_insert (t_id event) (folded_transfer event p amount (t_timestamp event)) T,
       hm_insert (t_timestamp p) \<lparr>tp_timestamp = t_timestamp p,
         tp_status = (if tf_post_pending_transfer (t_flags event) then StPosted else StVoided)\<rparr> P,
       hm_insert (t_timestamp event) (t_id event) B)"
    "hm_get B (t_timestamp event) = None \<or> hm_get B (t_timestamp event) = Some (t_id event)"
proof -
  from r s obtain p where p: "hm_get T (t_pending_id event) = Some p"
    by (auto simp: sm_persist_post_void_def bind_Some_iff sm_stores_sel)
  define stored where "stored = folded_transfer event p amount (t_timestamp event)"
  have stored: "t_id stored = t_id event" "t_debit_account_id stored = t_debit_account_id p"
    "t_credit_account_id stored = t_credit_account_id p" "t_flags stored = t_flags event"
    "t_timestamp stored = t_timestamp event"
    by (simp_all add: stored_def folded_transfer_def)
  define status where "status = (if tf_post_pending_transfer (t_flags event) then StPosted else StVoided)"
  have p': "hm_get (sm_transfers st) (t_pending_id event) = Some p" using p s by (simp add: sm_stores_sel)
  have fold: "fold_post_void_transfer event p amount (t_timestamp event) = Some stored"
    using r p' by (auto simp: sm_persist_post_void_def bind_Some_iff fold_post_void_transfer_Some stored_def)
  from r p' obtain s1 s2 dr cr dr' cr' s3 s4 s5 where
    s1: "sm_insert_transfer (t_id event) stored st = Some s1"
    and s2: "sm_update_transfer_pending_status (t_timestamp p) status s1 = Some s2"
    and accounts: "hm_get (sm_accounts s2) (t_debit_account_id p) = Some dr"
      "hm_get (sm_accounts s2) (t_credit_account_id p) = Some cr"
    and commit: "commit_post_void_accounts stored p amount dr cr = Some (dr', cr')"
    and s3: "sm_update_account dr' s2 = Some s3" and s4: "sm_update_account cr' s3 = Some s4"
    and s5: "sm_account_event (t_timestamp event) dr' cr' (t_flags event) status (Some p) (t_amount event) amount s4 = Some s5"
    and pulse: "sm_update_pulse_next_timestamp s5 = Some st'"
    by (auto simp: sm_persist_post_void_def bind_Some_iff Let_def stored status_def fold)
  note v1 = sm_insert_transfer_stores [OF s1 s, unfolded stored]
  obtain row where row: "hm_get P (t_timestamp p) = Some row" "tp_status row = StPending"
    and v2: "sm_stores s2 = (A, hm_insert (t_id event) stored T,
      hm_insert (t_timestamp p) \<lparr>tp_timestamp = t_timestamp p, tp_status = status\<rparr> P,
      hm_insert (t_timestamp event) (t_id event) B)"
    using sm_update_transfer_pending_status_stores [OF s2 conjunct1 [OF v1]] by blast
  have v3: "sm_stores s3 = (hm_insert (a_id dr') dr' A, hm_insert (t_id event) stored T,
      hm_insert (t_timestamp p) \<lparr>tp_timestamp = t_timestamp p, tp_status = status\<rparr> P,
      hm_insert (t_timestamp event) (t_id event) B)"
    by (rule sm_update_account_stores [OF s3 v2])
  have v4: "sm_stores s4 = (hm_insert (a_id cr') cr' (hm_insert (a_id dr') dr' A), hm_insert (t_id event) stored T,
      hm_insert (t_timestamp p) \<lparr>tp_timestamp = t_timestamp p, tp_status = status\<rparr> P,
      hm_insert (t_timestamp event) (t_id event) B)"
    by (rule sm_update_account_stores [OF s4 v3])
  have "sm_accounts s2 = A" using v2 by (simp add: sm_stores_sel)
  moreover have "commit_post_void_accounts event p amount dr cr = Some (dr', cr')"
    using commit by (simp add: commit_post_void_accounts_def stored)
  ultimately show thesis
    using that [OF p _ _ _ row, of dr cr dr' cr'] accounts v1
      sm_update_pulse_stores [OF pulse] sm_account_event_stores [OF s5] v4
    by (simp add: stored_def status_def)
qed

lemma sm_persist_regular_view:
  assumes "\<not> is_post_or_void event" "sm_persist_transfer event amount st = Some st'"
  shows "store_view st' = apply_regular (store_view st) event amount (t_timestamp event)"
proof -
  obtain A T P B where s: "sm_stores st = (A, T, P, B)" by (cases "sm_stores st")
  have stamp: "event\<lparr>t_amount := amount, t_timestamp := t_timestamp event\<rparr> = event\<lparr>t_amount := amount\<rparr>" by simp
  show ?thesis
    by (rule sm_persist_regular_stores [OF assms s])
      (auto simp: apply_regular_def store_view_stores [OF s] store_entry_Some stamp dest!: store_view_stores)
qed

lemma sm_persist_post_void_view:
  assumes "sm_persist_post_void event amount st = Some st'"
  shows "store_view st' = apply_post_void (store_view st) event amount (t_timestamp event)"
proof -
  obtain A T P B where s: "sm_stores st = (A, T, P, B)" by (cases "sm_stores st")
  show ?thesis
    by (rule sm_persist_post_void_stores [OF assms s])
      (auto simp: apply_post_void_def store_view_stores [OF s] store_entry_Some dest!: store_view_stores)
qed

section \<open>Persisting a batch\<close>

text \<open>The event \<open>persist_transfers\<close> persists is the one the client sent, stamped with the timestamp its
  result reports.\<close>

lemma persist_transfer_at_event:
  assumes "persist_transfer_at len timestamp i event r st = Some st'"
  shows "sm_persist_transfer (event\<lparr>t_timestamp := ctr_timestamp r\<rparr>) (ctr_amount_actual r) st = Some st'"
proof -
  have stamped: "t_timestamp event = ctr_timestamp r \<Longrightarrow> event\<lparr>t_timestamp := ctr_timestamp r\<rparr> = event"
    by (drule sym) simp
  show ?thesis using assms by (auto simp: persist_transfer_at_def panic_simps stamped split: if_split_asm)
qed

text \<open>The stamp is not read by the effect of an event, only written.\<close>

lemma stamped_simps:
  "commit_post_void_accounts (event\<lparr>t_timestamp := ts\<rparr>) = commit_post_void_accounts event"
  "folded_transfer (event\<lparr>t_timestamp := ts\<rparr>) = folded_transfer event"
  "commit_transfer_accounts (event\<lparr>t_timestamp := ts\<rparr>) = commit_transfer_accounts event"
  "is_post_or_void (event\<lparr>t_timestamp := ts\<rparr>) = is_post_or_void event"
  by (simp_all add: fun_eq_iff commit_post_void_accounts_def folded_transfer_def
      commit_transfer_accounts_def is_post_or_void_def)

lemma apply_stamped:
  "apply_post_void v (event\<lparr>t_timestamp := ts\<rparr>) amount ts' = apply_post_void v event amount ts'"
  "apply_regular v (event\<lparr>t_timestamp := ts\<rparr>) amount ts' = apply_regular v event amount ts'"
  by (cases v; auto simp: apply_post_void_def apply_regular_def stamped_simps
      split: GetOrTombstone.split option.split prod.split)+

lemma persist_transfer_at_view:
  assumes "persist_transfer_at len timestamp i event r st = Some st'" "created_transfer r"
    and post_void: "is_post_or_void event \<Longrightarrow> \<not> tf_pending (t_flags event)"
  shows "store_view st' = apply_transfer (store_view st) event r"
proof -
  let ?event = "event\<lparr>t_timestamp := ctr_timestamp r\<rparr>"
  note p = persist_transfer_at_event [OF assms(1)]
  show ?thesis
  proof (cases "is_post_or_void event")
    case True
    then have "sm_persist_post_void ?event (ctr_amount_actual r) st = Some st'"
      using p post_void by (auto simp: sm_persist_transfer_def is_post_or_void_def split: if_split_asm)
    from sm_persist_post_void_view [OF this] True assms(2) show ?thesis
      by (simp add: apply_transfer_def apply_stamped)
  next
    case False
    then have "\<not> is_post_or_void ?event" by (simp add: stamped_simps)
    from sm_persist_regular_view [OF this p] False assms(2) show ?thesis
      by (simp add: apply_transfer_def apply_stamped)
  qed
qed

lemma persist_orphans_stores: "sm_stores (persist_orphans events results st) = sm_stores st"
  unfolding persist_orphans_def by (rule foldl_invariant) (auto simp: sm_stores_def)

lemma store_view_cong: "sm_stores st = sm_stores st' \<Longrightarrow> store_view st = store_view st'"
  by (simp add: sm_stores_def store_view_def)

text \<open>With an invariant of the steps along, as the ledger needs it.\<close>

lemma persist_transfers_applied:
  assumes step: "\<And>i s s'. i < length events \<Longrightarrow> created_transfer (results ! i) \<Longrightarrow> I i s \<Longrightarrow>
      store_view s = transfers_applied (store_view st) (take i events) (take i results) \<Longrightarrow>
      persist_transfer_at (length events) timestamp i (events ! i) (results ! i) s = Some s' \<Longrightarrow> I (Suc i) s'"
    and skip: "\<And>i s. i < length results \<Longrightarrow> \<not> created_transfer (results ! i) \<Longrightarrow> I i s \<Longrightarrow> I (Suc i) s"
    and start: "I 0 (persist_orphans events results st)"
    and len: "length results = length events" and atomic: "transfer_chains_atomic events results"
    and vs: "ct_verdicts v timestamp events results"
    and r: "persist_transfers events results timestamp st = Some st'"
  shows "I (length events) st' \<and> store_view st' = transfers_applied (store_view st) events results"
proof -
  have event: "created_transfer_event v timestamp events i" if "i < length events" "created_transfer (results ! i)" for i
    using vs that len by (simp add: ct_verdicts_def verdicts_def)
  have ok: "(\<lambda>r. ctr_status r = CT_Created) = created_transfer" by (simp add: fun_eq_iff created_transfer_def)
  have begun: "store_view (persist_orphans events results st) = store_view st"
    by (rule store_view_cong [OF persist_orphans_stores])
  have "I (length events) st' \<and> store_view st' =
      foldl (\<lambda>v (event, r). apply_transfer v event r) (store_view st) (zip events results)"
  proof (rule persist_chains_applied [where ok = created_transfer and linked = "\<lambda>event. tf_linked (t_flags event)"
        and persist = "persist_transfer_at (length events) timestamp" and I = I])
    show "I (Suc i) s' \<and> store_view s' = apply_transfer (store_view s) (events ! i) (results ! i)"
      if i: "i < length events" "created_transfer (results ! i)" "I i s"
        "store_view s = foldl (\<lambda>v (event, r). apply_transfer v event r) (store_view st) (zip (take i events) (take i results))"
        "persist_transfer_at (length events) timestamp i (events ! i) (results ! i) s = Some s'" for i s s'
    proof
      show "I (Suc i) s'" by (rule step [OF i(1-3) _ i(5)]) (simp add: i(4) transfers_applied_def)
      show "store_view s' = apply_transfer (store_view s) (events ! i) (results ! i)"
        by (rule persist_transfer_at_view [OF i(5,2)]) (use event [OF i(1,2)] in \<open>simp add: created_transfer_event_def post_void_flags_def\<close>)
    qed
    show "apply_transfer v e r = v" if "\<not> created_transfer r" for v e r
      using that by (simp add: apply_transfer_def)
    show "created_transfer (results ! i) = created_transfer (results ! Suc i)"
      if "Suc i < length results" "tf_linked (t_flags (events ! i))" for i
      using atomic that by (simp add: transfer_chains_atomic_def)
    show "\<not> (tf_linked (t_flags (events ! i)) \<and> i = length events - 1)"
      if "i < length results" "created_transfer (results ! i)" for i
      using event [of i] that len by (auto simp: created_transfer_event_def)
    show "persist_chains (\<lambda>event. tf_linked (t_flags event)) created_transfer
        (persist_transfer_at (length events) timestamp) events results 0 (persist_orphans events results st) = Some st'"
      using r by (simp add: persist_transfers_def ok)
  qed (use skip start len begun in simp_all)
  then show ?thesis by (simp add: transfers_applied_def)
qed

text \<open>The accounts of a batch, likewise.\<close>

lemma persist_account_at_event:
  assumes "persist_account_at len timestamp i event r st = Some st'"
  shows "sm_insert_account (a_id event) (event\<lparr>a_timestamp := car_timestamp r\<rparr>) st = Some st'"
proof -
  have stamped: "a_timestamp event = car_timestamp r \<Longrightarrow> event\<lparr>a_timestamp := car_timestamp r\<rparr> = event"
    by (drule sym) simp
  show ?thesis using assms by (auto simp: persist_account_at_def panic_simps stamped split: if_split_asm)
qed

lemma persist_accounts_applied:
  assumes step: "\<And>i s s'. i < length events \<Longrightarrow> created (results ! i) \<Longrightarrow> I i s \<Longrightarrow>
      persist_account_at (length events) timestamp i (events ! i) (results ! i) s = Some s' \<Longrightarrow> I (Suc i) s'"
    and skip: "\<And>i s. i < length results \<Longrightarrow> \<not> created (results ! i) \<Longrightarrow> I i s \<Longrightarrow> I (Suc i) s"
    and start: "I 0 st"
    and len: "length results = length events" and atomic: "chains_atomic events results"
    and vs: "ca_verdicts e timestamp events results"
    and r: "persist_accounts events results timestamp st = Some st'"
  shows "I (length events) st' \<and>
    store_entry (sm_accounts st') = created_entries (store_entry (sm_accounts st)) events results \<and>
    snd (store_view st') = snd (store_view st)"
proof -
  have event: "created_account e timestamp events i" if "i < length events" "created (results ! i)" for i
    using vs that len by (simp add: ca_verdicts_def verdicts_def)
  have ok: "(\<lambda>r. car_status r = CA_Created) = created" by (simp add: fun_eq_iff created_def)
  let ?I = "\<lambda>i s. I i s \<and> snd (store_view s) = snd (store_view st)"
  have "?I (length events) st' \<and> store_entry (sm_accounts st') =
      foldl (\<lambda>e (event, r). apply_created e event r) (store_entry (sm_accounts st)) (zip events results)"
  proof (rule persist_chains_applied [where ok = created and linked = "\<lambda>event. af_linked (a_flags event)"
        and persist = "persist_account_at (length events) timestamp" and V = "\<lambda>s. store_entry (sm_accounts s)" and I = ?I])
    show "?I (Suc i) s' \<and> store_entry (sm_accounts s') = apply_created (store_entry (sm_accounts s)) (events ! i) (results ! i)"
      if i: "i < length events" "created (results ! i)" "?I i s"
        "store_entry (sm_accounts s) = foldl (\<lambda>e (event, r). apply_created e event r) (store_entry (sm_accounts st)) (zip (take i events) (take i results))"
        "persist_account_at (length events) timestamp i (events ! i) (results ! i) s = Some s'" for i s s'
    proof -
      note p = persist_account_at_event [OF i(5)]
      obtain A T P B where s: "sm_stores s = (A, T, P, B)" by (cases "sm_stores s")
      from sm_insert_account_stores [OF p s] s have "snd (store_view s') = snd (store_view s)"
          "store_entry (sm_accounts s') = apply_created (store_entry (sm_accounts s)) (events ! i) (results ! i)"
        using i(2) by (simp_all add: sm_stores_sel store_view_def apply_created_def)
      with step [OF i(1,2) conjunct1 [OF i(3)] i(5)] i(3) show ?thesis by simp
    qed
    show "apply_created v e r = v" if "\<not> created r" for v e r
      using that by (simp add: apply_created_def)
    show "created (results ! i) = created (results ! Suc i)"
      if "Suc i < length results" "af_linked (a_flags (events ! i))" for i
      using atomic that by (simp add: chains_atomic_def)
    show "\<not> (af_linked (a_flags (events ! i)) \<and> i = length events - 1)"
      if "i < length results" "created (results ! i)" for i
      using event [of i] that len by (auto simp: created_account_def)
    show "persist_chains (\<lambda>event. af_linked (a_flags event)) created
        (persist_account_at (length events) timestamp) events results 0 st = Some st'"
      using r by (simp add: persist_accounts_def ok)
    show "?I (Suc i) s" if "i < length results" "\<not> created (results ! i)" "?I i s" for i s
      using skip that by blast
  qed (use start len in simp_all)
  then show ?thesis by (simp add: created_entries_def)
qed

end
