(* ===== verification/Ledger.thy ===== *)
theory Ledger
  imports Persist
begin

text \<open>
  Every balance is accounted for by the stored transfers. The committed stores are well-formed (keys,
  timestamps, references between accounts, transfers and pending rows), and each account's four
  balances are the sums, as the 128-bit words the code keeps, of the amounts of its own transfers:
  pending balances over the transfers whose pending row is still open, posted balances over those
  that posted. Every operation of the state machine keeps both.
\<close>

section \<open>Sums over a store\<close>

definition hm_sum :: "('v \<Rightarrow> 'n::ab_group_add) \<Rightarrow> ('k, 'v) hmap \<Rightarrow> 'n" where
  "hm_sum g m = sum_list (map g (hm_values m))"

lemma hm_sum_simps [simp]:
  "hm_sum g [] = 0" "hm_sum g ((k, v) # m) = g v + hm_sum g m" "hm_sum g (m @ m') = hm_sum g m + hm_sum g m'"
  by (simp_all add: hm_sum_def hm_values_def)

lemma hm_sum_cong: "(\<And>k v. (k, v) \<in> set m \<Longrightarrow> g v = g' v) \<Longrightarrow> hm_sum g m = hm_sum g' m"
  unfolding hm_sum_def hm_values_def by (rule arg_cong [where f = sum_list]) auto

lemma hm_sum_zero: "(\<And>k v. (k, v) \<in> set m \<Longrightarrow> g v = 0) \<Longrightarrow> hm_sum g m = 0"
  using hm_sum_cong [of m g "\<lambda>_. 0"] by (simp add: hm_sum_def hm_values_def comp_def)

lemma hm_sum_insert_new:
  "hm_get m k = None \<Longrightarrow> hm_sum g (hm_insert k v m) = hm_sum g m + g v"
  by (induction m) (auto simp: hm_insert_def hm_get_def algebra_simps split: if_splits)

lemma hm_sum_differ:
  assumes ok: "hm_ok m" and k: "hm_get m k = Some v"
    and other: "\<And>k' v'. hm_get m k' = Some v' \<Longrightarrow> k' \<noteq> k \<Longrightarrow> g' v' = g v'"
  shows "hm_sum g' m = hm_sum g m - g v + g' v"
proof -
  from hm_get_set [OF k] obtain ys zs where m: "m = ys @ (k, v) # zs" by (meson split_list)
  have same: "g' v' = g v'" if "(k', v') \<in> set ys \<union> set zs" for k' v'
  proof (rule other)
    show "hm_get m k' = Some v'" using that hm_get_in_set [OF ok, of k' v'] m by auto
    show "k' \<noteq> k" using that ok by (force simp: m hm_ok_def)
  qed
  have "hm_sum g' ys = hm_sum g ys" "hm_sum g' zs = hm_sum g zs" by (rule hm_sum_cong, use same in blast)+
  then show ?thesis by (simp add: m)
qed

section \<open>Well-formed stores\<close>

definition account_in :: "(u128, account) hmap \<Rightarrow> u128 \<Rightarrow> account \<Rightarrow> bool" where
  "account_in A k a \<longleftrightarrow> a_id a = k \<and> a_timestamp a AND TOMBSTONE_BIT = 0"

definition transfer_in :: "(u128, account) hmap \<Rightarrow> (u64, u128) hmap \<Rightarrow> u128 \<Rightarrow> transfer \<Rightarrow> bool" where
  "transfer_in A B k t \<longleftrightarrow> t_id t = k \<and> t_timestamp t AND TOMBSTONE_BIT = 0 \<and> hm_get B (t_timestamp t) = Some k \<and>
     t_debit_account_id t \<noteq> t_credit_account_id t \<and>
     hm_get A (t_debit_account_id t) \<noteq> None \<and> hm_get A (t_credit_account_id t) \<noteq> None"

definition pending_in :: "(u128, transfer) hmap \<Rightarrow> u64 \<Rightarrow> transfer_pending \<Rightarrow> bool" where
  "pending_in T ts row \<longleftrightarrow> tp_timestamp row = ts \<and> ts AND TOMBSTONE_BIT = 0 \<and>
     (\<exists>k t. hm_get T k = Some t \<and> t_timestamp t = ts \<and> tf_pending (t_flags t))"

definition stores_wf :: "stores \<Rightarrow> bool" where
  "stores_wf = (\<lambda>(A, T, P, B). hm_ok A \<and> hm_ok T \<and> hm_ok P \<and>
     (\<forall>k a. hm_get A k = Some a \<longrightarrow> account_in A k a) \<and>
     (\<forall>k t. hm_get T k = Some t \<longrightarrow> transfer_in A B k t) \<and>
     (\<forall>ts row. hm_get P ts = Some row \<longrightarrow> pending_in T ts row))"

section \<open>Balances as sums of amounts\<close>

text \<open>What a stored transfer still holds pending, and what it posted.\<close>

definition open_amount :: "(u64, transfer_pending) hmap \<Rightarrow> transfer \<Rightarrow> u128" where
  "open_amount P t =
     (if tf_pending (t_flags t) \<and> map_option tp_status (hm_get P (t_timestamp t)) = Some StPending
      then t_amount t else 0)"

definition posted_amount :: "transfer \<Rightarrow> u128" where
  "posted_amount t =
     (if tf_pending (t_flags t) \<or> tf_void_pending_transfer (t_flags t) then 0 else t_amount t)"

definition side_total :: "(transfer \<Rightarrow> 'n::ab_group_add) \<Rightarrow> (transfer \<Rightarrow> u128) \<Rightarrow> u128 \<Rightarrow> (u128, transfer) hmap \<Rightarrow> 'n" where
  "side_total amount side account_id T = hm_sum (\<lambda>t. if side t = account_id then amount t else 0) T"

text \<open>
  The sums are taken in any group \<open>c\<close> maps the balances into: in the words themselves, where they wrap
  as the balances would, and in the integers, where they do not.
\<close>

definition account_reconciles :: "(u128 \<Rightarrow> 'n::ab_group_add) \<Rightarrow> (u128, transfer) hmap \<Rightarrow> (u64, transfer_pending) hmap
    \<Rightarrow> u128 \<Rightarrow> account \<Rightarrow> bool" where
  "account_reconciles c T P k a \<longleftrightarrow>
     c (a_debits_pending a) = side_total (\<lambda>t. c (open_amount P t)) t_debit_account_id k T \<and>
     c (a_debits_posted a) = side_total (\<lambda>t. c (posted_amount t)) t_debit_account_id k T \<and>
     c (a_credits_pending a) = side_total (\<lambda>t. c (open_amount P t)) t_credit_account_id k T \<and>
     c (a_credits_posted a) = side_total (\<lambda>t. c (posted_amount t)) t_credit_account_id k T"

definition stores_reconcile :: "(u128 \<Rightarrow> 'n::ab_group_add) \<Rightarrow> stores \<Rightarrow> bool" where
  "stores_reconcile c = (\<lambda>(A, T, P, B). \<forall>k a. hm_get A k = Some a \<longrightarrow> account_reconciles c T P k a)"

text \<open>What an event moves: \<open>pending\<close> and \<open>posted\<close> on the debit side of one account and the credit side of the other.\<close>

definition moves_by :: "(u128 \<Rightarrow> 'n::ab_group_add) \<Rightarrow> 'n \<Rightarrow> 'n \<Rightarrow> account \<times> account \<Rightarrow> account \<times> account \<Rightarrow> bool" where
  "moves_by c pending posted = (\<lambda>(dr, cr) (dr', cr').
     c (a_debits_pending dr') = c (a_debits_pending dr) + pending \<and>
     c (a_debits_posted dr') = c (a_debits_posted dr) + posted \<and>
     a_credits_pending dr' = a_credits_pending dr \<and> a_credits_posted dr' = a_credits_posted dr \<and>
     c (a_credits_pending cr') = c (a_credits_pending cr) + pending \<and>
     c (a_credits_posted cr') = c (a_credits_posted cr) + posted \<and>
     a_debits_pending cr' = a_debits_pending cr \<and> a_debits_posted cr' = a_debits_posted cr)"

definition ledger_ok :: "stores \<Rightarrow> bool" where
  "ledger_ok s \<longleftrightarrow> stores_wf s \<and> stores_reconcile (\<lambda>x. x) s"

lemma side_total_insert:
  "hm_get T k = None \<Longrightarrow>
     side_total f side j (hm_insert k t T) = side_total f side j T + (if side t = j then f t else 0)"
  by (simp add: side_total_def hm_sum_insert_new)

locale ledger_sums =
  fixes c :: "u128 \<Rightarrow> 'n::ab_group_add"
  assumes zero: "c 0 = 0" and sub: "y \<le> x \<Longrightarrow> c (x - y) = c x - c y"
begin

text \<open>Closing a pending row takes its transfer's amount out of the pending totals, and nothing else.\<close>

lemma total_close:
  assumes ok: "hm_ok T" and p: "hm_get T k = Some p" "tf_pending (t_flags p)"
    and row: "map_option tp_status (hm_get P (t_timestamp p)) = Some StPending" and closed: "tp_status row' \<noteq> StPending"
    and other: "\<And>k' t. hm_get T k' = Some t \<Longrightarrow> k' \<noteq> k \<Longrightarrow> t_timestamp t \<noteq> t_timestamp p"
  shows "side_total (\<lambda>t. c (open_amount (hm_insert (t_timestamp p) row' P) t)) side j T =
    side_total (\<lambda>t. c (open_amount P t)) side j T - (if side p = j then c (t_amount p) else 0)"
proof -
  let ?g = "\<lambda>P t. if side t = j then c (open_amount P t) else 0"
  have "hm_sum (?g (hm_insert (t_timestamp p) row' P)) T = hm_sum (?g P) T - ?g P p + ?g (hm_insert (t_timestamp p) row' P) p"
    by (rule hm_sum_differ [OF ok p(1)]) (use other in \<open>auto simp: open_amount_def\<close>)
  moreover have "open_amount P p = t_amount p" "open_amount (hm_insert (t_timestamp p) row' P) p = 0"
    using p row closed by (auto simp: open_amount_def)
  ultimately show ?thesis by (simp add: side_total_def zero)
qed

text \<open>A row for a timestamp no transfer has changes no total.\<close>

lemma total_row:
  assumes "hm_ok T" "\<And>k t. hm_get T k = Some t \<Longrightarrow> t_timestamp t \<noteq> ts"
  shows "side_total (\<lambda>t. c (open_amount (hm_insert ts row P) t)) side j T = side_total (\<lambda>t. c (open_amount P t)) side j T"
  unfolding side_total_def
  by (rule hm_sum_cong) (use assms in \<open>auto simp: open_amount_def hm_get_in_set\<close>)

text \<open>Two accounts move, every other account's totals stay.\<close>

lemma reconcile_move:
  assumes old: "\<And>k a. hm_get A k = Some a \<Longrightarrow> account_reconciles c T P k a"
    and two: "hm_get A d = Some dr" "hm_get A e = Some cr" "d \<noteq> e"
    and pend: "\<And>j. side_total (\<lambda>t. c (open_amount P' t)) t_debit_account_id j T' =
        side_total (\<lambda>t. c (open_amount P t)) t_debit_account_id j T + (if j = d then dp else 0)"
      "\<And>j. side_total (\<lambda>t. c (open_amount P' t)) t_credit_account_id j T' =
        side_total (\<lambda>t. c (open_amount P t)) t_credit_account_id j T + (if j = e then dp else 0)"
    and post: "\<And>j. side_total (\<lambda>t. c (posted_amount t)) t_debit_account_id j T' =
        side_total (\<lambda>t. c (posted_amount t)) t_debit_account_id j T + (if j = d then ds else 0)"
      "\<And>j. side_total (\<lambda>t. c (posted_amount t)) t_credit_account_id j T' =
        side_total (\<lambda>t. c (posted_amount t)) t_credit_account_id j T + (if j = e then ds else 0)"
    and moved: "moves_by c dp ds (dr, cr) (dr', cr')"
    and A': "\<And>j. hm_get A' j = (if j = e then Some cr' else if j = d then Some dr' else hm_get A j)"
    and k: "hm_get A' k = Some a"
  shows "account_reconciles c T' P' k a"
proof -
  note totals = old [OF two(1)] old [OF two(2)]
  consider "k = e" "a = cr'" | "k = d" "k \<noteq> e" "a = dr'" | "k \<noteq> e" "k \<noteq> d" "hm_get A k = Some a"
    using k by (auto simp: A' split: if_splits)
  then show ?thesis
    by cases (use totals old two(3) moved in \<open>auto simp: account_reconciles_def pend post moves_by_def\<close>)
qed

end

text \<open>The balances as the words they are, and as the numbers they mean.\<close>

interpretation words: ledger_sums "\<lambda>x. x"
  by unfold_locales simp_all

interpretation exact: ledger_sums uint
  by unfold_locales (simp_all add: uint_sub_lem [THEN iffD1] word_le_def)

section \<open>Well-formedness under the store writes\<close>

lemma wf_account:
  assumes "stores_wf (A, T, P, B)" "account_in A d a"
  shows "stores_wf (hm_insert d a A, T, P, B)"
  using assms by (auto simp: stores_wf_def account_in_def transfer_in_def)

lemma wf_row:
  assumes "stores_wf (A, T, P, B)" "pending_in T ts row"
  shows "stores_wf (A, T, hm_insert ts row P, B)"
  using assms by (auto simp: stores_wf_def)

lemma wf_row_transfer:
  assumes wf: "stores_wf (A, T, P, B)" and row: "hm_get P (t_timestamp p) = Some row" and p: "hm_get T k = Some p"
  shows "tf_pending (t_flags p)" "pending_in T (t_timestamp p) \<lparr>tp_timestamp = t_timestamp p, tp_status = status\<rparr>"
proof -
  from wf row obtain k' t where t: "hm_get T k' = Some t" "t_timestamp t = t_timestamp p" "tf_pending (t_flags t)"
    and live: "t_timestamp p AND TOMBSTONE_BIT = 0"
    by (fastforce simp: stores_wf_def pending_in_def)
  have "transfer_in A B k p" "transfer_in A B k' t" using wf p t(1) by (auto simp: stores_wf_def)
  with t(2) have "k' = k" by (simp add: transfer_in_def)
  with t p show "tf_pending (t_flags p)" by simp
  with p live show "pending_in T (t_timestamp p) \<lparr>tp_timestamp = t_timestamp p, tp_status = status\<rparr>"
    by (auto simp: pending_in_def)
qed

lemma wf_timestamp_unique:
  assumes "stores_wf (A, T, P, B)" "hm_get T k = Some p" "hm_get T k' = Some t" "k' \<noteq> k"
  shows "t_timestamp t \<noteq> t_timestamp p"
proof -
  have "transfer_in A B k p" "transfer_in A B k' t" using assms by (auto simp: stores_wf_def)
  then show ?thesis using assms(4) by (auto simp: transfer_in_def)
qed

lemma wf_transfer:
  assumes wf: "stores_wf (A, T, P, B)" and fresh: "hm_get T (t_id t) = None"
    and stamp: "hm_get B (t_timestamp t) = None \<or> hm_get B (t_timestamp t) = Some (t_id t)" "t_timestamp t AND TOMBSTONE_BIT = 0"
    and accounts: "t_debit_account_id t \<noteq> t_credit_account_id t"
      "hm_get A (t_debit_account_id t) \<noteq> None" "hm_get A (t_credit_account_id t) \<noteq> None"
  shows "stores_wf (A, hm_insert (t_id t) t T, P, hm_insert (t_timestamp t) (t_id t) B)"
    "\<And>k' t'. hm_get T k' = Some t' \<Longrightarrow> t_timestamp t' \<noteq> t_timestamp t"
    "hm_get P (t_timestamp t) = None"
proof -
  show other: "t_timestamp t' \<noteq> t_timestamp t" if "hm_get T k' = Some t'" for k' t'
  proof
    assume same: "t_timestamp t' = t_timestamp t"
    have "transfer_in A B k' t'" using wf that by (auto simp: stores_wf_def)
    with same stamp(1) have "k' = t_id t" by (auto simp: transfer_in_def)
    with that fresh show False by simp
  qed
  show none: "hm_get P (t_timestamp t) = None"
  proof (rule ccontr)
    assume "hm_get P (t_timestamp t) \<noteq> None"
    with wf obtain row where "pending_in T (t_timestamp t) row" by (fastforce simp: stores_wf_def)
    then show False using other by (auto simp: pending_in_def)
  qed
  let ?T = "hm_insert (t_id t) t T" and ?B = "hm_insert (t_timestamp t) (t_id t) B"
  have "transfer_in A ?B k u" if "hm_get ?T k = Some u" for k u
  proof (cases "k = t_id t")
    case True
    then show ?thesis using that stamp(2) accounts by (simp add: transfer_in_def)
  next
    case False
    with that have u: "hm_get T k = Some u" by simp
    with wf have "transfer_in A B k u" by (simp add: stores_wf_def)
    with other [OF u] show ?thesis by (simp add: transfer_in_def)
  qed
  moreover have "pending_in ?T ts row" if "hm_get P ts = Some row" for ts row
  proof -
    from wf that have "pending_in T ts row" by (simp add: stores_wf_def)
    then obtain k u where u: "tp_timestamp row = ts" "ts AND TOMBSTONE_BIT = 0" "hm_get T k = Some u"
      "t_timestamp u = ts" "tf_pending (t_flags u)" unfolding pending_in_def by blast
    then have "hm_get ?T k = Some u" using fresh by auto
    with u show ?thesis unfolding pending_in_def by blast
  qed
  ultimately show "stores_wf (A, ?T, P, ?B)" using wf by (simp add: stores_wf_def)
qed

lemma wf_accounts:
  assumes wf: "stores_wf (A, T, P, B)" and two: "hm_get A d = Some dr" "hm_get A c = Some cr"
    and same: "a_id dr' = a_id dr" "a_timestamp dr' = a_timestamp dr" "a_id cr' = a_id cr" "a_timestamp cr' = a_timestamp cr"
  shows "a_id dr' = d" "a_id cr' = c" "stores_wf (hm_insert c cr' (hm_insert d dr' A), T, P, B)"
proof -
  have in_A: "account_in A d dr" "account_in A c cr" using wf two by (auto simp: stores_wf_def)
  then show "a_id dr' = d" "a_id cr' = c" using same by (simp_all add: account_in_def)
  have "stores_wf (hm_insert d dr' A, T, P, B)" by (rule wf_account [OF wf]) (use in_A same in \<open>simp add: account_in_def\<close>)
  then show "stores_wf (hm_insert c cr' (hm_insert d dr' A), T, P, B)"
    by (rule wf_account) (use in_A same in \<open>simp add: account_in_def\<close>)
qed

section \<open>The accounts an event moves\<close>

lemma commit_transfer_balances:
  assumes "commit_transfer_accounts event amount dr cr = (dr', cr')"
  shows "a_id dr' = a_id dr" "a_timestamp dr' = a_timestamp dr" "a_id cr' = a_id cr" "a_timestamp cr' = a_timestamp cr"
    "a_debits_pending dr' = a_debits_pending dr + (if tf_pending (t_flags event) then amount else 0)"
    "a_debits_posted dr' = a_debits_posted dr + (if tf_pending (t_flags event) then 0 else amount)"
    "a_credits_pending dr' = a_credits_pending dr" "a_credits_posted dr' = a_credits_posted dr"
    "a_credits_pending cr' = a_credits_pending cr + (if tf_pending (t_flags event) then amount else 0)"
    "a_credits_posted cr' = a_credits_posted cr + (if tf_pending (t_flags event) then 0 else amount)"
    "a_debits_pending cr' = a_debits_pending cr" "a_debits_posted cr' = a_debits_posted cr"
  using assms by (auto simp: commit_transfer_accounts_def Let_def split: if_split_asm)

lemma commit_post_void_balances:
  assumes "commit_post_void_accounts event p amount dr cr = Some (dr', cr')"
  shows "a_id dr' = a_id dr" "a_timestamp dr' = a_timestamp dr" "a_id cr' = a_id cr" "a_timestamp cr' = a_timestamp cr"
    "a_debits_pending dr' = a_debits_pending dr + (- t_amount p)"
    "a_debits_posted dr' = a_debits_posted dr + (if tf_post_pending_transfer (t_flags event) then amount else 0)"
    "a_credits_pending dr' = a_credits_pending dr" "a_credits_posted dr' = a_credits_posted dr"
    "a_credits_pending cr' = a_credits_pending cr + (- t_amount p)"
    "a_credits_posted cr' = a_credits_posted cr + (if tf_post_pending_transfer (t_flags event) then amount else 0)"
    "a_debits_pending cr' = a_debits_pending cr" "a_debits_posted cr' = a_debits_posted cr"
  using assms by (auto simp: commit_post_void_accounts_def Let_def panic_simps split: if_split_asm)

section \<open>Persisted events keep the ledger\<close>

lemma ledger_okD:
  assumes "ledger_ok (A, T, P, B)"
  shows "stores_wf (A, T, P, B)" "hm_get A k = Some a \<Longrightarrow> account_reconciles (\<lambda>x. x) T P k a" "hm_ok T"
  using assms by (auto simp: ledger_ok_def stores_wf_def stores_reconcile_def)

lemma stores_wfD: "stores_wf (A, T, P, B) \<Longrightarrow> hm_ok T"
  by (simp add: stores_wf_def)

lemma stores_reconcileD: "stores_reconcile c (A, T, P, B) \<Longrightarrow> hm_get A k = Some a \<Longrightarrow> account_reconciles c T P k a"
  by (simp add: stores_reconcile_def)

context ledger_sums
begin

lemma persist_regular:
  assumes wf: "stores_wf (sm_stores st)" and rec: "stores_reconcile c (sm_stores st)" and plain: "\<not> is_post_or_void event"
    and r: "sm_persist_transfer event amount st = Some st'"
    and fresh: "hm_get (sm_transfers st) (t_id event) = None" and live: "t_timestamp event AND TOMBSTONE_BIT = 0"
    and sides: "t_debit_account_id event \<noteq> t_credit_account_id event"
    and moved: "\<And>dr cr accounts. hm_get (sm_accounts st) (t_debit_account_id event) = Some dr \<Longrightarrow>
      hm_get (sm_accounts st) (t_credit_account_id event) = Some cr \<Longrightarrow> commit_transfer_accounts event amount dr cr = accounts \<Longrightarrow>
      moves_by c (c (if tf_pending (t_flags event) then amount else 0)) (c (if tf_pending (t_flags event) then 0 else amount))
        (dr, cr) accounts"
  shows "stores_wf (sm_stores st') \<and> stores_reconcile c (sm_stores st')"
proof -
  obtain A T P B where s: "sm_stores st = (A, T, P, B)" by (cases "sm_stores st")
  let ?t = "event\<lparr>t_amount := amount\<rparr>"
  let ?row = "\<lparr>tp_timestamp = t_timestamp event, tp_status = StPending\<rparr>"
  let ?P = "if tf_pending (t_flags event) then hm_insert (t_timestamp event) ?row P else P"
  let ?T = "hm_insert (t_id event) ?t T" and ?B = "hm_insert (t_timestamp event) (t_id event) B"
  have T: "hm_get T (t_id event) = None" using fresh s by (simp add: sm_stores_sel)
  note wf0 = wf [unfolded s] and old = stores_reconcileD [OF rec [unfolded s]]
  obtain dr cr dr' cr' where two: "hm_get A (t_debit_account_id event) = Some dr" "hm_get A (t_credit_account_id event) = Some cr"
    and commit: "commit_transfer_accounts event amount dr cr = (dr', cr')"
    and st': "sm_stores st' = (hm_insert (a_id cr') cr' (hm_insert (a_id dr') dr' A), ?T, ?P, ?B)"
    and stamp: "hm_get B (t_timestamp event) = None \<or> hm_get B (t_timestamp event) = Some (t_id event)"
    by (rule sm_persist_regular_stores [OF plain r s])
  have move: "moves_by c (c (if tf_pending (t_flags event) then amount else 0)) (c (if tf_pending (t_flags event) then 0 else amount))
      (dr, cr) (dr', cr')"
    by (rule moved) (use two commit s in \<open>simp_all add: sm_stores_sel\<close>)
  have "stores_wf (A, ?T, P, ?B)"
    and other: "\<And>k t. hm_get T k = Some t \<Longrightarrow> t_timestamp t \<noteq> t_timestamp event"
    using wf_transfer [OF wf0, of ?t] T stamp live sides two by simp_all
  then have "stores_wf (A, ?T, ?P, ?B)"
    by (auto intro!: wf_row simp: pending_in_def live)
  note wf' = wf_accounts [OF this two commit_transfer_balances(1-4) [OF commit]]
  let ?dp = "if tf_pending (t_flags event) then amount else 0" and ?ds = "if tf_pending (t_flags event) then 0 else amount"
  have void: "\<not> tf_void_pending_transfer (t_flags event)" using plain by (simp add: is_post_or_void_def)
  have pend: "side_total (\<lambda>t. c (open_amount ?P t)) side j ?T = side_total (\<lambda>t. c (open_amount P t)) side j T + (if side ?t = j then c ?dp else 0)" for side j
  proof -
    have "open_amount ?P ?t = ?dp" by (simp add: open_amount_def)
    moreover have "side_total (\<lambda>t. c (open_amount ?P t)) side j T = side_total (\<lambda>t. c (open_amount P t)) side j T"
      by (cases "tf_pending (t_flags event)") (simp_all add: total_row [OF stores_wfD [OF wf0] other])
    ultimately show ?thesis using T by (simp only: side_total_insert)
  qed
  have post: "side_total (\<lambda>t. c (posted_amount t)) side j ?T = side_total (\<lambda>t. c (posted_amount t)) side j T + (if side ?t = j then c ?ds else 0)" for side j
    using T void by (simp add: zero side_total_insert posted_amount_def)
  have "account_reconciles c ?T ?P k a" if "hm_get (hm_insert (t_credit_account_id event) cr' (hm_insert (t_debit_account_id event) dr' A)) k = Some a" for k a
    by (rule reconcile_move [OF old two sides _ _ _ _ move _ that])
      (simp_all add: pend post eq_commute)
  with wf' show ?thesis by (simp add: st' stores_reconcile_def)
qed

lemma persist_post_void:
  assumes wf: "stores_wf (sm_stores st)" and rec: "stores_reconcile c (sm_stores st)" and post_void: "post_void_flags (t_flags event)"
    and r: "sm_persist_post_void event amount st = Some st'"
    and fresh: "hm_get (sm_transfers st) (t_id event) = None" and live: "t_timestamp event AND TOMBSTONE_BIT = 0"
    and moved: "\<And>p dr cr accounts. hm_get (sm_transfers st) (t_pending_id event) = Some p \<Longrightarrow> tf_pending (t_flags p) \<Longrightarrow>
      map_option tp_status (hm_get (sm_transfers_pending st) (t_timestamp p)) = Some StPending \<Longrightarrow>
      hm_get (sm_accounts st) (t_debit_account_id p) = Some dr \<Longrightarrow> hm_get (sm_accounts st) (t_credit_account_id p) = Some cr \<Longrightarrow>
      commit_post_void_accounts event p amount dr cr = Some accounts \<Longrightarrow>
      moves_by c (- c (t_amount p)) (c (if tf_post_pending_transfer (t_flags event) then amount else 0)) (dr, cr) accounts"
  shows "stores_wf (sm_stores st') \<and> stores_reconcile c (sm_stores st')"
proof -
  obtain A T P B where s: "sm_stores st = (A, T, P, B)" by (cases "sm_stores st")
  have T: "hm_get T (t_id event) = None" using fresh s by (simp add: sm_stores_sel)
  note wf0 = wf [unfolded s] and old = stores_reconcileD [OF rec [unfolded s]]
  define status where "status = (if tf_post_pending_transfer (t_flags event) then StPosted else StVoided)"
  let ?B = "hm_insert (t_timestamp event) (t_id event) B"
  obtain p dr cr dr' cr' row where p: "hm_get T (t_pending_id event) = Some p"
    and two: "hm_get A (t_debit_account_id p) = Some dr" "hm_get A (t_credit_account_id p) = Some cr"
    and commit: "commit_post_void_accounts event p amount dr cr = Some (dr', cr')"
    and row: "hm_get P (t_timestamp p) = Some row" "tp_status row = StPending"
    and st': "sm_stores st' = (hm_insert (a_id cr') cr' (hm_insert (a_id dr') dr' A),
       hm_insert (t_id event) (folded_transfer event p amount (t_timestamp event)) T,
       hm_insert (t_timestamp p) \<lparr>tp_timestamp = t_timestamp p, tp_status = status\<rparr> P, ?B)"
    and stamp: "hm_get B (t_timestamp event) = None \<or> hm_get B (t_timestamp event) = Some (t_id event)"
    unfolding status_def by (rule sm_persist_post_void_stores [OF r s])
  have closed: "status \<noteq> StPending" by (simp add: status_def)
  define t where "t = folded_transfer event p amount (t_timestamp event)"
  have t: "t_id t = t_id event" "t_debit_account_id t = t_debit_account_id p" "t_credit_account_id t = t_credit_account_id p"
    "t_flags t = t_flags event" "t_timestamp t = t_timestamp event" "t_amount t = amount"
    by (simp_all add: t_def folded_transfer_def)
  let ?row = "\<lparr>tp_timestamp = t_timestamp p, tp_status = status\<rparr>"
  let ?T = "hm_insert (t_id event) t T" and ?P = "hm_insert (t_timestamp p) ?row P"
  note pend_row = wf_row_transfer [OF wf0 row(1) p]
  have move: "moves_by c (- c (t_amount p)) (c (if tf_post_pending_transfer (t_flags event) then amount else 0)) (dr, cr) (dr', cr')"
    by (rule moved) (use two commit s p row pend_row in \<open>simp_all add: sm_stores_sel\<close>)
  have pt: "transfer_in A B (t_pending_id event) p" using wf0 p by (simp add: stores_wf_def)
  then have sides: "t_debit_account_id p \<noteq> t_credit_account_id p" by (simp add: transfer_in_def)
  have "stores_wf (A, ?T, P, ?B)"
    and other: "\<And>k t. hm_get T k = Some t \<Longrightarrow> t_timestamp t \<noteq> t_timestamp event"
    using wf_transfer [OF wf0, of t] T stamp live sides two t by simp_all
  moreover have "hm_get ?T (t_pending_id event) = Some p" using p T by auto
  ultimately have "stores_wf (A, ?T, ?P, ?B)"
    using wf_row_transfer(2) [OF _ row(1)] by (intro wf_row) auto
  note wf' = wf_accounts [OF this two commit_post_void_balances(1-4) [OF commit]]
  let ?ds = "if tf_post_pending_transfer (t_flags event) then amount else 0"
  have close: "side_total (\<lambda>t. c (open_amount ?P t)) side j T =
      side_total (\<lambda>t. c (open_amount P t)) side j T - (if side p = j then c (t_amount p) else 0)" for side j
    by (rule total_close [OF stores_wfD [OF wf0] p pend_row(1)]) (use row closed wf_timestamp_unique [OF wf0 p] in auto)
  have pend: "side_total (\<lambda>t. c (open_amount ?P t)) side j ?T =
      side_total (\<lambda>t. c (open_amount P t)) side j T + (if side p = j then - c (t_amount p) else 0)" for side j
  proof -
    have "open_amount ?P t = 0" using post_void t by (simp add: open_amount_def post_void_flags_def)
    then show ?thesis using T by (simp add: zero side_total_insert close)
  qed
  have post: "side_total (\<lambda>t. c (posted_amount t)) side j ?T =
      side_total (\<lambda>t. c (posted_amount t)) side j T + (if side t = j then c ?ds else 0)" for side j
    using T post_void t by (simp add: zero side_total_insert posted_amount_def post_void_flags_def)
  have "account_reconciles c ?T ?P k a" if "hm_get (hm_insert (t_credit_account_id p) cr' (hm_insert (t_debit_account_id p) dr' A)) k = Some a" for k a
    by (rule reconcile_move [OF old two sides _ _ _ _ move _ that])
      (simp_all add: pend post t eq_commute)
  with wf' show ?thesis by (simp add: st' t_def [symmetric] stores_reconcile_def)
qed

end

lemma commit_transfer_moves:
  "commit_transfer_accounts event amount dr cr = accounts \<Longrightarrow>
     moves_by (\<lambda>x. x) (if tf_pending (t_flags event) then amount else 0) (if tf_pending (t_flags event) then 0 else amount)
       (dr, cr) accounts"
  by (cases accounts) (simp add: moves_by_def commit_transfer_balances)

lemma sm_persist_regular_ledger:
  assumes "ledger_ok (sm_stores st)" "\<not> is_post_or_void event" "sm_persist_transfer event amount st = Some st'"
    and "hm_get (sm_transfers st) (t_id event) = None" "t_timestamp event AND TOMBSTONE_BIT = 0"
    and "t_debit_account_id event \<noteq> t_credit_account_id event"
  shows "ledger_ok (sm_stores st')"
  unfolding ledger_ok_def
proof (rule words.persist_regular [OF _ _ assms(2-6)])
  show "stores_wf (sm_stores st)" "stores_reconcile (\<lambda>x. x) (sm_stores st)"
    using assms(1) by (simp_all add: ledger_ok_def)
qed (rule commit_transfer_moves)

lemma sm_persist_post_void_ledger:
  assumes "ledger_ok (sm_stores st)" "post_void_flags (t_flags event)" "sm_persist_post_void event amount st = Some st'"
    and "hm_get (sm_transfers st) (t_id event) = None" "t_timestamp event AND TOMBSTONE_BIT = 0"
  shows "ledger_ok (sm_stores st')"
proof -
  have "moves_by (\<lambda>x. x) (- t_amount p) (if tf_post_pending_transfer (t_flags event) then amount else 0) (dr, cr) accounts"
    if "commit_post_void_accounts event p amount dr cr = Some accounts" for p dr cr accounts
    using that by (cases accounts) (simp add: moves_by_def commit_post_void_balances)
  note moves = this
  show ?thesis
    unfolding ledger_ok_def
    by (rule words.persist_post_void [OF _ _ assms(2-5)]) (use assms(1) moves in \<open>auto simp: ledger_ok_def\<close>)
qed

section \<open>Expiry and new accounts keep the ledger\<close>

lemma update_account_if_stores:
  assumes "(if c then sm_update_account a st else Some st) = Some st'" "sm_stores st = (A, T, P, B)"
  shows "sm_stores st' = (if c then hm_insert (a_id a) a A else A, T, P, B)"
  using assms by (auto elim: sm_update_account_stores split: if_split_asm)

lemma sm_expire_one_stores:
  assumes r: "sm_expire_one timestamp_event transfer_id st = Some st'" and s: "sm_stores st = (A, T, P, B)"
  obtains p dr cr dr' cr' c1 c2 row where "hm_get T transfer_id = Some p"
    "hm_get A (t_debit_account_id p) = Some dr" "hm_get A (t_credit_account_id p) = Some cr"
    "dr' = dr\<lparr>a_debits_pending := a_debits_pending dr + (- t_amount p), a_flags := a_flags dr'\<rparr>"
    "cr' = cr\<lparr>a_credits_pending := a_credits_pending cr + (- t_amount p), a_flags := a_flags cr'\<rparr>"
    "c1 \<or> t_amount p = 0" "c2 \<or> t_amount p = 0"
    "hm_get P (t_timestamp p) = Some row" "tp_status row = StPending"
    "sm_stores st' = (if c2 then hm_insert (a_id cr') cr' (if c1 then hm_insert (a_id dr') dr' A else A)
        else (if c1 then hm_insert (a_id dr') dr' A else A), T,
      hm_insert (t_timestamp p) \<lparr>tp_timestamp = t_timestamp p, tp_status = StExpired\<rparr> P, B)"
    "a_flags dr' \<in> {a_flags dr, without_closed (a_flags dr)}" "a_flags cr' \<in> {a_flags cr, without_closed (a_flags cr)}"
proof -
  define st0 where "st0 = st\<lparr>sm_commit_timestamp := timestamp_event\<rparr>"
  have s0: "sm_stores st0 = (A, T, P, B)" using s by (simp add: st0_def sm_stores_sel)
  obtain p dr cr where p: "hm_get T transfer_id = Some p"
    and two: "hm_get A (t_debit_account_id p) = Some dr" "hm_get A (t_credit_account_id p) = Some cr"
    using r s by (auto simp: sm_expire_one_def sm_stores_sel bind_Some_iff Let_def)
  define dr1 where "dr1 = dr\<lparr>a_debits_pending := a_debits_pending dr - t_amount p\<rparr>"
  define cr1 where "cr1 = cr\<lparr>a_credits_pending := a_credits_pending cr - t_amount p\<rparr>"
  define dr' where "dr' = (if tf_closing_debit (t_flags p) then dr1\<lparr>a_flags := without_closed (a_flags dr1)\<rparr> else dr1)"
  define cr' where "cr' = (if tf_closing_credit (t_flags p) then cr1\<lparr>a_flags := without_closed (a_flags cr1)\<rparr> else cr1)"
  define c1 where "c1 = (t_amount p > 0 \<or> af_closed (a_flags dr') \<noteq> af_closed (a_flags dr))"
  define c2 where "c2 = (t_amount p > 0 \<or> af_closed (a_flags cr') \<noteq> af_closed (a_flags cr))"
  note defs = dr1_def cr1_def dr'_def cr'_def c1_def c2_def
  have get: "hm_get (sm_transfers st0) transfer_id = Some p" "hm_get (sm_accounts st0) (t_debit_account_id p) = Some dr"
    "hm_get (sm_accounts st0) (t_credit_account_id p) = Some cr"
    using p two s0 by (simp_all add: sm_stores_sel)
  from r obtain s1 s2 s3 where
    s1: "(if c1 then sm_update_account dr' st0 else Some st0) = Some s1"
    and s2: "(if c2 then sm_update_account cr' s1 else Some s1) = Some s2"
    and s3: "sm_update_transfer_pending_status (t_timestamp p) StExpired s2 = Some s3"
    and ev: "sm_account_event timestamp_event dr' cr' 0 StExpired (Some p) 0 (t_amount p) s3 = Some st'"
    unfolding sm_expire_one_def Let_def st0_def [symmetric] get bind.bind_lunit
      dr1_def [symmetric] cr1_def [symmetric] dr'_def [symmetric] cr'_def [symmetric] c1_def [symmetric] c2_def [symmetric]
    by (auto simp only: bind_Some_iff get option.inject)
  note v1 = update_account_if_stores [OF s1 s0]
  note v2 = update_account_if_stores [OF s2 v1]
  show thesis
  proof (rule sm_update_transfer_pending_status_stores [OF s3 v2])
    fix row assume row: "hm_get P (t_timestamp p) = Some row" "tp_status row = StPending"
      "sm_stores s3 = (if c2 then hm_insert (a_id cr') cr' (if c1 then hm_insert (a_id dr') dr' A else A)
        else if c1 then hm_insert (a_id dr') dr' A else A, T,
        hm_insert (t_timestamp p) \<lparr>tp_timestamp = t_timestamp p, tp_status = StExpired\<rparr> P, B)"
    have "dr' = dr\<lparr>a_debits_pending := a_debits_pending dr + (- t_amount p), a_flags := a_flags dr'\<rparr>"
      "cr' = cr\<lparr>a_credits_pending := a_credits_pending cr + (- t_amount p), a_flags := a_flags cr'\<rparr>"
      by (simp_all add: defs)
    moreover have "c1 \<or> t_amount p = 0" "c2 \<or> t_amount p = 0" by (auto simp: c1_def c2_def word_neq_0_conv)
    moreover note sm_account_event_stores [OF ev]
    moreover have "a_flags dr' \<in> {a_flags dr, without_closed (a_flags dr)}" "a_flags cr' \<in> {a_flags cr, without_closed (a_flags cr)}"
      by (simp_all add: defs)
    ultimately show thesis using that [OF p two] row by simp
  qed
qed

lemma sm_expire_one_held:
  assumes "sm_expire_one timestamp_event transfer_id st = Some st'" "hm_get (sm_transfers st) transfer_id = Some p"
    and "hm_get (sm_accounts st) (t_debit_account_id p) = Some dr" "hm_get (sm_accounts st) (t_credit_account_id p) = Some cr"
  shows "t_amount p \<le> a_debits_pending dr" "t_amount p \<le> a_credits_pending cr"
  using assms by (auto simp: sm_expire_one_def panic_simps Let_def)

context ledger_sums
begin

lemma expire_one:
  assumes wf: "stores_wf (sm_stores st)" and rec: "stores_reconcile c (sm_stores st)"
    and r: "sm_expire_one timestamp_event transfer_id st = Some st'"
  shows "stores_wf (sm_stores st') \<and> stores_reconcile c (sm_stores st')"
proof -
  obtain A T P B where s: "sm_stores st = (A, T, P, B)" by (cases "sm_stores st")
  note wf0 = wf [unfolded s] and old = stores_reconcileD [OF rec [unfolded s]]
  obtain p dr cr dr' cr' c1 c2 row where p: "hm_get T transfer_id = Some p"
    and two: "hm_get A (t_debit_account_id p) = Some dr" "hm_get A (t_credit_account_id p) = Some cr"
    and dr': "dr' = dr\<lparr>a_debits_pending := a_debits_pending dr + (- t_amount p), a_flags := a_flags dr'\<rparr>"
    and cr': "cr' = cr\<lparr>a_credits_pending := a_credits_pending cr + (- t_amount p), a_flags := a_flags cr'\<rparr>"
    and needed: "c1 \<or> t_amount p = 0" "c2 \<or> t_amount p = 0"
    and row: "hm_get P (t_timestamp p) = Some row" "tp_status row = StPending"
    and st': "sm_stores st' = (if c2 then hm_insert (a_id cr') cr' (if c1 then hm_insert (a_id dr') dr' A else A)
        else (if c1 then hm_insert (a_id dr') dr' A else A), T,
      hm_insert (t_timestamp p) \<lparr>tp_timestamp = t_timestamp p, tp_status = StExpired\<rparr> P, B)"
    and flags: "a_flags dr' \<in> {a_flags dr, without_closed (a_flags dr)}" "a_flags cr' \<in> {a_flags cr, without_closed (a_flags cr)}"
    by (rule sm_expire_one_stores [OF r s])
  have held: "t_amount p \<le> a_debits_pending dr" "t_amount p \<le> a_credits_pending cr"
    using sm_expire_one_held [OF r] p two s by (simp_all add: sm_stores_sel)
  let ?P = "hm_insert (t_timestamp p) \<lparr>tp_timestamp = t_timestamp p, tp_status = StExpired\<rparr> P"
  let ?dr = "if c1 then dr' else dr" and ?cr = "if c2 then cr' else cr"
  let ?A1 = "if c1 then hm_insert (a_id dr') dr' A else A"
  let ?A = "if c2 then hm_insert (a_id cr') cr' ?A1 else ?A1"
  note pend_row = wf_row_transfer [OF wf0 row(1) p]
  have "transfer_in A B transfer_id p" using wf0 p by (simp add: stores_wf_def)
  then have sides: "t_debit_account_id p \<noteq> t_credit_account_id p" by (simp add: transfer_in_def)
  have in_A: "account_in A (t_debit_account_id p) dr" "account_in A (t_credit_account_id p) cr"
    using wf0 two by (auto simp: stores_wf_def)
  have same: "a_id dr' = t_debit_account_id p" "a_timestamp dr' = a_timestamp dr"
    "a_id cr' = t_credit_account_id p" "a_timestamp cr' = a_timestamp cr"
    using in_A by (subst dr' cr', simp add: account_in_def)+
  have "stores_wf (A, T, ?P, B)" by (rule wf_row [OF wf0 pend_row(2)])
  then have "stores_wf (?A1, T, ?P, B)"
    using wf_account [of A T ?P B "a_id dr'" dr'] in_A same by (auto simp: account_in_def)
  then have wf': "stores_wf (?A, T, ?P, B)"
    using wf_account [of ?A1 T ?P B "a_id cr'" cr'] in_A same by (auto simp: account_in_def)
  have close: "side_total (\<lambda>t. c (open_amount ?P t)) side j T =
      side_total (\<lambda>t. c (open_amount P t)) side j T - (if side p = j then c (t_amount p) else 0)" for side j
    by (rule total_close [OF stores_wfD [OF wf0] p pend_row(1)]) (use row wf_timestamp_unique [OF wf0 p] in auto)
  have left: "a_debits_pending dr' = a_debits_pending dr - t_amount p" "a_debits_posted dr' = a_debits_posted dr"
    "a_credits_pending dr' = a_credits_pending dr" "a_credits_posted dr' = a_credits_posted dr"
    "a_credits_pending cr' = a_credits_pending cr - t_amount p" "a_credits_posted cr' = a_credits_posted cr"
    "a_debits_pending cr' = a_debits_pending cr" "a_debits_posted cr' = a_debits_posted cr"
    by (subst dr' cr', simp)+
  then have moved: "moves_by c (- c (t_amount p)) 0 (dr, cr) (?dr, ?cr)"
    using needed held by (auto simp: moves_by_def sub zero)
  have "account_reconciles c T ?P k a" if "hm_get ?A k = Some a" for k a
    by (rule reconcile_move [OF old two sides _ _ _ _ moved _ that]) (use same two sides in \<open>auto simp: close\<close>)
  with wf' show ?thesis by (simp add: st' stores_reconcile_def)
qed

lemma insert_account:
  assumes wf: "stores_wf (sm_stores st)" and rec: "stores_reconcile c (sm_stores st)"
    and r: "sm_insert_account (a_id a) a st = Some st'"
    and new: "hm_get (sm_accounts st) (a_id a) = None" and fresh: "fresh_account a" and live: "a_timestamp a AND TOMBSTONE_BIT = 0"
  shows "stores_wf (sm_stores st') \<and> stores_reconcile c (sm_stores st')"
proof -
  obtain A T P B where s: "sm_stores st = (A, T, P, B)" by (cases "sm_stores st")
  note wf0 = wf [unfolded s] and old = stores_reconcileD [OF rec [unfolded s]]
  note st' = sm_insert_account_stores [OF r s]
  have A: "hm_get A (a_id a) = None" using new s by (simp add: sm_stores_sel)
  have wf': "stores_wf (hm_insert (a_id a) a A, T, P, B)"
    by (rule wf_account [OF wf0]) (simp add: account_in_def live)
  have unused: "t_debit_account_id t \<noteq> a_id a \<and> t_credit_account_id t \<noteq> a_id a" if "(k, t) \<in> set T" for k t
  proof -
    have "transfer_in A B k t" using that wf0 by (simp add: stores_wf_def hm_get_in_set)
    then show ?thesis using A by (auto simp: transfer_in_def)
  qed
  have "side_total f t_debit_account_id (a_id a) T = 0" "side_total f t_credit_account_id (a_id a) T = 0"
    for f :: "transfer \<Rightarrow> 'n"
    unfolding side_total_def by (rule hm_sum_zero, use unused in force)+
  then have "account_reconciles c T P (a_id a) a" using fresh by (simp add: account_reconciles_def fresh_account_def zero)
  with wf' old show ?thesis by (auto simp: st' stores_reconcile_def)
qed

end

lemma sm_expire_one_ledger:
  "ledger_ok (sm_stores st) \<Longrightarrow> sm_expire_one timestamp_event transfer_id st = Some st' \<Longrightarrow> ledger_ok (sm_stores st')"
  using words.expire_one [of st timestamp_event transfer_id st'] by (simp add: ledger_ok_def)

lemma sm_expire_due_ledger:
  "ledger_ok (sm_stores st) \<Longrightarrow> sm_expire_due timestamp len index due st = Some st' \<Longrightarrow> ledger_ok (sm_stores st')"
proof (induction due arbitrary: index st)
  case (Cons transfer_id due)
  then show ?case by (auto simp: bind_Some_iff dest: sm_expire_one_ledger)
qed simp

lemma sm_expire_pending_transfers_ledger:
  assumes "ledger_ok (sm_stores st)" "sm_expire_pending_transfers timestamp st = Some st'"
  shows "ledger_ok (sm_stores st')"
  using assms sm_expire_due_ledger sm_update_pulse_stores
  by (fastforce simp: sm_expire_pending_transfers_def panic_simps Let_def)

lemma sm_insert_account_ledger:
  assumes "ledger_ok (sm_stores st)" "sm_insert_account (a_id a) a st = Some st'"
    and "hm_get (sm_accounts st) (a_id a) = None" "fresh_account a" "a_timestamp a AND TOMBSTONE_BIT = 0"
  shows "ledger_ok (sm_stores st')"
  using words.insert_account [OF _ _ assms(2-5)] assms(1) by (simp add: ledger_ok_def)

end
