(* ===== verification/Coherence.thy ===== *)
theory Coherence
  imports Persist
begin

text \<open>
  Cache coherence. A batch is executed against the objects caches and persisted to the stores; both are
  views, and applying the created events moves both in the same way. Two relations carry this: every
  object a cache holds is backed by a committed one, and on the keys a batch can read, the keys the
  prefetch enqueues, both views agree. Hence an event accepted by the caches is accepted by the stores.
\<close>

section \<open>Backed views\<close>

definition backed :: "ledger_view \<Rightarrow> ledger_view \<Rightarrow> bool" where
  "backed = (\<lambda>(A, T, P) (A', T', P').
     (\<forall>k a. A k = Found a \<longrightarrow> (\<exists>a'. A' k = Found a')) \<and>
     (\<forall>k t. T k = Found t \<longrightarrow> T' k = Found t) \<and>
     (\<forall>ts row. P ts = Found row \<longrightarrow> (\<exists>row'. P' ts = Found row')))"

lemma backedD:
  "backed (A, T, P) (A', T', P') \<Longrightarrow> A k = Found a \<Longrightarrow> \<exists>a'. A' k = Found a'"
  "backed (A, T, P) (A', T', P') \<Longrightarrow> T j = Found t \<Longrightarrow> T' j = Found t"
  "backed (A, T, P) (A', T', P') \<Longrightarrow> P ts = Found row \<Longrightarrow> \<exists>row'. P' ts = Found row'"
  by (auto simp: backed_def)

section \<open>Agreement on the keys of a batch\<close>

text \<open>\<open>KA\<close> and \<open>KT\<close> are the accounts and transfers a batch reads, \<open>KP\<close> the pending transfers among them.\<close>

definition agrees :: "u128 set \<Rightarrow> u128 set \<Rightarrow> u128 set \<Rightarrow> ledger_view \<Rightarrow> ledger_view \<Rightarrow> bool" where
  "agrees KA KT KP = (\<lambda>(A, T, P) (A', T', P').
     (\<forall>k \<in> KA. entry_value (A k) = entry_value (A' k)) \<and>
     (\<forall>k \<in> KT. entry_value (T k) = entry_value (T' k)) \<and>
     (\<forall>k \<in> KP. \<forall>p. T' k = Found p \<longrightarrow> tf_pending (t_flags p) \<longrightarrow>
        t_debit_account_id p \<in> KA \<and> t_credit_account_id p \<in> KA \<and>
        entry_value (P (t_timestamp p)) = entry_value (P' (t_timestamp p))))"

definition covered :: "u128 set \<Rightarrow> u128 set \<Rightarrow> u128 set \<Rightarrow> transfer \<Rightarrow> bool" where
  "covered KA KT KP event \<longleftrightarrow> t_id event \<in> KT \<and>
     (if is_post_or_void event then t_pending_id event \<in> KP
      else t_debit_account_id event \<in> KA \<and> t_credit_account_id event \<in> KA)"

lemma entry_value_FoundD: "entry_value e = entry_value e' \<Longrightarrow> e = Found v \<Longrightarrow> e' = Found v"
  by (metis entry_value_Some(1))

lemma accepts_post_void_flags:
  "accepts_post_void v event amount \<Longrightarrow> \<not> tf_pending (t_flags event)"
  by (cases v) (auto simp: accepts_post_void_def dest: post_or_void_CreatedD(3))

lemma status_in_cong: "entry_value (P ts) = entry_value (P' ts) \<Longrightarrow> status_in P ts = status_in P' ts"
  by (simp add: status_in_def)

lemma apply_regular_agrees:
  assumes agree: "agrees KA KT KP v w" and bk: "backed v w" and cover: "covered KA KT KP event"
    and plain: "\<not> is_post_or_void event" and acc: "accepts_regular (fst v) event amount"
  shows "accepts_regular (fst w) event amount" "agrees KA KT KP (apply_regular v event amount ts) (apply_regular w event amount ts)"
    "backed (apply_regular v event amount ts) (apply_regular w event amount ts)"
proof -
  obtain A T P A' T' P' where vw: "v = (A, T, P)" "w = (A', T', P')" by (cases v; cases w)
  have keys: "t_debit_account_id event \<in> KA" "t_credit_account_id event \<in> KA"
    using cover plain by (simp_all add: covered_def)
  from acc obtain dr cr te where found: "A (t_debit_account_id event) = Found dr" "A (t_credit_account_id event) = Found cr"
    and rule: "create_transfer event te None dr cr = Some CT_Created" "amount = compute_amount_actual event dr cr"
    by (auto simp: accepts_regular_def vw)
  have found': "A' (t_debit_account_id event) = Found dr" "A' (t_credit_account_id event) = Found cr"
    using agree keys found by (auto simp: agrees_def vw intro: entry_value_FoundD)
  with rule show "accepts_regular (fst w) event amount" by (auto simp: accepts_regular_def vw)
  obtain dr' cr' where commit: "commit_transfer_accounts event amount dr cr = (dr', cr')" by fastforce
  note moved = vw apply_regular_def found found' commit
  show "backed (apply_regular v event amount ts) (apply_regular w event amount ts)"
    using bk by (auto simp: moved backed_def)
  show "agrees KA KT KP (apply_regular v event amount ts) (apply_regular w event amount ts)"
    using agree keys by (auto simp: moved agrees_def)
qed

lemma apply_post_void_agrees:
  assumes agree: "agrees KA KT KP v w" and bk: "backed v w" and cover: "covered KA KT KP event" and sub: "KP \<subseteq> KT"
    and pv: "is_post_or_void event" and acc: "accepts_post_void v event amount"
  shows "accepts_post_void w event amount" "agrees KA KT KP (apply_post_void v event amount ts) (apply_post_void w event amount ts)"
    "backed (apply_post_void v event amount ts) (apply_post_void w event amount ts)"
proof -
  obtain A T P A' T' P' where vw: "v = (A, T, P)" "w = (A', T', P')" by (cases v; cases w)
  have key: "t_pending_id event \<in> KP" using cover pv by (simp add: covered_def)
  from acc obtain p dr cr te kmax at ate r where
    found: "T (t_pending_id event) = Found p" "A (t_debit_account_id p) = Found dr" "A (t_credit_account_id p) = Found cr"
    and rule: "post_or_void_pending_transfer event te p dr cr (status_in P (t_timestamp p)) kmax at ate = Some r"
      "pv_status r = CT_Created" "amount = pv_amount_actual r"
    unfolding accepts_post_void_def vw by auto
  have p': "T' (t_pending_id event) = Found p" using agree key sub found(1) by (auto simp: agrees_def vw intro: entry_value_FoundD)
  have pend: "tf_pending (t_flags p)" using rule by (auto dest: post_or_void_CreatedD(7))
  have near: "t_debit_account_id p \<in> KA" "t_credit_account_id p \<in> KA"
    "entry_value (P (t_timestamp p)) = entry_value (P' (t_timestamp p))"
    using agree key p' pend by (auto simp: agrees_def vw)
  have found': "A' (t_debit_account_id p) = Found dr" "A' (t_credit_account_id p) = Found cr"
    using agree near found by (auto simp: agrees_def vw intro: entry_value_FoundD)
  show acc': "accepts_post_void w event amount"
    unfolding accepts_post_void_def vw prod.case
    by (intro exI [of _ p] exI [of _ dr] exI [of _ cr] exI [of _ te] exI [of _ kmax] exI [of _ at] exI [of _ ate] exI [of _ r])
      (use p' found' rule status_in_cong [where P = P and P' = P' and ts = "t_timestamp p", OF near(3)] in simp)
  have plain: "\<not> tf_pending (t_flags event)" by (rule accepts_post_void_flags [OF acc])
  have fold: "t_flags (folded_transfer event p amount ts) = t_flags event" by (simp add: folded_transfer_def)
  have "agrees KA KT KP (apply_post_void v event amount ts) (apply_post_void w event amount ts) \<and>
      backed (apply_post_void v event amount ts) (apply_post_void w event amount ts)"
  proof (cases "commit_post_void_accounts event p amount dr cr")
    case None
    then show ?thesis using agree bk by (simp add: vw apply_post_void_def found found' p')
  next
    case (Some accounts)
    obtain dr' cr' where "accounts = (dr', cr')" by (cases accounts)
    with Some have moved: "apply_post_void (A, T, P) event amount ts =
        (A(a_id dr' := Found dr', a_id cr' := Found cr'), T(t_id event := Found (folded_transfer event p amount ts)),
         P(t_timestamp p := Found \<lparr>tp_timestamp = t_timestamp p,
           tp_status = (if tf_post_pending_transfer (t_flags event) then StPosted else StVoided)\<rparr>))"
      "apply_post_void (A', T', P') event amount ts =
        (A'(a_id dr' := Found dr', a_id cr' := Found cr'), T'(t_id event := Found (folded_transfer event p amount ts)),
         P'(t_timestamp p := Found \<lparr>tp_timestamp = t_timestamp p,
           tp_status = (if tf_post_pending_transfer (t_flags event) then StPosted else StVoided)\<rparr>))"
      by (simp_all add: apply_post_void_def found found' p')
    show ?thesis
    proof
      show "backed (apply_post_void v event amount ts) (apply_post_void w event amount ts)"
        using bk by (auto simp: vw moved backed_def)
      show "agrees KA KT KP (apply_post_void v event amount ts) (apply_post_void w event amount ts)"
        using agree near plain by (auto simp: vw moved agrees_def fold)
    qed
  qed
  then show "agrees KA KT KP (apply_post_void v event amount ts) (apply_post_void w event amount ts)"
    "backed (apply_post_void v event amount ts) (apply_post_void w event amount ts)" by blast+
qed

lemma apply_transfer_agrees:
  assumes agree: "agrees KA KT KP v w" and bk: "backed v w" and cover: "covered KA KT KP event" and sub: "KP \<subseteq> KT"
    and acc: "created_transfer r \<Longrightarrow> accepts v event (ctr_amount_actual r)"
  shows "agrees KA KT KP (apply_transfer v event r) (apply_transfer w event r) \<and> backed (apply_transfer v event r) (apply_transfer w event r) \<and>
    (created_transfer r \<longrightarrow> accepts w event (ctr_amount_actual r))"
  using apply_regular_agrees [OF agree bk cover] apply_post_void_agrees [OF agree bk cover sub] agree bk acc
  by (auto simp: apply_transfer_def accepts_def)

text \<open>A whole batch: what the caches accepted, the stores accept.\<close>

lemma transfers_applied_Suc:
  assumes "i < length events" "length results = length events"
  shows "transfers_applied v (take (Suc i) events) (take (Suc i) results) =
    apply_transfer (transfers_applied v (take i events) (take i results)) (events ! i) (results ! i)"
  unfolding transfers_applied_def by (rule foldl_zip_take_Suc [OF assms])

lemma batch_agrees:
  assumes agree: "agrees KA KT KP v w" and bk: "backed v w" and sub: "KP \<subseteq> KT"
    and cover: "\<And>event. event \<in> set events \<Longrightarrow> covered KA KT KP event"
    and acc: "accepted_all v events results" and len: "length results = length events"
  shows "accepted_all w events results \<and> backed (transfers_applied v events results) (transfers_applied w events results)"
proof -
  let ?at = "\<lambda>v i. transfers_applied v (take i events) (take i results)"
  have accepted: "created_transfer (results ! i) \<Longrightarrow> accepts (?at v i) (events ! i) (ctr_amount_actual (results ! i))"
    if "i < length events" for i
    using acc that len by (simp add: accepted_all_def verdicts_def)
  have run: "agrees KA KT KP (?at v i) (?at w i) \<and> backed (?at v i) (?at w i)" if "i \<le> length events" for i
    using that
  proof (induction i)
    case 0
    then show ?case using agree bk by (simp add: transfers_applied_def)
  next
    case (Suc i)
    then show ?case
      using apply_transfer_agrees [OF _ _ cover [of "events ! i"] sub accepted]
      by (simp add: transfers_applied_Suc [OF _ len])
  qed
  have "accepts (?at w i) (events ! i) (ctr_amount_actual (results ! i))"
    if i: "i < length events" "created_transfer (results ! i)" for i
  proof -
    have "agrees KA KT KP (?at v i) (?at w i)" "backed (?at v i) (?at w i)" using run [of i] i by simp_all
    from apply_transfer_agrees [OF this cover [OF nth_mem [OF i(1)]] sub accepted [OF i(1)]] i(2) show ?thesis by blast
  qed
  with run [of "length events"] len show ?thesis by (simp add: accepted_all_def verdicts_def)
qed

section \<open>Account batches\<close>

lemma created_entries_backed:
  assumes "\<And>k a. e k = Found a \<Longrightarrow> \<exists>a'. e' k = Found a'" "created_entries e events results k = Found a"
  shows "\<exists>a'. created_entries e' events results k = Found a'"
proof -
  let ?app = "\<lambda>e (event, r). apply_created e event r"
  have "\<forall>k a. foldl ?app e rs k = Found a \<longrightarrow> (\<exists>a'. foldl ?app e' rs k = Found a')" for rs
  proof (induction rs rule: rev_induct)
    case Nil
    then show ?case using assms(1) by simp
  next
    case (snoc x rs)
    then show ?case by (cases x) (auto simp: apply_created_def)
  qed
  then show ?thesis using assms(2) by (simp add: created_entries_def)
qed

end
