(* ===== verification/LedgerRun.thy ===== *)
theory LedgerRun
  imports Ledger Coherence
begin

text \<open>
  The operations of the state machine as steps between its states: prefetching, executing and
  persisting compose, the stores and the objects caches change by the same function of the batch,
  and the ledger invariant holds in every state reachable from \<open>sm_default\<close>.
\<close>

section \<open>Prefetching\<close>

definition live_store :: "('k, 'v) cm_spec \<Rightarrow> ('k, 'v) hmap \<Rightarrow> bool" where
  "live_store S store \<longleftrightarrow> (\<forall>k v. hm_get store k = Some v \<longrightarrow> sp_key S v = k \<and> \<not> sp_tombstone S v)"

lemma prefetch_into_entry:
  assumes "cm_ok S m" "live_store S store" "prefetch_into S store keys m = Some m'"
  shows "cm_ok S m' \<and> cm_scope_is_active m' = cm_scope_is_active m \<and>
    cm_entry S m' k = (if k \<in> set keys \<and> hm_get store k \<noteq> None then store_entry store k else cm_entry S m k)"
  using assms
proof (induction keys arbitrary: m)
  case (Cons key keys)
  show ?case
  proof (cases "hm_get store key")
    case None
    with Cons show ?thesis by auto
  next
    case (Some v)
    with Cons.prems obtain m1 where m1: "cm_upsert S m v = Some m1" "prefetch_into S store keys m1 = Some m'"
      by (auto simp: bind_Some_iff)
    have v: "sp_key S v = key" "\<not> sp_tombstone S v" using Some Cons.prems(2) by (simp_all add: live_store_def)
    note up = cm_upsert_refines [OF Cons.prems(1) v(2) m1(1)]
    with Cons.IH [of m1] Cons.prems(2) m1(2) v Some show ?thesis by (auto simp: store_entry_Some)
  qed
qed simp

text \<open>A key the prefetch enqueued reads the same from the cache and from the store.\<close>

lemma prefetch_into_found:
  assumes "cm_ok S m" "live_store S store" "prefetch_into S store keys m = Some m'" "cm_entry S m' k = Found v"
  shows "hm_get store k = Some v \<or> cm_entry S m k = Found v"
  using prefetch_into_entry [OF assms(1-3), of k] assms(4) by (auto simp: store_entry_def split: option.splits if_splits)

lemma prefetch_into_agrees:
  assumes "cm_ok S m" "live_store S store" "prefetch_into S store keys m = Some m'" "k \<in> set keys"
    and "\<And>v. cm_entry S m k = Found v \<Longrightarrow> hm_get store k \<noteq> None"
  shows "entry_value (cm_entry S m' k) = entry_value (store_entry store k)"
proof (cases "hm_get store k")
  case None
  then have "cm_entry S m' k = cm_entry S m k" using prefetch_into_entry [OF assms(1-3), of k] by simp
  with None assms(5) show ?thesis by (cases "cm_entry S m k") (simp_all add: store_entry_def entry_value_def)
next
  case (Some v)
  then show ?thesis using prefetch_into_entry [OF assms(1-3), of k] assms(4) by simp
qed

definition objects_ok :: "state_machine \<Rightarrow> bool" where
  "objects_ok st \<longleftrightarrow>
     cm_ok account_cache_spec (sm_accounts_objects st) \<and> \<not> cm_scope_is_active (sm_accounts_objects st) \<and>
     cm_ok transfer_cache_spec (sm_transfers_objects st) \<and> \<not> cm_scope_is_active (sm_transfers_objects st) \<and>
     cm_ok transfer_pending_cache_spec (sm_transfers_pending_objects st) \<and>
     \<not> cm_scope_is_active (sm_transfers_pending_objects st)"

definition objects_view :: "state_machine \<Rightarrow> ledger_view" where
  "objects_view st = (cm_entry account_cache_spec (sm_accounts_objects st),
     cm_entry transfer_cache_spec (sm_transfers_objects st),
     cm_entry transfer_pending_cache_spec (sm_transfers_pending_objects st))"

text \<open>Every cached object is a committed one: a transfer as it is, an account or a pending status maybe as
  it was before the last expiry.\<close>

definition sm_ok :: "state_machine \<Rightarrow> bool" where
  "sm_ok st \<longleftrightarrow> ledger_ok (sm_stores st) \<and> objects_ok st \<and> backed (objects_view st) (store_view st)"

lemma live_stores:
  assumes "ledger_ok (sm_stores st)"
  shows "live_store account_cache_spec (sm_accounts st)" "live_store transfer_cache_spec (sm_transfers st)"
    "live_store transfer_pending_cache_spec (sm_transfers_pending st)"
proof -
  have wf: "stores_wf (sm_stores st)" using assms by (simp add: ledger_ok_def)
  then show "live_store account_cache_spec (sm_accounts st)" "live_store transfer_cache_spec (sm_transfers st)"
    by (auto simp: live_store_def stores_wf_def sm_stores_def account_in_def transfer_in_def
        account_cache_spec_def transfer_cache_spec_def)
  show "live_store transfer_pending_cache_spec (sm_transfers_pending st)"
    using wf by (auto simp: live_store_def stores_wf_def sm_stores_def pending_in_def transfer_pending_cache_spec_def
        tombstone_bit_live)
qed

text \<open>What the two prefetches leave: the caches well-formed, the stores untouched, and the committed
  object of every enqueued key found in its cache.\<close>

lemma create_accounts_prefetch_ok:
  assumes ok: "sm_ok st" and r: "create_accounts_prefetch prefetch st = Some (ts, st')"
  shows "sm_ok st'" "sm_stores st' = sm_stores st"
    "k \<in> set (pk_ordered (apk_account_ids prefetch)) \<Longrightarrow> hm_get (sm_accounts st) k \<noteq> None \<Longrightarrow>
      fst (objects_view st') k = store_entry (sm_accounts st) k"
    "st' = st\<lparr>sm_accounts_objects := sm_accounts_objects st'\<rparr>"
proof -
  from r obtain objects where objects:
    "prefetch_into account_cache_spec (sm_accounts st) (pk_ordered (apk_account_ids prefetch)) (sm_accounts_objects st) = Some objects"
    and st': "st' = st\<lparr>sm_accounts_objects := objects\<rparr>"
    by (auto simp: create_accounts_prefetch_def bind_Some_iff)
  have cm: "cm_ok account_cache_spec (sm_accounts_objects st)" and "ledger_ok (sm_stores st)"
    using ok by (simp_all add: sm_ok_def objects_ok_def)
  note live = live_stores(1) [OF this(2)]
  note p = prefetch_into_entry [OF cm live objects]
  show "sm_stores st' = sm_stores st" by (simp add: st' sm_stores_def)
  moreover have "backed (objects_view st') (store_view st')"
  proof -
    have "\<exists>v'. store_entry (sm_accounts st) k = Found v'" if "cm_entry account_cache_spec objects k = Found v" for k v
      using prefetch_into_found [OF cm live objects that] ok
      by (auto simp: sm_ok_def objects_view_def store_view_def store_entry_Some dest: backedD(1))
    then show ?thesis using ok by (auto simp: sm_ok_def backed_def objects_view_def store_view_def st')
  qed
  ultimately show "sm_ok st'" using p ok by (simp add: sm_ok_def objects_ok_def st')
  show "fst (objects_view st') k = store_entry (sm_accounts st) k"
    if "k \<in> set (pk_ordered (apk_account_ids prefetch))" "hm_get (sm_accounts st) k \<noteq> None"
    using p [of k] that by (simp add: objects_view_def st')
  show "st' = st\<lparr>sm_accounts_objects := sm_accounts_objects st'\<rparr>" by (simp add: st')
qed

lemma create_transfers_prefetch_ok:
  assumes ok: "sm_ok st" and r: "create_transfers_prefetch prefetch st = Some (ts, st')"
  shows "sm_ok st'" "sm_stores st' = sm_stores st"
    "k \<in> set (pk_ordered (tpk_account_ids prefetch)) \<Longrightarrow> hm_get (sm_accounts st) k \<noteq> None \<Longrightarrow>
      fst (objects_view st') k = store_entry (sm_accounts st) k"
    "k \<in> set (pk_ordered (tpk_transfer_ids prefetch)) \<Longrightarrow> hm_get (sm_transfers st) k \<noteq> None \<Longrightarrow>
      fst (snd (objects_view st')) k = store_entry (sm_transfers st) k"
    "j \<in> set (pk_ordered (tpk_pending_timestamps prefetch)) \<Longrightarrow> hm_get (sm_transfers_pending st) j \<noteq> None \<Longrightarrow>
      snd (snd (objects_view st')) j = store_entry (sm_transfers_pending st) j"
    "k \<in> set (pk_ordered (tpk_account_ids prefetch)) \<Longrightarrow>
      entry_value (fst (objects_view st') k) = entry_value (store_entry (sm_accounts st) k)"
    "k \<in> set (pk_ordered (tpk_transfer_ids prefetch)) \<Longrightarrow>
      entry_value (fst (snd (objects_view st')) k) = entry_value (store_entry (sm_transfers st) k)"
    "j \<in> set (pk_ordered (tpk_pending_timestamps prefetch)) \<Longrightarrow>
      entry_value (snd (snd (objects_view st')) j) = entry_value (store_entry (sm_transfers_pending st) j)"
    "st' = st\<lparr>sm_accounts_objects := sm_accounts_objects st', sm_transfers_objects := sm_transfers_objects st',
      sm_transfers_pending_objects := sm_transfers_pending_objects st'\<rparr>"
proof -
  from r obtain accounts transfers pendings where objects:
    "prefetch_into account_cache_spec (sm_accounts st) (pk_ordered (tpk_account_ids prefetch)) (sm_accounts_objects st) = Some accounts"
    "prefetch_into transfer_cache_spec (sm_transfers st) (pk_ordered (tpk_transfer_ids prefetch)) (sm_transfers_objects st) = Some transfers"
    "prefetch_into transfer_pending_cache_spec (sm_transfers_pending st) (pk_ordered (tpk_pending_timestamps prefetch))
      (sm_transfers_pending_objects st) = Some pendings"
    and st': "st' = st\<lparr>sm_accounts_objects := accounts, sm_transfers_objects := transfers, sm_transfers_pending_objects := pendings\<rparr>"
    by (auto simp: create_transfers_prefetch_def bind_Some_iff)
  have cms: "cm_ok account_cache_spec (sm_accounts_objects st)" "cm_ok transfer_cache_spec (sm_transfers_objects st)"
    "cm_ok transfer_pending_cache_spec (sm_transfers_pending_objects st)" and ledger: "ledger_ok (sm_stores st)"
    using ok by (simp_all add: sm_ok_def objects_ok_def)
  note live = live_stores [OF ledger]
  note pa = prefetch_into_entry [OF cms(1) live(1) objects(1)] and pt = prefetch_into_entry [OF cms(2) live(2) objects(2)]
    and pp = prefetch_into_entry [OF cms(3) live(3) objects(3)]
  show "sm_stores st' = sm_stores st" by (simp add: st' sm_stores_def)
  have cached: "cm_entry account_cache_spec (sm_accounts_objects st) k = Found a \<Longrightarrow> hm_get (sm_accounts st) k \<noteq> None"
    "cm_entry transfer_cache_spec (sm_transfers_objects st) k = Found t \<Longrightarrow> hm_get (sm_transfers st) k = Some t"
    "cm_entry transfer_pending_cache_spec (sm_transfers_pending_objects st) j = Found row \<Longrightarrow> hm_get (sm_transfers_pending st) j \<noteq> None"
    for k j a t row
    using ok by (auto simp: sm_ok_def backed_def objects_view_def store_view_def)
  note found = prefetch_into_found [OF cms(1) live(1) objects(1)] prefetch_into_found [OF cms(2) live(2) objects(2)]
    prefetch_into_found [OF cms(3) live(3) objects(3)]
  have "\<exists>a'. store_entry (sm_accounts st) k = Found a'" if "cm_entry account_cache_spec accounts k = Found a" for k a
    using found(1) [OF that] cached(1) by (force simp: store_entry_def)
  moreover have "store_entry (sm_transfers st) k = Found t" if "cm_entry transfer_cache_spec transfers k = Found t" for k t
    using found(2) [OF that] cached(2) by (force simp: store_entry_def)
  moreover have "\<exists>row'. store_entry (sm_transfers_pending st) j = Found row'"
    if "cm_entry transfer_pending_cache_spec pendings j = Found row" for j row
    using found(3) [OF that] cached(3) by (force simp: store_entry_def)
  ultimately have "backed (objects_view st') (store_view st')"
    by (auto simp: backed_def objects_view_def store_view_def st')
  with pa pt pp ok show "sm_ok st'" by (simp add: sm_ok_def objects_ok_def st' sm_stores_def)
  show "st' = st\<lparr>sm_accounts_objects := sm_accounts_objects st', sm_transfers_objects := sm_transfers_objects st',
      sm_transfers_pending_objects := sm_transfers_pending_objects st'\<rparr>" by (simp add: st')
  show "entry_value (fst (objects_view st') k) = entry_value (store_entry (sm_accounts st) k)"
    if "k \<in> set (pk_ordered (tpk_account_ids prefetch))"
    using prefetch_into_agrees [OF cms(1) live(1) objects(1) that] cached(1) by (simp add: objects_view_def st')
  show "entry_value (fst (snd (objects_view st')) k) = entry_value (store_entry (sm_transfers st) k)"
    if "k \<in> set (pk_ordered (tpk_transfer_ids prefetch))"
    using prefetch_into_agrees [OF cms(2) live(2) objects(2) that] cached(2) by (simp add: objects_view_def st')
  show "entry_value (snd (snd (objects_view st')) j) = entry_value (store_entry (sm_transfers_pending st) j)"
    if "j \<in> set (pk_ordered (tpk_pending_timestamps prefetch))"
    using prefetch_into_agrees [OF cms(3) live(3) objects(3) that] cached(3) by (simp add: objects_view_def st')
  show "fst (objects_view st') k = store_entry (sm_accounts st) k"
    if "k \<in> set (pk_ordered (tpk_account_ids prefetch))" "hm_get (sm_accounts st) k \<noteq> None"
    using pa [of k] that by (simp add: objects_view_def st')
  show "fst (snd (objects_view st')) k = store_entry (sm_transfers st) k"
    if "k \<in> set (pk_ordered (tpk_transfer_ids prefetch))" "hm_get (sm_transfers st) k \<noteq> None"
    using pt [of k] that by (simp add: objects_view_def st')
  show "snd (snd (objects_view st')) j = store_entry (sm_transfers_pending st) j"
    if "j \<in> set (pk_ordered (tpk_pending_timestamps prefetch))" "hm_get (sm_transfers_pending st) j \<noteq> None"
    using pp [of j] that by (simp add: objects_view_def st')
qed

section \<open>Events on the way to the stores\<close>

lemma small_live: "ts \<le> timestamp \<Longrightarrow> unat timestamp < 2 ^ 63 \<Longrightarrow> ts AND TOMBSTONE_BIT = (0 :: u64)"
  by (rule tombstone_bit_clear) (simp add: word_le_nat_alt)

lemma persist_account_at_live:
  assumes "persist_account_at len timestamp i event r st = Some st'" "i < len" "len < 2 ^ 64" "unat timestamp < 2 ^ 63"
    and "af_imported (a_flags event) \<longrightarrow> a_timestamp event < timestamp"
  shows "car_timestamp r AND TOMBSTONE_BIT = 0"
proof -
  from assms(1) have "if af_imported (a_flags event) then car_timestamp r = a_timestamp event
      else event_timestamp timestamp len i = Some (car_timestamp r)"
    by (auto simp: persist_account_at_def panic_simps split: if_split_asm)
  then have "car_timestamp r \<le> timestamp"
    using assms(5) event_timestamp_le [OF _ assms(2,3)] by (auto simp: word_le_nat_alt word_less_nat_alt split: if_split_asm)
  then show ?thesis using assms(4) by (rule small_live)
qed

lemma fresh_account_stamped: "fresh_account (a\<lparr>a_timestamp := ts\<rparr>) = fresh_account a"
  by (simp add: fresh_account_def)

lemma pk_ordered_contains: "pk_ok ks \<Longrightarrow> key \<in> set (pk_ordered ks) \<longleftrightarrow> pk_contains ks key"
  by (simp add: pk_ok_def pk_contains_def)

lemma prefetched_accounts: "i < length events \<Longrightarrow>
    a_id (events ! i) \<in> set (pk_ordered (apk_account_ids (prefetch_create_accounts events)))"
  by (subst pk_ordered_contains) (simp_all add: prefetch_create_accounts_def pk_contains_def)

lemma persist_transfer_at_live:
  assumes "persist_transfer_at len timestamp i event r st = Some st'" "i < len" "len < 2 ^ 64" "unat timestamp < 2 ^ 63"
    and "tf_imported (t_flags event) \<longrightarrow> t_timestamp event < timestamp"
  shows "ctr_timestamp r AND TOMBSTONE_BIT = 0"
proof -
  from assms(1) have "if tf_imported (t_flags event) then ctr_timestamp r = t_timestamp event
      else event_timestamp timestamp len i = Some (ctr_timestamp r)"
    by (auto simp: persist_transfer_at_def panic_simps split: if_split_asm)
  then have "ctr_timestamp r \<le> timestamp"
    using assms(5) event_timestamp_le [OF _ assms(2,3)] by (auto simp: word_le_nat_alt word_less_nat_alt split: if_split_asm)
  then show ?thesis using assms(4) by (rule small_live)
qed

lemma prefetched_transfers: "i < length events \<Longrightarrow>
    t_id (events ! i) \<in> set (pk_ordered (tpk_transfer_ids (prefetch_create_transfers events g)))"
proof -
  assume i: "i < length events"
  have "pk_ok (tpk_transfer_ids (fold enqueue_transfer_ids es keys))" if "pk_ok (tpk_transfer_ids keys)" for es keys
    using that by (induction es arbitrary: keys) (simp_all add: enqueue_transfer_ids_def Let_def)
  then have "pk_ok (tpk_transfer_ids (prefetch_create_transfers events g))"
    by (simp add: prefetch_create_transfers_def Let_def fold_enqueue_transfer_accounts_ids)
  then show ?thesis using i by (simp add: pk_ordered_contains prefetch_transfer_ids)
qed

lemma recorded_store: "recorded_in (store_view st) k \<longleftrightarrow> hm_get (sm_transfers st) k \<noteq> None"
  by (auto simp: recorded_in_def store_view_def store_entry_def split: option.split)

lemma apply_transfer_records: "recorded_in (apply_transfer v event r) k \<Longrightarrow> recorded_in v k \<or> k = t_id event"
  by (cases v) (auto simp: recorded_in_def apply_transfer_def apply_post_void_def apply_regular_def
      split: GetOrTombstone.split_asm option.split_asm prod.split_asm if_split_asm)

section \<open>What leaves the caches alone\<close>

definition same_objects :: "state_machine \<Rightarrow> state_machine \<Rightarrow> bool" where
  "same_objects a b \<longleftrightarrow> sm_accounts_objects b = sm_accounts_objects a \<and> sm_transfers_objects b = sm_transfers_objects a \<and>
    sm_transfers_pending_objects b = sm_transfers_pending_objects a"

lemma same_objects_ok: "same_objects st st' \<Longrightarrow> objects_ok st' = objects_ok st"
  by (simp add: same_objects_def objects_ok_def)

lemma same_objects_trans: "same_objects a b \<Longrightarrow> same_objects b c \<Longrightarrow> same_objects a c"
  by (simp add: same_objects_def)

text \<open>The writes of the stores leave the caches alone.\<close>

lemma store_writes_objects:
  "sm_update_account a st = Some st' \<Longrightarrow> same_objects st st'"
  "sm_insert_transfer k t st = Some st' \<Longrightarrow> same_objects st st'"
  "sm_insert_transfer_pending row st = Some st' \<Longrightarrow> same_objects st st'"
  "sm_update_transfer_pending_status ts status st = Some st' \<Longrightarrow> same_objects st st'"
  "sm_account_event ts dr cr f status p req amt st = Some st' \<Longrightarrow> same_objects st st'"
  by (auto simp: sm_update_account_def sm_insert_transfer_def sm_insert_transfer_pending_def
      sm_update_transfer_pending_status_def sm_account_event_def sm_index_event_def panic_simps Let_def same_objects_def)

lemma persist_orphans_objects: "same_objects st (persist_orphans events results st)"
  unfolding persist_orphans_def
  by (rule foldl_invariant) (auto simp: same_objects_def split: prod.split)

lemma sm_persist_transfer_objects:
  assumes "sm_persist_transfer event amount st = Some st'"
  shows "same_objects st st'"
proof -
  have pulse: "same_objects s s'" if "sm_update_pulse_next_timestamp s = Some s'" for s s'
    using that by (rule sm_update_pulse_only) (simp add: same_objects_def)
  have commit: "same_objects s s'" if run: "sm_commit_transfer e amt req s = Some s'" for e amt req s s'
  proof -
    obtain dr cr where two: "hm_get (sm_accounts s) (t_debit_account_id e) = Some dr"
        "hm_get (sm_accounts s) (t_credit_account_id e) = Some cr"
      using run by (auto simp: sm_commit_transfer_def bind_Some_iff)
    obtain dr' cr' where "commit_transfer_accounts e amt dr cr = (dr', cr')" by (cases "commit_transfer_accounts e amt dr cr")
    with run two obtain s1 s2 s3 where "sm_update_account dr' s = Some s1" "sm_update_account cr' s1 = Some s2"
      "sm_account_event (t_timestamp e) dr' cr' (t_flags e) (if tf_pending (t_flags e) then StPending else StNone) None
         req amt s2 = Some s3" "s' = s3 \<or> (\<exists>ts. s' = s3\<lparr>sm_pulse_next_timestamp := ts\<rparr>)"
      by (auto simp: sm_commit_transfer_def panic_simps Let_def split: if_split_asm)
    then show ?thesis by (auto dest!: store_writes_objects simp: same_objects_def)
  qed
  have post_void: "same_objects s s'" if "sm_persist_post_void e amt s = Some s'" for e amt s s'
    using that by (auto simp: sm_persist_post_void_def bind_Some_iff Let_def dest!: store_writes_objects pulse) (simp add: same_objects_def)
  show ?thesis
    using assms by (auto simp: sm_persist_transfer_def bind_Some_iff Let_def split: if_split_asm
        dest!: store_writes_objects commit post_void intro: same_objects_trans)
qed

lemma same_objects_view: "same_objects st st' \<Longrightarrow> objects_view st' = objects_view st"
  by (simp add: same_objects_def objects_view_def)

lemma sm_persist_transfer_ledger:
  assumes ok: "ledger_ok (sm_stores st)" and r: "sm_persist_transfer event amount st = Some st'"
    and fresh: "hm_get (sm_transfers st) (t_id event) = None" and live: "t_timestamp event AND TOMBSTONE_BIT = 0"
    and valid: "if is_post_or_void event then post_void_flags (t_flags event)
      else t_debit_account_id event \<noteq> t_credit_account_id event"
  shows "ledger_ok (sm_stores st')"
proof (cases "is_post_or_void event")
  case True
  then have "sm_persist_post_void event amount st = Some st'"
    using r valid by (auto simp: sm_persist_transfer_def post_void_flags_def is_post_or_void_def split: if_split_asm)
  then show ?thesis using sm_persist_post_void_ledger [OF ok _ _ fresh live] valid True by simp
next
  case False
  then show ?thesis using sm_persist_regular_ledger [OF ok False r fresh live] valid by simp
qed


section \<open>Keys of a batch of transfers\<close>

lemma prefetched_ok:
  "pk_ok (tpk_transfer_ids (prefetch_create_transfers events g))"
  "pk_ok (tpk_account_ids (prefetch_create_transfers events g))"
  "pk_ok (tpk_pending_timestamps (prefetch_create_transfers events g))"
proof -
  have ids: "pk_ok (tpk_transfer_ids (fold enqueue_transfer_ids es keys))" if "pk_ok (tpk_transfer_ids keys)" for es keys
    using that by (induction es arbitrary: keys) (simp_all add: enqueue_transfer_ids_def Let_def)
  have accounts: "pk_ok (tpk_account_ids (fold (enqueue_transfer_accounts g) es keys)) \<and>
      pk_ok (tpk_pending_timestamps (fold (enqueue_transfer_accounts g) es keys))"
    if "pk_ok (tpk_account_ids keys)" "pk_ok (tpk_pending_timestamps keys)" for es keys
    using that by (induction es arbitrary: keys) (simp_all add: enqueue_transfer_accounts_def split: option.split)
  show "pk_ok (tpk_transfer_ids (prefetch_create_transfers events g))"
    "pk_ok (tpk_account_ids (prefetch_create_transfers events g))"
    "pk_ok (tpk_pending_timestamps (prefetch_create_transfers events g))"
    using ids accounts
    by (simp_all add: prefetch_create_transfers_def Let_def fold_enqueue_transfer_accounts_ids fold_enqueue_transfer_ids)
qed

text \<open>The accounts and transfers enqueued for a batch, and the pending transfers its posts and voids name.\<close>

definition batch_accounts :: "transfer list \<Rightarrow> state_machine \<Rightarrow> u128 set" where
  "batch_accounts events st =
     set (pk_ordered (tpk_account_ids (prefetch_create_transfers events (hm_get (sm_transfers st)))))"

definition batch_transfers :: "transfer list \<Rightarrow> state_machine \<Rightarrow> u128 set" where
  "batch_transfers events st =
     set (pk_ordered (tpk_transfer_ids (prefetch_create_transfers events (hm_get (sm_transfers st)))))"

definition batch_pendings :: "transfer list \<Rightarrow> u128 set" where
  "batch_pendings events = t_pending_id ` {t \<in> set events. is_post_or_void t}"

lemma batch_pendings_sub: "batch_pendings events \<subseteq> batch_transfers events st"
  by (auto simp: batch_pendings_def batch_transfers_def pk_ordered_contains prefetched_ok prefetch_transfer_ids)

lemma batch_covered:
  "event \<in> set events \<Longrightarrow> covered (batch_accounts events st) (batch_transfers events st) (batch_pendings events) event"
  by (auto simp: covered_def batch_accounts_def batch_transfers_def batch_pendings_def pk_ordered_contains
      prefetched_ok prefetch_transfer_ids prefetch_account_ids_plain)

lemma prefetched_agrees:
  assumes ok: "sm_ok st"
    and pre: "create_transfers_prefetch (prefetch_create_transfers events (hm_get (sm_transfers st))) st = Some (ts, st')"
  shows "agrees (batch_accounts events st) (batch_transfers events st) (batch_pendings events) (objects_view st') (store_view st)"
proof -
  note p = create_transfers_prefetch_ok [OF ok pre]
  obtain A T P where v: "objects_view st' = (A, T, P)" by (cases "objects_view st'")
  have near: "t_debit_account_id p \<in> batch_accounts events st \<and> t_credit_account_id p \<in> batch_accounts events st \<and>
      entry_value (P (t_timestamp p)) = entry_value (store_entry (sm_transfers_pending st) (t_timestamp p))"
    if "k \<in> batch_pendings events" "hm_get (sm_transfers st) k = Some p" for k p
  proof -
    from that obtain e where e: "e \<in> set events" "is_post_or_void e" "hm_get (sm_transfers st) (t_pending_id e) = Some p"
      by (auto simp: batch_pendings_def)
    note keys = prefetch_post_void [where g = "hm_get (sm_transfers st)", OF e]
    then have "t_timestamp p \<in> set (pk_ordered (tpk_pending_timestamps (prefetch_create_transfers events (hm_get (sm_transfers st)))))"
      by (simp add: pk_ordered_contains prefetched_ok)
    from p(8) [OF this] keys(1,2) v show ?thesis
      by (simp add: batch_accounts_def pk_ordered_contains prefetched_ok)
  qed
  show ?thesis
    using p(6,7) near by (auto simp: agrees_def store_view_def batch_accounts_def batch_transfers_def v)
qed

end
