(* ===== verification/Reach.thy ===== *)
theory Reach
  imports LedgerRun
begin

text \<open>
  The operations of the state machine as steps between its states, and the states they reach from
  \<open>sm_default\<close>. The locale \<open>ledger_invariant\<close> is the interface an invariant of the stores and the event log
  has to offer: kept by the writes of one created account, one accepted transfer and one expiry. It is
  then kept by every operation, together with the ledger and the coherence of the caches.
\<close>

section \<open>Invariants of the ledger\<close>

text \<open>The part of the state that only the writes of created events and of expiries change.\<close>

definition same_ledger :: "state_machine \<Rightarrow> state_machine \<Rightarrow> bool" where
  "same_ledger s s' \<longleftrightarrow> sm_stores s' = sm_stores s \<and> sm_accounts_by_timestamp s' = sm_accounts_by_timestamp s \<and>
     sm_account_events s' = sm_account_events s \<and> sm_account_events_index s' = sm_account_events_index s \<and>
     sm_accounts_timestamp_max s' = sm_accounts_timestamp_max s \<and>
     sm_transfers_timestamp_max s' = sm_transfers_timestamp_max s"

definition empty_ledger :: "state_machine \<Rightarrow> bool" where
  "empty_ledger s \<longleftrightarrow> sm_stores s = ([], [], [], []) \<and> sm_accounts_by_timestamp s = [] \<and>
     sm_account_events s = [] \<and> sm_account_events_index s = [] \<and>
     sm_accounts_timestamp_max s = 0 \<and> sm_transfers_timestamp_max s = 0"

lemma same_ledger_refl [simp]: "same_ledger s s"
  by (simp add: same_ledger_def)

lemma same_ledger_trans: "same_ledger a b \<Longrightarrow> same_ledger b c \<Longrightarrow> same_ledger a c"
  by (simp add: same_ledger_def)

lemma persist_orphans_same: "same_ledger st (persist_orphans events results st)"
  unfolding persist_orphans_def by (rule foldl_invariant) (auto simp: same_ledger_def sm_stores_def)

lemma sm_update_pulse_same: "sm_update_pulse_next_timestamp st = Some st' \<Longrightarrow> same_ledger st st' \<and> same_objects st st'"
  by (erule sm_update_pulse_only) (simp add: same_ledger_def sm_stores_def same_objects_def)

definition expirable :: "state_machine \<Rightarrow> u128 \<Rightarrow> bool" where
  "expirable st transfer_id \<longleftrightarrow>
     (\<exists>p. hm_get (sm_transfers st) transfer_id = Some p \<and> tf_pending (t_flags p) \<and> t_timeout p \<noteq> 0)"

lemma sm_expirable_members:
  "sm_expirable st rows = Some xs \<Longrightarrow> (expiry, ts, transfer_id) \<in> set xs \<Longrightarrow> expirable st transfer_id"
  by (induction st rows arbitrary: xs rule: sm_expirable.induct)
    (auto simp: bind_Some_iff expirable_def split: if_split_asm)

text \<open>The writes of one expiry, in their order.\<close>

lemma sm_expire_one_steps:
  assumes r: "sm_expire_one te transfer_id st = Some st'" and p: "hm_get (sm_transfers st) transfer_id = Some p"
    and two: "hm_get (sm_accounts st) (t_debit_account_id p) = Some dr" "hm_get (sm_accounts st) (t_credit_account_id p) = Some cr"
  obtains dr' cr' c1 c2 s1 s2 s3 expiry where "expires_at p = Some expiry" "expiry \<le> te"
    "a_id dr' = a_id dr" "a_ledger dr' = a_ledger dr" "a_id cr' = a_id cr" "a_ledger cr' = a_ledger cr"
    "(if c1 then sm_update_account dr' (st\<lparr>sm_commit_timestamp := te\<rparr>) else Some (st\<lparr>sm_commit_timestamp := te\<rparr>)) = Some s1"
    "(if c2 then sm_update_account cr' s1 else Some s1) = Some s2"
    "sm_update_transfer_pending_status (t_timestamp p) StExpired s2 = Some s3"
    "sm_account_event te dr' cr' 0 StExpired (Some p) 0 (t_amount p) s3 = Some st'"
proof -
  let ?st = "st\<lparr>sm_commit_timestamp := te\<rparr>"
  let ?dr = "dr\<lparr>a_debits_pending := a_debits_pending dr - t_amount p\<rparr>"
  let ?cr = "cr\<lparr>a_credits_pending := a_credits_pending cr - t_amount p\<rparr>"
  define dr' where "dr' = (if tf_closing_debit (t_flags p) then ?dr\<lparr>a_flags := without_closed (a_flags ?dr)\<rparr> else ?dr)"
  define cr' where "cr' = (if tf_closing_credit (t_flags p) then ?cr\<lparr>a_flags := without_closed (a_flags ?cr)\<rparr> else ?cr)"
  have get: "hm_get (sm_transfers ?st) transfer_id = Some p" "hm_get (sm_accounts ?st) (t_debit_account_id p) = Some dr"
    "hm_get (sm_accounts ?st) (t_credit_account_id p) = Some cr"
    using p two by simp_all
  have same: "a_id dr' = a_id dr" "a_ledger dr' = a_ledger dr" "a_id cr' = a_id cr" "a_ledger cr' = a_ledger cr"
    by (simp_all add: dr'_def cr'_def)
  obtain expiry where due: "expires_at p = Some expiry" "expiry \<le> te"
    using r by (auto simp: sm_expire_one_def Let_def p bind_Some_iff ensure_def split: if_split_asm)
  from r obtain s1 s2 s3 where
    "(if t_amount p > 0 \<or> af_closed (a_flags dr') \<noteq> af_closed (a_flags dr) then sm_update_account dr' ?st else Some ?st) = Some s1"
    "(if t_amount p > 0 \<or> af_closed (a_flags cr') \<noteq> af_closed (a_flags cr) then sm_update_account cr' s1 else Some s1) = Some s2"
    "sm_update_transfer_pending_status (t_timestamp p) StExpired s2 = Some s3"
    "sm_account_event te dr' cr' 0 StExpired (Some p) 0 (t_amount p) s3 = Some st'"
    unfolding sm_expire_one_def Let_def get bind.bind_lunit dr'_def [symmetric] cr'_def [symmetric]
    by (auto simp only: bind_Some_iff get option.inject)
  then show thesis by (rule that [OF due same])
qed

lemma sm_expire_one_transfers:
  assumes r: "sm_expire_one te transfer_id st = Some st'"
  shows "sm_transfers st' = sm_transfers st"
proof -
  obtain A T P B where s: "sm_stores st = (A, T, P, B)" by (cases "sm_stores st")
  show ?thesis by (rule sm_expire_one_stores [OF r s]) (use s in \<open>auto simp: sm_stores_sel\<close>)
qed

lemma sm_expire_one_objects: "sm_expire_one te transfer_id st = Some st' \<Longrightarrow> same_objects st st'"
proof -
  assume "sm_expire_one te transfer_id st = Some st'"
  then have "same_objects (st\<lparr>sm_commit_timestamp := te\<rparr>) st'"
    by (auto simp: sm_expire_one_def Let_def bind_Some_iff dest!: store_writes_objects
        intro: same_objects_trans split: if_split_asm)
  then show ?thesis by (simp add: same_objects_def)
qed

lemma sm_expire_one_backed:
  assumes r: "sm_expire_one te transfer_id st = Some st'" and bk: "backed v (store_view st)"
  shows "backed v (store_view st')"
proof -
  obtain A T P B where s: "sm_stores st = (A, T, P, B)" by (cases "sm_stores st")
  obtain VA VT VP where v: "v = (VA, VT, VP)" by (cases v)
  show ?thesis
    by (rule sm_expire_one_stores [OF r s])
      (use bk in \<open>auto simp: v backed_def store_view_stores [OF s] dest!: store_view_stores split: if_splits\<close>)
qed

lemma accepted_flags:
  "is_post_or_void event \<Longrightarrow> accepts v event amount \<Longrightarrow> post_void_flags (t_flags event)"
  using post_or_void_CreatedD(2,3) by (cases v) (fastforce simp: accepts_def accepts_post_void_def post_void_flags_def)

locale ledger_invariant =
  fixes Q :: "state_machine \<Rightarrow> bool"
  assumes init: "empty_ledger s \<Longrightarrow> Q s"
    and frame: "same_ledger s s' \<Longrightarrow> Q s \<Longrightarrow> Q s'"
    and account: "ledger_ok (sm_stores s) \<Longrightarrow> Q s \<Longrightarrow> fresh_account a \<Longrightarrow> a_timestamp a AND TOMBSTONE_BIT = 0 \<Longrightarrow>
      hm_get (sm_accounts s) (a_id a) = None \<Longrightarrow> sm_insert_account (a_id a) a s = Some s' \<Longrightarrow> Q s'"
    and transfer: "ledger_ok (sm_stores s) \<Longrightarrow> Q s \<Longrightarrow> accepts (store_view s) event amount \<Longrightarrow>
      hm_get (sm_transfers s) (t_id event) = None \<Longrightarrow> ts AND TOMBSTONE_BIT = 0 \<Longrightarrow>
      sm_persist_transfer (event\<lparr>t_timestamp := ts\<rparr>) amount s = Some s' \<Longrightarrow> Q s'"
    and expire: "ledger_ok (sm_stores s) \<Longrightarrow> Q s \<Longrightarrow> expirable s transfer_id \<Longrightarrow>
      sm_expire_one te transfer_id s = Some s' \<Longrightarrow> Q s'"
begin

lemma create_accounts_keeps:
  assumes ok: "sm_ok st" and Q: "Q st" and small: "length events < 2 ^ 64" "unat timestamp < 2 ^ 63"
    and r: "create_accounts events timestamp st = Some (reply, st')"
  shows "\<exists>results. length results = length events \<and> account_results_to_bytes results = Some reply \<and>
    chains_atomic events results \<and>
    store_entry (sm_accounts st') = created_entries (store_entry (sm_accounts st)) events results \<and>
    snd (store_view st') = snd (store_view st) \<and> sm_ok st' \<and> Q st'"
proof -
  let ?prefetch = "prefetch_create_accounts events"
  from r obtain ts st1 results objects where
    pre: "create_accounts_prefetch ?prefetch st = Some (ts, st1)"
    and exec: "execute_create_accounts events timestamp ?prefetch (sm_accounts_objects st1)
      (sm_accounts_timestamp_max st1) ts = Some (results, objects)"
    and persist: "persist_accounts events results timestamp (st1\<lparr>sm_accounts_objects := objects\<rparr>) = Some st'"
    and reply: "account_results_to_bytes results = Some reply"
    by (auto simp: create_accounts_def panic_simps Let_def)
  note p = create_accounts_prefetch_ok [OF ok pre]
  let ?st = "st1\<lparr>sm_accounts_objects := objects\<rparr>"
  have same: "same_ledger st ?st" by (subst p(4)) (simp add: same_ledger_def sm_stores_def)
  have idle: "cm_ok account_cache_spec (sm_accounts_objects st1)" "\<not> cm_scope_is_active (sm_accounts_objects st1)"
    using p(1) by (simp_all add: sm_ok_def objects_ok_def)
  note batch = execute_create_accounts_refines [OF idle small exec]
  note vs = execute_create_accounts_verdicts [OF idle small exec]
  have len: "length results = length events" and atomic: "chains_atomic events results" using batch by blast+
  have stores: "sm_stores ?st = sm_stores st" using same by (simp add: same_ledger_def)
  have created_event: "created_account (cm_entry account_cache_spec (sm_accounts_objects st1)) timestamp events i"
    if "i < length events" "created (results ! i)" for i
    using vs that len by (simp add: ca_verdicts_def verdicts_def)
  have unknown: "hm_get (sm_accounts st) (a_id (events ! i)) = None" if "i < length events" "created (results ! i)" for i
  proof (rule ccontr)
    assume some: "hm_get (sm_accounts st) (a_id (events ! i)) \<noteq> None"
    with p(3) [OF prefetched_accounts [OF that(1)] some] created_event [OF that]
    show False by (auto simp: objects_view_def created_account_def store_entry_def split: option.splits)
  qed
  let ?I = "\<lambda>i s. ledger_ok (sm_stores s) \<and> (\<forall>j. i \<le> j \<longrightarrow> j < length events \<longrightarrow> created (results ! j) \<longrightarrow>
      hm_get (sm_accounts s) (a_id (events ! j)) = None) \<and> same_objects ?st s \<and> Q s"
  have "?I (length events) st' \<and> store_entry (sm_accounts st') = created_entries (store_entry (sm_accounts ?st)) events results \<and>
      snd (store_view st') = snd (store_view ?st)"
  proof (rule persist_accounts_applied [where I = ?I, OF _ _ _ len atomic vs persist])
    fix i s s'
    assume i: "i < length events" "created (results ! i)" "?I i s"
      and at: "persist_account_at (length events) timestamp i (events ! i) (results ! i) s = Some s'"
    let ?a = "(events ! i)\<lparr>a_timestamp := car_timestamp (results ! i)\<rparr>"
    note insert = persist_account_at_event [OF at]
    have fresh: "fresh_account ?a" "hm_get (sm_accounts s) (a_id ?a) = None" "sm_insert_account (a_id ?a) ?a s = Some s'"
      using i insert created_event [OF i(1,2)] by (simp_all add: fresh_account_stamped created_account_def)
    have live: "a_timestamp ?a AND TOMBSTONE_BIT = 0"
      using persist_account_at_live [OF at i(1) small] created_event [OF i(1,2)] by (simp add: created_account_def)
    have "ledger_ok (sm_stores s')" "Q s'"
      using sm_insert_account_ledger [of s ?a s'] account [of s ?a s'] i(3) fresh live by blast+
    moreover have "hm_get (sm_accounts s') (a_id (events ! j)) = None"
      if "Suc i \<le> j" "j < length events" "created (results ! j)" for j
    proof -
      have "a_id (events ! i) \<noteq> a_id (events ! j)" using vs that i(2) len by (auto simp: ca_verdicts_def distinct_ids_def)
      then show ?thesis using insert i(3) that by (auto simp: sm_insert_account_def panic_simps)
    qed
    moreover have "same_objects ?st s'"
      using insert i(3) by (auto simp: sm_insert_account_def panic_simps same_objects_def)
    ultimately show "?I (Suc i) s'" by blast
  next
    show "?I 0 ?st"
      using ok stores unknown frame [OF same Q] by (simp add: sm_ok_def same_objects_def sm_stores_def)
  qed auto
  then have run: "ledger_ok (sm_stores st')" "same_objects ?st st'" "Q st'"
      "store_entry (sm_accounts st') = created_entries (store_entry (sm_accounts ?st)) events results"
      "snd (store_view st') = snd (store_view ?st)" by blast+
  have views: "store_view ?st = store_view st" "sm_accounts ?st = sm_accounts st"
    using stores store_view_cong [OF stores] by (simp_all add: sm_stores_def)
  have "objects_ok st'"
    using same_objects_ok [OF run(2)] p(1) batch by (simp add: sm_ok_def objects_ok_def)
  moreover have "backed (objects_view st') (store_view st')"
  proof -
    have before: "backed (objects_view st1) (store_view st)"
      using p(1,2) store_view_cong [OF p(2)] by (simp add: sm_ok_def)
    obtain A T P A' T' P' where v: "objects_view st1 = (A, T, P)" "store_view st = (A', T', P')"
      by (cases "objects_view st1"; cases "store_view st")
    then have "objects_view st' = (created_entries A events results, T, P)"
      "store_view st' = (created_entries A' events results, T', P')"
      using same_objects_view [OF run(2)] run(4,5) views batch(4) by (simp_all add: objects_view_def store_view_def)
    with before v show ?thesis using created_entries_backed [of A A'] by (auto simp: backed_def)
  qed
  ultimately show ?thesis using len reply atomic run views by (auto simp: sm_ok_def)
qed

lemma create_transfers_keeps:
  assumes ok: "sm_ok st" and Q: "Q st" and small: "length events < 2 ^ 64" "unat timestamp < 2 ^ 63"
    and r: "create_transfers events timestamp st = Some (reply, st')"
  shows "\<exists>results. length results = length events \<and> transfer_results_to_bytes results = Some reply \<and>
    transfer_chains_atomic events results \<and> accepted_all (store_view st) events results \<and>
    store_view st' = transfers_applied (store_view st) events results \<and> sm_ok st' \<and> Q st'"
proof -
  let ?prefetch = "prefetch_create_transfers events (hm_get (sm_transfers st))"
  from r obtain ts st1 where pre: "create_transfers_prefetch ?prefetch st = Some (ts, st1)"
    by (auto simp: create_transfers_def panic_simps Let_def)
  define env where "env = \<lparr>ce_events = events, ce_timestamp = timestamp, ce_account_timestamps = ts,
    ce_account_timestamps_enqueued = tpk_account_timestamps ?prefetch,
    ce_is_orphaned = (\<lambda>transfer_id. transfer_id \<in> sm_transfers_orphaned st1), ce_prefetch = ?prefetch\<rparr>"
  from r pre obtain results ct where
    exec: "execute_create_transfers env (sm_accounts_objects st1) (sm_transfers_objects st1)
      (sm_transfers_pending_objects st1) (sm_transfers_timestamp_max st1) {} = Some (results, ct)"
    and persist: "persist_transfers events results timestamp
      (st1\<lparr>sm_accounts_objects := ct_accounts ct, sm_transfers_objects := ct_transfers ct,
         sm_transfers_pending_objects := ct_pending ct\<rparr>) = Some st'"
    and reply: "transfer_results_to_bytes results = Some reply"
    by (auto simp: create_transfers_def panic_simps Let_def env_def)
  have env: "ce_events env = events" "ce_timestamp env = timestamp" by (simp_all add: env_def)
  note p = create_transfers_prefetch_ok [OF ok pre]
  let ?st = "st1\<lparr>sm_accounts_objects := ct_accounts ct, sm_transfers_objects := ct_transfers ct,
     sm_transfers_pending_objects := ct_pending ct\<rparr>"
  let ?begun = "persist_orphans events results ?st"
  have same: "same_ledger st ?st" by (subst p(9)) (simp add: same_ledger_def sm_stores_def)
  have idle: "cm_ok account_cache_spec (sm_accounts_objects st1)" "cm_ok transfer_cache_spec (sm_transfers_objects st1)"
    "cm_ok transfer_pending_cache_spec (sm_transfers_pending_objects st1)"
    "\<not> cm_scope_is_active (sm_accounts_objects st1)" "\<not> cm_scope_is_active (sm_transfers_objects st1)"
    "\<not> cm_scope_is_active (sm_transfers_pending_objects st1)"
    using p(1) by (simp_all add: sm_ok_def objects_ok_def)
  note batch = execute_create_transfers_refines [OF idle _ _ exec, unfolded env, OF small]
  note vs = execute_create_transfers_verdicts [OF idle _ _ exec, unfolded env, OF small, folded objects_view_def]
  have len: "length results = length events" and atomic: "transfer_chains_atomic events results" by (fact batch)+
  have stores: "sm_stores ?st = sm_stores st" using same by (simp add: same_ledger_def)
  have "backed (objects_view st1) (store_view st)" using p(1,2) store_view_cong [OF p(2)] by (simp add: sm_ok_def)
  with batch_agrees [OF prefetched_agrees [OF ok pre] _ batch_pendings_sub batch_covered _ len] vs
  have coherent: "accepted_all (store_view st) events results"
    "backed (transfers_applied (objects_view st1) events results) (transfers_applied (store_view st) events results)"
    by (simp_all add: ct_verdicts_def)
  have created_event: "created_transfer_event (objects_view st1) timestamp events i"
    if "i < length events" "created_transfer (results ! i)" for i
    using vs that len by (simp add: ct_verdicts_def verdicts_def)
  have unknown: "hm_get (sm_transfers st) (t_id (events ! i)) = None"
    if "i < length events" "created_transfer (results ! i)" for i
  proof (rule ccontr)
    assume some: "hm_get (sm_transfers st) (t_id (events ! i)) \<noteq> None"
    with p(4) [OF prefetched_transfers [OF that(1)] some] created_event [OF that]
    show False by (auto simp: created_transfer_event_def recorded_in_def store_entry_def split: option.splits)
  qed
  let ?I = "\<lambda>i s. ledger_ok (sm_stores s) \<and> (\<forall>j. i \<le> j \<longrightarrow> j < length events \<longrightarrow> created_transfer (results ! j) \<longrightarrow>
      \<not> recorded_in (store_view s) (t_id (events ! j))) \<and> same_objects ?st s \<and> Q s"
  have "?I (length events) st' \<and> store_view st' = transfers_applied (store_view ?st) events results"
  proof (rule persist_transfers_applied [where I = ?I, OF _ _ _ len atomic vs persist])
    fix i s s'
    assume i: "i < length events" "created_transfer (results ! i)" "?I i s"
      and reached: "store_view s = transfers_applied (store_view ?st) (take i events) (take i results)"
      and at: "persist_transfer_at (length events) timestamp i (events ! i) (results ! i) s = Some s'"
    let ?t = "(events ! i)\<lparr>t_timestamp := ctr_timestamp (results ! i)\<rparr>"
    note one = persist_transfer_at_event [OF at] and event = created_event [OF i(1,2)]
    have live: "ctr_timestamp (results ! i) AND TOMBSTONE_BIT = 0"
      using persist_transfer_at_live [OF at i(1) small] event by (simp add: created_transfer_event_def)
    have new: "hm_get (sm_transfers s) (t_id (events ! i)) = None" using i by (simp add: recorded_store)
    have "ledger_ok (sm_stores s')"
      by (rule sm_persist_transfer_ledger [OF _ one _ _])
        (use i event live in \<open>auto simp: recorded_store stamped_simps created_transfer_event_def\<close>)
    moreover have "accepts (store_view s) (events ! i) (ctr_amount_actual (results ! i))"
      using coherent(1) i(1,2) len store_view_cong [OF stores] by (simp add: reached accepted_all_def verdicts_def)
    then have "Q s'" using transfer [OF _ _ _ new live one] i(3) by blast
    moreover have "\<not> recorded_in (store_view s') (t_id (events ! j))"
      if "Suc i \<le> j" "j < length events" "created_transfer (results ! j)" for j
    proof -
      have "t_id (events ! j) \<noteq> t_id (events ! i)" using vs that i(2) len
        unfolding ct_verdicts_def distinct_ids_def by (metis Suc_le_lessD)
      moreover have "store_view s' = apply_transfer (store_view s) (events ! i) (results ! i)"
        by (rule persist_transfer_at_view [OF at i(2)])
          (use event in \<open>simp add: created_transfer_event_def post_void_flags_def\<close>)
      ultimately show ?thesis using i(3) that apply_transfer_records by fastforce
    qed
    moreover have "same_objects ?st s'" using same_objects_trans [OF _ sm_persist_transfer_objects [OF one]] i(3) by blast
    ultimately show "?I (Suc i) s'" by blast
  next
    show "?I 0 ?begun"
      using ok stores unknown frame [OF same_ledger_trans [OF same persist_orphans_same] Q]
        persist_orphans_objects [of ?st events results] persist_orphans_stores [of events results ?st]
        store_view_cong [OF persist_orphans_stores, of events results ?st] store_view_cong [OF stores]
      by (simp add: sm_ok_def recorded_store)
  qed auto
  then have run: "ledger_ok (sm_stores st')" "same_objects ?st st'" "Q st'"
      "store_view st' = transfers_applied (store_view st) events results"
    using store_view_cong [OF stores] by auto
  have "objects_ok st'"
    using same_objects_ok [OF run(2)] batch(2) by (simp add: objects_ok_def ct_caches_ok_def)
  moreover have "objects_view st' = transfers_applied (objects_view st1) events results"
    using same_objects_view [OF run(2)] batch(3) by (simp add: objects_view_def ct_view_def)
  ultimately show ?thesis using len reply atomic run coherent by (auto simp: sm_ok_def)
qed

lemma expire_due_keeps:
  "sm_expire_due timestamp len index due st = Some st' \<Longrightarrow> sm_ok st \<Longrightarrow> Q st \<Longrightarrow>
     (\<And>transfer_id. transfer_id \<in> set due \<Longrightarrow> expirable st transfer_id) \<Longrightarrow> sm_ok st' \<and> Q st'"
proof (induction due arbitrary: index st)
  case (Cons transfer_id due)
  from Cons.prems(1) obtain te s where one: "sm_expire_one te transfer_id st = Some s"
    and more: "sm_expire_due timestamp len (Suc index) due s = Some st'"
    by (auto simp: bind_Some_iff)
  have "sm_ok s"
    using Cons.prems(2) sm_expire_one_ledger [OF _ one] sm_expire_one_backed [OF one]
      same_objects_ok [OF sm_expire_one_objects [OF one]] same_objects_view [OF sm_expire_one_objects [OF one]]
    by (simp add: sm_ok_def)
  moreover have "Q s" using expire [OF _ _ _ one] Cons.prems by (simp add: sm_ok_def)
  moreover have "expirable s k" if "k \<in> set due" for k
    using Cons.prems(4) [of k] that sm_expire_one_transfers [OF one] by (simp add: expirable_def)
  ultimately show ?case by (rule Cons.IH [OF more])
qed simp

lemma expire_pending_transfers_keeps:
  assumes ok: "sm_ok st" "Q st" and r: "sm_expire_pending_transfers timestamp st = Some st'"
  shows "sm_ok st' \<and> Q st'"
proof -
  from r obtain xs s1 where xs: "sm_expirable st (sm_transfers_pending st) = Some xs"
    and due: "sm_expire_due timestamp (length (sort (filter (\<lambda>(expiry, _). expiry \<le> timestamp) xs))) 0
       (map (snd \<circ> snd) (sort (filter (\<lambda>(expiry, _). expiry \<le> timestamp) xs))) st = Some s1"
    and pulse: "sm_update_pulse_next_timestamp s1 = Some st'"
    by (auto simp: sm_expire_pending_transfers_def panic_simps Let_def)
  have "sm_ok s1 \<and> Q s1"
    by (rule expire_due_keeps [OF due ok]) (use sm_expirable_members [OF xs] in auto)
  moreover have same: "same_ledger s1 st'" "same_objects s1 st'" using sm_update_pulse_same [OF pulse] by simp_all
  moreover have "store_view st' = store_view s1" by (rule store_view_cong) (use same in \<open>simp add: same_ledger_def\<close>)
  ultimately show ?thesis
    using frame [OF same(1)] same_objects_ok [OF same(2)] same_objects_view [OF same(2)]
    by (simp add: sm_ok_def same_ledger_def)
qed

end

section \<open>Start, clock and compaction\<close>

lemma cm_compact_ok: "cm_ok S m \<Longrightarrow> cm_compact m = Some m' \<Longrightarrow> cm_ok S m' \<and> \<not> cm_scope_is_active m'"
  by (auto simp: cm_compact_def panic_simps cm_ok_def cm_core_ok_def cm_cached_def)

lemma cm_compact_found: "cm_compact m = Some m' \<Longrightarrow> cm_entry S m' k = Found v \<Longrightarrow> cm_entry S m k = Found v"
  by (auto simp: cm_compact_def panic_simps cm_entry_def cm_cached_def split: option.splits)

lemma backed_shrink:
  assumes "backed v w"
    and "\<And>k a. A k = Found a \<Longrightarrow> fst v k = Found a" "\<And>k t. T k = Found t \<Longrightarrow> fst (snd v) k = Found t"
    and "\<And>ts row. P ts = Found row \<Longrightarrow> snd (snd v) ts = Found row"
  shows "backed (A, T, P) w"
  using assms by (cases v; cases w) (fastforce simp: backed_def)

lemma sm_compact_ok:
  assumes ok: "sm_ok st" and r: "sm_compact n op st = Some st'"
  shows "sm_ok st' \<and> same_ledger st st'"
proof (cases "unat op mod n = n - 1")
  case False
  then show ?thesis using r ok by (auto simp: sm_compact_def split: if_splits)
next
  case True
  with r obtain accounts transfers pendings where
    c: "cm_compact (sm_accounts_objects st) = Some accounts" "cm_compact (sm_transfers_objects st) = Some transfers"
      "cm_compact (sm_transfers_pending_objects st) = Some pendings"
    and st': "st' = st\<lparr>sm_accounts_objects := accounts, sm_transfers_objects := transfers, sm_transfers_pending_objects := pendings\<rparr>"
    by (auto simp: sm_compact_def bind_Some_iff)
  have "backed (objects_view st') (store_view st')"
    unfolding objects_view_def
  proof (rule backed_shrink)
    show "backed (objects_view st) (store_view st')" using ok by (simp add: sm_ok_def st' store_view_def)
  qed (use c cm_compact_found in \<open>fastforce simp: objects_view_def st'\<close>)+
  moreover have "objects_ok st'"
    using ok cm_compact_ok [OF _ c(1), of account_cache_spec] cm_compact_ok [OF _ c(2), of transfer_cache_spec]
      cm_compact_ok [OF _ c(3), of transfer_pending_cache_spec]
    by (simp add: sm_ok_def objects_ok_def st')
  ultimately show ?thesis using ok by (simp add: sm_ok_def st' same_ledger_def sm_stores_def)
qed

lemma sm_default_ok:
  assumes "sm_default n = Some st"
  shows "sm_ok st \<and> empty_ledger st"
proof -
  from assms obtain accounts transfers pendings where
    new: "cm_new account_cache_spec (objects_cache_options n) = Some accounts"
      "cm_new transfer_cache_spec (objects_cache_options n) = Some transfers"
      "cm_new transfer_pending_cache_spec (objects_cache_options n) = Some pendings"
    and caches: "sm_accounts_objects st = accounts" "sm_transfers_objects st = transfers" "sm_transfers_pending_objects st = pendings"
    and stores: "empty_ledger st"
    by (auto simp: sm_default_def bind_Some_iff empty_ledger_def sm_stores_def)
  have "co_cache_value_count_max (objects_cache_options n) < 2 ^ 64" by (simp add: objects_cache_options_def)
  note e = cm_new_empty [OF new(1) groove_layouts(1) this] cm_new_empty [OF new(2) groove_layouts(2) this]
    cm_new_empty [OF new(3) groove_layouts(3) this]
  have "backed (objects_view st) (store_view st)"
    by (cases "store_view st") (simp add: backed_def objects_view_def caches e)
  then show ?thesis
    using stores e by (simp add: sm_ok_def objects_ok_def caches empty_ledger_def ledger_ok_def stores_wf_def stores_reconcile_def)
qed

text \<open>The clock and the prefetch marker are no part of the ledger.\<close>

lemma sm_ok_cong: "same_ledger st st' \<Longrightarrow> same_objects st st' \<Longrightarrow> sm_ok st' = sm_ok st"
  using same_objects_ok [of st st'] same_objects_view [of st st'] store_view_cong [of st' st]
  by (simp add: sm_ok_def same_ledger_def)

section \<open>Reachable states\<close>

text \<open>
  The operations a replica drives: batches of accounts and transfers, the expiry of pending
  transfers, the clock and compaction, in any order and with any input. The commit timestamp is
  below \<open>TIMESTAMP_MAX\<close> and a batch has fewer events than a \<open>u64\<close> counts.
\<close>

inductive sm_step :: "nat \<Rightarrow> state_machine \<Rightarrow> state_machine \<Rightarrow> bool" for n where
  step_accounts: "length events < 2 ^ 64 \<Longrightarrow> unat timestamp < 2 ^ 63 \<Longrightarrow>
    create_accounts events timestamp st = Some (reply, st') \<Longrightarrow> sm_step n st st'"
| step_transfers: "length events < 2 ^ 64 \<Longrightarrow> unat timestamp < 2 ^ 63 \<Longrightarrow>
    create_transfers events timestamp st = Some (reply, st') \<Longrightarrow> sm_step n st st'"
| step_expire: "sm_expire_pending_transfers timestamp st = Some st' \<Longrightarrow> sm_step n st st'"
| step_execute_op: "sm_execute_op timestamp st = Some st' \<Longrightarrow> sm_step n st st'"
| step_set_clock: "sm_step n st (sm_set_commit_timestamp timestamp st)"
| step_prefetch: "sm_step n st (st\<lparr>sm_prefetch_snapshot := snapshot, sm_prefetch_operation := operation\<rparr>)"
| step_compact: "sm_compact n op st = Some st' \<Longrightarrow> sm_step n st st'"

inductive sm_reachable :: "nat \<Rightarrow> state_machine \<Rightarrow> bool" for n where
  reachable_init: "sm_default n = Some st \<Longrightarrow> sm_reachable n st"
| reachable_step: "sm_reachable n st \<Longrightarrow> sm_step n st st' \<Longrightarrow> sm_reachable n st'"

inductive_cases sm_step_cases: "sm_step n st st'"

lemma sm_step_same:
  "sm_execute_op timestamp st = Some st' \<Longrightarrow> same_ledger st st' \<and> same_objects st st'"
  "same_ledger st (sm_set_commit_timestamp timestamp st) \<and> same_objects st (sm_set_commit_timestamp timestamp st)"
  "same_ledger st (st\<lparr>sm_prefetch_snapshot := snapshot, sm_prefetch_operation := operation\<rparr>) \<and>
   same_objects st (st\<lparr>sm_prefetch_snapshot := snapshot, sm_prefetch_operation := operation\<rparr>)"
  by (auto simp: sm_execute_op_def sm_set_commit_timestamp_def panic_simps same_ledger_def sm_stores_def same_objects_def)

context ledger_invariant
begin

lemma step_keeps: "sm_step n st st' \<Longrightarrow> sm_ok st \<Longrightarrow> Q st \<Longrightarrow> sm_ok st' \<and> Q st'"
proof (induction rule: sm_step.induct)
  case (step_accounts events timestamp st reply st')
  then show ?case using create_accounts_keeps by blast
next
  case (step_transfers events timestamp st reply st')
  then show ?case using create_transfers_keeps by blast
next
  case (step_expire timestamp st st')
  then show ?case using expire_pending_transfers_keeps by blast
next
  case (step_compact op st st')
  then show ?case using sm_compact_ok frame by blast
qed (use sm_step_same sm_ok_cong frame in blast)+

lemma reachable_keeps: "sm_reachable n st \<Longrightarrow> sm_ok st \<and> Q st"
proof (induction rule: sm_reachable.induct)
  case (reachable_init st)
  then show ?case using sm_default_ok init by blast
qed (use step_keeps in blast)

end

text \<open>The ledger and the caches on their own.\<close>

interpretation ledger: ledger_invariant "\<lambda>_. True"
  by unfold_locales simp_all

lemma create_accounts_step:
  assumes "sm_ok st" "length events < 2 ^ 64" "unat timestamp < 2 ^ 63" "create_accounts events timestamp st = Some (reply, st')"
  shows "\<exists>results. length results = length events \<and> account_results_to_bytes results = Some reply \<and>
    chains_atomic events results \<and>
    store_entry (sm_accounts st') = created_entries (store_entry (sm_accounts st)) events results \<and>
    snd (store_view st') = snd (store_view st) \<and> sm_ok st'"
  using ledger.create_accounts_keeps [OF assms(1) _ assms(2-4)] by simp

lemma create_transfers_step:
  assumes "sm_ok st" "length events < 2 ^ 64" "unat timestamp < 2 ^ 63" "create_transfers events timestamp st = Some (reply, st')"
  shows "\<exists>results. length results = length events \<and> transfer_results_to_bytes results = Some reply \<and>
    transfer_chains_atomic events results \<and> accepted_all (store_view st) events results \<and>
    store_view st' = transfers_applied (store_view st) events results \<and> sm_ok st'"
  using ledger.create_transfers_keeps [OF assms(1) _ assms(2-4)] by simp

lemma sm_expire_pending_transfers_step:
  "sm_ok st \<Longrightarrow> sm_expire_pending_transfers timestamp st = Some st' \<Longrightarrow> sm_ok st'"
  using ledger.expire_pending_transfers_keeps by simp

lemma sm_reachable_ok: "sm_reachable n st \<Longrightarrow> sm_ok st"
  using ledger.reachable_keeps by blast

end
