(* ===== verification/Soundness.thy ===== *)
theory Soundness
  imports Reach
begin

text \<open>
  The balances as numbers. In every reachable state the reconciliation of \<open>Ledger\<close> holds in the
  integers, so no balance ever wrapped, and every account satisfies \<open>account_inv\<close>: its totals fit in
  128 bits and respect the limits its flags declare. The inductive argument needs both at once: a
  post, void or expiry takes an amount out of a pending balance that is known to contain it only
  because the balance is the exact sum of the amounts still open.
\<close>

section \<open>A pending balance contains every open amount\<close>

lemma hm_sum_member:
  fixes f :: "'v \<Rightarrow> int"
  assumes "\<And>v. 0 \<le> f v" "hm_get m k = Some v"
  shows "f v \<le> hm_sum f m"
proof -
  have "f v \<in> set (map f (hm_values m))" using hm_get_set [OF assms(2)] by (force simp: hm_values_def)
  then show ?thesis unfolding hm_sum_def by (rule member_le_sum_list) (use assms(1) in auto)
qed

lemma side_total_member:
  assumes "hm_get T k = Some p"
  shows "uint (f p) \<le> side_total (\<lambda>t. uint (f t)) side (side p) T"
  using hm_sum_member [OF _ assms, of "\<lambda>t. if side t = side p then uint (f t) else 0"] by (simp add: side_total_def)

lemma open_amount_held:
  assumes reconciles: "stores_reconcile uint (A, T, P, B)"
    and p: "hm_get T k = Some p" "tf_pending (t_flags p)" "map_option tp_status (hm_get P (t_timestamp p)) = Some StPending"
    and two: "hm_get A (t_debit_account_id p) = Some dr" "hm_get A (t_credit_account_id p) = Some cr"
  shows "t_amount p \<le> a_debits_pending dr" "t_amount p \<le> a_credits_pending cr"
proof -
  have "open_amount P p = t_amount p" using p by (simp add: open_amount_def)
  then show "t_amount p \<le> a_debits_pending dr" "t_amount p \<le> a_credits_pending cr"
    using stores_reconcileD [OF reconciles two(1)] stores_reconcileD [OF reconciles two(2)]
      side_total_member [OF p(1), of "open_amount P" t_debit_account_id]
      side_total_member [OF p(1), of "open_amount P" t_credit_account_id]
    by (simp_all add: account_reconciles_def word_le_def)
qed

section \<open>The moves are exact\<close>

lemma uint_by_unat: "unat x = unat y + n \<Longrightarrow> uint x = uint y + int n"
  unfolding uint_nat by simp

lemma exact_moves_by:
  assumes "debit_by dr dr' (unat pending) (unat posted)" "credit_by cr cr' (unat pending) (unat posted)"
  shows "moves_by uint (uint pending) (uint posted) (dr, cr) (dr', cr')"
  using assms by (auto simp: moves_by_def debit_by_def credit_by_def dest!: uint_by_unat)

lemma commit_transfer_moves_exactly:
  assumes "create_transfer event ts ex dr cr = Some CT_Created" "commit_transfer_accounts event amount dr cr = accounts"
    and "amount = compute_amount_actual event dr cr"
  shows "moves_by uint (uint (if tf_pending (t_flags event) then amount else 0))
    (uint (if tf_pending (t_flags event) then 0 else amount)) (dr, cr) accounts"
proof -
  obtain dr' cr' where accounts: "accounts = (dr', cr')" by (cases accounts)
  note ex = commit_transfer_accounts_exact [OF assms(1) assms(2) [unfolded accounts] assms(3)]
  show ?thesis unfolding accounts by (rule exact_moves_by) (use ex in \<open>simp_all split: if_splits\<close>)
qed

lemma commit_post_void_moves_exactly:
  assumes commit: "commit_post_void_accounts event p amount dr cr = Some accounts"
    and held: "t_amount p \<le> a_debits_pending dr" "t_amount p \<le> a_credits_pending cr"
    and inv: "account_inv dr" "account_inv cr"
  shows "moves_by uint (- uint (t_amount p)) (uint (if tf_post_pending_transfer (t_flags event) then amount else 0)) (dr, cr) accounts"
proof -
  obtain dr' cr' where accounts: "accounts = (dr', cr')" by (cases accounts)
  note ex = commit_post_void_exact [OF commit [unfolded accounts] held [unfolded word_le_nat_alt] inv]
  have "uint (a_debits_pending dr') = uint (a_debits_pending dr) - uint (t_amount p)"
    "uint (a_credits_pending cr') = uint (a_credits_pending cr) - uint (t_amount p)"
    using ex(1,2) held unfolding uint_nat word_le_nat_alt by (simp_all add: of_nat_diff)
  then show ?thesis using ex(3,4,6-9) by (auto simp: accounts moves_by_def dest!: uint_by_unat)
qed

section \<open>The accounts of the store\<close>

definition accounts_sound :: "state_machine \<Rightarrow> bool" where
  "accounts_sound s \<longleftrightarrow> stores_reconcile uint (sm_stores s) \<and>
     (\<forall>account_id a. hm_get (sm_accounts s) account_id = Some a \<longrightarrow> account_inv a)"

lemma accounts_soundD:
  assumes "accounts_sound s" "sm_stores s = (A, T, P, B)"
  shows "stores_reconcile uint (A, T, P, B)" "hm_get A k = Some a \<Longrightarrow> account_inv a"
  using assms by (auto simp: accounts_sound_def sm_stores_sel)

lemma sm_stores_accounts: "sm_stores s = (A, T, P, B) \<Longrightarrow> sm_accounts s = A"
  by (simp add: sm_stores_def)

lemma fresh_account_inv: "fresh_account a \<Longrightarrow> account_inv a"
  by (simp add: fresh_account_def account_inv_def debits_total_def credits_total_def)

lemma account_inv_released:
  assumes "account_inv a" "pending \<le> a_debits_pending a" "flags \<in> {a_flags a, without_closed (a_flags a)}"
  shows "account_inv (a\<lparr>a_debits_pending := a_debits_pending a + (- pending), a_flags := flags\<rparr>)"
proof -
  have "unat (a_debits_pending a - pending) \<le> unat (a_debits_pending a)" using assms(2) by (simp add: unat_sub_le word_le_nat_alt)
  moreover have "af_debits_must_not_exceed_credits flags = af_debits_must_not_exceed_credits (a_flags a)"
    "af_credits_must_not_exceed_debits flags = af_credits_must_not_exceed_debits (a_flags a)"
    using assms(3) by auto
  ultimately show ?thesis using assms(1) by (auto simp: account_inv_def debits_total_def credits_total_def)
qed

lemma account_inv_released_credit:
  assumes "account_inv a" "pending \<le> a_credits_pending a" "flags \<in> {a_flags a, without_closed (a_flags a)}"
  shows "account_inv (a\<lparr>a_credits_pending := a_credits_pending a + (- pending), a_flags := flags\<rparr>)"
proof -
  have "unat (a_credits_pending a - pending) \<le> unat (a_credits_pending a)" using assms(2) by (simp add: unat_sub_le word_le_nat_alt)
  moreover have "af_debits_must_not_exceed_credits flags = af_debits_must_not_exceed_credits (a_flags a)"
    "af_credits_must_not_exceed_debits flags = af_credits_must_not_exceed_debits (a_flags a)"
    using assms(3) by auto
  ultimately show ?thesis using assms(1) by (auto simp: account_inv_def debits_total_def credits_total_def)
qed

lemma stored_after_move:
  assumes "hm_get (hm_insert (a_id cr') cr' (hm_insert (a_id dr') dr' A)) k = Some a"
    and "\<And>k a. hm_get A k = Some a \<Longrightarrow> account_inv a" "account_inv dr' \<and> account_inv cr'"
  shows "account_inv a"
  using assms by (auto split: if_splits)

lemma persist_regular_sound:
  assumes ok: "ledger_ok (sm_stores s)" and sound: "accounts_sound s" and plain: "\<not> is_post_or_void event"
    and accepted: "accepts (store_view s) event amount" and new: "hm_get (sm_transfers s) (t_id event) = None"
    and live: "ts AND TOMBSTONE_BIT = 0" and r: "sm_persist_transfer (event\<lparr>t_timestamp := ts\<rparr>) amount s = Some s'"
  shows "accounts_sound s'"
proof -
  let ?event = "event\<lparr>t_timestamp := ts\<rparr>"
  obtain A T P B where s: "sm_stores s = (A, T, P, B)" by (cases "sm_stores s")
  note old = accounts_soundD [OF sound s]
  from accepted plain s obtain dr cr te where two: "hm_get A (t_debit_account_id event) = Some dr"
    "hm_get A (t_credit_account_id event) = Some cr"
    and created: "create_transfer event te None dr cr = Some CT_Created" and amount: "amount = compute_amount_actual event dr cr"
    by (auto simp: accepts_def accepts_regular_def store_view_def sm_stores_sel)
  have plain': "\<not> is_post_or_void ?event" using plain by (simp add: stamped_simps)
  have "stores_wf (sm_stores s') \<and> stores_reconcile uint (sm_stores s')"
  proof (rule exact.persist_regular [OF _ _ plain' r])
    show "t_debit_account_id ?event \<noteq> t_credit_account_id ?event" using create_transfer_CreatedD [OF created] by simp
  next
    show "stores_wf (sm_stores s)" "stores_reconcile uint (sm_stores s)"
      using ok sound by (simp_all add: ledger_ok_def accounts_sound_def)
  qed (use new live two created amount sm_stores_accounts [OF s] in
      \<open>auto simp: stamped_simps commit_transfer_moves_exactly\<close>)
  moreover have "account_inv a" if a: "hm_get (sm_accounts s') k = Some a" for k a
  proof (rule sm_persist_regular_stores [OF plain' r s])
    fix dr0 cr0 dr' cr'
    assume "hm_get A (t_debit_account_id ?event) = Some dr0" "hm_get A (t_credit_account_id ?event) = Some cr0"
      and commit: "commit_transfer_accounts ?event amount dr0 cr0 = (dr', cr')"
      and st': "sm_stores s' = (hm_insert (a_id cr') cr' (hm_insert (a_id dr') dr' A),
        hm_insert (t_id ?event) (?event\<lparr>t_amount := amount\<rparr>) T,
        if tf_pending (t_flags ?event) then hm_insert (t_timestamp ?event)
          \<lparr>tp_timestamp = t_timestamp ?event, tp_status = StPending\<rparr> P else P,
        hm_insert (t_timestamp ?event) (t_id ?event) B)"
    then have "account_inv dr' \<and> account_inv cr'"
      using create_transfer_account_inv [OF created] old(2) two amount by (simp add: stamped_simps)
    with old(2) show ?thesis using stored_after_move [OF a [unfolded sm_stores_accounts [OF st']]] by blast
  qed
  ultimately show ?thesis by (simp add: accounts_sound_def)
qed

lemma persist_post_void_sound:
  assumes ok: "ledger_ok (sm_stores s)" and sound: "accounts_sound s" and post_void: "post_void_flags (t_flags event)"
    and new: "hm_get (sm_transfers s) (t_id event) = None" and live: "t_timestamp event AND TOMBSTONE_BIT = 0"
    and r: "sm_persist_post_void event amount s = Some s'"
  shows "accounts_sound s'"
proof -
  obtain A T P B where s: "sm_stores s = (A, T, P, B)" by (cases "sm_stores s")
  note old = accounts_soundD [OF sound s]
  have wf: "stores_wf (A, T, P, B)" using ok s by (simp add: ledger_ok_def)
  have "stores_wf (sm_stores s') \<and> stores_reconcile uint (sm_stores s')"
  proof (rule exact.persist_post_void [OF _ _ post_void r new live])
    fix p dr cr accounts
    assume p: "hm_get (sm_transfers s) (t_pending_id event) = Some p" "tf_pending (t_flags p)"
        "map_option tp_status (hm_get (sm_transfers_pending s) (t_timestamp p)) = Some StPending"
      and two: "hm_get (sm_accounts s) (t_debit_account_id p) = Some dr" "hm_get (sm_accounts s) (t_credit_account_id p) = Some cr"
      and commit: "commit_post_void_accounts event p amount dr cr = Some accounts"
    then show "moves_by uint (- uint (t_amount p)) (uint (if tf_post_pending_transfer (t_flags event) then amount else 0)) (dr, cr) accounts"
      using commit_post_void_moves_exactly [OF commit] open_amount_held [OF old(1)] old(2) s by (simp add: sm_stores_sel)
  qed (use ok sound in \<open>simp_all add: ledger_ok_def accounts_sound_def\<close>)
  moreover have "account_inv a" if a: "hm_get (sm_accounts s') k = Some a" for k a
  proof (rule sm_persist_post_void_stores [OF r s])
    fix p dr cr dr' cr' row
    assume p: "hm_get T (t_pending_id event) = Some p" and two: "hm_get A (t_debit_account_id p) = Some dr"
        "hm_get A (t_credit_account_id p) = Some cr"
      and commit: "commit_post_void_accounts event p amount dr cr = Some (dr', cr')"
      and row: "hm_get P (t_timestamp p) = Some row" "tp_status row = StPending"
      and st': "sm_stores s' = (hm_insert (a_id cr') cr' (hm_insert (a_id dr') dr' A),
        hm_insert (t_id event) (folded_transfer event p amount (t_timestamp event)) T,
        hm_insert (t_timestamp p) \<lparr>tp_timestamp = t_timestamp p,
          tp_status = (if tf_post_pending_transfer (t_flags event) then StPosted else StVoided)\<rparr> P,
        hm_insert (t_timestamp event) (t_id event) B)"
    note held = open_amount_held [OF old(1) p wf_row_transfer(1) [OF wf row(1) p] _ two]
    have "account_inv dr' \<and> account_inv cr'"
      using post_void_account_inv [OF commit] held row old(2) two by (simp add: word_le_nat_alt)
    with old(2) show ?thesis using stored_after_move [OF a [unfolded sm_stores_accounts [OF st']]] by blast
  qed
  ultimately show ?thesis by (simp add: accounts_sound_def)
qed

lemma expire_one_sound:
  assumes ok: "ledger_ok (sm_stores s)" and sound: "accounts_sound s" and r: "sm_expire_one te transfer_id s = Some s'"
  shows "accounts_sound s'"
proof -
  obtain A T P B where s: "sm_stores s = (A, T, P, B)" by (cases "sm_stores s")
  note old = accounts_soundD [OF sound s]
  have "stores_wf (sm_stores s') \<and> stores_reconcile uint (sm_stores s')"
    by (rule exact.expire_one [OF _ _ r]) (use ok sound in \<open>simp_all add: ledger_ok_def accounts_sound_def\<close>)
  moreover have "account_inv a" if a: "hm_get (sm_accounts s') k = Some a" for k a
  proof (rule sm_expire_one_stores [OF r s])
    fix p dr cr dr' cr' c1 c2 row
    assume p: "hm_get T transfer_id = Some p" and two: "hm_get A (t_debit_account_id p) = Some dr"
        "hm_get A (t_credit_account_id p) = Some cr"
      and dr': "dr' = dr\<lparr>a_debits_pending := a_debits_pending dr + - t_amount p, a_flags := a_flags dr'\<rparr>"
      and cr': "cr' = cr\<lparr>a_credits_pending := a_credits_pending cr + - t_amount p, a_flags := a_flags cr'\<rparr>"
      and st': "sm_stores s' = (if c2 then hm_insert (a_id cr') cr' (if c1 then hm_insert (a_id dr') dr' A else A)
          else if c1 then hm_insert (a_id dr') dr' A else A, T,
        hm_insert (t_timestamp p) \<lparr>tp_timestamp = t_timestamp p, tp_status = StExpired\<rparr> P, B)"
      and flags: "a_flags dr' \<in> {a_flags dr, without_closed (a_flags dr)}" "a_flags cr' \<in> {a_flags cr, without_closed (a_flags cr)}"
    have held: "t_amount p \<le> a_debits_pending dr" "t_amount p \<le> a_credits_pending cr"
      using sm_expire_one_held [OF r] p two s by (simp_all add: sm_stores_sel)
    have "account_inv dr'" "account_inv cr'"
      by (subst dr', rule account_inv_released [OF old(2) [OF two(1)] held(1) flags(1)],
          subst cr', rule account_inv_released_credit [OF old(2) [OF two(2)] held(2) flags(2)])
    with old(2) show ?thesis using a [unfolded sm_stores_accounts [OF st']] by (auto split: if_splits)
  qed
  ultimately show ?thesis by (simp add: accounts_sound_def)
qed

section \<open>Soundness of every reachable state\<close>

interpretation sound: ledger_invariant accounts_sound
proof
  show "accounts_sound s" if "empty_ledger s" for s
    using that by (simp add: accounts_sound_def empty_ledger_def stores_reconcile_def sm_stores_def)
next
  show "accounts_sound s'" if "same_ledger s s'" "accounts_sound s" for s s'
    using that by (simp add: accounts_sound_def same_ledger_def sm_stores_def)
next
  fix s s' a
  assume ok: "ledger_ok (sm_stores s)" and sound: "accounts_sound s" and a: "fresh_account a" "a_timestamp a AND TOMBSTONE_BIT = 0"
    and new: "hm_get (sm_accounts s) (a_id a) = None" and r: "sm_insert_account (a_id a) a s = Some s'"
  have "stores_wf (sm_stores s') \<and> stores_reconcile uint (sm_stores s')"
    by (rule exact.insert_account [OF _ _ r new a]) (use ok sound in \<open>simp_all add: ledger_ok_def accounts_sound_def\<close>)
  moreover have "sm_accounts s' = hm_insert (a_id a) a (sm_accounts s)"
    using sm_insert_account_stores [OF r] by (simp add: sm_stores_def)
  ultimately show "accounts_sound s'"
    using sound fresh_account_inv [OF a(1)] by (auto simp: accounts_sound_def split: if_splits)
next
  fix s s' event amount ts
  assume ok: "ledger_ok (sm_stores s)" and sound: "accounts_sound s" and accepted: "accepts (store_view s) event amount"
    and new: "hm_get (sm_transfers s) (t_id event) = None" and live: "ts AND TOMBSTONE_BIT = 0"
    and r: "sm_persist_transfer (event\<lparr>t_timestamp := ts\<rparr>) amount s = Some s'"
  show "accounts_sound s'"
  proof (cases "is_post_or_void event")
    case False
    then show ?thesis by (rule persist_regular_sound [OF ok sound _ accepted new live r])
  next
    case True
    have flags: "post_void_flags (t_flags event)" using True accepted by (rule accepted_flags)
    moreover have "sm_persist_post_void (event\<lparr>t_timestamp := ts\<rparr>) amount s = Some s'"
      using r flags True by (auto simp: sm_persist_transfer_def is_post_or_void_def post_void_flags_def Let_def)
    ultimately show ?thesis using persist_post_void_sound [OF ok sound, of "event\<lparr>t_timestamp := ts\<rparr>"] new live by simp
  qed
next
  show "accounts_sound s'" if "ledger_ok (sm_stores s)" "accounts_sound s" "sm_expire_one te transfer_id s = Some s'" for s te transfer_id s'
    using that by (rule expire_one_sound)
qed

lemma reachable_sound:
  assumes "sm_reachable n st"
  shows "sm_ok st" "accounts_sound st"
  using sound.reachable_keeps [OF assms] by simp_all

end
