(* ===== verification/LedgerProps.thy ===== *)
theory LedgerProps
  imports Soundness BatchProps
begin

text \<open>
  The state machine as a whole: its stores change by exactly the created events of a batch, and in
  every reachable state each account's balances are the sums of its transfers' amounts, so debits
  and credits balance over the ledger. A small ledger of two accounts serves the witnesses.
\<close>

section \<open>A ledger of two accounts\<close>

definition two_account_ledger :: state_machine where
  "two_account_ledger = \<lparr>sm_commit_timestamp = 5, sm_prefetch_snapshot = None, sm_prefetch_operation = None,
     sm_accounts = [(1, debit_account_a), (2, credit_account_b)], sm_transfers = [], sm_transfers_orphaned = {},
     sm_accounts_timestamp_max = 3, sm_transfers_timestamp_max = 0,
     sm_accounts_by_timestamp = [(2, 1), (3, 2)], sm_transfers_by_timestamp = [],
     sm_transfers_pending = [], sm_account_events = [], sm_account_events_index = [],
     sm_pulse_next_timestamp = TIMESTAMP_MAX,
     sm_accounts_objects = empty_map, sm_transfers_objects = empty_map, sm_transfers_pending_objects = empty_map\<rparr>"

lemma empty_objects_backed:
  "sm_accounts_objects st = empty_map \<Longrightarrow> sm_transfers_objects st = empty_map \<Longrightarrow>
     sm_transfers_pending_objects st = empty_map \<Longrightarrow> backed (objects_view st) (store_view st)"
  by (simp add: backed_def objects_view_def store_view_def empty_map_def cm_entry_def cm_cached_def)

lemma two_account_ledger_ok: "sm_ok two_account_ledger"
  using empty_objects_backed [of two_account_ledger]
  by (auto simp: empty_map_ok sm_ok_def objects_ok_def ledger_ok_def stores_wf_def stores_reconcile_def sm_stores_def
      two_account_ledger_def hm_ok_def hm_get_def account_in_def account_reconciles_def side_total_def
      debit_account_a_def credit_account_b_def account_event_a_def TOMBSTONE_BIT_def)

lemma two_account_transfer_run:
  "\<exists>st reply. create_transfers [transfer_event_t] 10 two_account_ledger = Some (reply, st)"
  by (simp add: create_transfers_def two_account_ledger_def create_transfers_prefetch_def found_timestamps_def
      batch_transfers_defs event_timestamp_def cm_defs map_defs prefetch_defs
      account_flag_defs transfer_flag_defs accounting_defs account_cache_spec_def transfer_cache_spec_def transfer_pending_cache_spec_def
      transfer_event_t_def account_event_a_def debit_account_a_def credit_account_b_def
      checked_add_def checked_sub_def checked_mul_def TOMBSTONE_BIT_def TIMESTAMP_MAX_def NS_PER_S_def
      debits_exceed_credits_def credits_exceed_debits_def timeout_ns_def
      persist_transfers_def persist_orphans_def persist_chains.simps persist_transfer_at_def sm_persist_transfer_def
      sm_insert_transfer_def sm_commit_transfer_def sm_update_account_def sm_account_event_def sm_index_event_def
      Let_def transfer_results_to_bytes_def encode_batch_def result_record_bytes)

section \<open>Batches move the stores like the caches\<close>

text \<open>C2. A committed batch of transfers changes the committed stores by exactly the events it reports as
  created, in order: the accounts, transfers and pending rows afterwards are those before with each
  created event applied once, stamped as its result says; and each created event passed its rules
  against the committed objects as the events before it left them, although the batch was evaluated
  against the caches. The reply is the encoding of those results, and a linked chain is persisted as a
  whole or not at all.\<close>

theorem create_transfers_persists_created:
  assumes "sm_ok st" "length events < 2 ^ 64" "unat timestamp < 2 ^ 63"
    and "create_transfers events timestamp st = Some (reply, st')"
  shows "\<exists>results. length results = length events \<and> transfer_results_to_bytes results = Some reply \<and>
    transfer_chains_atomic events results \<and> accepted_all (store_view st) events results \<and>
    store_view st' = transfers_applied (store_view st) events results \<and> sm_ok st'"
  by (rule create_transfers_step [OF assms])

theorem create_transfers_persists_created_witness:
  "\<exists>st reply. create_transfers [transfer_event_t] 10 two_account_ledger = Some (reply, st) \<and> sm_ok st"
proof -
  obtain st reply where run: "create_transfers [transfer_event_t] 10 two_account_ledger = Some (reply, st)"
    using two_account_transfer_run by blast
  from create_transfers_persists_created [OF two_account_ledger_ok _ _ run] run show ?thesis by auto
qed

text \<open>C14. A committed batch of account creations likewise: the accounts store gains exactly the events
  reported as created, transfers and pending rows stay as they were, and every linked chain is
  persisted as a whole or not at all.\<close>

theorem create_accounts_persists_created:
  assumes "sm_ok st" "length events < 2 ^ 64" "unat timestamp < 2 ^ 63"
    and "create_accounts events timestamp st = Some (reply, st')"
  shows "\<exists>results. length results = length events \<and> account_results_to_bytes results = Some reply \<and>
    chains_atomic events results \<and>
    store_entry (sm_accounts st') = created_entries (store_entry (sm_accounts st)) events results \<and>
    snd (store_view st') = snd (store_view st) \<and> sm_ok st'"
  by (rule create_accounts_step [OF assms])

definition third_account_event :: account where
  "third_account_event = account_event_a\<lparr>a_id := 3\<rparr>"

lemma third_account_run:
  "\<exists>st reply. create_accounts [third_account_event] 10 two_account_ledger = Some (reply, st) \<and>
     hm_get (sm_accounts st) 3 = Some (third_account_event\<lparr>a_timestamp := 10\<rparr>)"
  by (simp add: create_accounts_def two_account_ledger_def create_accounts_prefetch_def found_timestamps_def
      batch_accounts_defs cm_defs map_defs prefetch_defs account_flag_defs account_cache_spec_def
      third_account_event_def account_event_a_def create_account_def checked_add_def checked_sub_def TOMBSTONE_BIT_def
      persist_accounts_def persist_chains.simps persist_account_at_def sm_insert_account_def
      Let_def account_results_to_bytes_def encode_batch_def result_record_bytes)

theorem create_accounts_persists_created_witness:
  "\<exists>st reply. create_accounts [third_account_event] 10 two_account_ledger = Some (reply, st) \<and> sm_ok st \<and>
     hm_get (sm_accounts st) 3 = Some (third_account_event\<lparr>a_timestamp := 10\<rparr>)"
proof -
  obtain st reply where run: "create_accounts [third_account_event] 10 two_account_ledger = Some (reply, st)"
    "hm_get (sm_accounts st) 3 = Some (third_account_event\<lparr>a_timestamp := 10\<rparr>)"
    using third_account_run by blast
  from create_accounts_persists_created [OF two_account_ledger_ok _ _ run(1)] run show ?thesis by auto
qed

section \<open>Every balance is accounted for\<close>

lemma sm_ok_ledger: "sm_ok st \<Longrightarrow> ledger_ok (sm_accounts st, sm_transfers st, sm_transfers_pending st, sm_transfers_by_timestamp st)"
  by (simp add: sm_ok_def sm_stores_def)

text \<open>A fresh state machine whose first batch creates one account, over the real caches.\<close>

lemma power_of_two_8: "is_power_of_two 8"
  by code_simp

lemma default_caches: "\<exists>st. sm_default 32 = Some st"
proof -
  note new = sac_new_def validate_layout_def powers_of_two is_multiple_of_def clock_hand_bits_def
    value_count_max_multiple_def pa_new_def Let_def
  have "\<exists>c. sac_new transfer_cache_spec 256 = Some c" by (simp add: new transfer_cache_spec_def)
  moreover have "\<exists>c. sac_new transfer_pending_cache_spec 256 = Some c"
    by (simp add: new transfer_pending_cache_spec_def power_of_two_8)
  ultimately show ?thesis using account_cache_new
    by (auto simp: sm_default_def cm_new_def objects_cache_options_def)
qed

lemma first_account_run:
  assumes "sm_default 32 = Some st"
  shows "\<exists>st' reply. create_accounts [account_event_a] 10 st = Some (reply, st') \<and>
    hm_get (sm_accounts st') 1 = Some (account_event_a\<lparr>a_timestamp := 10\<rparr>)"
proof -
  let ?S = account_cache_spec and ?a = "account_event_a\<lparr>a_timestamp := 10\<rparr>"
  define m where "m = sm_accounts_objects st"
  have new: "cm_new ?S (objects_cache_options 32) = Some m" using assms by (auto simp: sm_default_def bind_Some_iff m_def)
  note m = cm_new_empty [OF new groove_layouts(1), simplified objects_cache_options_def, simplified]
  have core: "cm_core_ok ?S m" using m(1) by (simp add: cm_ok_def)
  have options: "cm_options m = objects_cache_options 32" using new by (auto simp: cm_new_def bind_Some_iff)
  have "cm_cached ?S m 1 = None" using m(2) [of 1] by (auto simp: cm_entry_def split: option.splits if_splits)
  with cache_get_refines [OF core, of 1] obtain m1 where
    get: "cache_get ?S m 1 = Some (None, m1)" and m1: "cm_core_ok ?S m1" "cm_stash m1 = []" "same_scope m m1"
    using m(4) by auto
  then have room: "length (cm_stash m1) < co_stash_value_count_max (cm_options m1)"
    using options by (simp add: same_scope_def objects_cache_options_def)
  have live: "\<not> sp_tombstone ?S ?a" by (simp add: account_cache_spec_def account_event_a_def TOMBSTONE_BIT_def)
  from fetch_upsert_total [OF m1(1) room] obtain old m2 where up: "fetch_upsert ?S m1 ?a = Some (old, m2)" by blast
  from fetch_upsert_refines [OF m1(1) live up] m1(3) m(3) have "\<not> cm_scope_is_active m2"
    by (simp add: upserted_ok_def same_scope_def)
  with up have upsert: "cm_upsert ?S m1 ?a = Some m2" by (simp add: cm_upsert_def)
  have read: "cm_get ?S m 1 = Some (None, m1)" using get m1(2) by (simp add: cm_get_def)
  have ev: "a_id account_event_a = 1" by (simp add: account_event_a_def)
  have exec: "execute_create_accounts [account_event_a] 10 (prefetch_create_accounts [account_event_a]) m 0 {} =
      Some ([\<lparr>car_status = CA_Created, car_timestamp = 10\<rparr>], m2)"
    using upsert
    by (simp add: batch_accounts_defs prefetch_defs account_flag_defs create_account_def checked_add_def
        checked_sub_def read ev) (simp add: account_event_a_def)
  from assms have "sm_accounts st = []" "sm_accounts_by_timestamp st = []" "sm_transfers_by_timestamp st = []"
    "sm_accounts_timestamp_max st = 0" "sm_commit_timestamp st = 0"
    by (auto simp: sm_default_def bind_Some_iff)
  moreover have "\<not> af_imported (a_flags account_event_a)" "\<not> af_linked (a_flags account_event_a)"
    by (simp_all add: account_event_a_def account_flag_defs)
  moreover have "event_timestamp 10 (Suc 0) 0 = Some 10"
    by (simp add: event_timestamp_def checked_add_def checked_sub_def)
  ultimately show ?thesis
    using exec by (simp add: create_accounts_def ensure_def is_none_or_def ev create_accounts_prefetch_def found_timestamps_def prefetch_defs
        m_def persist_accounts_def persist_chains.simps persist_account_at_def sm_insert_account_def
        Let_def account_results_to_bytes_def encode_batch_def result_record_bytes)
qed

lemma sm_ok_wf:
  assumes "sm_ok st"
  shows "stores_wf (sm_accounts st, sm_transfers st, sm_transfers_pending st, sm_transfers_by_timestamp st)"
  using ledger_okD(1) [OF sm_ok_ledger [OF assms]] .

lemma reachable_reconciles:
  assumes "sm_reachable n st" "hm_get (sm_accounts st) account_id = Some a"
  shows "a_id a = account_id" "account_inv a"
    "account_reconciles uint (sm_transfers st) (sm_transfers_pending st) account_id a"
proof -
  note sound = reachable_sound [OF assms(1)]
  have "account_in (sm_accounts st) account_id a" using sm_ok_wf [OF sound(1)] assms(2) by (simp add: stores_wf_def)
  then show "a_id a = account_id" by (simp add: account_in_def)
  show "account_inv a" "account_reconciles uint (sm_transfers st) (sm_transfers_pending st) account_id a"
    using sound(2) assms(2) by (auto simp: accounts_sound_def stores_reconcile_def sm_stores_def)
qed

text \<open>C1. In every state the state machine can reach, by any sequence of account batches, transfer
  batches, expiries, clock moves and compactions, each account's four balances are exactly the sums of
  its own stored transfers: pending balances over the transfers whose pending row is still open,
  posted balances over the single-phase and posting transfers, debits over those that debit it and
  credits over those that credit it. The sums are integers: no balance has ever wrapped.\<close>

theorem balances_are_transfer_sums:
  assumes "sm_reachable n st" "hm_get (sm_accounts st) account_id = Some a"
  shows "a_id a = account_id \<and>
    uint (a_debits_pending a) = side_total (\<lambda>t. uint (open_amount (sm_transfers_pending st) t)) t_debit_account_id account_id (sm_transfers st) \<and>
    uint (a_debits_posted a) = side_total (\<lambda>t. uint (posted_amount t)) t_debit_account_id account_id (sm_transfers st) \<and>
    uint (a_credits_pending a) = side_total (\<lambda>t. uint (open_amount (sm_transfers_pending st) t)) t_credit_account_id account_id (sm_transfers st) \<and>
    uint (a_credits_posted a) = side_total (\<lambda>t. uint (posted_amount t)) t_credit_account_id account_id (sm_transfers st)"
  using reachable_reconciles [OF assms] by (simp add: account_reconciles_def)

lemma first_account_reachable:
  obtains st where "sm_reachable 32 st" "hm_get (sm_accounts st) 1 = Some (account_event_a\<lparr>a_timestamp := 10\<rparr>)"
proof -
  obtain st0 where default: "sm_default 32 = Some st0" using default_caches by blast
  obtain st reply where run: "create_accounts [account_event_a] 10 st0 = Some (reply, st)"
    and a: "hm_get (sm_accounts st) 1 = Some (account_event_a\<lparr>a_timestamp := 10\<rparr>)"
    using first_account_run [OF default] by blast
  have "sm_step 32 st0 st" by (rule step_accounts [OF _ _ run]) simp_all
  with reachable_init [OF default] have "sm_reachable 32 st" by (rule reachable_step)
  then show thesis using a that by blast
qed

theorem balances_are_transfer_sums_witness:
  "\<exists>st. sm_reachable 32 st \<and> hm_get (sm_accounts st) 1 = Some (account_event_a\<lparr>a_timestamp := 10\<rparr>) \<and>
     side_total (\<lambda>t. uint (posted_amount t)) t_debit_account_id 1 (sm_transfers st) = 0"
proof -
  obtain st where st: "sm_reachable 32 st" "hm_get (sm_accounts st) 1 = Some (account_event_a\<lparr>a_timestamp := 10\<rparr>)"
    by (rule first_account_reachable)
  from balances_are_transfer_sums [OF st] have "side_total (\<lambda>t. uint (posted_amount t)) t_debit_account_id 1 (sm_transfers st) = 0"
    by (simp add: account_event_a_def)
  with st show ?thesis by blast
qed

text \<open>C5. No reachable account has overdrawn what its flags allow: the debits of an account with
  \<open>debits_must_not_exceed_credits\<close>, pending ones included, stay within its posted credits, those with
  \<open>credits_must_not_exceed_debits\<close> likewise the other way round, and on every account the sum of the
  pending and the posted balance of a side fits in 128 bits.\<close>

theorem accounts_within_limits:
  assumes "sm_reachable n st" "hm_get (sm_accounts st) account_id = Some a"
  shows "unat (a_debits_pending a) + unat (a_debits_posted a) < 2 ^ 128 \<and>
    unat (a_credits_pending a) + unat (a_credits_posted a) < 2 ^ 128 \<and>
    (af_debits_must_not_exceed_credits (a_flags a) \<longrightarrow>
      unat (a_debits_pending a) + unat (a_debits_posted a) \<le> unat (a_credits_posted a)) \<and>
    (af_credits_must_not_exceed_debits (a_flags a) \<longrightarrow>
      unat (a_credits_pending a) + unat (a_credits_posted a) \<le> unat (a_debits_posted a))"
  using reachable_reconciles(2) [OF assms] by (simp add: account_inv_def debits_total_def credits_total_def)

theorem accounts_within_limits_witness:
  "\<exists>st a. sm_reachable 32 st \<and> hm_get (sm_accounts st) 1 = Some a \<and> unat (a_debits_pending a) + unat (a_debits_posted a) < 2 ^ 128"
proof -
  obtain st where st: "sm_reachable 32 st" "hm_get (sm_accounts st) 1 = Some (account_event_a\<lparr>a_timestamp := 10\<rparr>)"
    by (rule first_account_reachable)
  from accounts_within_limits [OF st] st show ?thesis by blast
qed

section \<open>Debits equal credits\<close>

text \<open>Summing the side totals over all accounts counts every transfer once, because the account on that
  side is in the store.\<close>

lemma hm_sum_add: "hm_sum (\<lambda>v. f v + g v) m = hm_sum f m + hm_sum g m"
  by (simp add: hm_sum_def sum_list_addf)

lemma hm_sum_single:
  assumes "hm_ok A" "hm_get A k = Some a" "\<And>j b. hm_get A j = Some b \<Longrightarrow> key b = j"
  shows "hm_sum (\<lambda>b. if k = key b then x else 0) A = x"
proof -
  let ?g = "\<lambda>b. if k = key b then x else 0"
  have key: "key b = j" if "hm_get A j = Some b" for j b using assms(3) that .
  have "hm_sum ?g A = hm_sum (\<lambda>_. 0) A - 0 + ?g a"
    by (rule hm_sum_differ [OF assms(1,2)]) (use key in auto)
  then show ?thesis using key [OF assms(2)] hm_sum_zero [of A "\<lambda>_. 0"] by simp
qed

lemma side_totals_sum:
  assumes "hm_ok A" "\<And>j b. hm_get A j = Some b \<Longrightarrow> key b = j"
    and "\<And>k t. (k, t) \<in> set T \<Longrightarrow> hm_get A (side t) \<noteq> None"
  shows "hm_sum (\<lambda>b. side_total f side (key b) T) A = hm_sum f T"
  using assms(3)
proof (induction T)
  case Nil
  then show ?case using hm_sum_zero [of A "\<lambda>_. 0"] by (simp add: side_total_def)
next
  case (Cons p T)
  obtain k t where p: "p = (k, t)" by (cases p)
  with Cons.prems obtain a where a: "hm_get A (side t) = Some a" by fastforce
  have "hm_sum (\<lambda>b. side_total f side (key b) T) A = hm_sum f T"
    by (rule Cons.IH) (use Cons.prems in auto)
  then show ?case
    using hm_sum_single [where x = "f t" and key = key, OF assms(1) a assms(2)] by (simp add: p side_total_def hm_sum_add)
qed

text \<open>C4. Double entry over the whole ledger: in every reachable state the posted debits of all
  accounts add up to their posted credits and the pending debits to the pending credits, and both are
  the total amount of the transfers posted, and still pending, respectively, as integers.\<close>

theorem ledger_balances:
  assumes "sm_reachable n st"
  shows "hm_sum (\<lambda>a. uint (a_debits_posted a)) (sm_accounts st) = hm_sum (\<lambda>a. uint (a_credits_posted a)) (sm_accounts st) \<and>
    hm_sum (\<lambda>a. uint (a_debits_pending a)) (sm_accounts st) = hm_sum (\<lambda>a. uint (a_credits_pending a)) (sm_accounts st) \<and>
    hm_sum (\<lambda>a. uint (a_debits_posted a)) (sm_accounts st) = hm_sum (\<lambda>t. uint (posted_amount t)) (sm_transfers st) \<and>
    hm_sum (\<lambda>a. uint (a_debits_pending a)) (sm_accounts st) =
      hm_sum (\<lambda>t. uint (open_amount (sm_transfers_pending st) t)) (sm_transfers st)"
proof -
  let ?A = "sm_accounts st" and ?T = "sm_transfers st" and ?P = "sm_transfers_pending st"
  let ?posted = "\<lambda>t. uint (posted_amount t)" and ?open = "\<lambda>t. uint (open_amount ?P t)"
  note wf = sm_ok_wf [OF reachable_sound(1) [OF assms], unfolded stores_wf_def, simplified]
  note account = reachable_reconciles [OF assms]
  have ok: "hm_ok ?A" "hm_ok ?T" using wf by simp_all
  have in_store: "hm_get ?A (t_debit_account_id t) \<noteq> None \<and> hm_get ?A (t_credit_account_id t) \<noteq> None"
    if "(k, t) \<in> set ?T" for k t
    using wf that ok by (auto simp: hm_get_in_set transfer_in_def)
  have reconciles: "account_reconciles uint ?T ?P (a_id a) a" if "(k, a) \<in> set ?A" for k a
    using account [of k a] that ok by (simp add: hm_get_in_set)
  have side: "hm_sum (\<lambda>b. side_total f side (a_id b) ?T) ?A = hm_sum f ?T"
    if "\<And>k t. (k, t) \<in> set ?T \<Longrightarrow> hm_get ?A (side t) \<noteq> None" for f :: "transfer \<Rightarrow> int" and side
    by (rule side_totals_sum [OF ok(1) account(1) that])
  have "hm_sum (\<lambda>a. uint (a_debits_posted a)) ?A = hm_sum (\<lambda>b. side_total ?posted t_debit_account_id (a_id b) ?T) ?A"
    "hm_sum (\<lambda>a. uint (a_credits_posted a)) ?A = hm_sum (\<lambda>b. side_total ?posted t_credit_account_id (a_id b) ?T) ?A"
    "hm_sum (\<lambda>a. uint (a_debits_pending a)) ?A = hm_sum (\<lambda>b. side_total ?open t_debit_account_id (a_id b) ?T) ?A"
    "hm_sum (\<lambda>a. uint (a_credits_pending a)) ?A = hm_sum (\<lambda>b. side_total ?open t_credit_account_id (a_id b) ?T) ?A"
    by (rule hm_sum_cong, use reconciles in \<open>auto simp: account_reconciles_def\<close>)+
  then show ?thesis using in_store by (simp add: side)
qed

theorem ledger_balances_witness:
  "\<exists>st. sm_reachable 32 st \<and> sm_accounts st \<noteq> [] \<and>
     hm_sum (\<lambda>a. uint (a_debits_posted a)) (sm_accounts st) = hm_sum (\<lambda>a. uint (a_credits_posted a)) (sm_accounts st)"
proof -
  obtain st where st: "sm_reachable 32 st" "hm_get (sm_accounts st) 1 = Some (account_event_a\<lparr>a_timestamp := 10\<rparr>)"
    by (rule first_account_reachable)
  from ledger_balances [OF st(1)] st show ?thesis by (auto simp: hm_get_def)
qed

end
