(* ===== verification/PulseProps.thy ===== *)
theory PulseProps
  imports LedgerProps
begin

text \<open>
  The expiry pulse: \<open>update_pulse_next_timestamp\<close> computes the earliest expiry of the open pending
  transfers, and \<open>expire_pending_transfers\<close> closes exactly those that are due.
\<close>

section \<open>Open expiries\<close>

text \<open>The pending transfer at \<open>ts\<close> is open and expires at \<open>expiry\<close>.\<close>

definition open_expiry :: "state_machine \<Rightarrow> u64 \<Rightarrow> u64 \<Rightarrow> bool" where
  "open_expiry st ts expiry \<longleftrightarrow>
     (\<exists>row transfer_id p. hm_get (sm_transfers_pending st) ts = Some row \<and> tp_status row = StPending \<and>
        hm_get (sm_transfers_by_timestamp st) ts = Some transfer_id \<and>
        hm_get (sm_transfers st) transfer_id = Some p \<and> t_timeout p \<noteq> 0 \<and> expires_at p = Some expiry)"

lemma sm_expirable_set:
  assumes "sm_expirable st rows = Some xs"
  shows "(expiry, ts, transfer_id) \<in> set xs \<longleftrightarrow>
    (\<exists>row p. (ts, row) \<in> set rows \<and> tp_status row = StPending \<and>
       hm_get (sm_transfers_by_timestamp st) ts = Some transfer_id \<and>
       hm_get (sm_transfers st) transfer_id = Some p \<and> t_timeout p \<noteq> 0 \<and> expires_at p = Some expiry)"
  using assms
proof (induction st rows arbitrary: xs rule: sm_expirable.induct)
  case (2 st pending_ts row rows)
  from 2(2) obtain rest where rest: "sm_expirable st rows = Some rest"
    by (auto simp: bind_Some_iff)
  note IH = 2(1) [OF rest]
  show ?case
  proof (cases "tp_status row = StPending")
    case False
    then show ?thesis using 2(2) rest IH by (auto simp: bind_Some_iff)
  next
    case True
    with 2(2) rest obtain k p where kp: "hm_get (sm_transfers_by_timestamp st) pending_ts = Some k"
      "hm_get (sm_transfers st) k = Some p"
      and xs: "(if t_timeout p = 0 then Some rest
        else do { e \<leftarrow> expires_at p; Some ((e, pending_ts, k) # rest) }) = Some xs"
      by (auto simp: bind_Some_iff)
    show ?thesis
    proof (cases "t_timeout p = 0")
      case zero: True
      then show ?thesis using xs kp IH by auto
    next
      case False
      with xs obtain e where "expires_at p = Some e" "xs = (e, pending_ts, k) # rest" by (auto simp: bind_Some_iff)
      then show ?thesis using kp IH True False by auto
    qed
  qed
qed simp

lemma open_expiry_iff:
  assumes "sm_expirable st (sm_transfers_pending st) = Some xs" "hm_ok (sm_transfers_pending st)"
  shows "open_expiry st ts expiry \<longleftrightarrow> (\<exists>transfer_id. (expiry, ts, transfer_id) \<in> set xs)"
  unfolding open_expiry_def sm_expirable_set [OF assms(1)] hm_get_in_set [OF assms(2)] by blast

lemma sm_expirable_cong:
  "sm_expirable (st\<lparr>sm_pulse_next_timestamp := t\<rparr>) rows = sm_expirable st rows"
  by (induction st rows rule: sm_expirable.induct) (simp_all cong: if_cong)

lemma pulse_earliest:
  assumes "hm_ok (sm_transfers_pending st)" "sm_update_pulse_next_timestamp st = Some st'"
  shows "finite {expiry. \<exists>ts. open_expiry st ts expiry}"
    "st' = st\<lparr>sm_pulse_next_timestamp :=
      (if \<exists>ts expiry. open_expiry st ts expiry then Min {expiry. \<exists>ts. open_expiry st ts expiry} else TIMESTAMP_MAX)\<rparr>"
proof -
  from assms(2) obtain xs where xs: "sm_expirable st (sm_transfers_pending st) = Some xs"
    and st': "st' = (case sort (map (\<lambda>(expiry, pending_ts, _). (expiry, pending_ts)) xs) of
        [] \<Rightarrow> st\<lparr>sm_pulse_next_timestamp := TIMESTAMP_MAX\<rparr>
      | (expiry, _) # _ \<Rightarrow> st\<lparr>sm_pulse_next_timestamp := TIMESTAMP_MAX, sm_pulse_next_timestamp := expiry\<rparr>)"
    by (auto simp: sm_update_pulse_next_timestamp_def bind_Some_iff Let_def sm_expirable_cong)
  let ?ys = "map (\<lambda>(expiry, pending_ts, _). (expiry, pending_ts)) xs"
  have opens: "open_expiry st ts expiry \<longleftrightarrow> (expiry, ts) \<in> set ?ys" for ts expiry
  proof -
    have "(expiry, ts) \<in> set (map (\<lambda>(expiry, pending_ts, _). (expiry, pending_ts)) zs) \<longleftrightarrow>
        (\<exists>transfer_id. (expiry, ts, transfer_id) \<in> set zs)" for zs :: "(u64 \<times> u64 \<times> u128) list"
      by (induction zs) auto
    then show ?thesis using open_expiry_iff [OF xs assms(1)] by simp
  qed
  have expiries: "{expiry. \<exists>ts. open_expiry st ts expiry} = fst ` set ?ys"
    unfolding opens by (simp only: Domain_fst [symmetric] Domain_unfold)
  then show "finite {expiry. \<exists>ts. open_expiry st ts expiry}" by simp
  show "st' = st\<lparr>sm_pulse_next_timestamp :=
      (if \<exists>ts expiry. open_expiry st ts expiry then Min {expiry. \<exists>ts. open_expiry st ts expiry} else TIMESTAMP_MAX)\<rparr>"
  proof (cases "sort ?ys")
    case Nil
    then have "length (sort ?ys) = 0" by (simp only: list.size)
    then have "?ys = []" by (simp only: length_sort length_0_conv)
    then show ?thesis using st' opens by simp
  next
    case (Cons y ys)
    obtain e t where y: "y = (e, t)" by (cases y)
    have set_ys: "set ?ys = set (y # ys)" by (simp only: Cons [symmetric] set_sort)
    have "sorted (y # ys)" by (simp only: Cons [symmetric] sorted_sort)
    then have "\<forall>z \<in> set ys. y \<le> z" by simp
    then have "\<forall>z \<in> set ?ys. e \<le> fst z" unfolding set_ys by (auto simp: y less_eq_prod_def)
    moreover have "e \<in> fst ` set ?ys" unfolding set_ys by (simp add: y)
    ultimately have "Min {expiry. \<exists>ts. open_expiry st ts expiry} = e"
      unfolding expiries by (intro Min_eqI) auto
    moreover have "open_expiry st t e" unfolding opens set_ys by (simp add: y)
    ultimately show ?thesis using st' Cons y by auto
  qed
qed

text \<open>After every recomputation the pulse timestamp is the earliest expiry of the transfers that are
  still pending, or \<open>TIMESTAMP_MAX\<close> when none can expire; nothing else of the state changes. So a pulse
  is needed at a timestamp exactly when some pending transfer has expired by then.\<close>

theorem pulse_is_earliest_expiry:
  assumes "hm_ok (sm_transfers_pending st)" "sm_update_pulse_next_timestamp st = Some st'"
  shows "st' = st\<lparr>sm_pulse_next_timestamp :=
      (if \<exists>ts expiry. open_expiry st ts expiry then Min {expiry. \<exists>ts. open_expiry st ts expiry} else TIMESTAMP_MAX)\<rparr>"
  by (rule pulse_earliest(2) [OF assms])

text \<open>A ledger with one open pending transfer: 100 from account 1 to account 2, for one second from
  timestamp 7.\<close>

definition open_transfer :: transfer where
  "open_transfer = pending_event_p\<lparr>t_timeout := 1, t_timestamp := 7\<rparr>"

definition open_ledger :: state_machine where
  "open_ledger = two_account_ledger\<lparr>sm_commit_timestamp := 8,
     sm_accounts := [(1, debit_account_a\<lparr>a_debits_pending := 100\<rparr>), (2, credit_account_b\<lparr>a_credits_pending := 100\<rparr>)],
     sm_transfers := [(7, open_transfer)], sm_transfers_by_timestamp := [(7, 7)],
     sm_transfers_pending := [(7, \<lparr>tp_timestamp = 7, tp_status = StPending\<rparr>)],
     sm_pulse_next_timestamp := 1000000007\<rparr>"

lemmas open_ledger_defs = open_ledger_def two_account_ledger_def open_transfer_def pending_event_p_def transfer_event_t_def
  debit_account_a_def credit_account_b_def account_event_a_def

lemma open_ledger_ok: "sm_ok open_ledger"
  using empty_objects_backed [of open_ledger]
  by (auto simp: empty_map_ok sm_ok_def objects_ok_def ledger_ok_def stores_wf_def stores_reconcile_def sm_stores_def
      hm_ok_def hm_get_def account_in_def transfer_in_def pending_in_def account_reconciles_def side_total_def
      open_amount_def posted_amount_def transfer_flag_defs open_ledger_defs TOMBSTONE_BIT_def split: if_splits)

lemma open_ledger_pulse:
  "sm_update_pulse_next_timestamp open_ledger = Some open_ledger"
  by (simp add: sm_update_pulse_next_timestamp_def expires_at_def timeout_ns_def checked_add_def checked_mul_def
      NS_PER_S_def hm_get_def transfer_flag_defs open_ledger_defs Let_def)

theorem pulse_is_earliest_expiry_witness:
  "sm_update_pulse_next_timestamp open_ledger = Some open_ledger \<and> (\<exists>ts expiry. open_expiry open_ledger ts expiry) \<and>
     Min {expiry. \<exists>ts. open_expiry open_ledger ts expiry} = 1000000007"
proof -
  have rows: "hm_ok (sm_transfers_pending open_ledger)" by (simp add: open_ledger_def hm_ok_def)
  have "open_expiry open_ledger 7 1000000007"
    by (simp add: open_expiry_def expires_at_def timeout_ns_def checked_add_def checked_mul_def NS_PER_S_def
        hm_get_def open_ledger_defs)
  then have some: "\<exists>ts expiry. open_expiry open_ledger ts expiry" by blast
  have "sm_pulse_next_timestamp open_ledger = 1000000007" by (simp add: open_ledger_def)
  moreover have "sm_pulse_next_timestamp open_ledger = Min {expiry. \<exists>ts. open_expiry open_ledger ts expiry}"
    using arg_cong [where f = sm_pulse_next_timestamp, OF pulse_is_earliest_expiry [OF rows open_ledger_pulse]] some
    by simp
  ultimately show ?thesis using some open_ledger_pulse by simp
qed

section \<open>What one pulse expires\<close>

definition closes :: "(u128, transfer) hmap \<Rightarrow> u128 list \<Rightarrow> u64 \<Rightarrow> bool" where
  "closes T due ts \<longleftrightarrow> (\<exists>transfer_id p. transfer_id \<in> set due \<and> hm_get T transfer_id = Some p \<and> t_timestamp p = ts)"

lemma sm_expire_due_stores:
  assumes "sm_expire_due timestamp len index due st = Some st'" "sm_stores st = (A, T, P, B)"
  shows "\<exists>A' P'. sm_stores st' = (A', T, P', B) \<and>
    (\<forall>ts. hm_get P' ts = (if closes T due ts then Some \<lparr>tp_timestamp = ts, tp_status = StExpired\<rparr> else hm_get P ts))"
  using assms
proof (induction due arbitrary: index st A P)
  case Nil
  then show ?case by (auto simp: closes_def)
next
  case (Cons transfer_id due)
  from Cons.prems(1) obtain te s1 where one: "sm_expire_one te transfer_id st = Some s1"
    and rest: "sm_expire_due timestamp len (Suc index) due s1 = Some st'"
    by (auto simp: bind_Some_iff)
  obtain p A1 where p: "hm_get T transfer_id = Some p"
    and s1: "sm_stores s1 = (A1, T, hm_insert (t_timestamp p) \<lparr>tp_timestamp = t_timestamp p, tp_status = StExpired\<rparr> P, B)"
    by (rule sm_expire_one_stores [OF one Cons.prems(2)]) blast
  have "closes T (transfer_id # due) ts \<longleftrightarrow> t_timestamp p = ts \<or> closes T due ts" for ts
    using p by (auto simp: closes_def)
  with Cons.IH [OF rest s1] show ?case by auto
qed

text \<open>C7. One pulse expires exactly the pending transfers that are due: afterwards a transfer is open
  with an expiry precisely when it was open before and expires later than the pulse's timestamp, no
  transfer is lost, the ledger still reconciles, and no further pulse is needed at that timestamp.\<close>

theorem pulse_expires_exactly_due:
  assumes "sm_ok st" "sm_expire_pending_transfers timestamp st = Some st'" "timestamp < TIMESTAMP_MAX"
  shows "(\<forall>ts expiry. open_expiry st' ts expiry \<longleftrightarrow> open_expiry st ts expiry \<and> timestamp < expiry) \<and>
    sm_transfers st' = sm_transfers st \<and> sm_ok st' \<and> \<not> sm_pulse_needed st' timestamp"
proof -
  from assms(2) obtain xs s1 where xs: "sm_expirable st (sm_transfers_pending st) = Some xs"
    and due: "sm_expire_due timestamp (length (sort (filter (\<lambda>(expiry, _). expiry \<le> timestamp) xs))) 0
      (map (snd \<circ> snd) (sort (filter (\<lambda>(expiry, _). expiry \<le> timestamp) xs))) st = Some s1"
    and pulse: "sm_update_pulse_next_timestamp s1 = Some st'"
    by (auto simp: sm_expire_pending_transfers_def panic_simps Let_def simp del: length_sort)
  let ?due = "map (snd \<circ> snd) (sort (filter (\<lambda>(expiry, _). expiry \<le> timestamp) xs))"
  obtain A T P B where s: "sm_stores st = (A, T, P, B)" by (cases "sm_stores st")
  note sel = s [unfolded sm_stores_sel]
  from sm_expire_due_stores [OF due s] obtain A' P' where s1: "sm_stores s1 = (A', T, P', B)"
    and P': "\<And>ts. hm_get P' ts = (if closes T ?due ts then Some \<lparr>tp_timestamp = ts, tp_status = StExpired\<rparr> else hm_get P ts)"
    by blast
  have s': "sm_stores st' = (A', T, P', B)" using sm_update_pulse_stores [OF pulse] s1 by simp
  have ok': "sm_ok st'" by (rule sm_expire_pending_transfers_step [OF assms(1,2)])
  have wf: "stores_wf (A, T, P, B)" using assms(1) s by (simp add: sm_ok_def ledger_ok_def)
  have same: "t_timestamp p = ts" if r: "hm_get B ts = Some k" "hm_get T k = Some p" "hm_get P ts = Some row" for ts k p row
  proof -
    obtain k' u where "hm_get T k' = Some u" "t_timestamp u = ts" using wf r(3) by (fastforce simp: stores_wf_def pending_in_def)
    moreover have "transfer_in A B k' u" using wf calculation by (auto simp: stores_wf_def)
    ultimately show ?thesis using r by (auto simp: transfer_in_def)
  qed
  have in_due: "k \<in> set ?due \<longleftrightarrow> (\<exists>e ts. (e, ts, k) \<in> set xs \<and> e \<le> timestamp)" for k by force
  have row: "hm_get (sm_transfers_pending st) ts = Some row \<longleftrightarrow> (ts, row) \<in> set (sm_transfers_pending st)" for ts row
    using wf sel by (simp add: hm_get_in_set stores_wf_def)
  have closes: "closes T ?due ts \<longleftrightarrow> expiry \<le> timestamp" if "open_expiry st ts expiry" for ts expiry
  proof -
    from that obtain r k p where o: "hm_get P ts = Some r" "tp_status r = StPending" "hm_get B ts = Some k"
      "hm_get T k = Some p" "t_timeout p \<noteq> 0" "expires_at p = Some expiry"
      using sel by (auto simp: open_expiry_def)
    have ts: "t_timestamp p = ts" using same [OF o(3,4,1)] .
    have unique: "j = k" if "hm_get T j = Some q" "t_timestamp q = ts" for j q
      using wf_timestamp_unique [OF wf o(4) that(1)] that(2) ts by auto
    show ?thesis
    proof
      assume "closes T ?due ts"
      then obtain j q where "j \<in> set ?due" "hm_get T j = Some q" "t_timestamp q = ts" unfolding closes_def by blast
      then obtain e t where e: "(e, t, k) \<in> set xs" "e \<le> timestamp" using unique in_due by blast
      then have "expires_at p = Some e" using sm_expirable_set [OF xs, of e t k] o(4) sel by auto
      then show "expiry \<le> timestamp" using e o(6) by simp
    next
      assume "expiry \<le> timestamp"
      moreover have "(expiry, ts, k) \<in> set xs" using sm_expirable_set [OF xs] o row sel by auto
      ultimately show "closes T ?due ts" using in_due o(4) ts unfolding closes_def by blast
    qed
  qed
  have opens: "open_expiry st' ts expiry \<longleftrightarrow> open_expiry st ts expiry \<and> timestamp < expiry" for ts expiry
  proof (cases "closes T ?due ts")
    case True
    then have "\<not> open_expiry st' ts expiry" using s' P' by (simp add: sm_stores_sel open_expiry_def)
    with True closes show ?thesis by fastforce
  next
    case False
    then have "open_expiry st' ts expiry \<longleftrightarrow> open_expiry st ts expiry" using s' P' sel by (simp add: sm_stores_sel open_expiry_def)
    with False closes show ?thesis by fastforce
  qed
  have "stores_wf (A', T, P', B)" using ok' s' by (simp add: sm_ok_def ledger_ok_def)
  then have "hm_ok (sm_transfers_pending s1)" using s1 by (simp add: stores_wf_def sm_stores_sel)
  note earliest = pulse_earliest [OF this pulse]
  have moved: "open_expiry s1 ts expiry \<longleftrightarrow> open_expiry st' ts expiry" for ts expiry
    using s1 s' by (simp add: open_expiry_def sm_stores_sel)
  have "\<not> sm_pulse_needed st' timestamp"
  proof (cases "\<exists>ts expiry. open_expiry s1 ts expiry")
    case True
    then have "Min {expiry. \<exists>ts. open_expiry s1 ts expiry} \<in> {expiry. \<exists>ts. open_expiry s1 ts expiry}"
      by (intro Min_in earliest(1)) auto
    then have "timestamp < Min {expiry. \<exists>ts. open_expiry s1 ts expiry}" using moved opens by auto
    with earliest(2) True show ?thesis by (simp add: sm_pulse_needed_def)
  next
    case False
    with earliest(2) assms(3) show ?thesis by (simp add: sm_pulse_needed_def)
  qed
  with opens s' sel ok' show ?thesis by (simp add: sm_stores_sel)
qed

lemma open_ledger_expires:
  "\<exists>st. sm_expire_pending_transfers 2000000000 open_ledger = Some st"
  by (simp add: sm_expire_pending_transfers_def sm_expire_one_def sm_update_account_def sm_update_transfer_pending_status_def
      sm_account_event_def sm_index_event_def sm_update_pulse_next_timestamp_def event_timestamp_def
      expires_at_def timeout_ns_def checked_add_def checked_sub_def checked_mul_def
      NS_PER_S_def hm_get_def hm_insert_def transfer_flag_defs account_flag_defs open_ledger_defs Let_def)

theorem pulse_expires_exactly_due_witness:
  "\<exists>st. sm_expire_pending_transfers 2000000000 open_ledger = Some st \<and> sm_ok st \<and>
     (\<nexists>ts. open_expiry st ts 1000000007)"
proof -
  obtain st where run: "sm_expire_pending_transfers 2000000000 open_ledger = Some st" using open_ledger_expires by blast
  have "2000000000 < TIMESTAMP_MAX" by (simp add: TIMESTAMP_MAX_def)
  from pulse_expires_exactly_due [OF open_ledger_ok run this] run show ?thesis by auto
qed

end
