(* ===== verification/Filters.thy ===== *)
theory Filters
  imports Wire
begin

text \<open>
  The query side of \<open>types.rs\<close> and \<open>state_machine.rs\<close>: the filters a client sends, their decoding and
  validation, the predicates they select by, and the records a reply is made of (balance snapshots and
  change events).
\<close>

section \<open>Filters\<close>

type_synonym account_filter_flags = u32
type_synonym query_filter_flags = u32

definition aff_debits :: "account_filter_flags \<Rightarrow> bool" where "aff_debits f \<longleftrightarrow> f AND 1 \<noteq> 0"
definition aff_credits :: "account_filter_flags \<Rightarrow> bool" where "aff_credits f \<longleftrightarrow> f AND 2 \<noteq> 0"
definition aff_reversed :: "account_filter_flags \<Rightarrow> bool" where "aff_reversed f \<longleftrightarrow> f AND 4 \<noteq> 0"

definition aff_has_padding :: "account_filter_flags \<Rightarrow> bool" where
  "aff_has_padding f \<longleftrightarrow> f AND NOT (1 OR 2 OR 4) \<noteq> 0"

definition qff_reversed :: "query_filter_flags \<Rightarrow> bool" where "qff_reversed f \<longleftrightarrow> f AND 1 \<noteq> 0"
definition qff_has_padding :: "query_filter_flags \<Rightarrow> bool" where "qff_has_padding f \<longleftrightarrow> f AND NOT 1 \<noteq> 0"

record account_filter =
  fl_account_id :: u128
  fl_user_data_128 :: u128
  fl_user_data_64 :: u64
  fl_user_data_32 :: u32
  fl_code :: u16
  fl_reserved :: "u8 list"
  fl_timestamp_min :: u64
  fl_timestamp_max :: u64
  fl_limit :: u32
  fl_flags :: account_filter_flags

record query_filter =
  qf_user_data_128 :: u128
  qf_user_data_64 :: u64
  qf_user_data_32 :: u32
  qf_ledger :: u32
  qf_code :: u16
  qf_reserved :: "u8 list"
  qf_timestamp_min :: u64
  qf_timestamp_max :: u64
  qf_limit :: u32
  qf_flags :: query_filter_flags

record change_events_filter =
  cf_timestamp_min :: u64
  cf_timestamp_max :: u64
  cf_limit :: u32
  cf_reserved :: "u8 list"

section \<open>Decoding\<close>

definition bytes_to_change_events_filter :: "u8 list \<Rightarrow> change_events_filter option option" where
  "bytes_to_change_events_filter bytes =
     (if length bytes \<noteq> 64 then Some None
      else
        do { reserved \<leftarrow> slice_at bytes 20 44;
             timestamp_min \<leftarrow> le_u64 bytes 0;
             timestamp_max \<leftarrow> le_u64 bytes 8;
             limit \<leftarrow> le_u32 bytes 16;
             Some (Some \<lparr>cf_timestamp_min = timestamp_min, cf_timestamp_max = timestamp_max,
                         cf_limit = limit, cf_reserved = reserved\<rparr>) })"

definition bytes_to_lookup_ids :: "u8 list \<Rightarrow> u128 list option option" where
  "bytes_to_lookup_ids bytes = decode_batch 16 (\<lambda>chunk. le_u128 chunk 0) bytes"

definition bytes_to_account_filter :: "u8 list \<Rightarrow> account_filter option option" where
  "bytes_to_account_filter bytes =
     (if length bytes \<noteq> 128 then Some None
      else
        do { reserved \<leftarrow> slice_at bytes 46 58;
             account_id \<leftarrow> le_u128 bytes 0;
             user_data_128 \<leftarrow> le_u128 bytes 16;
             user_data_64 \<leftarrow> le_u64 bytes 32;
             user_data_32 \<leftarrow> le_u32 bytes 40;
             code \<leftarrow> le_u16 bytes 44;
             timestamp_min \<leftarrow> le_u64 bytes 104;
             timestamp_max \<leftarrow> le_u64 bytes 112;
             limit \<leftarrow> le_u32 bytes 120;
             flags \<leftarrow> le_u32 bytes 124;
             Some (Some \<lparr>fl_account_id = account_id, fl_user_data_128 = user_data_128,
                         fl_user_data_64 = user_data_64, fl_user_data_32 = user_data_32, fl_code = code,
                         fl_reserved = reserved, fl_timestamp_min = timestamp_min,
                         fl_timestamp_max = timestamp_max, fl_limit = limit, fl_flags = flags\<rparr>) })"

definition bytes_to_query_filter :: "u8 list \<Rightarrow> query_filter option option" where
  "bytes_to_query_filter bytes =
     (if length bytes \<noteq> 64 then Some None
      else
        do { reserved \<leftarrow> slice_at bytes 34 6;
             user_data_128 \<leftarrow> le_u128 bytes 0;
             user_data_64 \<leftarrow> le_u64 bytes 16;
             user_data_32 \<leftarrow> le_u32 bytes 24;
             ledger \<leftarrow> le_u32 bytes 28;
             code \<leftarrow> le_u16 bytes 32;
             timestamp_min \<leftarrow> le_u64 bytes 40;
             timestamp_max \<leftarrow> le_u64 bytes 48;
             limit \<leftarrow> le_u32 bytes 56;
             flags \<leftarrow> le_u32 bytes 60;
             Some (Some \<lparr>qf_user_data_128 = user_data_128, qf_user_data_64 = user_data_64,
                         qf_user_data_32 = user_data_32, qf_ledger = ledger, qf_code = code,
                         qf_reserved = reserved, qf_timestamp_min = timestamp_min,
                         qf_timestamp_max = timestamp_max, qf_limit = limit, qf_flags = flags\<rparr>) })"

section \<open>Validation and selection\<close>

text \<open>\<open>(1..=i64::MAX as u64).contains(&t)\<close>.\<close>

definition filter_timestamp_valid :: "u64 \<Rightarrow> bool" where
  "filter_timestamp_valid t \<longleftrightarrow> 1 \<le> t \<and> t \<le> 0x7FFFFFFFFFFFFFFF"

definition account_filter_valid :: "account_filter \<Rightarrow> bool" where
  "account_filter_valid f \<longleftrightarrow>
     fl_account_id f \<noteq> 0 \<and> fl_account_id f \<noteq> -1 \<and>
     (fl_timestamp_min f = 0 \<or> filter_timestamp_valid (fl_timestamp_min f)) \<and>
     (fl_timestamp_max f = 0 \<or> filter_timestamp_valid (fl_timestamp_max f)) \<and>
     (fl_timestamp_max f = 0 \<or> fl_timestamp_min f \<le> fl_timestamp_max f) \<and>
     fl_limit f \<noteq> 0 \<and> (aff_credits (fl_flags f) \<or> aff_debits (fl_flags f)) \<and>
     \<not> aff_has_padding (fl_flags f) \<and> list_all (\<lambda>b. b = 0) (fl_reserved f)"

definition query_filter_valid :: "query_filter \<Rightarrow> bool" where
  "query_filter_valid f \<longleftrightarrow>
     (qf_timestamp_min f = 0 \<or> filter_timestamp_valid (qf_timestamp_min f)) \<and>
     (qf_timestamp_max f = 0 \<or> filter_timestamp_valid (qf_timestamp_max f)) \<and>
     (qf_timestamp_max f = 0 \<or> qf_timestamp_min f \<le> qf_timestamp_max f) \<and>
     qf_limit f \<noteq> 0 \<and> \<not> qff_has_padding (qf_flags f) \<and> list_all (\<lambda>b. b = 0) (qf_reserved f)"

definition transfer_matches_account_filter :: "transfer \<Rightarrow> account_filter \<Rightarrow> bool" where
  "transfer_matches_account_filter t f \<longleftrightarrow>
     (let side_matches = aff_debits (fl_flags f) \<and> t_debit_account_id t = fl_account_id f
            \<or> aff_credits (fl_flags f) \<and> t_credit_account_id t = fl_account_id f
      in side_matches \<and>
         (fl_user_data_128 f = 0 \<or> t_user_data_128 t = fl_user_data_128 f) \<and>
         (fl_user_data_64 f = 0 \<or> t_user_data_64 t = fl_user_data_64 f) \<and>
         (fl_user_data_32 f = 0 \<or> t_user_data_32 t = fl_user_data_32 f) \<and>
         (fl_code f = 0 \<or> t_code t = fl_code f))"

definition query_matches :: "u128 \<Rightarrow> u64 \<Rightarrow> u32 \<Rightarrow> u32 \<Rightarrow> u16 \<Rightarrow> u64 \<Rightarrow> u64 \<Rightarrow> u64 \<Rightarrow> query_filter \<Rightarrow> bool" where
  "query_matches user_data_128 user_data_64 user_data_32 ledger code timestamp lo hi f \<longleftrightarrow>
     timestamp \<ge> lo \<and> timestamp \<le> hi \<and>
     (qf_user_data_128 f = 0 \<or> user_data_128 = qf_user_data_128 f) \<and>
     (qf_user_data_64 f = 0 \<or> user_data_64 = qf_user_data_64 f) \<and>
     (qf_user_data_32 f = 0 \<or> user_data_32 = qf_user_data_32 f) \<and>
     (qf_ledger f = 0 \<or> ledger = qf_ledger f) \<and>
     (qf_code f = 0 \<or> code = qf_code f)"

section \<open>Balance snapshots\<close>

record account_balance =
  ab_debits_pending :: u128
  ab_debits_posted :: u128
  ab_credits_pending :: u128
  ab_credits_posted :: u128
  ab_timestamp :: u64
  ab_reserved :: "u8 list"

definition account_balance_record :: "account_balance \<Rightarrow> u8 list option" where
  "account_balance_record snapshot = record_image 128 [
     (0, le_bytes 16 (ab_debits_pending snapshot)), (16, le_bytes 16 (ab_debits_posted snapshot)),
     (32, le_bytes 16 (ab_credits_pending snapshot)), (48, le_bytes 16 (ab_credits_posted snapshot)),
     (64, le_bytes 8 (ab_timestamp snapshot)), (72, ab_reserved snapshot)]"

definition account_balances_to_bytes :: "account_balance list \<Rightarrow> u8 list option" where
  "account_balances_to_bytes snapshots = encode_batch account_balance_record snapshots"

definition account_balance_of_event :: "u128 \<Rightarrow> account_event \<Rightarrow> account_balance option" where
  "account_balance_of_event account_id event =
     do { ensure (ev_dr_account_id event \<noteq> ev_cr_account_id event);
          if account_id = ev_dr_account_id event then
            Some \<lparr>ab_debits_pending = ev_dr_debits_pending event, ab_debits_posted = ev_dr_debits_posted event,
                  ab_credits_pending = ev_dr_credits_pending event, ab_credits_posted = ev_dr_credits_posted event,
                  ab_timestamp = ev_timestamp event, ab_reserved = replicate 56 0\<rparr>
          else
            do { ensure (account_id = ev_cr_account_id event);
                 Some \<lparr>ab_debits_pending = ev_cr_debits_pending event, ab_debits_posted = ev_cr_debits_posted event,
                       ab_credits_pending = ev_cr_credits_pending event, ab_credits_posted = ev_cr_credits_posted event,
                       ab_timestamp = ev_timestamp event, ab_reserved = replicate 56 0\<rparr> } }"

definition account_balances_from_events :: "account_event list \<Rightarrow> u128 \<Rightarrow> u8 list option" where
  "account_balances_from_events events account_id =
     do { results \<leftarrow> those (map (account_balance_of_event account_id) events);
          account_balances_to_bytes results }"

section \<open>Change events\<close>

record change_event =
  ch_transfer_id :: u128
  ch_transfer_amount :: u128
  ch_transfer_pending_id :: u128
  ch_transfer_user_data_128 :: u128
  ch_transfer_user_data_64 :: u64
  ch_transfer_user_data_32 :: u32
  ch_transfer_timeout :: u32
  ch_transfer_code :: u16
  ch_transfer_flags :: transfer_flags
  ch_ledger :: u32
  ch_type :: ChangeEventType
  ch_reserved :: "u8 list"
  ch_debit_account_id :: u128
  ch_debit_account_debits_pending :: u128
  ch_debit_account_debits_posted :: u128
  ch_debit_account_credits_pending :: u128
  ch_debit_account_credits_posted :: u128
  ch_debit_account_user_data_128 :: u128
  ch_debit_account_user_data_64 :: u64
  ch_debit_account_user_data_32 :: u32
  ch_debit_account_code :: u16
  ch_debit_account_flags :: account_flags
  ch_credit_account_id :: u128
  ch_credit_account_debits_pending :: u128
  ch_credit_account_debits_posted :: u128
  ch_credit_account_credits_pending :: u128
  ch_credit_account_credits_posted :: u128
  ch_credit_account_user_data_128 :: u128
  ch_credit_account_user_data_64 :: u64
  ch_credit_account_user_data_32 :: u32
  ch_credit_account_code :: u16
  ch_credit_account_flags :: account_flags
  ch_timestamp :: u64
  ch_transfer_timestamp :: u64
  ch_debit_account_timestamp :: u64
  ch_credit_account_timestamp :: u64

text \<open>\<open>event.r#type as u8\<close>.\<close>

primrec change_event_type_code :: "ChangeEventType \<Rightarrow> u8" where
  "change_event_type_code SinglePhase = 0"
| "change_event_type_code TwoPhasePending = 1"
| "change_event_type_code TwoPhasePosted = 2"
| "change_event_type_code TwoPhaseVoided = 3"
| "change_event_type_code TwoPhaseExpired = 4"

definition change_bytes :: "change_event \<Rightarrow> u8 list option" where
  "change_bytes event = record_image 384 [
     (0, le_bytes 16 (ch_transfer_id event)), (16, le_bytes 16 (ch_transfer_amount event)),
     (32, le_bytes 16 (ch_transfer_pending_id event)),
     (48, le_bytes 16 (ch_transfer_user_data_128 event)),
     (64, le_bytes 8 (ch_transfer_user_data_64 event)), (72, le_bytes 4 (ch_transfer_user_data_32 event)),
     (76, le_bytes 4 (ch_transfer_timeout event)), (80, le_bytes 2 (ch_transfer_code event)),
     (82, le_bytes 2 (ch_transfer_flags event)), (84, le_bytes 4 (ch_ledger event)),
     (88, [change_event_type_code (ch_type event)]), (89, ch_reserved event),
     (128, le_bytes 16 (ch_debit_account_id event)),
     (144, le_bytes 16 (ch_debit_account_debits_pending event)),
     (160, le_bytes 16 (ch_debit_account_debits_posted event)),
     (176, le_bytes 16 (ch_debit_account_credits_pending event)),
     (192, le_bytes 16 (ch_debit_account_credits_posted event)),
     (208, le_bytes 16 (ch_debit_account_user_data_128 event)),
     (224, le_bytes 8 (ch_debit_account_user_data_64 event)),
     (232, le_bytes 4 (ch_debit_account_user_data_32 event)),
     (236, le_bytes 2 (ch_debit_account_code event)), (238, le_bytes 2 (ch_debit_account_flags event)),
     (240, le_bytes 16 (ch_credit_account_id event)),
     (256, le_bytes 16 (ch_credit_account_debits_pending event)),
     (272, le_bytes 16 (ch_credit_account_debits_posted event)),
     (288, le_bytes 16 (ch_credit_account_credits_pending event)),
     (304, le_bytes 16 (ch_credit_account_credits_posted event)),
     (320, le_bytes 16 (ch_credit_account_user_data_128 event)),
     (336, le_bytes 8 (ch_credit_account_user_data_64 event)),
     (344, le_bytes 4 (ch_credit_account_user_data_32 event)),
     (348, le_bytes 2 (ch_credit_account_code event)), (350, le_bytes 2 (ch_credit_account_flags event)),
     (352, le_bytes 8 (ch_timestamp event)), (360, le_bytes 8 (ch_transfer_timestamp event)),
     (368, le_bytes 8 (ch_debit_account_timestamp event)),
     (376, le_bytes 8 (ch_credit_account_timestamp event))]"

lemmas filter_defs [model_defs] = aff_debits_def aff_credits_def aff_reversed_def aff_has_padding_def
  qff_reversed_def qff_has_padding_def filter_timestamp_valid_def account_filter_valid_def
  query_filter_valid_def transfer_matches_account_filter_def query_matches_def

end
