(* ===== verification/Queries.thy ===== *)
theory Queries
  imports StateMachine Filters
begin

text \<open>
  The read operations of \<open>state_machine.rs\<close> over the committed stores (no mounted forest), the operation
  numbers of \<open>tigerbeetle-vsr/src/lib.rs\<close>, and the dispatcher \<open>execute\<close> that decodes a body, runs the
  operation and returns the reply. \<open>MESSAGE_BODY_SIZE_MAX\<close> is the parameter \<open>body_max\<close>. A
  \<open>sort_unstable_by_key\<close> is \<open>sort_key\<close>; the timestamps it sorts by are distinct in every reachable
  state, so the order it gives is the only one.
\<close>

section \<open>Reply sizes\<close>

definition result_max :: "nat \<Rightarrow> nat \<Rightarrow> nat" where
  "result_max body_max result_size = body_max div result_size"

definition result_max_multi_batch :: "nat \<Rightarrow> nat \<Rightarrow> nat option" where
  "result_max_multi_batch body_max result_size =
     do { ensure (result_size \<in> (\<lambda>k. 2 ^ k) ` {0..<64});
          let trailer_size = (4 + result_size - 1) div result_size * result_size;
          ensure (trailer_size \<le> body_max);
          Some ((body_max - trailer_size) div result_size) }"

text \<open>\<open>if filter.timestamp_max == 0 { u64::MAX } else { filter.timestamp_max }\<close>, and the bound below.\<close>

definition range_min :: "u64 \<Rightarrow> u64" where
  "range_min timestamp_min = (if timestamp_min = 0 then 0 else timestamp_min)"

definition range_max :: "u64 \<Rightarrow> u64" where
  "range_max timestamp_max = (if timestamp_max = 0 then -1 else timestamp_max)"

text \<open>The tail every query shares: sort by timestamp, or by \<open>Reverse(timestamp)\<close>, and truncate.\<close>

definition sort_by_timestamp :: "bool \<Rightarrow> ('v \<Rightarrow> u64) \<Rightarrow> 'v list \<Rightarrow> 'v list" where
  "sort_by_timestamp rev_order ts xs =
     (if rev_order then sort_key (\<lambda>x. - int (unat (ts x))) xs else sort_key ts xs)"

section \<open>Lookups\<close>

definition sm_account :: "state_machine \<Rightarrow> u128 \<Rightarrow> account option" where
  "sm_account st account_id = hm_get (sm_accounts st) account_id"

definition sm_transfer :: "state_machine \<Rightarrow> u128 \<Rightarrow> transfer option" where
  "sm_transfer st transfer_id = hm_get (sm_transfers st) transfer_id"

fun lookup_found :: "('k, 'v) hmap \<Rightarrow> 'k list \<Rightarrow> 'v list" where
  "lookup_found store [] = []"
| "lookup_found store (key # keys) =
     (case hm_get store key of None \<Rightarrow> lookup_found store keys | Some v \<Rightarrow> v # lookup_found store keys)"

definition lookup_accounts :: "u128 list \<Rightarrow> state_machine \<Rightarrow> u8 list option" where
  "lookup_accounts ids st = account_batch_to_bytes (lookup_found (sm_accounts st) ids)"

definition lookup_transfers :: "u128 list \<Rightarrow> state_machine \<Rightarrow> u8 list option" where
  "lookup_transfers ids st = transfer_batch_to_bytes (lookup_found (sm_transfers st) ids)"

section \<open>Queries over accounts and transfers\<close>

definition get_account_transfers :: "nat \<Rightarrow> account_filter \<Rightarrow> state_machine \<Rightarrow> u8 list option" where
  "get_account_transfers body_max f st =
     (if \<not> account_filter_valid f then Some []
      else
        do { let lo = range_min (fl_timestamp_min f);
             let hi = range_max (fl_timestamp_max f);
             let results = filter (\<lambda>t. t_timestamp t \<ge> lo \<and> t_timestamp t \<le> hi \<and> transfer_matches_account_filter t f)
                             (hm_values (sm_transfers st));
             let results = sort_by_timestamp (aff_reversed (fl_flags f)) t_timestamp results;
             cap \<leftarrow> result_max_multi_batch body_max 128;
             transfer_batch_to_bytes (take (min (unat (fl_limit f)) cap) results) })"

definition query_accounts :: "nat \<Rightarrow> query_filter \<Rightarrow> state_machine \<Rightarrow> u8 list option" where
  "query_accounts body_max f st =
     (if \<not> query_filter_valid f then Some []
      else
        do { let lo = range_min (qf_timestamp_min f);
             let hi = range_max (qf_timestamp_max f);
             let results = filter (\<lambda>a. query_matches (a_user_data_128 a) (a_user_data_64 a) (a_user_data_32 a)
                                     (a_ledger a) (a_code a) (a_timestamp a) lo hi f)
                             (hm_values (sm_accounts st));
             let results = sort_by_timestamp (qff_reversed (qf_flags f)) a_timestamp results;
             cap \<leftarrow> result_max_multi_batch body_max 128;
             account_batch_to_bytes (take (min (unat (qf_limit f)) cap) results) })"

definition query_transfers :: "nat \<Rightarrow> query_filter \<Rightarrow> state_machine \<Rightarrow> u8 list option" where
  "query_transfers body_max f st =
     (if \<not> query_filter_valid f then Some []
      else
        do { let lo = range_min (qf_timestamp_min f);
             let hi = range_max (qf_timestamp_max f);
             let results = filter (\<lambda>t. query_matches (t_user_data_128 t) (t_user_data_64 t) (t_user_data_32 t)
                                     (t_ledger t) (t_code t) (t_timestamp t) lo hi f)
                             (hm_values (sm_transfers st));
             let results = sort_by_timestamp (qff_reversed (qf_flags f)) t_timestamp results;
             cap \<leftarrow> result_max_multi_batch body_max 128;
             transfer_batch_to_bytes (take (min (unat (qf_limit f)) cap) results) })"

section \<open>The change-event log\<close>

definition account_event_transfer :: "state_machine \<Rightarrow> account_event \<Rightarrow> transfer option" where
  "account_event_transfer st result =
     (if ev_transfer_pending_status result = StExpired
      then hm_get (sm_transfers st) (ev_transfer_pending_id result)
      else
        (case hm_get (sm_transfers_by_timestamp st) (ev_timestamp result) of
           None \<Rightarrow> None
         | Some transfer_id \<Rightarrow> hm_get (sm_transfers st) transfer_id))"

definition account_balance_events_from_store :: "nat \<Rightarrow> account_filter \<Rightarrow> u64 \<Rightarrow> u64 \<Rightarrow> state_machine
    \<Rightarrow> account_event list option" where
  "account_balance_events_from_store body_max f lo hi st =
     do { let events = map snd (filter (\<lambda>(ts, e). ts \<ge> lo \<and> ts \<le> hi \<and> ev_transfer_pending_status e \<noteq> StExpired \<and>
                                    (case account_event_transfer st e of
                                       None \<Rightarrow> False | Some t \<Rightarrow> transfer_matches_account_filter t f))
                                  (sm_account_events st));
          let events = sort_by_timestamp (aff_reversed (fl_flags f)) ev_timestamp events;
          cap \<leftarrow> result_max_multi_batch body_max 128;
          Some (take (min (unat (fl_limit f)) cap) events) }"

definition get_account_balances :: "nat \<Rightarrow> account_filter \<Rightarrow> state_machine \<Rightarrow> u8 list option" where
  "get_account_balances body_max f st =
     (if \<not> account_filter_valid f then Some []
      else
        (case hm_get (sm_accounts st) (fl_account_id f) of
           None \<Rightarrow> Some []
         | Some account \<Rightarrow>
             if \<not> af_history (a_flags account) then Some []
             else
               do { let lo = range_min (fl_timestamp_min f);
                    let hi = range_max (fl_timestamp_max f);
                    events \<leftarrow> account_balance_events_from_store body_max f lo hi st;
                    account_balances_from_events events (fl_account_id f) }))"

text \<open>The \<open>match\<close> on \<open>result.transfer_pending_status\<close>, with the assertions of each arm.\<close>

primrec change_event_type :: "TransferPendingStatus \<Rightarrow> account_event \<Rightarrow> transfer \<Rightarrow> ChangeEventType option" where
  "change_event_type StNone result t =
     do { ensure (t_timestamp t = ev_timestamp result);
          ensure (\<not> tf_pending (t_flags t));
          ensure (\<not> tf_post_pending_transfer (t_flags t));
          ensure (\<not> tf_void_pending_transfer (t_flags t));
          ensure (t_pending_id t = 0);
          Some SinglePhase }"
| "change_event_type StPending result t =
     do { ensure (t_timestamp t = ev_timestamp result);
          ensure (tf_pending (t_flags t));
          ensure (t_pending_id t = 0);
          Some TwoPhasePending }"
| "change_event_type StPosted result t =
     do { ensure (t_timestamp t = ev_timestamp result);
          ensure (tf_post_pending_transfer (t_flags t));
          ensure (t_pending_id t = ev_transfer_pending_id result);
          Some TwoPhasePosted }"
| "change_event_type StVoided result t =
     do { ensure (t_timestamp t = ev_timestamp result);
          ensure (tf_void_pending_transfer (t_flags t));
          ensure (t_pending_id t = ev_transfer_pending_id result);
          Some TwoPhaseVoided }"
| "change_event_type StExpired result t =
     do { ensure (tf_pending (t_flags t));
          ensure (t_id t = ev_transfer_pending_id result);
          ensure (t_timeout t > 0);
          ensure (t_timestamp t < ev_timestamp result);
          Some TwoPhaseExpired }"

definition build_change_event_from_objects :: "account_event \<Rightarrow> transfer \<Rightarrow> account \<Rightarrow> account \<Rightarrow> change_event option" where
  "build_change_event_from_objects result transfer dr_account cr_account =
     do { ensure (t_debit_account_id transfer = a_id dr_account);
          ensure (t_credit_account_id transfer = a_id cr_account);
          ensure (t_ledger transfer = ev_ledger result);
          ensure (a_ledger dr_account = ev_ledger result);
          ensure (a_ledger cr_account = ev_ledger result);
          event_type \<leftarrow> change_event_type (ev_transfer_pending_status result) result transfer;
          Some \<lparr>ch_transfer_id = t_id transfer,
                ch_transfer_amount = ev_amount result,
                ch_transfer_pending_id = t_pending_id transfer,
                ch_transfer_user_data_128 = t_user_data_128 transfer,
                ch_transfer_user_data_64 = t_user_data_64 transfer,
                ch_transfer_user_data_32 = t_user_data_32 transfer,
                ch_transfer_timeout = t_timeout transfer,
                ch_transfer_code = t_code transfer,
                ch_transfer_flags = t_flags transfer,
                ch_ledger = ev_ledger result,
                ch_type = event_type,
                ch_reserved = replicate 39 0,
                ch_debit_account_id = a_id dr_account,
                ch_debit_account_debits_pending = ev_dr_debits_pending result,
                ch_debit_account_debits_posted = ev_dr_debits_posted result,
                ch_debit_account_credits_pending = ev_dr_credits_pending result,
                ch_debit_account_credits_posted = ev_dr_credits_posted result,
                ch_debit_account_user_data_128 = a_user_data_128 dr_account,
                ch_debit_account_user_data_64 = a_user_data_64 dr_account,
                ch_debit_account_user_data_32 = a_user_data_32 dr_account,
                ch_debit_account_code = a_code dr_account,
                ch_debit_account_flags = ev_dr_account_flags result,
                ch_credit_account_id = a_id cr_account,
                ch_credit_account_debits_pending = ev_cr_debits_pending result,
                ch_credit_account_debits_posted = ev_cr_debits_posted result,
                ch_credit_account_credits_pending = ev_cr_credits_pending result,
                ch_credit_account_credits_posted = ev_cr_credits_posted result,
                ch_credit_account_user_data_128 = a_user_data_128 cr_account,
                ch_credit_account_user_data_64 = a_user_data_64 cr_account,
                ch_credit_account_user_data_32 = a_user_data_32 cr_account,
                ch_credit_account_code = a_code cr_account,
                ch_credit_account_flags = ev_cr_account_flags result,
                ch_timestamp = ev_timestamp result,
                ch_transfer_timestamp = t_timestamp transfer,
                ch_debit_account_timestamp = a_timestamp dr_account,
                ch_credit_account_timestamp = a_timestamp cr_account\<rparr> }"

definition build_change_event :: "state_machine \<Rightarrow> account_event \<Rightarrow> change_event option" where
  "build_change_event st result =
     do { transfer \<leftarrow> account_event_transfer st result;
          dr_account \<leftarrow> hm_get (sm_accounts st) (ev_dr_account_id result);
          cr_account \<leftarrow> hm_get (sm_accounts st) (ev_cr_account_id result);
          build_change_event_from_objects result transfer dr_account cr_account }"

definition change_events_reply :: "nat \<Rightarrow> state_machine \<Rightarrow> account_event list \<Rightarrow> u32 \<Rightarrow> u8 list option" where
  "change_events_reply body_max st events limit =
     do { let events = take (min (unat limit) (result_max body_max 384)) events;
          images \<leftarrow> those (map (\<lambda>result. build_change_event st result \<bind> change_bytes) events);
          Some (concat images) }"

definition get_change_events :: "nat \<Rightarrow> change_events_filter \<Rightarrow> state_machine \<Rightarrow> u8 list option" where
  "get_change_events body_max f st =
     do { ensure (list_all (\<lambda>b. b = 0) (cf_reserved f));
          let lo = range_min (cf_timestamp_min f);
          let hi = range_max (cf_timestamp_max f);
          ensure (lo \<le> hi);
          ensure (cf_limit f \<noteq> 0);
          let events = map snd (filter (\<lambda>(ts, _). ts \<ge> lo \<and> ts \<le> hi) (sm_account_events st));
          change_events_reply body_max st (sort_by_timestamp False ev_timestamp events) (cf_limit f) }"

section \<open>Operations\<close>

type_synonym operation = u8

definition VSR_OPERATIONS_RESERVED :: u8 where "VSR_OPERATIONS_RESERVED = 128"

definition OP_PULSE :: operation where "OP_PULSE = 4"
definition OP_STATE_MACHINE_PULSE :: operation where "OP_STATE_MACHINE_PULSE = VSR_OPERATIONS_RESERVED + 0"
definition OP_CREATE_ACCOUNTS :: operation where "OP_CREATE_ACCOUNTS = VSR_OPERATIONS_RESERVED + 18"
definition OP_CREATE_TRANSFERS :: operation where "OP_CREATE_TRANSFERS = VSR_OPERATIONS_RESERVED + 19"
definition OP_GET_CHANGE_EVENTS :: operation where "OP_GET_CHANGE_EVENTS = VSR_OPERATIONS_RESERVED + 9"
definition OP_LOOKUP_ACCOUNTS :: operation where "OP_LOOKUP_ACCOUNTS = VSR_OPERATIONS_RESERVED + 12"
definition OP_LOOKUP_TRANSFERS :: operation where "OP_LOOKUP_TRANSFERS = VSR_OPERATIONS_RESERVED + 13"
definition OP_GET_ACCOUNT_TRANSFERS :: operation where "OP_GET_ACCOUNT_TRANSFERS = VSR_OPERATIONS_RESERVED + 14"
definition OP_GET_ACCOUNT_BALANCES :: operation where "OP_GET_ACCOUNT_BALANCES = VSR_OPERATIONS_RESERVED + 15"
definition OP_QUERY_ACCOUNTS :: operation where "OP_QUERY_ACCOUNTS = VSR_OPERATIONS_RESERVED + 16"
definition OP_QUERY_TRANSFERS :: operation where "OP_QUERY_TRANSFERS = VSR_OPERATIONS_RESERVED + 17"

definition vsr_reserved :: "operation \<Rightarrow> bool" where
  "vsr_reserved op \<longleftrightarrow> op < VSR_OPERATIONS_RESERVED"

definition sm_executes :: "operation \<Rightarrow> bool" where
  "sm_executes op \<longleftrightarrow> op = OP_PULSE \<or> \<not> vsr_reserved op"

definition body_decodes :: "'v option option \<Rightarrow> bool option" where
  "body_decodes decoded = map_option (\<lambda>d. d \<noteq> None) decoded"

definition operation_body_is_valid :: "operation \<Rightarrow> u8 list \<Rightarrow> bool option" where
  "operation_body_is_valid op body =
     (if op = OP_PULSE \<or> op = OP_STATE_MACHINE_PULSE then Some (body = [])
      else if op = OP_CREATE_ACCOUNTS then body_decodes (bytes_to_account_batch body)
      else if op = OP_CREATE_TRANSFERS then body_decodes (bytes_to_transfer_batch body)
      else if op = OP_GET_CHANGE_EVENTS then body_decodes (bytes_to_change_events_filter body)
      else if op = OP_LOOKUP_ACCOUNTS \<or> op = OP_LOOKUP_TRANSFERS then body_decodes (bytes_to_lookup_ids body)
      else if op = OP_GET_ACCOUNT_TRANSFERS \<or> op = OP_GET_ACCOUNT_BALANCES
        then body_decodes (bytes_to_account_filter body)
      else if op = OP_QUERY_ACCOUNTS \<or> op = OP_QUERY_TRANSFERS then body_decodes (bytes_to_query_filter body)
      else Some False)"

definition sm_prefetch :: "nat \<Rightarrow> u64 \<Rightarrow> u64 \<Rightarrow> operation \<Rightarrow> u8 list \<Rightarrow> state_machine \<Rightarrow> state_machine option" where
  "sm_prefetch body_max op snapshot operation body st =
     do { ensure (op > 0);
          ensure (op \<le> snapshot);
          ensure (sm_prefetch_operation st = None);
          ensure (length body \<le> body_max);
          valid \<leftarrow> operation_body_is_valid operation body;
          ensure valid;
          Some (st\<lparr>sm_prefetch_snapshot := Some snapshot, sm_prefetch_operation := None\<rparr>) }"

text \<open>An undecodable body or an unknown operation is \<open>unreachable!\<close>: a panic. A read leaves the state as it
  is.\<close>

definition sm_execute :: "nat \<Rightarrow> operation \<Rightarrow> u64 \<Rightarrow> u8 list \<Rightarrow> state_machine
    \<Rightarrow> (u8 list \<times> state_machine) option" where
  "sm_execute body_max op timestamp body st =
     (if op = OP_PULSE \<or> op = OP_STATE_MACHINE_PULSE then
        do { ensure (body = []);
             st \<leftarrow> sm_expire_pending_transfers timestamp st;
             Some ([], st) }
      else if op = OP_CREATE_ACCOUNTS then
        do { decoded \<leftarrow> bytes_to_account_batch body;
             events \<leftarrow> decoded;
             create_accounts events timestamp st }
      else if op = OP_CREATE_TRANSFERS then
        do { decoded \<leftarrow> bytes_to_transfer_batch body;
             events \<leftarrow> decoded;
             create_transfers events timestamp st }
      else if op = OP_GET_CHANGE_EVENTS then
        do { decoded \<leftarrow> bytes_to_change_events_filter body;
             f \<leftarrow> decoded;
             reply \<leftarrow> get_change_events body_max f st;
             Some (reply, st) }
      else if op = OP_LOOKUP_ACCOUNTS then
        do { decoded \<leftarrow> bytes_to_lookup_ids body;
             ids \<leftarrow> decoded;
             reply \<leftarrow> lookup_accounts ids st;
             Some (reply, st) }
      else if op = OP_LOOKUP_TRANSFERS then
        do { decoded \<leftarrow> bytes_to_lookup_ids body;
             ids \<leftarrow> decoded;
             reply \<leftarrow> lookup_transfers ids st;
             Some (reply, st) }
      else if op = OP_GET_ACCOUNT_TRANSFERS then
        do { decoded \<leftarrow> bytes_to_account_filter body;
             f \<leftarrow> decoded;
             reply \<leftarrow> get_account_transfers body_max f st;
             Some (reply, st) }
      else if op = OP_GET_ACCOUNT_BALANCES then
        do { decoded \<leftarrow> bytes_to_account_filter body;
             f \<leftarrow> decoded;
             reply \<leftarrow> get_account_balances body_max f st;
             Some (reply, st) }
      else if op = OP_QUERY_ACCOUNTS then
        do { decoded \<leftarrow> bytes_to_query_filter body;
             f \<leftarrow> decoded;
             reply \<leftarrow> query_accounts body_max f st;
             Some (reply, st) }
      else if op = OP_QUERY_TRANSFERS then
        do { decoded \<leftarrow> bytes_to_query_filter body;
             f \<leftarrow> decoded;
             reply \<leftarrow> query_transfers body_max f st;
             Some (reply, st) }
      else None)"

lemmas operation_defs [model_defs] = VSR_OPERATIONS_RESERVED_def OP_PULSE_def OP_STATE_MACHINE_PULSE_def
  OP_CREATE_ACCOUNTS_def OP_CREATE_TRANSFERS_def OP_GET_CHANGE_EVENTS_def OP_LOOKUP_ACCOUNTS_def
  OP_LOOKUP_TRANSFERS_def OP_GET_ACCOUNT_TRANSFERS_def OP_GET_ACCOUNT_BALANCES_def OP_QUERY_ACCOUNTS_def
  OP_QUERY_TRANSFERS_def vsr_reserved_def sm_executes_def

end
