(* ===== verification/Events.thy ===== *)
theory Events
  imports Reach Queries
begin

text \<open>
  The change-event log of every reachable state is complete and consistent with the stores: each event
  sits under its own timestamp, the transfer and the two accounts it refers to are stored, and they
  pass every assertion of \<open>build_change_event_from_objects\<close>. So neither \<open>get_change_events\<close> nor
  \<open>get_account_balances\<close> panics on an event the state machine logged itself.
\<close>

section \<open>What one event needs\<close>

definition keeps_accounts :: "(u128, account) hmap \<Rightarrow> (u128, account) hmap \<Rightarrow> bool" where
  "keeps_accounts A A' \<longleftrightarrow> (\<forall>k a. hm_get A k = Some a \<longrightarrow>
     (\<exists>a'. hm_get A' k = Some a' \<and> a_id a' = a_id a \<and> a_ledger a' = a_ledger a))"

definition event_transfer :: "stores \<Rightarrow> account_event \<Rightarrow> transfer option" where
  "event_transfer = (\<lambda>(A, T, P, B) e.
     if ev_transfer_pending_status e = StExpired then hm_get T (ev_transfer_pending_id e)
     else (case hm_get B (ev_timestamp e) of None \<Rightarrow> None | Some transfer_id \<Rightarrow> hm_get T transfer_id))"

definition event_ok :: "stores \<Rightarrow> account_event \<Rightarrow> bool" where
  "event_ok s e \<longleftrightarrow> ev_dr_account_id e \<noteq> ev_cr_account_id e \<and>
     (\<exists>t dr cr. event_transfer s e = Some t \<and> hm_get (fst s) (ev_dr_account_id e) = Some dr \<and>
        hm_get (fst s) (ev_cr_account_id e) = Some cr \<and> build_change_event_from_objects e t dr cr \<noteq> None)"

definition ledger_matches :: "(u128, account) hmap \<Rightarrow> transfer \<Rightarrow> bool" where
  "ledger_matches A t \<longleftrightarrow> (\<exists>dr cr. hm_get A (t_debit_account_id t) = Some dr \<and> hm_get A (t_credit_account_id t) = Some cr \<and>
     a_ledger dr = t_ledger t \<and> a_ledger cr = t_ledger t)"

definition log_ok :: "state_machine \<Rightarrow> bool" where
  "log_ok s \<longleftrightarrow> hm_ok (sm_account_events s) \<and>
     (\<forall>k t. hm_get (sm_transfers s) k = Some t \<longrightarrow> ledger_matches (sm_accounts s) t) \<and>
     (\<forall>ts e. hm_get (sm_account_events s) ts = Some e \<longrightarrow> ev_timestamp e = ts \<and> event_ok (sm_stores s) e)"

lemma event_transfer_store: "event_transfer (sm_stores st) e = account_event_transfer st e"
  by (simp add: event_transfer_def sm_stores_def account_event_transfer_def)

lemma build_change_event_defined:
  "build_change_event_from_objects e t dr cr \<noteq> None \<longleftrightarrow>
     t_debit_account_id t = a_id dr \<and> t_credit_account_id t = a_id cr \<and> t_ledger t = ev_ledger e \<and>
     a_ledger dr = ev_ledger e \<and> a_ledger cr = ev_ledger e \<and>
     change_event_type (ev_transfer_pending_status e) e t \<noteq> None"
  by (auto simp: build_change_event_from_objects_def bind_Some_iff ensure_def)

lemmas build_change_event_Some = build_change_event_defined [unfolded not_None_eq]

lemma keeps_accounts_refl: "keeps_accounts A A"
  by (simp add: keeps_accounts_def)

lemma keeps_accounts_insert:
  assumes "keeps_accounts A A'" "\<And>b. hm_get A k = Some b \<Longrightarrow> a_id a = a_id b \<and> a_ledger a = a_ledger b"
  shows "keeps_accounts A (hm_insert k a A')"
  using assms by (auto simp: keeps_accounts_def)

lemma keeps_accounts_move:
  assumes "hm_get A d = Some dr" "hm_get A c = Some cr"
    and "a_id dr = d" "a_id cr = c" "a_id dr' = d" "a_id cr' = c" "a_ledger dr' = a_ledger dr" "a_ledger cr' = a_ledger cr"
  shows "keeps_accounts A (hm_insert (a_id cr') cr' (hm_insert (a_id dr') dr' A))"
  using assms by (intro keeps_accounts_insert keeps_accounts_refl) auto

lemma event_ok_keeps:
  assumes "event_ok (A, T, P, B) e" "keeps_accounts A A'"
    and "\<And>t. event_transfer (A, T, P, B) e = Some t \<Longrightarrow> event_transfer (A', T', P', B') e = Some t"
  shows "event_ok (A', T', P', B') e"
proof -
  from assms(1) obtain t dr cr where t: "event_transfer (A, T, P, B) e = Some t"
    and two: "hm_get A (ev_dr_account_id e) = Some dr" "hm_get A (ev_cr_account_id e) = Some cr"
    and built: "build_change_event_from_objects e t dr cr \<noteq> None" and sides: "ev_dr_account_id e \<noteq> ev_cr_account_id e"
    by (auto simp: event_ok_def)
  from assms(2) two obtain dr' cr' where "hm_get A' (ev_dr_account_id e) = Some dr'" "hm_get A' (ev_cr_account_id e) = Some cr'"
    "a_id dr' = a_id dr" "a_ledger dr' = a_ledger dr" "a_id cr' = a_id cr" "a_ledger cr' = a_ledger cr"
    unfolding keeps_accounts_def by metis
  moreover from this have "build_change_event_from_objects e t dr' cr' \<noteq> None"
    using built by (simp add: build_change_event_Some)
  ultimately show ?thesis using assms(3) [OF t] sides unfolding event_ok_def fst_conv by blast
qed

lemma ledger_matches_keeps: "ledger_matches A t \<Longrightarrow> keeps_accounts A A' \<Longrightarrow> ledger_matches A' t"
  unfolding ledger_matches_def keeps_accounts_def by metis

section \<open>What one operation logs\<close>

text \<open>The log gains one event, under a timestamp it did not have, with the two accounts as they are now.\<close>

definition logs :: "account \<Rightarrow> account \<Rightarrow> TransferPendingStatus \<Rightarrow> u128 \<Rightarrow> u64 \<Rightarrow> state_machine \<Rightarrow> state_machine \<Rightarrow> bool" where
  "logs dr cr status pending_id ts st st' \<longleftrightarrow> a_ledger dr = a_ledger cr \<and> hm_get (sm_account_events st) ts = None \<and>
     (\<exists>e. sm_account_events st' = hm_insert ts e (sm_account_events st) \<and> ev_timestamp e = ts \<and>
        ev_dr_account_id e = a_id dr \<and> ev_cr_account_id e = a_id cr \<and> ev_ledger e = a_ledger dr \<and>
        ev_transfer_pending_status e = status \<and> ev_transfer_pending_id e = pending_id)"

lemma sm_index_event_log [simp]: "sm_account_events (sm_index_event a ts st) = sm_account_events st"
  by (simp add: sm_index_event_def Let_def)

lemma sm_account_event_logs:
  assumes "sm_account_event ts dr cr flags status pending requested amount st = Some st'"
  shows "logs dr cr status (case pending of None \<Rightarrow> 0 | Some p \<Rightarrow> t_id p) ts st st'"
  using assms by (auto simp: sm_account_event_def panic_simps Let_def logs_def)

lemma store_writes_log:
  "sm_update_account a st = Some st' \<Longrightarrow> sm_account_events st' = sm_account_events st"
  "sm_insert_transfer k t st = Some st' \<Longrightarrow> sm_account_events st' = sm_account_events st \<and> sm_accounts st' = sm_accounts st"
  "sm_insert_transfer_pending row st = Some st' \<Longrightarrow> sm_account_events st' = sm_account_events st \<and> sm_accounts st' = sm_accounts st"
  "sm_update_transfer_pending_status ts status st = Some st' \<Longrightarrow>
     sm_account_events st' = sm_account_events st \<and> sm_accounts st' = sm_accounts st"
  "sm_insert_account account_id a st = Some st' \<Longrightarrow> sm_account_events st' = sm_account_events st"
  by (auto simp: sm_update_account_def sm_insert_transfer_def sm_insert_transfer_pending_def
      sm_update_transfer_pending_status_def sm_insert_account_def panic_simps)

lemma logs_from:
  "logs dr cr status k ts s s' \<Longrightarrow> sm_account_events s = sm_account_events st \<Longrightarrow>
     sm_account_events st' = sm_account_events s' \<Longrightarrow> logs dr cr status k ts st st'"
  unfolding logs_def by metis

lemma sm_commit_transfer_logs:
  assumes r: "sm_commit_transfer event amount requested st = Some st'"
    and two: "hm_get (sm_accounts st) (t_debit_account_id event) = Some dr" "hm_get (sm_accounts st) (t_credit_account_id event) = Some cr"
    and commit: "commit_transfer_accounts event amount dr cr = (dr', cr')"
  shows "logs dr' cr' (if tf_pending (t_flags event) then StPending else StNone) 0 (t_timestamp event) st st'"
proof -
  from assms obtain s1 s2 s3 where s: "sm_update_account dr' st = Some s1" "sm_update_account cr' s1 = Some s2"
    and ev: "sm_account_event (t_timestamp event) dr' cr' (t_flags event)
      (if tf_pending (t_flags event) then StPending else StNone) None requested amount s2 = Some s3"
    and st': "sm_account_events st' = sm_account_events s3"
    by (auto simp: sm_commit_transfer_def bind_Some_iff split: if_split_asm)
  show ?thesis
    by (rule logs_from [OF sm_account_event_logs [OF ev, simplified]]) (use s st' store_writes_log in simp_all)
qed

lemma sm_persist_regular_logs:
  assumes plain: "\<not> is_post_or_void event" and r: "sm_persist_transfer event amount st = Some st'"
    and two: "hm_get (sm_accounts st) (t_debit_account_id event) = Some dr" "hm_get (sm_accounts st) (t_credit_account_id event) = Some cr"
    and commit: "commit_transfer_accounts event amount dr cr = (dr', cr')"
  shows "logs dr' cr' (if tf_pending (t_flags event) then StPending else StNone) 0 (t_timestamp event) st st'"
proof -
  let ?event = "event\<lparr>t_amount := amount\<rparr>"
  obtain s1 s2 where s1: "sm_insert_transfer (t_id event) ?event st = Some s1"
    and s2: "if tf_pending (t_flags event) then sm_insert_transfer_pending
      \<lparr>tp_timestamp = t_timestamp event, tp_status = StPending\<rparr> s1 = Some s2 else s2 = s1"
    and run: "sm_commit_transfer ?event amount (t_amount event) s2 = Some st'"
    using plain r by (auto simp: sm_persist_transfer_def is_post_or_void_def bind_Some_iff Let_def split: if_split_asm)
  have same: "sm_account_events s2 = sm_account_events st" "sm_accounts s2 = sm_accounts st"
    using s2 store_writes_log(2) [OF s1] store_writes_log(3) by (auto split: if_split_asm)
  have "commit_transfer_accounts ?event amount dr cr = (dr', cr')"
    using commit by (simp add: commit_transfer_accounts_def)
  with sm_commit_transfer_logs [OF run, of dr cr dr' cr'] two same
  have "logs dr' cr' (if tf_pending (t_flags event) then StPending else StNone) 0 (t_timestamp event) s2 st'" by simp
  then show ?thesis by (rule logs_from) (use same in simp_all)
qed

lemma sm_persist_post_void_logs:
  assumes r: "sm_persist_post_void event amount st = Some st'" and p: "hm_get (sm_transfers st) (t_pending_id event) = Some p"
    and two: "hm_get (sm_accounts st) (t_debit_account_id p) = Some dr" "hm_get (sm_accounts st) (t_credit_account_id p) = Some cr"
    and commit: "commit_post_void_accounts event p amount dr cr = Some (dr', cr')"
  shows "logs dr' cr' (if tf_post_pending_transfer (t_flags event) then StPosted else StVoided) (t_id p) (t_timestamp event) st st'"
proof -
  define stored where "stored = folded_transfer event p amount (t_timestamp event)"
  let ?status = "if tf_post_pending_transfer (t_flags event) then StPosted else StVoided"
  have stored: "t_debit_account_id stored = t_debit_account_id p" "t_credit_account_id stored = t_credit_account_id p"
    "t_flags stored = t_flags event" by (simp_all add: stored_def folded_transfer_def)
  have fold: "fold_post_void_transfer event p amount (t_timestamp event) = Some stored"
    using r p by (auto simp: sm_persist_post_void_def bind_Some_iff fold_post_void_transfer_Some stored_def)
  from r p obtain s1 s2 where s1: "sm_insert_transfer (t_id stored) stored st = Some s1"
    and s2: "sm_update_transfer_pending_status (t_timestamp p) ?status s1 = Some s2"
    and more: "do { dr \<leftarrow> hm_get (sm_accounts s2) (t_debit_account_id p);
          cr \<leftarrow> hm_get (sm_accounts s2) (t_credit_account_id p);
          (dr, cr) \<leftarrow> commit_post_void_accounts stored p amount dr cr;
          st \<leftarrow> sm_update_account dr s2;
          st \<leftarrow> sm_update_account cr st;
          st \<leftarrow> sm_account_event (t_timestamp event) dr cr (t_flags stored) ?status (Some p)
                  (t_amount event) amount st;
          sm_update_pulse_next_timestamp st } = Some st'"
    by (auto simp: sm_persist_post_void_def Let_def stored bind_Some_iff fold)
  have same: "sm_account_events s2 = sm_account_events st" "sm_accounts s2 = sm_accounts st"
    using store_writes_log(2) [OF s1] store_writes_log(4) [OF s2] by simp_all
  have "commit_post_void_accounts stored p amount dr cr = Some (dr', cr')"
    using commit by (simp add: commit_post_void_accounts_def stored)
  with more two same obtain s3 s4 s5 where s: "sm_update_account dr' s2 = Some s3" "sm_update_account cr' s3 = Some s4"
    and ev: "sm_account_event (t_timestamp event) dr' cr' (t_flags stored) ?status (Some p) (t_amount event) amount s4 = Some s5"
    and pulse: "sm_update_pulse_next_timestamp s5 = Some st'"
    by (auto simp: bind_Some_iff)
  show ?thesis
    by (rule logs_from [OF sm_account_event_logs [OF ev, simplified]])
      (use s same store_writes_log sm_update_pulse_same [OF pulse] in \<open>simp_all add: same_ledger_def\<close>)
qed

lemma sm_expire_one_logs:
  assumes r: "sm_expire_one te transfer_id st = Some st'" and p: "hm_get (sm_transfers st) transfer_id = Some p"
    and two: "hm_get (sm_accounts st) (t_debit_account_id p) = Some dr" "hm_get (sm_accounts st) (t_credit_account_id p) = Some cr"
  shows "\<exists>dr' cr'. a_id dr' = a_id dr \<and> a_ledger dr' = a_ledger dr \<and> a_id cr' = a_id cr \<and> a_ledger cr' = a_ledger cr \<and>
    logs dr' cr' StExpired (t_id p) te st st'" "\<exists>expiry. expires_at p = Some expiry \<and> expiry \<le> te"
proof -
  obtain dr' cr' c1 c2 s1 s2 s3 expiry where due: "expires_at p = Some expiry" "expiry \<le> te"
    and same: "a_id dr' = a_id dr" "a_ledger dr' = a_ledger dr" "a_id cr' = a_id cr" "a_ledger cr' = a_ledger cr"
    and s1: "(if c1 then sm_update_account dr' (st\<lparr>sm_commit_timestamp := te\<rparr>) else Some (st\<lparr>sm_commit_timestamp := te\<rparr>)) = Some s1"
    and s2: "(if c2 then sm_update_account cr' s1 else Some s1) = Some s2"
    and s3: "sm_update_transfer_pending_status (t_timestamp p) StExpired s2 = Some s3"
    and ev: "sm_account_event te dr' cr' 0 StExpired (Some p) 0 (t_amount p) s3 = Some st'"
    by (rule sm_expire_one_steps [OF r p two])
  show "\<exists>expiry. expires_at p = Some expiry \<and> expiry \<le> te" using due by simp
  have "sm_account_events s2 = sm_account_events st"
    using s1 s2 store_writes_log(1) by (auto split: if_split_asm)
  then have "logs dr' cr' StExpired (t_id p) te st st'"
    using logs_from [OF sm_account_event_logs [OF ev, simplified]] store_writes_log(4) [OF s3] by simp
  then show "\<exists>dr' cr'. a_id dr' = a_id dr \<and> a_ledger dr' = a_ledger dr \<and> a_id cr' = a_id cr \<and> a_ledger cr' = a_ledger cr \<and>
    logs dr' cr' StExpired (t_id p) te st st'"
    using same by blast
qed

section \<open>The log stays consistent\<close>

lemma log_okD:
  assumes "log_ok s" "sm_stores s = (A, T, P, B)"
  shows "hm_get T k = Some t \<Longrightarrow> ledger_matches A t"
    "hm_get (sm_account_events s) ts = Some e \<Longrightarrow> ev_timestamp e = ts \<and> event_ok (A, T, P, B) e"
  using assms by (auto simp: log_ok_def sm_stores_sel)

text \<open>One more event, and stores that still hold what the earlier events refer to.\<close>

lemma log_ok_step:
  assumes log: "log_ok s" and s: "sm_stores s = (A, T, P, B)" and s': "sm_stores s' = (A', T', P', B')"
    and logged: "logs dr cr status k ts s s'" and keeps: "keeps_accounts A A'"
    and new: "\<And>e. ev_timestamp e = ts \<Longrightarrow> ev_dr_account_id e = a_id dr \<Longrightarrow> ev_cr_account_id e = a_id cr \<Longrightarrow>
      ev_ledger e = a_ledger dr \<Longrightarrow> ev_transfer_pending_status e = status \<Longrightarrow> ev_transfer_pending_id e = k \<Longrightarrow>
      event_ok (A', T', P', B') e"
    and transfers: "\<And>k t. hm_get T k = Some t \<Longrightarrow> hm_get T' k = Some t"
    and stamps: "\<And>t. t \<noteq> ts \<Longrightarrow> hm_get B' t = hm_get B t"
    and fresh: "\<And>k t. hm_get T' k = Some t \<Longrightarrow> hm_get T k = Some t \<or> ledger_matches A' t"
  shows "log_ok s'"
proof -
  from logged obtain e where free: "hm_get (sm_account_events s) ts = None"
    and events: "sm_account_events s' = hm_insert ts e (sm_account_events s)"
    and e: "ev_timestamp e = ts" "ev_dr_account_id e = a_id dr" "ev_cr_account_id e = a_id cr" "ev_ledger e = a_ledger dr"
      "ev_transfer_pending_status e = status" "ev_transfer_pending_id e = k"
    by (auto simp: logs_def)
  have "ev_timestamp x = t \<and> event_ok (A', T', P', B') x" if "hm_get (sm_account_events s') t = Some x" for t x
  proof (cases "t = ts")
    case True
    then show ?thesis using that events e(1) new [OF e] by simp
  next
    case False
    with that events have old: "hm_get (sm_account_events s) t = Some x" by simp
    note x = log_okD(2) [OF log s old]
    have "event_ok (A', T', P', B') x"
    proof (rule event_ok_keeps [OF _ keeps])
      show "event_transfer (A', T', P', B') x = Some u" if "event_transfer (A, T, P, B) x = Some u" for u
        using that x False transfers stamps by (auto simp: event_transfer_def split: if_splits option.splits)
    qed (use x in simp)
    with x show ?thesis by simp
  qed
  moreover have "ledger_matches A' t" if "hm_get T' k = Some t" for k t
    using fresh [OF that] log_okD(1) [OF log s] ledger_matches_keeps [OF _ keeps] by blast
  moreover have "hm_ok (sm_account_events s')" using log events by (simp add: log_ok_def)
  moreover have "sm_accounts s' = A'" "sm_transfers s' = T'" using s' by (simp_all add: sm_stores_def)
  ultimately show ?thesis by (simp add: log_ok_def s')
qed

lemma persist_regular_log:
  assumes log: "log_ok s" and ok: "ledger_ok (sm_stores s)" and plain: "\<not> is_post_or_void event"
    and accepted: "accepts (store_view s) event amount" and new: "hm_get (sm_transfers s) (t_id event) = None"
    and r: "sm_persist_transfer (event\<lparr>t_timestamp := ts\<rparr>) amount s = Some s'"
  shows "log_ok s'"
proof -
  let ?event = "event\<lparr>t_timestamp := ts\<rparr>" and ?t = "event\<lparr>t_timestamp := ts, t_amount := amount\<rparr>"
  obtain A T P B where s: "sm_stores s = (A, T, P, B)" by (cases "sm_stores s")
  have plain': "\<not> is_post_or_void ?event" using plain by (simp add: stamped_simps)
  obtain dr cr dr' cr' where two: "hm_get A (t_debit_account_id event) = Some dr" "hm_get A (t_credit_account_id event) = Some cr"
    and commit: "commit_transfer_accounts event amount dr cr = (dr', cr')"
    and s': "sm_stores s' = (hm_insert (a_id cr') cr' (hm_insert (a_id dr') dr' A), hm_insert (t_id event) ?t T,
      if tf_pending (t_flags event) then hm_insert ts \<lparr>tp_timestamp = ts, tp_status = StPending\<rparr> P else P, hm_insert ts (t_id event) B)"
    by (rule sm_persist_regular_stores [OF plain' r s]) (simp add: stamped_simps)
  from accepted plain s two obtain te where created: "create_transfer event te None dr cr = Some CT_Created"
    by (auto simp: accepts_def accepts_regular_def store_view_def sm_stores_sel)
  note c = create_transfer_CreatedD(6-8,11-14) [OF created]
  have moved: "a_id dr' = a_id dr" "a_id cr' = a_id cr" "a_ledger dr' = a_ledger dr" "a_ledger cr' = a_ledger cr"
    using commit by (auto simp: commit_transfer_accounts_def Let_def split: if_split_asm)
  have logged: "logs dr' cr' (if tf_pending (t_flags event) then StPending else StNone) 0 ts s s'"
    using sm_persist_regular_logs [OF plain' r, of dr cr dr' cr'] two commit s by (simp add: stamped_simps sm_stores_sel)
  have keeps: "keeps_accounts A (hm_insert (a_id cr') cr' (hm_insert (a_id dr') dr' A))"
    by (rule keeps_accounts_move [OF two]) (use c moved in simp_all)
  have fresh: "hm_get T (t_id event) = None" using new s by (simp add: sm_stores_sel)
  show ?thesis
  proof (rule log_ok_step [OF log s s' logged keeps])
    show "hm_get (hm_insert (t_id event) ?t T) k = Some t" if "hm_get T k = Some t" for k t
      using that fresh by auto
    show "hm_get T k = Some t \<or> ledger_matches (hm_insert (a_id cr') cr' (hm_insert (a_id dr') dr' A)) t"
      if "hm_get (hm_insert (t_id event) ?t T) k = Some t" for k t
      using that c moved by (auto simp: ledger_matches_def split: if_splits)
  qed (use c moved plain in \<open>auto simp: event_ok_def event_transfer_def build_change_event_Some ensure_def
      is_post_or_void_def bind_Some_iff\<close>)
qed

lemma persist_post_void_log:
  assumes log: "log_ok s" and ok: "ledger_ok (sm_stores s)" and flags: "post_void_flags (t_flags event)"
    and new: "hm_get (sm_transfers s) (t_id event) = None"
    and r: "sm_persist_post_void event amount s = Some s'"
  shows "log_ok s'"
proof -
  obtain A T P B where s: "sm_stores s = (A, T, P, B)" by (cases "sm_stores s")
  have wf: "stores_wf (A, T, P, B)" using ok s by (simp add: ledger_ok_def)
  define status where "status = (if tf_post_pending_transfer (t_flags event) then StPosted else StVoided)"
  obtain p dr cr dr' cr' row where p: "hm_get T (t_pending_id event) = Some p"
    and two: "hm_get A (t_debit_account_id p) = Some dr" "hm_get A (t_credit_account_id p) = Some cr"
    and commit: "commit_post_void_accounts event p amount dr cr = Some (dr', cr')"
    and row: "hm_get P (t_timestamp p) = Some row" "tp_status row = StPending"
    and s': "sm_stores s' = (hm_insert (a_id cr') cr' (hm_insert (a_id dr') dr' A),
       hm_insert (t_id event) (folded_transfer event p amount (t_timestamp event)) T,
       hm_insert (t_timestamp p) \<lparr>tp_timestamp = t_timestamp p, tp_status = status\<rparr> P,
       hm_insert (t_timestamp event) (t_id event) B)"
    and stamp: "hm_get B (t_timestamp event) = None \<or> hm_get B (t_timestamp event) = Some (t_id event)"
    unfolding status_def by (rule sm_persist_post_void_stores [OF r s])
  let ?t = "folded_transfer event p amount (t_timestamp event)"
  have t: "t_id ?t = t_id event" "t_debit_account_id ?t = t_debit_account_id p" "t_credit_account_id ?t = t_credit_account_id p"
    "t_flags ?t = t_flags event" "t_timestamp ?t = t_timestamp event" "t_ledger ?t = t_ledger p" "t_pending_id ?t = t_pending_id event"
    by (simp_all add: folded_transfer_def)
  have pt: "transfer_in A B (t_pending_id event) p" "account_in A (t_debit_account_id p) dr" "account_in A (t_credit_account_id p) cr"
    using wf p two by (simp_all add: stores_wf_def)
  have ledgers: "a_ledger dr = t_ledger p" "a_ledger cr = t_ledger p"
    using log_okD(1) [OF log s p] two by (auto simp: ledger_matches_def)
  have ids: "a_id dr = t_debit_account_id p" "a_id cr = t_credit_account_id p" "t_id p = t_pending_id event"
    "t_debit_account_id p \<noteq> t_credit_account_id p"
    using pt by (simp_all add: account_in_def transfer_in_def)
  have moved: "a_id dr' = a_id dr" "a_id cr' = a_id cr" "a_ledger dr' = a_ledger dr" "a_ledger cr' = a_ledger cr"
    using commit by (auto simp: commit_post_void_accounts_def Let_def panic_simps split: if_split_asm)
  have logged: "logs dr' cr' status (t_id p) (t_timestamp event) s s'"
    unfolding status_def by (rule sm_persist_post_void_logs [OF r _ _ _ commit]) (use p two s in \<open>simp_all add: sm_stores_sel\<close>)
  have keeps: "keeps_accounts A (hm_insert (a_id cr') cr' (hm_insert (a_id dr') dr' A))"
    by (rule keeps_accounts_move [OF two]) (use ids moved in simp_all)
  have fresh: "hm_get T (t_id event) = None" using new s by (simp add: sm_stores_sel)
  show ?thesis
  proof (rule log_ok_step [OF log s s' logged keeps])
    show "hm_get (hm_insert (t_id event) ?t T) k = Some t" if "hm_get T k = Some t" for k t
      using that fresh by auto
    show "hm_get T k = Some t \<or> ledger_matches (hm_insert (a_id cr') cr' (hm_insert (a_id dr') dr' A)) t"
      if "hm_get (hm_insert (t_id event) ?t T) k = Some t" for k t
      using that ids moved ledgers t by (auto simp: ledger_matches_def split: if_splits)
  qed (use ids moved ledgers t flags in \<open>auto simp: event_ok_def event_transfer_def build_change_event_Some ensure_def
      status_def post_void_flags_def bind_Some_iff\<close>)
qed

lemma expires_after:
  assumes "expires_at p = Some expiry" "t_timeout p \<noteq> 0"
  shows "t_timestamp p < expiry"
proof -
  have sum: "unat expiry = unat (t_timestamp p) + unat (timeout_ns p)"
    using assms(1) by (auto simp: expires_at_def checked_add_def unat_add_small split: if_splits)
  have small: "unat (t_timeout p) < 2 ^ 32" using unsigned_less [of "t_timeout p"] by simp
  then have "unat (ucast (t_timeout p) :: u64) = unat (t_timeout p)"
    by (simp add: unsigned_ucast_eq take_bit_nat_eq_self_iff)
  with small have "unat (timeout_ns p) = unat (t_timeout p) * 1000000000"
    by (simp add: timeout_ns_def NS_PER_S_def unat_word_ariths)
  moreover have "unat (t_timeout p) \<noteq> 0" using assms(2) by (simp add: unat_eq_0)
  ultimately show ?thesis using sum by (simp add: word_less_nat_alt)
qed

lemma expire_one_log:
  assumes log: "log_ok s" and ok: "ledger_ok (sm_stores s)" and due: "expirable s transfer_id"
    and r: "sm_expire_one te transfer_id s = Some s'"
  shows "log_ok s'"
proof -
  obtain A T P B where s: "sm_stores s = (A, T, P, B)" by (cases "sm_stores s")
  have wf: "stores_wf (A, T, P, B)" using ok s by (simp add: ledger_ok_def)
  obtain p dr cr dr' cr' c1 c2 row where p: "hm_get T transfer_id = Some p"
    and two: "hm_get A (t_debit_account_id p) = Some dr" "hm_get A (t_credit_account_id p) = Some cr"
    and dr': "dr' = dr\<lparr>a_debits_pending := a_debits_pending dr + (- t_amount p), a_flags := a_flags dr'\<rparr>"
    and cr': "cr' = cr\<lparr>a_credits_pending := a_credits_pending cr + (- t_amount p), a_flags := a_flags cr'\<rparr>"
    and needed: "c1 \<or> t_amount p = 0" "c2 \<or> t_amount p = 0"
    and row: "hm_get P (t_timestamp p) = Some row" "tp_status row = StPending"
    and s': "sm_stores s' = (if c2 then hm_insert (a_id cr') cr' (if c1 then hm_insert (a_id dr') dr' A else A)
        else (if c1 then hm_insert (a_id dr') dr' A else A), T,
      hm_insert (t_timestamp p) \<lparr>tp_timestamp = t_timestamp p, tp_status = StExpired\<rparr> P, B)"
    and flags: "a_flags dr' \<in> {a_flags dr, without_closed (a_flags dr)}" "a_flags cr' \<in> {a_flags cr, without_closed (a_flags cr)}"
    by (rule sm_expire_one_stores [OF r s])
  have moved: "a_id dr' = a_id dr" "a_id cr' = a_id cr" "a_ledger dr' = a_ledger dr" "a_ledger cr' = a_ledger cr"
    by (subst dr' cr', simp)+
  have pt: "transfer_in A B transfer_id p" "account_in A (t_debit_account_id p) dr" "account_in A (t_credit_account_id p) cr"
    using wf p two by (simp_all add: stores_wf_def)
  then have ids: "a_id dr = t_debit_account_id p" "a_id cr = t_credit_account_id p" "t_id p = transfer_id"
    "t_debit_account_id p \<noteq> t_credit_account_id p"
    by (simp_all add: account_in_def transfer_in_def)
  have ledgers: "a_ledger dr = t_ledger p" "a_ledger cr = t_ledger p"
    using log_okD(1) [OF log s p] two by (auto simp: ledger_matches_def)
  have stored: "hm_get (sm_transfers s) transfer_id = Some p" "hm_get (sm_accounts s) (t_debit_account_id p) = Some dr"
    "hm_get (sm_accounts s) (t_credit_account_id p) = Some cr"
    using p two s by (simp_all add: sm_stores_sel)
  obtain dr1 cr1 where now: "a_id dr1 = a_id dr" "a_ledger dr1 = a_ledger dr" "a_id cr1 = a_id cr" "a_ledger cr1 = a_ledger cr"
    and logged: "logs dr1 cr1 StExpired (t_id p) te s s'"
    using sm_expire_one_logs(1) [OF r stored] by blast
  have pending: "tf_pending (t_flags p)" "t_timeout p \<noteq> 0" using due stored(1) by (simp_all add: expirable_def)
  with sm_expire_one_logs(2) [OF r stored] have late: "t_timestamp p < te" by (auto dest: expires_after)
  define A' where "A' = (if c2 then hm_insert (a_id cr') cr' (if c1 then hm_insert (a_id dr') dr' A else A)
        else (if c1 then hm_insert (a_id dr') dr' A else A))"
  have keeps: "keeps_accounts A A'"
    using two ids moved unfolding A'_def by (auto intro!: keeps_accounts_insert keeps_accounts_refl)
  then obtain dr2 cr2 where after: "hm_get A' (t_debit_account_id p) = Some dr2" "hm_get A' (t_credit_account_id p) = Some cr2"
    "a_id dr2 = a_id dr" "a_ledger dr2 = a_ledger dr" "a_id cr2 = a_id cr" "a_ledger cr2 = a_ledger cr"
    using two unfolding keeps_accounts_def by metis
  show ?thesis
  proof (rule log_ok_step [OF log s s' [folded A'_def] logged keeps])
    fix e :: account_event
    assume e: "ev_timestamp e = te" "ev_dr_account_id e = a_id dr1" "ev_cr_account_id e = a_id cr1" "ev_ledger e = a_ledger dr1"
      "ev_transfer_pending_status e = StExpired" "ev_transfer_pending_id e = t_id p"
    have "build_change_event_from_objects e p dr2 cr2 \<noteq> None"
      using e now ids ledgers after(3-6) pending late by (simp add: build_change_event_Some ensure_def word_gt_0)
    then show "event_ok (A', T, hm_insert (t_timestamp p) \<lparr>tp_timestamp = t_timestamp p, tp_status = StExpired\<rparr> P, B) e"
      using e now ids p after(1,2) by (simp add: event_ok_def event_transfer_def)
  qed simp_all
qed

section \<open>The log of every reachable state\<close>

interpretation log: ledger_invariant log_ok
proof
  show "log_ok s" if "empty_ledger s" for s
    using that by (auto simp: log_ok_def empty_ledger_def sm_stores_def hm_ok_def hm_get_def)
next
  show "log_ok s'" if "same_ledger s s'" "log_ok s" for s s'
    using that by (auto simp: log_ok_def same_ledger_def sm_stores_def)
next
  fix s s' a
  assume log: "log_ok s" and new: "hm_get (sm_accounts s) (a_id a) = None" and r: "sm_insert_account (a_id a) a s = Some s'"
  obtain A T P B where s: "sm_stores s = (A, T, P, B)" by (cases "sm_stores s")
  note s' = sm_insert_account_stores [OF r s]
  have keeps: "keeps_accounts A (hm_insert (a_id a) a A)"
    using new s by (intro keeps_accounts_insert keeps_accounts_refl) (simp add: sm_stores_sel)
  have "event_ok (sm_stores s') e" if "event_ok (A, T, P, B) e" for e
    unfolding s' by (rule event_ok_keeps [OF that keeps]) (simp add: event_transfer_def)
  then show "log_ok s'"
    using log_okD [OF log s] log ledger_matches_keeps [OF _ keeps] store_writes_log(5) [OF r] s'
    by (auto simp: log_ok_def sm_stores_def)
next
  fix s s' event amount ts
  assume ok: "ledger_ok (sm_stores s)" and log: "log_ok s" and accepted: "accepts (store_view s) event amount"
    and new: "hm_get (sm_transfers s) (t_id event) = None"
    and r: "sm_persist_transfer (event\<lparr>t_timestamp := ts\<rparr>) amount s = Some s'"
  show "log_ok s'"
  proof (cases "is_post_or_void event")
    case False
    then show ?thesis by (rule persist_regular_log [OF log ok _ accepted new r])
  next
    case True
    have flags: "post_void_flags (t_flags event)" using True accepted by (rule accepted_flags)
    then have "sm_persist_post_void (event\<lparr>t_timestamp := ts\<rparr>) amount s = Some s'"
      using r True by (auto simp: sm_persist_transfer_def is_post_or_void_def post_void_flags_def Let_def)
    then show ?thesis using persist_post_void_log [OF log ok, of "event\<lparr>t_timestamp := ts\<rparr>"] new flags by simp
  qed
next
  show "log_ok s'" if "ledger_ok (sm_stores s)" "log_ok s" "expirable s transfer_id" "sm_expire_one te transfer_id s = Some s'"
    for s te transfer_id s'
    using that expire_one_log by blast
qed

lemma reachable_log: "sm_reachable n st \<Longrightarrow> sm_ok st \<and> log_ok st"
  by (rule log.reachable_keeps)

end
