(* ===== verification/Indexes.thy ===== *)
theory Indexes
  imports Reach
begin

text \<open>
  Timestamps identify objects. The state machine keeps two indexes from timestamps to ids; in every
  reachable state each stored account and each stored transfer is found through its own timestamp,
  so no two accounts and no two transfers share one and ordering by timestamp is a strict order.
\<close>

definition accounts_indexed :: "state_machine \<Rightarrow> bool" where
  "accounts_indexed s \<longleftrightarrow> (\<forall>k a. hm_get (sm_accounts s) k = Some a \<longrightarrow>
     hm_get (sm_accounts_by_timestamp s) (a_timestamp a) = Some k)"

text \<open>No operation on transfers writes the account index.\<close>

lemma sm_index_event_indexed [simp]: "sm_accounts_by_timestamp (sm_index_event a ts st) = sm_accounts_by_timestamp st"
  by (simp add: sm_index_event_def Let_def)

lemma store_writes_indexed:
  "sm_update_account a st = Some st' \<Longrightarrow> sm_accounts_by_timestamp st' = sm_accounts_by_timestamp st"
  "sm_insert_transfer k t st = Some st' \<Longrightarrow> sm_accounts_by_timestamp st' = sm_accounts_by_timestamp st"
  "sm_insert_transfer_pending row st = Some st' \<Longrightarrow> sm_accounts_by_timestamp st' = sm_accounts_by_timestamp st"
  "sm_update_transfer_pending_status ts status st = Some st' \<Longrightarrow> sm_accounts_by_timestamp st' = sm_accounts_by_timestamp st"
  "sm_account_event ts dr cr flags status pending requested amount st = Some st' \<Longrightarrow>
     sm_accounts_by_timestamp st' = sm_accounts_by_timestamp st"
  "sm_update_pulse_next_timestamp st = Some st' \<Longrightarrow> sm_accounts_by_timestamp st' = sm_accounts_by_timestamp st"
  using sm_update_pulse_same [of st st']
  by (auto simp: sm_update_account_def sm_insert_transfer_def sm_insert_transfer_pending_def
      sm_update_transfer_pending_status_def sm_account_event_def panic_simps Let_def same_ledger_def)

lemma sm_commit_transfer_indexed:
  assumes r: "sm_commit_transfer event amount requested st = Some st'"
  shows "sm_accounts_by_timestamp st' = sm_accounts_by_timestamp st"
proof -
  from r obtain dr cr where get: "hm_get (sm_accounts st) (t_debit_account_id event) = Some dr"
    "hm_get (sm_accounts st) (t_credit_account_id event) = Some cr"
    by (auto simp: sm_commit_transfer_def bind_Some_iff)
  obtain dr' cr' where commit: "commit_transfer_accounts event amount dr cr = (dr', cr')"
    by (cases "commit_transfer_accounts event amount dr cr")
  from r obtain s1 s2 s3 where "sm_update_account dr' st = Some s1" "sm_update_account cr' s1 = Some s2"
    "sm_account_event (t_timestamp event) dr' cr' (t_flags event)
      (if tf_pending (t_flags event) then StPending else StNone) None requested amount s2 = Some s3"
    "sm_accounts_by_timestamp st' = sm_accounts_by_timestamp s3"
    by (auto simp: sm_commit_transfer_def bind_Some_iff get commit split: if_split_asm)
  then show ?thesis by (simp add: store_writes_indexed)
qed

lemma sm_persist_post_void_indexed:
  assumes "sm_persist_post_void event amount st = Some st'"
  shows "sm_accounts_by_timestamp st' = sm_accounts_by_timestamp st"
  using assms
  by (auto simp: sm_persist_post_void_def bind_Some_iff Let_def split: prod.split_asm dest!: store_writes_indexed)

lemma sm_persist_transfer_indexed:
  assumes "sm_persist_transfer event amount st = Some st'"
  shows "sm_accounts_by_timestamp st' = sm_accounts_by_timestamp st"
  using assms
  by (auto simp: sm_persist_transfer_def bind_Some_iff Let_def split: if_split_asm
      dest!: store_writes_indexed sm_persist_post_void_indexed sm_commit_transfer_indexed)

lemma sm_expire_one_indexed:
  assumes ok: "ledger_ok (sm_stores st)" and r: "sm_expire_one te transfer_id st = Some st'"
  shows "sm_accounts_by_timestamp st' = sm_accounts_by_timestamp st"
proof -
  obtain A T P B where s: "sm_stores st = (A, T, P, B)" by (cases "sm_stores st")
  obtain p dr cr where p: "hm_get (sm_transfers st) transfer_id = Some p"
    and two: "hm_get (sm_accounts st) (t_debit_account_id p) = Some dr" "hm_get (sm_accounts st) (t_credit_account_id p) = Some cr"
    by (rule sm_expire_one_stores [OF r s]) (use s that in \<open>auto simp: sm_stores_sel\<close>)
  show ?thesis
    by (rule sm_expire_one_steps [OF r p two]) (auto simp: store_writes_indexed split: if_split_asm)
qed

text \<open>And none changes an account's timestamp or adds an account.\<close>

definition keeps_timestamps :: "(u128, account) hmap \<Rightarrow> (u128, account) hmap \<Rightarrow> bool" where
  "keeps_timestamps A A' \<longleftrightarrow> (\<forall>k a'. hm_get A' k = Some a' \<longrightarrow> (\<exists>a. hm_get A k = Some a \<and> a_timestamp a' = a_timestamp a))"

lemma keeps_timestamps_insert:
  "keeps_timestamps A A' \<Longrightarrow> hm_get A k = Some b \<Longrightarrow> a_timestamp a = a_timestamp b \<Longrightarrow> keeps_timestamps A (hm_insert k a A')"
  by (auto simp: keeps_timestamps_def)

lemma keeps_timestamps_refl: "keeps_timestamps A A"
  by (simp add: keeps_timestamps_def)

lemma sm_persist_transfer_timestamps:
  assumes ok: "ledger_ok (sm_stores st)" and r: "sm_persist_transfer event amount st = Some st'"
    and post_void: "is_post_or_void event \<Longrightarrow> post_void_flags (t_flags event)"
  shows "keeps_timestamps (sm_accounts st) (sm_accounts st')"
proof -
  obtain A T P B where s: "sm_stores st = (A, T, P, B)" by (cases "sm_stores st")
  have wf: "account_in A k a" if "hm_get A k = Some a" for k a
    using ok that s by (simp add: ledger_ok_def stores_wf_def)
  have two: "keeps_timestamps A (hm_insert (a_id cr') cr' (hm_insert (a_id dr') dr' A))"
    if "hm_get A d = Some dr" "hm_get A c = Some cr" "a_id dr' = a_id dr" "a_id cr' = a_id cr"
      "a_timestamp dr' = a_timestamp dr" "a_timestamp cr' = a_timestamp cr" for d c dr cr dr' cr'
    using wf [OF that(1)] wf [OF that(2)] that
    by (auto simp: account_in_def intro!: keeps_timestamps_insert keeps_timestamps_refl)
  have accounts: "sm_accounts st = A" using s by (simp add: sm_stores_def)
  show ?thesis
  proof (cases "is_post_or_void event")
    case False
    show ?thesis
    proof (rule sm_persist_regular_stores [OF False r s])
      fix dr cr dr' cr'
      assume "hm_get A (t_debit_account_id event) = Some dr" "hm_get A (t_credit_account_id event) = Some cr"
        and commit: "commit_transfer_accounts event amount dr cr = (dr', cr')"
        and "sm_stores st' = (hm_insert (a_id cr') cr' (hm_insert (a_id dr') dr' A),
          hm_insert (t_id event) (event\<lparr>t_amount := amount\<rparr>) T,
          if tf_pending (t_flags event) then hm_insert (t_timestamp event)
            \<lparr>tp_timestamp = t_timestamp event, tp_status = StPending\<rparr> P else P,
          hm_insert (t_timestamp event) (t_id event) B)"
      then show ?thesis using two commit_transfer_balances(1-4) [OF commit] by (simp add: sm_stores_def accounts)
    qed
  next
    case True
    then have "sm_persist_post_void event amount st = Some st'"
      using r post_void by (auto simp: sm_persist_transfer_def is_post_or_void_def post_void_flags_def Let_def)
    then show ?thesis
    proof (rule sm_persist_post_void_stores [OF _ s])
      fix p dr cr dr' cr' row
      assume "hm_get A (t_debit_account_id p) = Some dr" "hm_get A (t_credit_account_id p) = Some cr"
        and commit: "commit_post_void_accounts event p amount dr cr = Some (dr', cr')"
        and st': "sm_stores st' = (hm_insert (a_id cr') cr' (hm_insert (a_id dr') dr' A),
          hm_insert (t_id event) (folded_transfer event p amount (t_timestamp event)) T,
          hm_insert (t_timestamp p) \<lparr>tp_timestamp = t_timestamp p,
            tp_status = (if tf_post_pending_transfer (t_flags event) then StPosted else StVoided)\<rparr> P,
          hm_insert (t_timestamp event) (t_id event) B)"
      then show ?thesis using two commit_post_void_balances(1-4) [OF commit] by (simp add: sm_stores_def accounts)
    qed
  qed
qed

lemma sm_expire_one_timestamps:
  assumes ok: "ledger_ok (sm_stores st)" and r: "sm_expire_one te transfer_id st = Some st'"
  shows "keeps_timestamps (sm_accounts st) (sm_accounts st')"
proof -
  obtain A T P B where s: "sm_stores st = (A, T, P, B)" by (cases "sm_stores st")
  have wf: "account_in A k a" if "hm_get A k = Some a" for k a
    using ok that s by (simp add: ledger_ok_def stores_wf_def)
  show ?thesis
  proof (rule sm_expire_one_stores [OF r s])
    fix p dr cr dr' cr' c1 c2 row
    assume two: "hm_get A (t_debit_account_id p) = Some dr" "hm_get A (t_credit_account_id p) = Some cr"
      and dr': "dr' = dr\<lparr>a_debits_pending := a_debits_pending dr + - t_amount p, a_flags := a_flags dr'\<rparr>"
      and cr': "cr' = cr\<lparr>a_credits_pending := a_credits_pending cr + - t_amount p, a_flags := a_flags cr'\<rparr>"
      and st': "sm_stores st' = (if c2 then hm_insert (a_id cr') cr' (if c1 then hm_insert (a_id dr') dr' A else A)
          else if c1 then hm_insert (a_id dr') dr' A else A, T,
        hm_insert (t_timestamp p) \<lparr>tp_timestamp = t_timestamp p, tp_status = StExpired\<rparr> P, B)"
    have "a_id dr' = t_debit_account_id p" "a_timestamp dr' = a_timestamp dr"
      "a_id cr' = t_credit_account_id p" "a_timestamp cr' = a_timestamp cr"
      using wf [OF two(1)] wf [OF two(2)] by (subst dr' cr', simp add: account_in_def)+
    then show ?thesis
      using two st' s by (auto simp: sm_stores_def intro!: keeps_timestamps_insert keeps_timestamps_refl)
  qed
qed

lemma indexed_keeps:
  assumes "accounts_indexed s" "keeps_timestamps (sm_accounts s) (sm_accounts s')"
    and "sm_accounts_by_timestamp s' = sm_accounts_by_timestamp s"
  shows "accounts_indexed s'"
  using assms unfolding accounts_indexed_def keeps_timestamps_def by metis

interpretation indexed: ledger_invariant accounts_indexed
proof
  show "accounts_indexed s" if "empty_ledger s" for s
    using that by (simp add: accounts_indexed_def empty_ledger_def sm_stores_def)
next
  show "accounts_indexed s'" if "same_ledger s s'" "accounts_indexed s" for s s'
    using that by (simp add: accounts_indexed_def same_ledger_def sm_stores_def)
next
  fix s s' a
  assume old: "accounts_indexed s" and new: "hm_get (sm_accounts s) (a_id a) = None"
    and r: "sm_insert_account (a_id a) a s = Some s'"
  from r have stamp: "is_none_or (\<lambda>previous. previous = a_id a) (hm_get (sm_accounts_by_timestamp s) (a_timestamp a))"
    and s': "sm_accounts s' = hm_insert (a_id a) a (sm_accounts s)"
      "sm_accounts_by_timestamp s' = hm_insert (a_timestamp a) (a_id a) (sm_accounts_by_timestamp s)"
    by (auto simp: sm_insert_account_def panic_simps)
  have "hm_get (sm_accounts_by_timestamp s') (a_timestamp b) = Some k" if b: "hm_get (sm_accounts s') k = Some b" for k b
  proof (cases "k = a_id a")
    case False
    with b have known: "hm_get (sm_accounts s) k = Some b" by (simp add: s')
    with old have "hm_get (sm_accounts_by_timestamp s) (a_timestamp b) = Some k" by (simp add: accounts_indexed_def)
    moreover from this stamp False have "a_timestamp b \<noteq> a_timestamp a" by (auto simp: is_none_or_def)
    ultimately show ?thesis by (simp add: s')
  qed (use b in \<open>simp add: s'\<close>)
  then show "accounts_indexed s'" by (simp add: accounts_indexed_def)
next
  fix s s' event amount ts
  assume ok: "ledger_ok (sm_stores s)" and old: "accounts_indexed s" and accepted: "accepts (store_view s) event amount"
    and r: "sm_persist_transfer (event\<lparr>t_timestamp := ts\<rparr>) amount s = Some s'"
  have "keeps_timestamps (sm_accounts s) (sm_accounts s')"
    by (rule sm_persist_transfer_timestamps [OF ok r])
      (use accepted_flags [OF _ accepted] in \<open>simp add: stamped_simps\<close>)
  then show "accounts_indexed s'" by (rule indexed_keeps [OF old _ sm_persist_transfer_indexed [OF r]])
next
  fix s s' te transfer_id
  assume "ledger_ok (sm_stores s)" "accounts_indexed s" "sm_expire_one te transfer_id s = Some s'"
  then show "accounts_indexed s'" by (meson indexed_keeps sm_expire_one_timestamps sm_expire_one_indexed)
qed

lemma reachable_indexed: "sm_reachable n st \<Longrightarrow> accounts_indexed st"
  using indexed.reachable_keeps by blast

lemma reachable_account_timestamps:
  assumes "sm_reachable n st" "hm_get (sm_accounts st) k = Some a" "hm_get (sm_accounts st) k' = Some a'"
    "a_timestamp a = a_timestamp a'"
  shows "k = k'"
  using reachable_indexed [OF assms(1)] assms(2-4) unfolding accounts_indexed_def by (metis option.inject)

end
