(* ===== verification/Pages.thy ===== *)
theory Pages
  imports Events Indexes
begin

text \<open>
  What a query promises: one page of the matching objects, in timestamp order, up to a limit. The
  queries of the state machine filter, sort and truncate the values of a store; over stores whose
  objects have distinct timestamps the result is the one page there is.
\<close>

section \<open>A page of a store\<close>

text \<open>\<open>precedes\<close> is the order of the reply: by timestamp, or reversed.\<close>

definition precedes :: "bool \<Rightarrow> ('v \<Rightarrow> u64) \<Rightarrow> 'v \<Rightarrow> 'v \<Rightarrow> bool" where
  "precedes rev_order ts x y \<longleftrightarrow> (if rev_order then ts y < ts x else ts x < ts y)"

definition page :: "('v \<Rightarrow> bool) \<Rightarrow> ('v \<Rightarrow> 'v \<Rightarrow> bool) \<Rightarrow> nat \<Rightarrow> 'v list \<Rightarrow> 'v list \<Rightarrow> bool" where
  "page selected before cap objects results \<longleftrightarrow>
     sorted_wrt before results \<and> (\<forall>v \<in> set results. v \<in> set objects \<and> selected v) \<and>
     length results = min cap (length (filter selected objects)) \<and>
     (\<forall>v \<in> set objects. selected v \<longrightarrow> v \<in> set results \<or> (\<forall>r \<in> set results. before r v))"

lemma sorted_wrt_sort_key:
  assumes "distinct xs" "inj_on f (set xs)"
  shows "sorted_wrt (\<lambda>x y. f x < f y) (sort_key f xs)"
proof -
  have "sorted (map f (sort_key f xs))" "distinct (map f (sort_key f xs))"
    using assms by (simp_all add: distinct_map)
  then have "sorted_wrt (<) (map f (sort_key f xs))" by (simp add: strict_sorted_iff)
  then show ?thesis by (simp add: sorted_wrt_map)
qed

lemma sort_by_timestamp_precedes:
  assumes "distinct xs" "inj_on ts (set xs)"
  shows "sorted_wrt (precedes rev_order ts) (sort_by_timestamp rev_order ts xs)"
proof (cases rev_order)
  case True
  have "inj_on (\<lambda>x. - int (unat (ts x))) (set xs)" using assms(2) by (auto simp: inj_on_def simp flip: word_uint_eq_iff)
  from sorted_wrt_sort_key [OF assms(1) this] show ?thesis
    using True by (simp add: sort_by_timestamp_def precedes_def [abs_def] word_less_def)
next
  case False
  with sorted_wrt_sort_key [OF assms] show ?thesis by (simp add: sort_by_timestamp_def precedes_def [abs_def])
qed

lemma set_sort_by_timestamp [simp]: "set (sort_by_timestamp rev_order ts xs) = set xs"
  "length (sort_by_timestamp rev_order ts xs) = length xs"
  by (simp_all add: sort_by_timestamp_def)

lemma page_of_sorted:
  assumes "distinct objects" "inj_on ts (set objects)"
  shows "page selected (precedes rev_order ts) cap objects (take cap (sort_by_timestamp rev_order ts (filter selected objects)))"
proof -
  let ?all = "sort_by_timestamp rev_order ts (filter selected objects)"
  have "sorted_wrt (precedes rev_order ts) ?all"
    by (rule sort_by_timestamp_precedes) (use assms in \<open>auto intro: inj_on_subset\<close>)
  then have sorted: "sorted_wrt (precedes rev_order ts) (take cap ?all @ drop cap ?all)" by simp
  have "set ?all = set (take cap ?all) \<union> set (drop cap ?all)" by (simp flip: set_append)
  then have "v \<in> set (take cap ?all) \<or> v \<in> set (drop cap ?all)" if "v \<in> set objects" "selected v" for v
    using that by (simp add: set_eq_iff) blast
  then show ?thesis
    using sorted unfolding page_def sorted_wrt_append by (auto dest: in_set_takeD)
qed

text \<open>A page is determined by what it is a page of.\<close>

lemma page_unique:
  assumes "page selected before cap objects xs" "page selected before cap objects ys"
    and "\<And>x y. before x y \<Longrightarrow> \<not> before y x"
  shows "set xs = set ys"
proof -
  have sub: "set xs \<subseteq> set ys"
    if p: "page selected before cap objects xs" "page selected before cap objects ys" for xs ys
  proof
    fix x assume x: "x \<in> set xs"
    have irr: "\<not> before x x" for x using assms(3) by blast
    have distinct: "distinct zs" if "sorted_wrt before zs" for zs
      using that irr by (induction zs) auto
    have d: "distinct xs" "distinct ys" and len: "length xs = length ys"
      using p distinct by (simp_all add: page_def)
    show "x \<in> set ys"
    proof (rule ccontr)
      assume no: "x \<notin> set ys"
      then have after: "\<forall>r \<in> set ys. before r x" using p x by (auto simp: page_def)
      have "set ys \<subseteq> set xs - {x}"
      proof
        fix y assume y: "y \<in> set ys"
        then have "before y x" using after by blast
        then have "\<not> before x y" using assms(3) by blast
        then have "y \<in> set xs" using p x y by (auto simp: page_def)
        then show "y \<in> set xs - {x}" using y no by auto
      qed
      then have "card (set ys) \<le> card (set xs - {x})" by (intro card_mono) auto
      with x d len show False by (simp add: distinct_card) (metis length_pos_if_in_set less_irrefl Suc_pred less_eq_Suc_le)
    qed
  qed
  from sub [OF assms(1,2)] sub [OF assms(2,1)] show ?thesis by blast
qed

section \<open>The stores of a reachable state\<close>

lemma hm_values_keyed:
  assumes "hm_ok m" "\<And>k v. hm_get m k = Some v \<Longrightarrow> key v = k"
  shows "distinct (hm_values m)"
proof -
  have "map key (hm_values m) = map fst m"
    unfolding hm_values_def map_map by (rule map_cong) (use assms in \<open>auto simp: hm_get_in_set [symmetric]\<close>)
  then have "distinct (map key (hm_values m))" using assms(1) by (simp add: hm_ok_def)
  then show ?thesis by (simp add: distinct_map)
qed

lemma reachable_wf:
  "sm_reachable n st \<Longrightarrow> stores_wf (sm_accounts st, sm_transfers st, sm_transfers_pending st, sm_transfers_by_timestamp st)"
  using sm_reachable_ok by (auto simp: sm_ok_def ledger_ok_def sm_stores_def)

lemma reachable_transfers:
  assumes "sm_reachable n st"
  shows "distinct (hm_values (sm_transfers st))" "inj_on t_timestamp (set (hm_values (sm_transfers st)))"
proof -
  note wf = reachable_wf [OF assms]
  have ok: "hm_ok (sm_transfers st)" using wf by (simp add: stores_wf_def)
  show "distinct (hm_values (sm_transfers st))"
    by (rule hm_values_keyed [OF ok]) (use wf in \<open>auto simp: stores_wf_def transfer_in_def\<close>)
  show "inj_on t_timestamp (set (hm_values (sm_transfers st)))"
    by (rule inj_onI) (use wf_timestamp_unique [OF wf] in \<open>metis hm_values_get [OF ok] option.inject\<close>)
qed

lemma reachable_accounts:
  assumes "sm_reachable n st"
  shows "distinct (hm_values (sm_accounts st))" "inj_on a_timestamp (set (hm_values (sm_accounts st)))"
proof -
  note wf = reachable_wf [OF assms]
  have ok: "hm_ok (sm_accounts st)" using wf by (simp add: stores_wf_def)
  show "distinct (hm_values (sm_accounts st))"
    by (rule hm_values_keyed [OF ok]) (use wf in \<open>auto simp: stores_wf_def account_in_def\<close>)
  show "inj_on a_timestamp (set (hm_values (sm_accounts st)))"
    by (rule inj_onI) (use reachable_account_timestamps [OF assms] in \<open>metis hm_values_get [OF ok] option.inject\<close>)
qed

lemma result_max_multi_batch_128:
  "128 \<le> body_max \<Longrightarrow> result_max_multi_batch body_max 128 = Some ((body_max - 128) div 128)"
proof -
  have "(128 :: nat) \<in> (\<lambda>k. 2 ^ k) ` {0..<64}" by (rule image_eqI [of _ _ 7]) simp_all
  then show "128 \<le> body_max \<Longrightarrow> ?thesis" by (simp add: result_max_multi_batch_def)
qed

end
