(* ===== verification/QueryProps.thy ===== *)
theory QueryProps
  imports Pages LedgerProps WireProps
begin

text \<open>
  Correctness of the read operations: which objects a query returns and in which order, that the
  history and change-event queries never trip one of their assertions on a state the state machine
  can reach, and what a request body has to satisfy for the operation to run at all.
\<close>

section \<open>Decoding never panics\<close>

lemma le_at_total:
  "off + 16 \<le> length bytes \<Longrightarrow> \<exists>w. le_u128 bytes off = Some w"
  "off + 8 \<le> length bytes \<Longrightarrow> \<exists>w. le_u64 bytes off = Some w"
  "off + 4 \<le> length bytes \<Longrightarrow> \<exists>w. le_u32 bytes off = Some w"
  "off + 2 \<le> length bytes \<Longrightarrow> \<exists>w. le_u16 bytes off = Some w"
  by (simp_all add: le_at_defs field_at_slice)

lemma slice_at_total: "off + n \<le> length bytes \<Longrightarrow> \<exists>s. slice_at bytes off n = Some s"
  by (simp add: slice_at_def)

text \<open>A filter body decodes exactly when it has the length of the filter record.\<close>

lemma filter_decoders_total:
  "\<exists>f. bytes_to_account_filter body = Some (if length body = 128 then Some f else None)"
  "\<exists>f. bytes_to_query_filter body = Some (if length body = 64 then Some f else None)"
  "\<exists>f. bytes_to_change_events_filter body = Some (if length body = 64 then Some f else None)"
proof -
  note total = le_at_total [of _ body] slice_at_total [of _ _ body]
  show "\<exists>f. bytes_to_account_filter body = Some (if length body = 128 then Some f else None)"
    using total(1) [of 0] total(1) [of 16] total(2) [of 32] total(3) [of 40] total(4) [of 44] total(2) [of 104]
      total(2) [of 112] total(3) [of 120] total(3) [of 124] total(5) [of 46 58]
    by (auto simp: bytes_to_account_filter_def)
  show "\<exists>f. bytes_to_query_filter body = Some (if length body = 64 then Some f else None)"
    using total(1) [of 0] total(2) [of 16] total(3) [of 24] total(3) [of 28] total(4) [of 32] total(2) [of 40]
      total(2) [of 48] total(3) [of 56] total(3) [of 60] total(5) [of 34 6]
    by (auto simp: bytes_to_query_filter_def)
  show "\<exists>f. bytes_to_change_events_filter body = Some (if length body = 64 then Some f else None)"
    using total(2) [of 0] total(2) [of 8] total(3) [of 16] total(5) [of 20 44]
    by (auto simp: bytes_to_change_events_filter_def)
qed

text \<open>Lookup ids are a record codec of their own, 16 bytes each.\<close>

interpretation id_codec: record_codec 16 "\<lambda>w. Some (le_bytes 16 w)" "\<lambda>chunk. le_u128 chunk 0" "le_bytes 16"
proof
  show "le_u128 (le_bytes 16 v) 0 = Some v" for v :: u128
    using field_at_le_bytes' [of 16 v] by (simp add: le_u128_def)
  show "\<exists>v. le_u128 bytes 0 = Some v" if "length bytes = 16" for bytes using le_at_total(1) [of 0 bytes] that by simp
  show "le_bytes 16 v = bytes" if "le_u128 bytes 0 = Some v" "length bytes = 16" for bytes v
    using that le_bytes_word [of bytes, where 'a = 128] by (simp add: le_u128_def field_at_slice slice_all)
qed simp_all

text \<open>The bodies an operation accepts, by their length.\<close>

definition body_length_ok :: "operation \<Rightarrow> nat \<Rightarrow> bool" where
  "body_length_ok op n \<longleftrightarrow>
     (if op \<in> {OP_PULSE, OP_STATE_MACHINE_PULSE} then n = 0
      else if op \<in> {OP_CREATE_ACCOUNTS, OP_CREATE_TRANSFERS} then n mod 128 = 0
      else if op \<in> {OP_LOOKUP_ACCOUNTS, OP_LOOKUP_TRANSFERS} then n mod 16 = 0
      else if op \<in> {OP_GET_ACCOUNT_TRANSFERS, OP_GET_ACCOUNT_BALANCES} then n = 128
      else op \<in> {OP_GET_CHANGE_EVENTS, OP_QUERY_ACCOUNTS, OP_QUERY_TRANSFERS} \<and> n = 64)"

lemma decode_batch_length:
  assumes "record_codec width encode decode enc"
  shows "body_decodes (decode_batch width decode body) = Some (length body mod width = 0)"
  using record_codec.decode_batch_total [OF assms, of body] by (auto simp: body_decodes_def decode_batch_def)

lemma operation_body_is_valid_length: "operation_body_is_valid op body = Some (body_length_ok op (length body))"
proof -
  have batches: "body_decodes (bytes_to_account_batch body) = Some (length body mod 128 = 0)"
    "body_decodes (bytes_to_transfer_batch body) = Some (length body mod 128 = 0)"
    "body_decodes (bytes_to_lookup_ids body) = Some (length body mod 16 = 0)"
    using decode_batch_length [OF account_codec.record_codec_axioms, of body]
      decode_batch_length [OF transfer_codec.record_codec_axioms, of body]
      decode_batch_length [OF id_codec.record_codec_axioms, of body]
    by (simp_all add: bytes_to_account_batch_def bytes_to_transfer_batch_def bytes_to_lookup_ids_def)
  have filters: "body_decodes (bytes_to_account_filter body) = Some (length body = 128)"
    "body_decodes (bytes_to_query_filter body) = Some (length body = 64)"
    "body_decodes (bytes_to_change_events_filter body) = Some (length body = 64)"
    using filter_decoders_total [of body] by (auto simp: body_decodes_def)
  show ?thesis
    by (simp add: operation_body_is_valid_def batches filters body_length_ok_def operation_defs)
qed

section \<open>Queries over accounts and transfers\<close>

text \<open>Filters for the witnesses: everything, up to ten records.\<close>

definition any_query :: query_filter where
  "any_query = \<lparr>qf_user_data_128 = 0, qf_user_data_64 = 0, qf_user_data_32 = 0, qf_ledger = 0, qf_code = 0,
     qf_reserved = replicate 6 0, qf_timestamp_min = 0, qf_timestamp_max = 0, qf_limit = 10, qf_flags = 0\<rparr>"

definition any_transfer_of_1 :: account_filter where
  "any_transfer_of_1 = \<lparr>fl_account_id = 1, fl_user_data_128 = 0, fl_user_data_64 = 0, fl_user_data_32 = 0, fl_code = 0,
     fl_reserved = replicate 58 0, fl_timestamp_min = 0, fl_timestamp_max = 0, fl_limit = 10, fl_flags = 3\<rparr>"

lemma any_filters_valid: "query_filter_valid any_query" "account_filter_valid any_transfer_of_1"
  by (simp_all add: any_query_def any_transfer_of_1_def filter_defs list_all_iff)

text \<open>What a filter selects, field by field: zero means any value.\<close>

definition field_selects :: "'a::zero \<Rightarrow> 'a \<Rightarrow> bool" where
  "field_selects wanted actual \<longleftrightarrow> wanted = 0 \<or> actual = wanted"

definition in_window :: "u64 \<Rightarrow> u64 \<Rightarrow> u64 \<Rightarrow> bool" where
  "in_window lo hi ts \<longleftrightarrow> (lo = 0 \<or> lo \<le> ts) \<and> (hi = 0 \<or> ts \<le> hi)"

definition query_selects_transfer :: "query_filter \<Rightarrow> transfer \<Rightarrow> bool" where
  "query_selects_transfer f t \<longleftrightarrow> in_window (qf_timestamp_min f) (qf_timestamp_max f) (t_timestamp t) \<and>
     field_selects (qf_user_data_128 f) (t_user_data_128 t) \<and> field_selects (qf_user_data_64 f) (t_user_data_64 t) \<and>
     field_selects (qf_user_data_32 f) (t_user_data_32 t) \<and> field_selects (qf_ledger f) (t_ledger t) \<and>
     field_selects (qf_code f) (t_code t)"

definition query_selects_account :: "query_filter \<Rightarrow> account \<Rightarrow> bool" where
  "query_selects_account f a \<longleftrightarrow> in_window (qf_timestamp_min f) (qf_timestamp_max f) (a_timestamp a) \<and>
     field_selects (qf_user_data_128 f) (a_user_data_128 a) \<and> field_selects (qf_user_data_64 f) (a_user_data_64 a) \<and>
     field_selects (qf_user_data_32 f) (a_user_data_32 a) \<and> field_selects (qf_ledger f) (a_ledger a) \<and>
     field_selects (qf_code f) (a_code a)"

definition account_selects_transfer :: "account_filter \<Rightarrow> transfer \<Rightarrow> bool" where
  "account_selects_transfer f t \<longleftrightarrow> in_window (fl_timestamp_min f) (fl_timestamp_max f) (t_timestamp t) \<and>
     (aff_debits (fl_flags f) \<and> t_debit_account_id t = fl_account_id f \<or>
      aff_credits (fl_flags f) \<and> t_credit_account_id t = fl_account_id f) \<and>
     field_selects (fl_user_data_128 f) (t_user_data_128 t) \<and> field_selects (fl_user_data_64 f) (t_user_data_64 t) \<and>
     field_selects (fl_user_data_32 f) (t_user_data_32 t) \<and> field_selects (fl_code f) (t_code t)"

lemma in_window_range: "in_window lo hi ts \<longleftrightarrow> range_min lo \<le> ts \<and> ts \<le> range_max hi"
  by (auto simp: in_window_def range_min_def range_max_def)

lemmas selects_defs = query_selects_transfer_def query_selects_account_def account_selects_transfer_def
  field_selects_def in_window_range

text \<open>The most records a reply carries: the filter's limit and what fits beside the trailer.\<close>

definition reply_cap :: "nat \<Rightarrow> u32 \<Rightarrow> nat" where
  "reply_cap body_max limit = min (unat limit) ((body_max - 128) div 128)"

lemma filter_selects:
  "filter (\<lambda>t. query_matches (t_user_data_128 t) (t_user_data_64 t) (t_user_data_32 t) (t_ledger t) (t_code t) (t_timestamp t)
     (range_min (qf_timestamp_min f)) (range_max (qf_timestamp_max f)) f) = filter (query_selects_transfer f)"
  "filter (\<lambda>a. query_matches (a_user_data_128 a) (a_user_data_64 a) (a_user_data_32 a) (a_ledger a) (a_code a) (a_timestamp a)
     (range_min (qf_timestamp_min f)) (range_max (qf_timestamp_max f)) f) = filter (query_selects_account f)"
  "filter (\<lambda>t. t_timestamp t \<ge> range_min (fl_timestamp_min g) \<and> t_timestamp t \<le> range_max (fl_timestamp_max g) \<and>
     transfer_matches_account_filter t g) = filter (account_selects_transfer g)"
  by (rule arg_cong [where f = filter], rule ext, simp add: selects_defs query_matches_def
      transfer_matches_account_filter_def Let_def conj_ac)+

lemma transfer_reply: "\<exists>reply. transfer_batch_to_bytes ts = Some reply \<and> bytes_to_transfer_batch reply = Some (Some ts)"
  using transfer_codec.batch_round_trip [of ts] by (auto simp: transfer_batch_to_bytes_def bytes_to_transfer_batch_def)

lemma account_reply: "\<exists>reply. account_batch_to_bytes xs = Some reply \<and> bytes_to_account_batch reply = Some (Some xs)"
  using account_codec.batch_round_trip [of xs] by (auto simp: account_batch_to_bytes_def bytes_to_account_batch_def)

text \<open>C19. \<open>query_transfers\<close> answers with exactly one page of the ledger: on every reachable state and for
  every filter the reply decodes to the stored transfers that match the filter field by field and lie
  in its timestamp window, strictly ordered by timestamp (descending when \<open>reversed\<close>), without
  repetition, cut off only at the filter's limit or the reply size, and then nothing that was left out
  precedes what was returned. An invalid filter gets the empty reply.\<close>

theorem query_transfers_page:
  assumes "sm_reachable n st" "128 \<le> body_max"
  shows "\<exists>reply results. query_transfers body_max f st = Some reply \<and> bytes_to_transfer_batch reply = Some (Some results) \<and>
    (if query_filter_valid f
     then page (query_selects_transfer f) (precedes (qff_reversed (qf_flags f)) t_timestamp)
       (reply_cap body_max (qf_limit f)) (hm_values (sm_transfers st)) results
     else results = [])"
proof (cases "query_filter_valid f")
  case True
  let ?results = "take (reply_cap body_max (qf_limit f)) (sort_by_timestamp (qff_reversed (qf_flags f)) t_timestamp
    (filter (query_selects_transfer f) (hm_values (sm_transfers st))))"
  have "query_transfers body_max f st = transfer_batch_to_bytes ?results"
    using True assms(2) by (simp add: query_transfers_def Let_def filter_selects result_max_multi_batch_128 reply_cap_def)
  then show ?thesis
    using transfer_reply [of ?results] page_of_sorted [OF reachable_transfers [OF assms(1)]] True by auto
qed (use transfer_reply [of "[]"] in \<open>auto simp: query_transfers_def transfer_batch_to_bytes_def encode_batch_def\<close>)

theorem query_transfers_page_witness:
  "\<exists>st reply results. sm_reachable 32 st \<and> query_transfers 4096 any_query st = Some reply \<and> bytes_to_transfer_batch reply = Some (Some results) \<and>
     page (query_selects_transfer any_query) (precedes (qff_reversed (qf_flags any_query)) t_timestamp) (reply_cap 4096 (qf_limit any_query)) (hm_values (sm_transfers st)) results"
proof -
  obtain st where st: "sm_reachable 32 st" "hm_get (sm_accounts st) 1 = Some (account_event_a\<lparr>a_timestamp := 10\<rparr>)"
    by (rule first_account_reachable)
  show ?thesis
    using st(1) query_transfers_page [OF st(1), of 4096 any_query] any_filters_valid by auto
qed

text \<open>\<open>query_accounts\<close> answers with exactly one page of the accounts, in the same sense.\<close>

theorem query_accounts_page:
  assumes "sm_reachable n st" "128 \<le> body_max"
  shows "\<exists>reply results. query_accounts body_max f st = Some reply \<and> bytes_to_account_batch reply = Some (Some results) \<and>
    (if query_filter_valid f
     then page (query_selects_account f) (precedes (qff_reversed (qf_flags f)) a_timestamp)
       (reply_cap body_max (qf_limit f)) (hm_values (sm_accounts st)) results
     else results = [])"
proof (cases "query_filter_valid f")
  case True
  let ?results = "take (reply_cap body_max (qf_limit f)) (sort_by_timestamp (qff_reversed (qf_flags f)) a_timestamp
    (filter (query_selects_account f) (hm_values (sm_accounts st))))"
  have "query_accounts body_max f st = account_batch_to_bytes ?results"
    using True assms(2) by (simp add: query_accounts_def Let_def filter_selects result_max_multi_batch_128 reply_cap_def)
  then show ?thesis
    using account_reply [of ?results] page_of_sorted [OF reachable_accounts [OF assms(1)]] True by auto
qed (use account_reply [of "[]"] in \<open>auto simp: query_accounts_def account_batch_to_bytes_def encode_batch_def\<close>)

theorem query_accounts_page_witness:
  "\<exists>st reply results. sm_reachable 32 st \<and> query_accounts 4096 any_query st = Some reply \<and> bytes_to_account_batch reply = Some (Some results) \<and>
     page (query_selects_account any_query) (precedes (qff_reversed (qf_flags any_query)) a_timestamp) (reply_cap 4096 (qf_limit any_query)) (hm_values (sm_accounts st)) results"
proof -
  obtain st where st: "sm_reachable 32 st" "hm_get (sm_accounts st) 1 = Some (account_event_a\<lparr>a_timestamp := 10\<rparr>)"
    by (rule first_account_reachable)
  show ?thesis
    using st(1) query_accounts_page [OF st(1), of 4096 any_query] any_filters_valid by auto
qed

text \<open>C20. \<open>get_account_transfers\<close> answers with exactly one page of the transfers the account takes part
  in on the sides the filter's flags name.\<close>

theorem get_account_transfers_page:
  assumes "sm_reachable n st" "128 \<le> body_max"
  shows "\<exists>reply results. get_account_transfers body_max f st = Some reply \<and> bytes_to_transfer_batch reply = Some (Some results) \<and>
    (if account_filter_valid f
     then page (account_selects_transfer f) (precedes (aff_reversed (fl_flags f)) t_timestamp)
       (reply_cap body_max (fl_limit f)) (hm_values (sm_transfers st)) results
     else results = [])"
proof (cases "account_filter_valid f")
  case True
  let ?results = "take (reply_cap body_max (fl_limit f)) (sort_by_timestamp (aff_reversed (fl_flags f)) t_timestamp
    (filter (account_selects_transfer f) (hm_values (sm_transfers st))))"
  have "get_account_transfers body_max f st = transfer_batch_to_bytes ?results"
    using True assms(2) by (simp add: get_account_transfers_def Let_def filter_selects result_max_multi_batch_128 reply_cap_def)
  then show ?thesis
    using transfer_reply [of ?results] page_of_sorted [OF reachable_transfers [OF assms(1)]] True by auto
qed (use transfer_reply [of "[]"] in \<open>auto simp: get_account_transfers_def transfer_batch_to_bytes_def encode_batch_def\<close>)

theorem get_account_transfers_page_witness:
  "\<exists>st reply results. sm_reachable 32 st \<and> get_account_transfers 4096 any_transfer_of_1 st = Some reply \<and> bytes_to_transfer_batch reply = Some (Some results) \<and>
     page (account_selects_transfer any_transfer_of_1) (precedes (aff_reversed (fl_flags any_transfer_of_1)) t_timestamp) (reply_cap 4096 (fl_limit any_transfer_of_1)) (hm_values (sm_transfers st)) results"
proof -
  obtain st where st: "sm_reachable 32 st" "hm_get (sm_accounts st) 1 = Some (account_event_a\<lparr>a_timestamp := 10\<rparr>)"
    by (rule first_account_reachable)
  show ?thesis
    using st(1) get_account_transfers_page [OF st(1), of 4096 any_transfer_of_1] any_filters_valid by auto
qed

section \<open>History and change events\<close>

lemma reachable_events:
  assumes "sm_reachable n st"
  shows "distinct (hm_values (sm_account_events st))" "inj_on ev_timestamp (set (hm_values (sm_account_events st)))"
    "e \<in> set (hm_values (sm_account_events st)) \<Longrightarrow> event_ok (sm_stores st) e"
    "filter (\<lambda>(ts, e). P ts e) (sm_account_events st) = filter (\<lambda>(ts, e). P (ev_timestamp e) e) (sm_account_events st)"
proof -
  have log: "log_ok st" using reachable_log [OF assms] by simp
  then have ok: "hm_ok (sm_account_events st)" by (simp add: log_ok_def)
  have at: "ev_timestamp e = ts \<and> event_ok (sm_stores st) e" if "hm_get (sm_account_events st) ts = Some e" for ts e
    using log that by (simp add: log_ok_def)
  show "distinct (hm_values (sm_account_events st))" by (rule hm_values_keyed [OF ok]) (use at in blast)
  show "inj_on ev_timestamp (set (hm_values (sm_account_events st)))"
    by (rule inj_onI) (use at in \<open>metis hm_values_get [OF ok] option.inject\<close>)
  show "event_ok (sm_stores st) e" if "e \<in> set (hm_values (sm_account_events st))" for e
    using that at by (auto simp: hm_values_get [OF ok])
  show "filter (\<lambda>(ts, e). P ts e) (sm_account_events st) = filter (\<lambda>(ts, e). P (ev_timestamp e) e) (sm_account_events st)"
    by (rule filter_cong) (use at in \<open>auto simp: hm_get_in_set [OF ok]\<close>)
qed

lemma map_snd_filter: "map snd (filter (\<lambda>(ts, e). P e) m) = filter P (hm_values m)"
  by (induction m) (auto simp: hm_values_def)

text \<open>Every event of the log builds its change event, and its image has the record's 384 bytes.\<close>

lemma event_builds:
  assumes "event_ok (sm_stores st) e"
  shows "\<exists>change. build_change_event st e = Some change \<and> length (ch_reserved change) = 39"
proof -
  from assms obtain t dr cr change where "account_event_transfer st e = Some t"
    "hm_get (sm_accounts st) (ev_dr_account_id e) = Some dr" "hm_get (sm_accounts st) (ev_cr_account_id e) = Some cr"
    and built: "build_change_event_from_objects e t dr cr = Some change"
    by (auto simp: event_ok_def event_transfer_store) (simp add: sm_stores_def)
  moreover from built have "length (ch_reserved change) = 39"
    by (auto simp: build_change_event_from_objects_def panic_simps)
  ultimately show ?thesis by (simp add: build_change_event_def)
qed

lemma change_image: "length (ch_reserved change) = 39 \<Longrightarrow> \<exists>bytes. change_bytes change = Some bytes \<and> length bytes = 384"
  by (simp add: change_bytes_def image_contiguous)

text \<open>Events of the account itself, with the assertions of the snapshot.\<close>

definition balance_selects :: "state_machine \<Rightarrow> account_filter \<Rightarrow> account_event \<Rightarrow> bool" where
  "balance_selects st f e \<longleftrightarrow> in_window (fl_timestamp_min f) (fl_timestamp_max f) (ev_timestamp e) \<and>
     ev_transfer_pending_status e \<noteq> StExpired \<and>
     (\<exists>t. account_event_transfer st e = Some t \<and> transfer_matches_account_filter t f)"

lemma balance_snapshot:
  assumes ok: "event_ok (sm_stores st) e" and selected: "balance_selects st f e"
    and wf: "stores_wf (sm_accounts st, sm_transfers st, sm_transfers_pending st, sm_transfers_by_timestamp st)"
  shows "\<exists>snapshot. account_balance_of_event (fl_account_id f) e = Some snapshot \<and> length (ab_reserved snapshot) = 56 \<and>
    ab_timestamp snapshot = ev_timestamp e"
proof -
  from ok selected obtain t dr cr where t: "account_event_transfer st e = Some t" "transfer_matches_account_filter t f"
    and two: "hm_get (sm_accounts st) (ev_dr_account_id e) = Some dr" "hm_get (sm_accounts st) (ev_cr_account_id e) = Some cr"
    and built: "build_change_event_from_objects e t dr cr \<noteq> None" and sides: "ev_dr_account_id e \<noteq> ev_cr_account_id e"
    by (auto simp: event_ok_def event_transfer_store balance_selects_def) (simp add: sm_stores_def)
  have "a_id dr = ev_dr_account_id e" "a_id cr = ev_cr_account_id e"
    using wf two by (auto simp: stores_wf_def account_in_def)
  with built have "t_debit_account_id t = ev_dr_account_id e" "t_credit_account_id t = ev_cr_account_id e"
    by (simp_all add: build_change_event_Some)
  with t(2) have "fl_account_id f = ev_dr_account_id e \<or> fl_account_id f = ev_cr_account_id e"
    by (auto simp: transfer_matches_account_filter_def)
  then show ?thesis using sides by (auto simp: account_balance_of_event_def ensure_def)
qed

lemma images_total:
  assumes "\<And>x. x \<in> set xs \<Longrightarrow> \<exists>bytes. f x = Some bytes \<and> length bytes = width"
  shows "\<exists>images. those (map f xs) = Some images \<and> length (concat images) = width * length xs"
  using assms
proof (induction xs)
  case (Cons x xs)
  then obtain images bytes where "those (map f xs) = Some images" "length (concat images) = width * length xs"
    "f x = Some bytes" "length bytes = width" by (metis list.set_intros)
  then show ?case by simp
qed simp

lemma balances_reply:
  assumes "\<And>b. b \<in> set snapshots \<Longrightarrow> length (ab_reserved b) = 56"
  shows "\<exists>reply. account_balances_to_bytes snapshots = Some reply \<and> length reply = 128 * length snapshots"
  using images_total [of snapshots account_balance_record 128] assms
  by (auto simp: account_balances_to_bytes_def encode_batch_def account_balance_record_def image_contiguous)

lemma get_account_balances_run:
  assumes "sm_reachable n st" "128 \<le> body_max"
    and keeps: "account_filter_valid f" "hm_get (sm_accounts st) (fl_account_id f) = Some a" "af_history (a_flags a)"
  shows "\<exists>reply events snapshots. get_account_balances body_max f st = Some reply \<and>
    map (account_balance_of_event (fl_account_id f)) events = map Some snapshots \<and>
    account_balances_to_bytes snapshots = Some reply \<and> length reply = 128 * length events \<and>
    page (balance_selects st f) (precedes (aff_reversed (fl_flags f)) ev_timestamp)
       (reply_cap body_max (fl_limit f)) (hm_values (sm_account_events st)) events"
proof -
  note log = reachable_events [OF assms(1)] and wf = reachable_wf [OF assms(1)]
  let ?logged = "hm_values (sm_account_events st)" and ?cap = "reply_cap body_max (fl_limit f)"
  define events where "events = take ?cap (sort_by_timestamp (aff_reversed (fl_flags f)) ev_timestamp (filter (balance_selects st f) ?logged))"
  have "filter (\<lambda>(ts, e). ts \<ge> range_min (fl_timestamp_min f) \<and> ts \<le> range_max (fl_timestamp_max f) \<and>
      ev_transfer_pending_status e \<noteq> StExpired \<and>
      (case account_event_transfer st e of None \<Rightarrow> False | Some t \<Rightarrow> transfer_matches_account_filter t f)) (sm_account_events st) =
    filter (\<lambda>(ts, e). balance_selects st f e) (sm_account_events st)"
    by (subst log(4)) (auto simp: balance_selects_def in_window_range split: option.splits intro!: filter_cong)
  then have "account_balance_events_from_store body_max f (range_min (fl_timestamp_min f)) (range_max (fl_timestamp_max f)) st = Some events"
    using assms(2) by (simp add: account_balance_events_from_store_def result_max_multi_batch_128 map_snd_filter Let_def
        events_def reply_cap_def)
  then have run: "get_account_balances body_max f st = account_balances_from_events events (fl_account_id f)"
    using keeps by (auto simp: get_account_balances_def)
  have page: "page (balance_selects st f) (precedes (aff_reversed (fl_flags f)) ev_timestamp) ?cap ?logged events"
    unfolding events_def by (rule page_of_sorted [OF log(1,2)])
  have snapshot: "\<exists>b. account_balance_of_event (fl_account_id f) e = Some b \<and> length (ab_reserved b) = 56" if "e \<in> set events" for e
  proof -
    have "e \<in> set ?logged" "balance_selects st f e" using page that by (simp_all add: page_def)
    from balance_snapshot [OF log(3) [OF this(1)] this(2) wf] show ?thesis by blast
  qed
  then obtain snapshots where those: "those (map (account_balance_of_event (fl_account_id f)) events) = Some snapshots"
    using those_total [of events "account_balance_of_event (fl_account_id f)"] by blast
  then have snapshots: "map (account_balance_of_event (fl_account_id f)) events = map Some snapshots" by (simp add: those_eq_Some)
  have "length (ab_reserved b) = 56" if "b \<in> set snapshots" for b
  proof -
    have "Some b \<in> account_balance_of_event (fl_account_id f) ` set events"
      using that snapshots by (metis image_set imageI)
    with snapshot show ?thesis by fastforce
  qed
  from balances_reply [OF this] obtain reply where "account_balances_to_bytes snapshots = Some reply"
    "length reply = 128 * length snapshots" by blast
  moreover have "length snapshots = length events" using snapshots by (metis length_map)
  ultimately show ?thesis using run those snapshots page by (auto simp: account_balances_from_events_def)
qed

text \<open>C21. \<open>get_account_balances\<close> never panics on a reachable state: for an account that exists and keeps
  its history, a valid filter is answered with one balance snapshot per event of one page of the
  account's events, oldest first or reversed as asked, where expiry events are left out and an event is
  selected through the transfer that caused it; any other filter is answered with the empty reply.\<close>

theorem get_account_balances_page:
  assumes "sm_reachable n st" "128 \<le> body_max"
  shows "\<exists>reply events snapshots. get_account_balances body_max f st = Some reply \<and>
    map (account_balance_of_event (fl_account_id f)) events = map Some snapshots \<and>
    account_balances_to_bytes snapshots = Some reply \<and> length reply = 128 * length events \<and>
    (if account_filter_valid f \<and> (\<exists>a. hm_get (sm_accounts st) (fl_account_id f) = Some a \<and> af_history (a_flags a))
     then page (balance_selects st f) (precedes (aff_reversed (fl_flags f)) ev_timestamp)
       (reply_cap body_max (fl_limit f)) (hm_values (sm_account_events st)) events
     else events = [])"
proof (cases "account_filter_valid f \<and> (\<exists>a. hm_get (sm_accounts st) (fl_account_id f) = Some a \<and> af_history (a_flags a))")
  case True
  with get_account_balances_run [OF assms, of f] show ?thesis by auto
next
  case False
  then have "get_account_balances body_max f st = Some []" by (auto simp: get_account_balances_def split: option.splits)
  with False show ?thesis
    by (intro exI [of _ "[]"]) (auto simp: account_balances_to_bytes_def encode_batch_def)
qed

theorem get_account_balances_page_witness:
  "\<exists>st reply. sm_reachable 32 st \<and> get_account_balances 4096 any_transfer_of_1 st = Some reply"
proof -
  obtain st where st: "sm_reachable 32 st" "hm_get (sm_accounts st) 1 = Some (account_event_a\<lparr>a_timestamp := 10\<rparr>)"
    by (rule first_account_reachable)
  show ?thesis using st(1) get_account_balances_page [OF st(1), of 4096 any_transfer_of_1] by auto
qed

definition change_events_filter_ok :: "change_events_filter \<Rightarrow> bool" where
  "change_events_filter_ok f \<longleftrightarrow> list_all (\<lambda>b. b = 0) (cf_reserved f) \<and>
     range_min (cf_timestamp_min f) \<le> range_max (cf_timestamp_max f) \<and> cf_limit f \<noteq> 0"

lemma get_change_events_run:
  assumes "sm_reachable n st" and valid: "change_events_filter_ok f"
  shows "\<exists>reply events. get_change_events body_max f st = Some reply \<and> length reply = 384 * length events \<and>
      those (map (\<lambda>e. build_change_event st e \<bind> change_bytes) events) \<bind> (\<lambda>images. Some (concat images)) = Some reply \<and>
      page (\<lambda>e. in_window (cf_timestamp_min f) (cf_timestamp_max f) (ev_timestamp e)) (precedes False ev_timestamp)
        (min (unat (cf_limit f)) (body_max div 384)) (hm_values (sm_account_events st)) events"
proof -
  note log = reachable_events [OF assms(1)]
  let ?logged = "hm_values (sm_account_events st)" and ?cap = "min (unat (cf_limit f)) (body_max div 384)"
  let ?in = "\<lambda>e. in_window (cf_timestamp_min f) (cf_timestamp_max f) (ev_timestamp e)"
  define events where "events = take ?cap (sort_by_timestamp False ev_timestamp (filter ?in ?logged))"
  have "filter (\<lambda>(ts, _). ts \<ge> range_min (cf_timestamp_min f) \<and> ts \<le> range_max (cf_timestamp_max f)) (sm_account_events st) =
    filter (\<lambda>(ts, e). ?in e) (sm_account_events st)"
    by (subst log(4)) (simp add: in_window_range)
  then have run: "get_change_events body_max f st =
      those (map (\<lambda>e. build_change_event st e \<bind> change_bytes) events) \<bind> (\<lambda>images. Some (concat images))"
    using valid by (simp add: get_change_events_def change_events_filter_ok_def change_events_reply_def ensure_def
        map_snd_filter Let_def events_def result_max_def)
  have page: "page ?in (precedes False ev_timestamp) ?cap ?logged events"
    unfolding events_def by (rule page_of_sorted [OF log(1,2)])
  have "\<exists>bytes. (build_change_event st e \<bind> change_bytes) = Some bytes \<and> length bytes = 384" if "e \<in> set events" for e
    using event_builds [OF log(3)] change_image page that by (fastforce simp: page_def)
  from images_total [of events "\<lambda>e. build_change_event st e \<bind> change_bytes", OF this] obtain images where
    "those (map (\<lambda>e. build_change_event st e \<bind> change_bytes) events) = Some images" "length (concat images) = 384 * length events"
    by blast
  with run page show ?thesis by auto
qed

text \<open>C22. \<open>get_change_events\<close> answers with one page of the log, oldest event first, every event resolved
  against the transfer and the accounts it refers to; none of the assertions made while an event is
  resolved can fail on a reachable state. The assertions on the filter itself can: a filter with a zero
  limit, an inverted window or a non-zero reserved byte is a panic, and a body of the right length that
  decodes to such a filter is accepted as valid.\<close>

theorem get_change_events_page:
  assumes "sm_reachable n st"
  shows "if change_events_filter_ok f
    then \<exists>reply events. get_change_events body_max f st = Some reply \<and> length reply = 384 * length events \<and>
      those (map (\<lambda>e. build_change_event st e \<bind> change_bytes) events) \<bind> (\<lambda>images. Some (concat images)) = Some reply \<and>
      page (\<lambda>e. in_window (cf_timestamp_min f) (cf_timestamp_max f) (ev_timestamp e)) (precedes False ev_timestamp)
        (min (unat (cf_limit f)) (body_max div 384)) (hm_values (sm_account_events st)) events
    else get_change_events body_max f st = None"
  using get_change_events_run [OF assms, of f]
  by (auto simp: get_change_events_def change_events_filter_ok_def ensure_def Let_def)

theorem get_change_events_page_witness:
  "\<exists>st f. sm_reachable 32 st \<and> cf_limit f = 0 \<and> get_change_events 4096 f st = None"
proof -
  let ?f = "\<lparr>cf_timestamp_min = 0, cf_timestamp_max = 0, cf_limit = 0, cf_reserved = replicate 44 0\<rparr>"
  obtain st where st: "sm_reachable 32 st" "hm_get (sm_accounts st) 1 = Some (account_event_a\<lparr>a_timestamp := 10\<rparr>)"
    by (rule first_account_reachable)
  have "get_change_events 4096 ?f st = None"
    using get_change_events_page [OF st(1), of ?f 4096] by (simp add: change_events_filter_ok_def)
  with st(1) show ?thesis by (intro exI [of _ st] exI [of _ ?f]) simp
qed

section \<open>The dispatcher\<close>

text \<open>The operations that only read.\<close>

definition read_operations :: "operation set" where
  "read_operations = {OP_GET_CHANGE_EVENTS, OP_LOOKUP_ACCOUNTS, OP_LOOKUP_TRANSFERS, OP_GET_ACCOUNT_TRANSFERS,
     OP_GET_ACCOUNT_BALANCES, OP_QUERY_ACCOUNTS, OP_QUERY_TRANSFERS}"

lemma lookups_total: "\<exists>reply. lookup_accounts ids st = Some reply" "\<exists>reply. lookup_transfers ids st = Some reply"
  using account_reply [of "lookup_found (sm_accounts st) ids"] transfer_reply [of "lookup_found (sm_transfers st) ids"]
  by (auto simp: lookup_accounts_def lookup_transfers_def)

lemma queries_total:
  assumes "128 \<le> body_max"
  shows "\<exists>reply. get_account_transfers body_max g st = Some reply" "\<exists>reply. query_accounts body_max f st = Some reply"
    "\<exists>reply. query_transfers body_max f st = Some reply"
proof -
  have replies: "\<exists>reply. transfer_batch_to_bytes ts = Some reply" "\<exists>reply. account_batch_to_bytes xs = Some reply" for ts xs
    using transfer_reply [of ts] account_reply [of xs] by blast+
  show "\<exists>reply. get_account_transfers body_max g st = Some reply" "\<exists>reply. query_accounts body_max f st = Some reply"
    "\<exists>reply. query_transfers body_max f st = Some reply"
    using assms replies
    by (simp_all add: get_account_transfers_def query_accounts_def query_transfers_def result_max_multi_batch_128 Let_def)
qed

lemma get_account_balances_total:
  assumes "sm_reachable n st" "128 \<le> body_max"
  shows "\<exists>reply. get_account_balances body_max f st = Some reply"
proof (cases "account_filter_valid f \<and> (\<exists>a. hm_get (sm_accounts st) (fl_account_id f) = Some a \<and> af_history (a_flags a))")
  case True
  with get_account_balances_run [OF assms, of f] show ?thesis by blast
qed (auto simp: get_account_balances_def split: option.splits)

lemma ids_decode: "length body mod 16 = 0 \<Longrightarrow> \<exists>ids. bytes_to_lookup_ids body = Some (Some ids)"
  using id_codec.decode_batch_total by (simp add: bytes_to_lookup_ids_def)

text \<open>C18. A read cannot bring a replica down and changes nothing: on every reachable state, each read
  operation whose body passes the validation of \<open>prefetch\<close> returns a reply and leaves the state exactly
  as it was, with one exception, \<open>get_change_events\<close>, whose filter must also be one its assertions
  accept.\<close>

theorem reads_total:
  assumes "sm_reachable n st" "128 \<le> body_max" "op \<in> read_operations" "operation_body_is_valid op body = Some True"
    and "\<And>f. op = OP_GET_CHANGE_EVENTS \<Longrightarrow> bytes_to_change_events_filter body = Some (Some f) \<Longrightarrow> change_events_filter_ok f"
  shows "\<exists>reply. sm_execute body_max op timestamp body st = Some (reply, st)"
proof -
  have len: "body_length_ok op (length body)" using assms(4) by (simp add: operation_body_is_valid_length)
  consider f where "op = OP_GET_CHANGE_EVENTS" "bytes_to_change_events_filter body = Some (Some f)"
    | ids where "op = OP_LOOKUP_ACCOUNTS" "bytes_to_lookup_ids body = Some (Some ids)"
    | ids where "op = OP_LOOKUP_TRANSFERS" "bytes_to_lookup_ids body = Some (Some ids)"
    | f where "op = OP_GET_ACCOUNT_TRANSFERS" "bytes_to_account_filter body = Some (Some f)"
    | f where "op = OP_GET_ACCOUNT_BALANCES" "bytes_to_account_filter body = Some (Some f)"
    | f where "op = OP_QUERY_ACCOUNTS" "bytes_to_query_filter body = Some (Some f)"
    | f where "op = OP_QUERY_TRANSFERS" "bytes_to_query_filter body = Some (Some f)"
    using assms(3) len filter_decoders_total [of body] ids_decode [of body]
    by (auto simp: read_operations_def body_length_ok_def operation_defs)
  then show ?thesis
  proof cases
    case 1
    obtain reply where "get_change_events body_max f st = Some reply"
      using get_change_events_run [OF assms(1) assms(5) [OF 1]] by blast
    with 1 show ?thesis by (simp add: sm_execute_def operation_defs)
  next
    case 2
    obtain reply where "lookup_accounts ids st = Some reply" using lookups_total(1) by blast
    with 2 show ?thesis by (simp add: sm_execute_def operation_defs)
  next
    case 3
    obtain reply where "lookup_transfers ids st = Some reply" using lookups_total(2) by blast
    with 3 show ?thesis by (simp add: sm_execute_def operation_defs)
  next
    case 4
    obtain reply where "get_account_transfers body_max f st = Some reply" using queries_total(1) [OF assms(2)] by blast
    with 4 show ?thesis by (simp add: sm_execute_def operation_defs)
  next
    case 5
    obtain reply where "get_account_balances body_max f st = Some reply" using get_account_balances_total [OF assms(1,2)] by blast
    with 5 show ?thesis by (simp add: sm_execute_def operation_defs)
  next
    case 6
    obtain reply where "query_accounts body_max f st = Some reply" using queries_total(2) [OF assms(2)] by blast
    with 6 show ?thesis by (simp add: sm_execute_def operation_defs)
  next
    case 7
    obtain reply where "query_transfers body_max f st = Some reply" using queries_total(3) [OF assms(2)] by blast
    with 7 show ?thesis by (simp add: sm_execute_def operation_defs)
  qed
qed

theorem reads_total_witness:
  "\<exists>st reply. sm_reachable 32 st \<and> sm_execute 4096 OP_LOOKUP_ACCOUNTS 20 (le_bytes 16 (1 :: u128)) st = Some (reply, st)"
proof -
  obtain st where st: "sm_reachable 32 st" "hm_get (sm_accounts st) 1 = Some (account_event_a\<lparr>a_timestamp := 10\<rparr>)"
    by (rule first_account_reachable)
  have "operation_body_is_valid OP_LOOKUP_ACCOUNTS (le_bytes 16 (1 :: u128)) = Some True"
    by (simp add: operation_body_is_valid_length body_length_ok_def operation_defs)
  with st(1) reads_total [OF st(1), of 4096 OP_LOOKUP_ACCOUNTS "le_bytes 16 (1 :: u128)" 20] show ?thesis
    by (auto simp: read_operations_def operation_defs)
qed

text \<open>C23. Validation and execution agree: \<open>operation_body_is_valid\<close> never panics, accepts a body by the
  length its operation's records need, and a body it refuses cannot be executed or prefetched in any
  state.\<close>

theorem invalid_bodies_refused:
  "operation_body_is_valid op body = Some (body_length_ok op (length body)) \<and>
   (body_length_ok op (length body) \<or>
     sm_execute body_max op timestamp body st = None \<and> sm_prefetch body_max n snapshot op body st = None)"
proof -
  note valid = operation_body_is_valid_length [of op body]
  have "sm_execute body_max op timestamp body st = None" if no: "\<not> body_length_ok op (length body)"
  proof -
    consider "op \<in> {OP_PULSE, OP_STATE_MACHINE_PULSE}" | "op = OP_CREATE_ACCOUNTS" | "op = OP_CREATE_TRANSFERS"
      | "op = OP_LOOKUP_ACCOUNTS" | "op = OP_LOOKUP_TRANSFERS" | "op = OP_GET_ACCOUNT_TRANSFERS" | "op = OP_GET_ACCOUNT_BALANCES"
      | "op = OP_GET_CHANGE_EVENTS" | "op = OP_QUERY_ACCOUNTS" | "op = OP_QUERY_TRANSFERS"
      | "op \<notin> {OP_PULSE, OP_STATE_MACHINE_PULSE, OP_CREATE_ACCOUNTS, OP_CREATE_TRANSFERS, OP_LOOKUP_ACCOUNTS,
          OP_LOOKUP_TRANSFERS, OP_GET_ACCOUNT_TRANSFERS, OP_GET_ACCOUNT_BALANCES, OP_GET_CHANGE_EVENTS,
          OP_QUERY_ACCOUNTS, OP_QUERY_TRANSFERS}"
      by blast
    then show ?thesis
      by cases (use no in \<open>auto simp: sm_execute_def body_length_ok_def ensure_def operation_defs bytes_to_account_batch_def
          bytes_to_transfer_batch_def bytes_to_lookup_ids_def decode_batch_def bytes_to_account_filter_def
          bytes_to_query_filter_def bytes_to_change_events_filter_def\<close>)
  qed
  moreover have "sm_prefetch body_max n snapshot op body st = None" if "\<not> body_length_ok op (length body)"
    using valid that by (simp add: sm_prefetch_def ensure_def)
  ultimately show ?thesis using valid by blast
qed

section \<open>Execution stays within the reachable states\<close>

lemma decoded_length:
  assumes "record_codec width encode decode enc" "decode_batch width decode body = Some (Some vs)"
  shows "length vs \<le> length body"
proof -
  have "length body mod width = 0" using assms(2) by (auto simp: decode_batch_def split: if_splits)
  moreover have "encode_batch encode vs = Some body" by (rule record_codec.encode_decode_batch [OF assms])
  then have "body = concat (map enc vs)" using record_codec.encode_batch_total [OF assms(1), of vs] by simp
  then have "length body = width * length vs" using record_codec.length_enc_batch [OF assms(1)] by simp
  moreover have "width \<noteq> 0" by (rule record_codec.width_pos [OF assms(1)])
  ultimately show ?thesis by simp
qed

text \<open>C17. The dispatcher is covered by the invariants: from a reachable state, executing any operation
  on any body (shorter than a \<open>u64\<close> counts, at a timestamp below \<open>2 ^ 63\<close>) either panics or ends in a
  reachable state again, in which every property of the ledger, the log and the indexes holds.\<close>

theorem execute_stays_reachable:
  assumes "sm_reachable n st" "length body < 2 ^ 64" "unat timestamp < 2 ^ 63"
    and r: "sm_execute body_max op timestamp body st = Some (reply, st')"
  shows "sm_reachable n st' \<and> accounts_sound st' \<and> log_ok st' \<and> accounts_indexed st'"
proof -
  have "st' = st \<or> sm_step n st st'"
  proof (cases "op \<in> {OP_CREATE_ACCOUNTS, OP_CREATE_TRANSFERS}")
    case True
    then consider events where "bytes_to_account_batch body = Some (Some events)" "create_accounts events timestamp st = Some (reply, st')"
      | events where "bytes_to_transfer_batch body = Some (Some events)" "create_transfers events timestamp st = Some (reply, st')"
      using r by (auto simp: sm_execute_def bind_Some_iff operation_defs)
    then show ?thesis
    proof cases
      case 1
      then have "length events < 2 ^ 64"
        using decoded_length [OF account_codec.record_codec_axioms, of body events] assms(2)
        by (simp add: bytes_to_account_batch_def)
      with 1 show ?thesis using step_accounts assms(3) by blast
    next
      case 2
      then have "length events < 2 ^ 64"
        using decoded_length [OF transfer_codec.record_codec_axioms, of body events] assms(2)
        by (simp add: bytes_to_transfer_batch_def)
      with 2 show ?thesis using step_transfers assms(3) by blast
    qed
  next
    case False
    then show ?thesis
      using r step_expire [of timestamp st st' n]
      by (auto simp: sm_execute_def bind_Some_iff split: if_split_asm)
  qed
  with assms(1) have reach: "sm_reachable n st'" using reachable_step by blast
  then show ?thesis using reachable_sound(2) reachable_log reachable_indexed by blast
qed

theorem execute_stays_reachable_witness:
  "\<exists>st reply st'. sm_execute 4096 OP_LOOKUP_ACCOUNTS 20 [] st = Some (reply, st') \<and> sm_reachable 32 st' \<and> accounts_sound st'"
proof -
  obtain st where st: "sm_reachable 32 st" "hm_get (sm_accounts st) 1 = Some (account_event_a\<lparr>a_timestamp := 10\<rparr>)"
    by (rule first_account_reachable)
  have run: "sm_execute 4096 OP_LOOKUP_ACCOUNTS 20 [] st = Some ([], st)"
    by (simp add: sm_execute_def operation_defs bytes_to_lookup_ids_def decode_batch_def lookup_accounts_def
        account_batch_to_bytes_def encode_batch_def)
  from execute_stays_reachable [OF st(1) _ _ run] have "sm_reachable 32 st \<and> accounts_sound st" by simp
  with run show ?thesis by blast
qed

end
