(* ===== verification/Ewah.thy ===== *)
theory Ewah
  imports Wire
begin

text \<open>
  The EWAH codec of \<open>tigerbeetle-core/src/ewah.rs\<close>, which the free set and the checkpoint trailers are
  stored in: markers, the incremental encoder that fills one target chunk at a time and the
  incremental decoder that consumes one source chunk at a time. The encoder is shown to hand out the
  words of one stream, whatever the sizes of the chunks, and the decoder to be a word-by-word machine
  over that stream, so the two are inverse for every way of cutting it.
\<close>

section \<open>Markers\<close>

definition MARKER_UNIFORM_WORD_COUNT_MAX :: nat where "MARKER_UNIFORM_WORD_COUNT_MAX = 2 ^ 31 - 1"
definition MARKER_LITERAL_WORD_COUNT_MAX :: nat where "MARKER_LITERAL_WORD_COUNT_MAX = 2 ^ 32 - 1"
definition WORD_BYTES :: nat where "WORD_BYTES = 8"

record marker =
  mk_uniform_bit :: u8
  mk_uniform_word_count :: u32
  mk_literal_word_count :: u32

definition marker_pack :: "marker \<Rightarrow> u64 option" where
  "marker_pack m =
     do { ensure (mk_uniform_bit m \<le> 1);
          ensure (unat (mk_uniform_word_count m) \<le> MARKER_UNIFORM_WORD_COUNT_MAX);
          Some (ucast (mk_uniform_bit m) OR push_bit 1 (ucast (mk_uniform_word_count m))
                OR push_bit 32 (ucast (mk_literal_word_count m))) }"

definition marker_unpack :: "u64 \<Rightarrow> marker" where
  "marker_unpack word =
     \<lparr>mk_uniform_bit = ucast (word AND 1),
      mk_uniform_word_count = ucast (drop_bit 1 word AND 0x7FFFFFFF),
      mk_literal_word_count = ucast (drop_bit 32 word)\<rparr>"

definition is_literal :: "u64 \<Rightarrow> bool" where
  "is_literal word \<longleftrightarrow> word \<noteq> 0 \<and> word \<noteq> -1"

section \<open>The encoder\<close>

record encoder =
  en_source_words :: "u64 list"
  en_source_index :: nat
  en_literal_word_count :: nat
  en_trailing_zero_runs_count :: nat

definition encoder_new :: "u64 list \<Rightarrow> encoder" where
  "encoder_new source_words = \<lparr>en_source_words = source_words, en_source_index = 0,
     en_literal_word_count = 0, en_trailing_zero_runs_count = 0\<rparr>"

text \<open>The two counting loops: the run that starts at the head of \<open>ws\<close>, and the literals that follow.\<close>

definition uniform_run :: "u64 list \<Rightarrow> nat" where
  "uniform_run ws =
     (case ws of [] \<Rightarrow> 0
      | word # _ \<Rightarrow> if is_literal word then 0
          else length (takeWhile (\<lambda>w. w = word) (take (min (length ws) MARKER_UNIFORM_WORD_COUNT_MAX) ws)))"

definition literal_run :: "u64 list \<Rightarrow> nat" where
  "literal_run ws = length (takeWhile is_literal (take (min (length ws) MARKER_LITERAL_WORD_COUNT_MAX) ws))"

definition run_marker :: "u64 list \<Rightarrow> marker" where
  "run_marker ws =
     (let uniform = uniform_run ws; literals = literal_run (drop uniform ws)
      in \<lparr>mk_uniform_bit = (if uniform = 0 then 0 else ucast (hd ws AND 1)),
          mk_uniform_word_count = of_nat uniform, mk_literal_word_count = of_nat literals\<rparr>)"

text \<open>The \<open>while\<close> loop of \<open>encode_chunk\<close>; \<open>out\<close> is what has been written to the target so far, so its
  length is \<open>target_index\<close>.\<close>

function encode_loop :: "nat \<Rightarrow> encoder \<Rightarrow> u64 list \<Rightarrow> (u64 list \<times> encoder) option" where
  "encode_loop target_words_len e out =
     (if \<not> (en_source_index e < length (en_source_words e) \<and> length out < target_words_len) then Some (out, e)
      else
        do { ensure (en_literal_word_count e = 0);
             let ws = drop (en_source_index e) (en_source_words e);
             let uniform = uniform_run ws;
             let source_index = en_source_index e + uniform;
             let literals = literal_run (drop uniform ws);
             word \<leftarrow> marker_pack (run_marker ws);
             let literals_chunk = min literals (target_words_len - (length out + 1));
             copied \<leftarrow> slice_at (en_source_words e) source_index literals_chunk;
             let zero_run = (mk_uniform_bit (run_marker ws) = 0 \<and> literals = 0);
             ensure (zero_run \<longrightarrow> uniform > 0);
             encode_loop target_words_len
               (e\<lparr>en_source_index := source_index + literals_chunk,
                  en_literal_word_count := literals - literals_chunk,
                  en_trailing_zero_runs_count := (if zero_run then en_trailing_zero_runs_count e + 1 else 0)\<rparr>)
               (out @ word # copied) })"
  by pat_completeness auto
termination by (relation "measure (\<lambda>(n, e, out). n - length out)") auto

declare encode_loop.simps [simp del]

text \<open>\<open>encode_chunk\<close> on a target of \<open>size\<close> bytes: the bytes it then holds, the number written and the
  encoder afterwards.\<close>

definition encode_words :: "nat \<Rightarrow> encoder \<Rightarrow> (u64 list \<times> encoder) option" where
  "encode_words target_words_len e =
     do { ensure (en_source_index e \<le> length (en_source_words e));
          ensure (en_literal_word_count e \<le> length (en_source_words e));
          let literals_chunk = (if en_literal_word_count e > 0 then min (en_literal_word_count e) target_words_len else 0);
          copied \<leftarrow> slice_at (en_source_words e) (en_source_index e) literals_chunk;
          (out, e) \<leftarrow> encode_loop target_words_len
            (e\<lparr>en_source_index := en_source_index e + literals_chunk,
               en_literal_word_count := en_literal_word_count e - literals_chunk\<rparr>) copied;
          ensure (en_source_index e \<le> length (en_source_words e));
          Some (out, e) }"

definition words_to_bytes :: "u64 list \<Rightarrow> u8 list" where
  "words_to_bytes ws = concat (map (le_bytes WORD_BYTES) ws)"

definition encode_chunk :: "nat \<Rightarrow> encoder \<Rightarrow> (u8 list \<times> nat \<times> encoder) option" where
  "encode_chunk len e =
     do { ensure (len mod WORD_BYTES = 0);
          (out, e) \<leftarrow> encode_words (len div WORD_BYTES) e;
          Some (words_to_bytes out @ replicate (len - length out * WORD_BYTES) 0, length out * WORD_BYTES, e) }"

definition encoder_done :: "encoder \<Rightarrow> bool" where
  "encoder_done e \<longleftrightarrow> en_source_index e = length (en_source_words e)"

definition encode_size_max :: "nat \<Rightarrow> nat" where
  "encode_size_max word_count =
     (word_count + MARKER_LITERAL_WORD_COUNT_MAX - 1) div MARKER_LITERAL_WORD_COUNT_MAX * WORD_BYTES + word_count * WORD_BYTES"

definition encode_all :: "u64 list \<Rightarrow> u8 list \<Rightarrow> (u8 list \<times> nat) option" where
  "encode_all source_words target =
     do { ensure (length target = encode_size_max (length source_words));
          (target, written, e) \<leftarrow> encode_chunk (length target) (encoder_new source_words);
          ensure (encoder_done e);
          Some (target, written) }"

section \<open>The decoder\<close>

record decoder =
  de_source_size_remaining :: nat
  de_target_words :: "u64 list"
  de_target_index :: nat
  de_source_literal_words :: nat

definition decoder_new :: "u64 list \<Rightarrow> nat \<Rightarrow> decoder" where
  "decoder_new target_words encoded_len = \<lparr>de_source_size_remaining = encoded_len, de_target_words = target_words,
     de_target_index = 0, de_source_literal_words = 0\<rparr>"

text \<open>Writing words from \<open>target_index\<close> on; an index beyond the target is a panic.\<close>

definition put_words :: "u64 list \<Rightarrow> decoder \<Rightarrow> decoder option" where
  "put_words ws d =
     do { ensure (de_target_index d + length ws \<le> length (de_target_words d));
          Some (d\<lparr>de_target_words := take (de_target_index d) (de_target_words d) @ ws @
                    drop (de_target_index d + length ws) (de_target_words d),
                  de_target_index := de_target_index d + length ws\<rparr>) }"

function decode_loop :: "u64 list \<Rightarrow> decoder \<Rightarrow> decoder option" where
  "decode_loop [] d = Some d"
| "decode_loop (word # ws) d =
     do { ensure (de_source_literal_words d = 0);
          let m = marker_unpack word;
          d \<leftarrow> put_words (replicate (unat (mk_uniform_word_count m)) (if mk_uniform_bit m = 1 then -1 else 0)) d;
          let literals = unat (mk_literal_word_count m);
          let literals_chunk = min literals (length ws);
          d \<leftarrow> put_words (take literals_chunk ws) d;
          decode_loop (drop literals_chunk ws) (d\<lparr>de_source_literal_words := literals - literals_chunk\<rparr>) }"
  by pat_completeness auto
termination by (relation "measure (\<lambda>(ws, d). length ws)") auto

definition decode_words :: "u64 list \<Rightarrow> decoder \<Rightarrow> decoder option" where
  "decode_words ws d =
     do { let literals_chunk = (if de_source_literal_words d > 0 then min (de_source_literal_words d) (length ws) else 0);
          d \<leftarrow> put_words (take literals_chunk ws) d;
          decode_loop (drop literals_chunk ws)
            (d\<lparr>de_source_literal_words := de_source_literal_words d - literals_chunk\<rparr>) }"

definition bytes_to_words :: "u8 list \<Rightarrow> u64 list" where
  "bytes_to_words bytes = map le_word (as_chunks WORD_BYTES bytes)"

definition decode_chunk :: "u8 list \<Rightarrow> decoder \<Rightarrow> (nat \<times> decoder) option" where
  "decode_chunk source_chunk d =
     do { ensure (length source_chunk mod WORD_BYTES = 0);
          ensure (length source_chunk \<le> de_source_size_remaining d);
          d' \<leftarrow> decode_words (bytes_to_words source_chunk)
            (d\<lparr>de_source_size_remaining := de_source_size_remaining d - length source_chunk\<rparr>);
          Some (de_target_index d' - de_target_index d, d') }"

definition decoder_done :: "decoder \<Rightarrow> bool option" where
  "decoder_done d =
     do { ensure (de_target_index d \<le> length (de_target_words d));
          if de_source_size_remaining d = 0
          then do { ensure (de_source_literal_words d = 0); Some True }
          else Some False }"

definition decode_all :: "u8 list \<Rightarrow> u64 list \<Rightarrow> (nat \<times> u64 list) option" where
  "decode_all source target_words =
     do { ensure (length source mod WORD_BYTES = 0);
          (written, d) \<leftarrow> decode_chunk source (decoder_new target_words (length source));
          finished \<leftarrow> decoder_done d;
          ensure finished;
          Some (written, de_target_words d) }"

text \<open>How the callers use the two: chunk after chunk, keeping the bytes each call reports as written.\<close>

fun encode_chunks :: "nat list \<Rightarrow> encoder \<Rightarrow> (u8 list \<times> encoder) option" where
  "encode_chunks [] e = Some ([], e)"
| "encode_chunks (len # lens) e =
     do { (target, written, e) \<leftarrow> encode_chunk len e;
          (rest, e) \<leftarrow> encode_chunks lens e;
          Some (take written target @ rest, e) }"

fun decode_chunks :: "u8 list list \<Rightarrow> decoder \<Rightarrow> decoder option" where
  "decode_chunks [] d = Some d"
| "decode_chunks (chunk # chunks) d =
     do { (written, d) \<leftarrow> decode_chunk chunk d;
          decode_chunks chunks d }"

section \<open>Runs\<close>

lemma uniform_run_facts:
  "uniform_run ws \<le> length ws" "uniform_run ws \<le> MARKER_UNIFORM_WORD_COUNT_MAX"
  "take (uniform_run ws) ws = replicate (uniform_run ws) (hd ws)"
  "uniform_run ws \<noteq> 0 \<Longrightarrow> hd ws = 0 \<or> hd ws = -1"
  "ws \<noteq> [] \<Longrightarrow> \<not> is_literal (hd ws) \<Longrightarrow> uniform_run ws \<noteq> 0"
proof -
  let ?same = "\<lambda>w. w = hd ws" and ?max = "min (length ws) MARKER_UNIFORM_WORD_COUNT_MAX"
  have run: "uniform_run ws = (if ws = [] \<or> is_literal (hd ws) then 0 else length (takeWhile ?same (take ?max ws)))"
    by (cases ws) (simp_all add: uniform_run_def)
  have len: "length (takeWhile ?same (take ?max ws)) \<le> ?max"
    using length_takeWhile_le [of ?same "take ?max ws"] by simp
  then show "uniform_run ws \<le> length ws" "uniform_run ws \<le> MARKER_UNIFORM_WORD_COUNT_MAX" by (simp_all add: run)
  have "take (length (takeWhile ?same (take ?max ws))) ws = takeWhile ?same (take ?max ws)"
    using takeWhile_eq_take [of ?same "take ?max ws"] len by (simp add: min_absorb1)
  also have "\<dots> = replicate (length (takeWhile ?same (take ?max ws))) (hd ws)"
    by (rule replicate_eqI) (auto dest: set_takeWhileD)
  finally show "take (uniform_run ws) ws = replicate (uniform_run ws) (hd ws)" by (simp add: run)
  show "uniform_run ws \<noteq> 0 \<Longrightarrow> hd ws = 0 \<or> hd ws = -1" by (auto simp: run is_literal_def split: if_splits)
  show "uniform_run ws \<noteq> 0" if "ws \<noteq> []" "\<not> is_literal (hd ws)"
    using that by (cases ws) (auto simp: uniform_run_def MARKER_UNIFORM_WORD_COUNT_MAX_def min_def take_Cons')
qed

lemma literal_run_facts:
  "literal_run ws \<le> length ws" "literal_run ws \<le> MARKER_LITERAL_WORD_COUNT_MAX"
  "ws \<noteq> [] \<Longrightarrow> is_literal (hd ws) \<Longrightarrow> literal_run ws \<noteq> 0"
  "literal_run ws < length ws \<Longrightarrow> literal_run ws < MARKER_LITERAL_WORD_COUNT_MAX \<Longrightarrow> \<not> is_literal (ws ! literal_run ws)"
proof -
  let ?max = "min (length ws) MARKER_LITERAL_WORD_COUNT_MAX"
  have len: "literal_run ws \<le> ?max"
    using length_takeWhile_le [of is_literal "take ?max ws"] by (simp add: literal_run_def)
  then show "literal_run ws \<le> length ws" "literal_run ws \<le> MARKER_LITERAL_WORD_COUNT_MAX" by simp_all
  show "literal_run ws \<noteq> 0" if "ws \<noteq> []" "is_literal (hd ws)"
    using that by (cases ws) (auto simp: literal_run_def MARKER_LITERAL_WORD_COUNT_MAX_def min_def)
  show "\<not> is_literal (ws ! literal_run ws)" if "literal_run ws < length ws" "literal_run ws < MARKER_LITERAL_WORD_COUNT_MAX"
    using nth_length_takeWhile [of is_literal "take ?max ws"] that by (simp add: literal_run_def)
qed

lemma run_progress:
  assumes "ws \<noteq> []" shows "0 < uniform_run ws + literal_run (drop (uniform_run ws) ws)"
  using uniform_run_facts(5) [OF assms] literal_run_facts(3) [of ws] assms by (cases "uniform_run ws") auto

lemma unat_counts:
  "unat (of_nat (uniform_run ws) :: u32) = uniform_run ws"
  "unat (of_nat (literal_run vs) :: u32) = literal_run vs"
proof -
  have "uniform_run ws < 2 ^ 32" "literal_run vs < 2 ^ 32"
    using uniform_run_facts(2) [of ws] literal_run_facts(2) [of vs]
    by (simp_all add: MARKER_UNIFORM_WORD_COUNT_MAX_def MARKER_LITERAL_WORD_COUNT_MAX_def)
  then show "unat (of_nat (uniform_run ws) :: u32) = uniform_run ws" "unat (of_nat (literal_run vs) :: u32) = literal_run vs"
    by (simp_all add: unat_of_nat)
qed

section \<open>A marker round-trips\<close>

lemma marker_unpack_pack:
  assumes "marker_pack m = Some w"
  shows "marker_unpack w = m"
proof -
  obtain b u l where m: "m = \<lparr>mk_uniform_bit = b, mk_uniform_word_count = u, mk_literal_word_count = l\<rparr>" by (cases m)
  have w: "w = ucast b OR push_bit 1 (ucast u) OR push_bit 32 (ucast l)" and b: "b \<le> 1" and u: "unat u < 2 ^ 31"
    using assms by (auto simp: marker_pack_def m panic_simps MARKER_UNIFORM_WORD_COUNT_MAX_def)
  have b0: "k = 0" if "bit b k" for k
  proof -
    have "b = 0 \<or> b = 1" using b by (auto simp: order_le_less)
    with that show ?thesis by (auto simp: bit_1_iff)
  qed
  have u31: "k < 31" if "bit u k" for k
  proof -
    have "take_bit 31 u = u" using u by (simp add: word_unat_eq_iff unsigned_take_bit_eq take_bit_nat_eq_self)
    with that have "bit (take_bit 31 u) k" by simp
    then show ?thesis by (simp add: bit_take_bit_iff)
  qed
  have wb: "bit w k \<longleftrightarrow> bit b k \<or> 1 \<le> k \<and> bit u (k - 1) \<or> 32 \<le> k \<and> bit l (k - 32)" if "k < 64" for k
    using that b0 [of k] u31 [of "k - 1"] unfolding w bit_or_iff bit_push_bit_iff bit_unsigned_iff by auto
  have "ucast (w AND 1) = b"
    by (rule bit_word_eqI) (use wb [of 0] b0 in \<open>auto simp: bit_simps bit_1_iff\<close>)
  moreover have "ucast (drop_bit 1 w AND 0x7FFFFFFF) = u"
  proof -
    have mask: "(0x7FFFFFFF :: u64) = mask 31" by (simp add: mask_eq_exp_minus_1)
    show ?thesis
    proof (unfold mask, rule bit_word_eqI)
      fix k assume "k < LENGTH(32)"
      then show "bit (ucast (drop_bit 1 w AND mask 31) :: u32) k \<longleftrightarrow> bit u k"
        using wb [of "Suc k"] b0 [of "Suc k"] u31 [of k]
        by (auto simp: bit_unsigned_iff bit_and_iff bit_drop_bit_eq bit_mask_iff)
    qed
  qed
  moreover have "ucast (drop_bit 32 w) = l"
  proof (rule bit_word_eqI)
    fix k assume "k < LENGTH(32)"
    then show "bit (ucast (drop_bit 32 w) :: u32) k \<longleftrightarrow> bit l k"
      using wb [of "32 + k"] b0 [of "32 + k"] u31 [of "31 + k"]
      by (auto simp: bit_unsigned_iff bit_drop_bit_eq)
  qed
  ultimately show ?thesis by (simp add: m marker_unpack_def)
qed

lemma run_marker_packs: "\<exists>w. marker_pack (run_marker ws) = Some w"
  using uniform_run_facts(2,4) [of ws]
  by (auto simp: run_marker_def marker_pack_def Let_def unat_counts ensure_def)

section \<open>The stream the encoder hands out\<close>

text \<open>The whole encoding of \<open>ws\<close>, marker by marker.\<close>

function ewah :: "u64 list \<Rightarrow> u64 list" where
  "ewah ws =
     (if ws = [] then []
      else
        let uniform = uniform_run ws; literals = literal_run (drop uniform ws)
        in the (marker_pack (run_marker ws)) # take literals (drop uniform ws) @ ewah (drop (uniform + literals) ws))"
  by pat_completeness auto
termination
proof (relation "measure length")
  fix ws :: "u64 list" and uniform literals
  assume "ws \<noteq> []" "uniform = uniform_run ws" "literals = literal_run (drop uniform ws)"
  then show "(drop (uniform + literals) ws, ws) \<in> measure length" using run_progress [of ws] by simp
qed simp

declare ewah.simps [simp del]

lemma ewah_Nil [simp]: "ewah [] = []"
  by (simp add: ewah.simps)

text \<open>What a decoder makes of a stream, word by word: \<open>L\<close> literals are still expected.\<close>

fun expand :: "nat \<Rightarrow> u64 list \<Rightarrow> u64 list \<times> nat" where
  "expand L [] = ([], L)"
| "expand (Suc L) (word # ws) = (let (out, k) = expand L ws in (word # out, k))"
| "expand 0 (word # ws) =
     (let m = marker_unpack word; (out, k) = expand (unat (mk_literal_word_count m)) ws
      in (replicate (unat (mk_uniform_word_count m)) (if mk_uniform_bit m = 1 then -1 else 0) @ out, k))"

lemma expand_append:
  "expand L (xs @ ys) =
     (let (out, k) = expand L xs; (out', k') = expand k ys in (out @ out', k'))"
  by (induction L xs rule: expand.induct) (auto simp: Let_def split: prod.splits)

lemma expand_literals: "expand (length xs) xs = (xs, 0)"
  by (induction xs) auto

lemma expand_take: "k \<le> length ws \<Longrightarrow> k \<le> L \<Longrightarrow> expand L ws = (let (out, n) = expand (L - k) (drop k ws) in (take k ws @ out, n))"
proof (induction k arbitrary: L ws)
  case (Suc k)
  then obtain w ws' L' where "ws = w # ws'" "L = Suc L'" by (cases ws; cases L) auto
  with Suc show ?case by (auto simp: Let_def split: prod.splits)
qed simp

lemma expand_ewah: "expand 0 (ewah ws) = (ws, 0)"
proof (induction ws rule: ewah.induct)
  case (1 ws)
  show ?case
  proof (cases "ws = []")
    case False
    let ?u = "uniform_run ws" let ?l = "literal_run (drop ?u ws)"
    let ?lits = "take ?l (drop ?u ws)"
    obtain w where w: "marker_pack (run_marker ws) = Some w" using run_marker_packs by blast
    have fits: "length ?lits = ?l" using literal_run_facts(1) [of "drop ?u ws"] by simp
    have m: "unat (mk_uniform_word_count (marker_unpack w)) = ?u" "unat (mk_literal_word_count (marker_unpack w)) = ?l"
      "mk_uniform_bit (marker_unpack w) = (if ?u = 0 then 0 else ucast (hd ws AND 1))"
      by (simp_all add: marker_unpack_pack [OF w] run_marker_def Let_def unat_counts)
    have uniform: "replicate ?u (if mk_uniform_bit (marker_unpack w) = 1 then -1 else 0) = take ?u ws"
      using uniform_run_facts(3,4) [of ws] by (auto simp: m)
    have IH: "expand 0 (ewah (drop (?u + ?l) ws)) = (drop (?u + ?l) ws, 0)" by (rule "1.IH" [OF False refl refl])
    have "expand ?l (?lits @ ewah (drop (?u + ?l) ws)) = (?lits @ drop (?u + ?l) ws, 0)"
      using expand_append [of ?l ?lits] expand_literals [of ?lits, unfolded fits] IH by simp
    then have "expand 0 (ewah ws) = (take ?u ws @ ?lits @ drop (?u + ?l) ws, 0)"
      using False by (subst ewah.simps) (simp add: w Let_def m(1,2) uniform)
    also have "take ?u ws @ ?lits @ drop (?u + ?l) ws = ws"
      by (metis append_take_drop_id drop_drop add.commute)
    finally show ?thesis .
  qed simp
qed

section \<open>The encoder cuts the stream into chunks\<close>

definition encoder_ok :: "encoder \<Rightarrow> bool" where
  "encoder_ok e \<longleftrightarrow> en_source_index e + en_literal_word_count e \<le> length (en_source_words e)"

text \<open>What is still to come.\<close>

definition encoder_rest :: "encoder \<Rightarrow> u64 list" where
  "encoder_rest e = take (en_literal_word_count e) (drop (en_source_index e) (en_source_words e)) @
     ewah (drop (en_source_index e + en_literal_word_count e) (en_source_words e))"

lemma remaining_room: "k < n \<Longrightarrow> c \<le> n - (k + 1) \<Longrightarrow> n - k = Suc (c + (n - (k + 1 + c)))" for n :: nat
  by simp

lemma emit_split:
  assumes "length copied = c" "length out < n" "c \<le> n - (length out + 1)" "rest = w # copied @ later"
  shows "(out @ w # copied) @ take (n - length (out @ w # copied)) later = out @ take (n - length out) rest"
    "drop (n - length (out @ w # copied)) later = drop (n - length out) rest"
proof -
  have "n - length out = Suc (c + (n - length (out @ w # copied)))"
    using remaining_room [OF assms(2,3)] assms(1) by simp
  then show "(out @ w # copied) @ take (n - length (out @ w # copied)) later = out @ take (n - length out) rest"
    "drop (n - length (out @ w # copied)) later = drop (n - length out) rest"
    using assms(1) by (simp_all add: assms(4))
qed

lemma encode_loop_emits:
  "encoder_ok e \<Longrightarrow> length out \<le> n \<Longrightarrow> (en_literal_word_count e \<noteq> 0 \<longrightarrow> length out = n) \<Longrightarrow>
   \<exists>e'. encode_loop n e out = Some (out @ take (n - length out) (encoder_rest e), e') \<and> encoder_ok e' \<and>
     en_source_words e' = en_source_words e \<and> encoder_rest e' = drop (n - length out) (encoder_rest e)"
proof (induction "n - length out" arbitrary: e out rule: less_induct)
  case less
  let ?src = "en_source_words e" and ?i = "en_source_index e"
  show ?case
  proof (cases "?i < length ?src \<and> length out < n")
    case False
    then have "encoder_rest e = [] \<or> length out = n"
      using less.prems False by (cases "length out = n") (auto simp: encoder_rest_def encoder_ok_def)
    then show ?thesis using False less.prems by (subst encode_loop.simps) auto
  next
    case True
    let ?ws = "drop ?i ?src" let ?u = "uniform_run ?ws" let ?l = "literal_run (drop ?u ?ws)"
    let ?c = "min ?l (n - (length out + 1))"
    have no_lits: "en_literal_word_count e = 0" using less.prems True by auto
    obtain w where w: "marker_pack (run_marker ?ws) = Some w" using run_marker_packs by blast
    have ne: "?ws \<noteq> []" using True by simp
    have len: "?u \<le> length ?ws" "?l \<le> length (drop ?u ?ws)"
      using uniform_run_facts(1) literal_run_facts(1) by blast+
    have fits: "?i + ?u + ?l \<le> length ?src" using len True by (simp add: length_drop) arith
    have some: "0 < ?u + ?l" by (rule run_progress [OF ne])
    define zero_run where "zero_run = (mk_uniform_bit (run_marker ?ws) = 0 \<and> ?l = 0)"
    define e1 where "e1 = e\<lparr>en_source_index := ?i + ?u + ?c, en_literal_word_count := ?l - ?c,
      en_trailing_zero_runs_count := (if zero_run then en_trailing_zero_runs_count e + 1 else 0)\<rparr>"
    let ?out = "out @ w # take ?c (drop (?i + ?u) ?src)"
    have out_len: "length ?out = length out + 1 + ?c" using fits by simp
    have step: "encode_loop n e out = encode_loop n e1 ?out"
      using True no_lits w fits some
      by (subst encode_loop.simps) (auto simp: Let_def e1_def zero_run_def ensure_def)
    have rest1: "encoder_rest e1 = drop ?c (take ?l (drop ?u ?ws)) @ ewah (drop (?u + ?l) ?ws)"
      using True by (simp add: encoder_rest_def e1_def drop_take add.commute add.left_commute)
    have rest: "encoder_rest e = w # take ?l (drop ?u ?ws) @ ewah (drop (?u + ?l) ?ws)"
      using ne no_lits by (simp add: encoder_rest_def ewah.simps [of ?ws] w Let_def)
    have ok1: "encoder_ok e1" using fits by (simp add: encoder_ok_def e1_def)
    have "\<exists>e'. encode_loop n e1 ?out = Some (?out @ take (n - length ?out) (encoder_rest e1), e') \<and> encoder_ok e' \<and>
        en_source_words e' = en_source_words e1 \<and> encoder_rest e' = drop (n - length ?out) (encoder_rest e1)"
      by (rule less.hyps) (use True out_len ok1 in \<open>auto simp: e1_def min_def\<close>)
    moreover have "?out @ take (n - length ?out) (encoder_rest e1) = out @ take (n - length out) (encoder_rest e)"
      "drop (n - length ?out) (encoder_rest e1) = drop (n - length out) (encoder_rest e)"
    proof -
      have split: "take ?l (drop ?u ?ws) = take ?c (drop (?i + ?u) ?src) @ drop ?c (take ?l (drop ?u ?ws))"
        using append_take_drop_id [of ?c "take ?l (drop ?u ?ws)"] by (simp add: add.commute)
      have c_len: "length (take ?c (drop (?i + ?u) ?src)) = ?c" using fits by simp
      have c_le: "?c \<le> n - (length out + 1)" by (rule min.cobounded2)
      have e: "encoder_rest e = w # take ?c (drop (?i + ?u) ?src) @ encoder_rest e1"
        unfolding rest rest1 by (subst split) simp
      show "?out @ take (n - length ?out) (encoder_rest e1) = out @ take (n - length out) (encoder_rest e)"
        "drop (n - length ?out) (encoder_rest e1) = drop (n - length out) (encoder_rest e)"
        by (rule emit_split [OF c_len _ c_le e], use True in simp)+
    qed
    ultimately show ?thesis by (simp add: step e1_def)
  qed
qed

lemma encode_words_emits:
  assumes ok: "encoder_ok e"
  shows "\<exists>e'. encode_words n e = Some (take n (encoder_rest e), e') \<and> encoder_ok e' \<and>
     en_source_words e' = en_source_words e \<and> encoder_rest e' = drop n (encoder_rest e)"
proof -
  let ?src = "en_source_words e" and ?i = "en_source_index e" and ?L = "en_literal_word_count e"
  define c where "c = (if ?L > 0 then min ?L n else 0)"
  have c: "c = min ?L n" by (simp add: c_def)
  let ?e = "e\<lparr>en_source_index := ?i + c, en_literal_word_count := ?L - c\<rparr>" and ?out = "take c (drop ?i ?src)"
  have fits: "?i + ?L \<le> length ?src" using ok by (simp add: encoder_ok_def)
  then have len: "length ?out = c" by (simp add: c)
  have ok': "encoder_ok ?e" using fits by (simp add: encoder_ok_def c)
  have rest: "encoder_rest e = ?out @ encoder_rest ?e"
  proof -
    have "take ?L (drop ?i ?src) = ?out @ take (?L - c) (drop (?i + c) ?src)"
      using take_add [of c "?L - c" "drop ?i ?src"] by (simp add: c add.commute)
    then show ?thesis by (simp add: encoder_rest_def c)
  qed
  obtain e' where loop: "encode_loop n ?e ?out = Some (?out @ take (n - c) (encoder_rest ?e), e')" "encoder_ok e'"
    "en_source_words e' = ?src" "encoder_rest e' = drop (n - c) (encoder_rest ?e)"
    using encode_loop_emits [OF ok', of ?out n] len by (auto simp: c)
  have "encode_words n e = Some (?out @ take (n - c) (encoder_rest ?e), e')"
    using loop fits by (simp add: encode_words_def ensure_def c_def [symmetric] Let_def encoder_ok_def) (simp add: c)
  moreover have "?out @ take (n - c) (encoder_rest ?e) = take n (encoder_rest e)" "drop (n - c) (encoder_rest ?e) = drop n (encoder_rest e)"
    unfolding rest using len by (simp_all add: c)
  ultimately show ?thesis using loop by simp
qed

lemma encoder_new_rest [simp]: "encoder_rest (encoder_new ws) = ewah ws" "encoder_ok (encoder_new ws)"
  by (simp_all add: encoder_rest_def encoder_new_def encoder_ok_def)

lemma ewah_eq_Nil [simp]: "ewah ws = [] \<longleftrightarrow> ws = []"
  by (subst ewah.simps) (simp add: Let_def)

lemma encoder_done_rest: "encoder_ok e \<Longrightarrow> encoder_done e \<longleftrightarrow> encoder_rest e = []"
  by (auto simp: encoder_done_def encoder_rest_def encoder_ok_def)

section \<open>The size of an encoding\<close>

lemma length_ewah:
  "length (ewah ws) \<le> length ws + (if ws \<noteq> [] \<and> is_literal (hd ws)
     then 1 + (length ws - 1) div MARKER_LITERAL_WORD_COUNT_MAX else length ws div MARKER_LITERAL_WORD_COUNT_MAX)"
proof (induction ws rule: ewah.induct)
  case (1 ws)
  show ?case
  proof (cases "ws = []")
    case False
    let ?u = "uniform_run ws" let ?l = "literal_run (drop ?u ws)" let ?M = MARKER_LITERAL_WORD_COUNT_MAX
    let ?rest = "drop (?u + ?l) ws"
    have len: "?u + ?l + length ?rest = length ws" "?l \<le> ?M"
      using uniform_run_facts(1) [of ws] literal_run_facts(1,2) [of "drop ?u ws"] by auto
    have M: "0 < ?M" by (simp add: MARKER_LITERAL_WORD_COUNT_MAX_def)
    have IH: "length (ewah ?rest) \<le> length ?rest + (if ?rest \<noteq> [] \<and> is_literal (hd ?rest)
       then 1 + (length ?rest - 1) div ?M else length ?rest div ?M)" by (rule "1.IH" [OF False refl refl])
    have this_len: "length (ewah ws) = 1 + ?l + length (ewah ?rest)"
      using False len by (subst ewah.simps) (simp add: Let_def)
    have cut: "?l = ?M" if "?rest \<noteq> []" "is_literal (hd ?rest)"
    proof (rule ccontr)
      assume "?l \<noteq> ?M"
      with len that(1) have "\<not> is_literal (drop ?u ws ! ?l)" by (intro literal_run_facts(4)) auto
      with that show False using len(1) by (simp add: hd_drop_conv_nth add.commute)
    qed
    show ?thesis
    proof (cases "is_literal (hd ws)")
      case True
      then have u: "?u = 0" using uniform_run_facts(4) [of ws] by (auto simp: is_literal_def)
      then have l: "0 < ?l" using run_progress [OF False] by simp
      have "length (ewah ?rest) \<le> length ?rest + (length ws - 1) div ?M"
      proof (cases "?rest \<noteq> [] \<and> is_literal (hd ?rest)")
        case True
        have "?l = ?M" using cut True by blast
        moreover have "length ?rest \<noteq> 0" using True by auto
        ultimately have "length ws - 1 = ?M + (length ?rest - 1)" using len(1) u by linarith
        then have "(length ws - 1) div ?M = (?M + (length ?rest - 1)) div ?M" by (rule arg_cong)
        also have "\<dots> = 1 + (length ?rest - 1) div ?M" using M by (simp only: div_add_self1)
        finally show ?thesis using IH unfolding if_P [OF True] by simp
      next
        case False
        have "length ?rest div ?M \<le> (length ws - 1) div ?M" using len(1) l by (intro div_le_mono) simp
        with IH False show ?thesis by auto
      qed
      then show ?thesis using this_len len(1) u True False by simp
    next
      case nonlit: False
      then have u: "0 < ?u" using uniform_run_facts(5) [OF False] by simp
      have "?l + length (ewah ?rest) \<le> ?l + length ?rest + length ws div ?M"
      proof (cases "?rest \<noteq> [] \<and> is_literal (hd ?rest)")
        case True
        then have "?l = ?M" "length ?rest \<noteq> 0" using cut by auto
        then have "?M + (length ?rest - 1) \<le> length ws" using len(1) by simp
        then have "(?M + (length ?rest - 1)) div ?M \<le> length ws div ?M" by (rule div_le_mono)
        moreover have "(?M + (length ?rest - 1)) div ?M = 1 + (length ?rest - 1) div ?M" using M by (simp only: div_add_self1)
        ultimately show ?thesis using IH unfolding if_P [OF True] by linarith
      next
        case False
        have "length ?rest div ?M \<le> length ws div ?M" using len(1) by (intro div_le_mono) simp
        with IH False show ?thesis by auto
      qed
      then show ?thesis using this_len len(1) u nonlit by simp
    qed
  qed simp
qed

lemma ewah_fits: "length (ewah ws) * WORD_BYTES \<le> encode_size_max (length ws)"
proof -
  let ?M = MARKER_LITERAL_WORD_COUNT_MAX
  have M: "0 < ?M" by (simp add: MARKER_LITERAL_WORD_COUNT_MAX_def)
  have "length (ewah ws) \<le> (length ws + ?M - 1) div ?M + length ws"
  proof (cases "ws = []")
    case False
    define q where "q = (length ws - 1) div ?M"
    define r where "r = length ws div ?M"
    have "length ws + ?M - 1 = ?M + (length ws - 1)" using False by (cases ws) auto
    then have up: "(length ws + ?M - 1) div ?M = 1 + q" using M by (simp only: div_add_self1 q_def)
    have "length ws \<le> ?M + (length ws - 1)" using M by simp
    then have "r \<le> (?M + (length ws - 1)) div ?M" unfolding r_def by (rule div_le_mono)
    then have r: "r \<le> 1 + q" using M by (simp only: div_add_self1 q_def)
    have "length (ewah ws) \<le> length ws + (if ws \<noteq> [] \<and> is_literal (hd ws) then 1 + q else r)"
      using length_ewah [of ws] unfolding q_def r_def .
    then have "length (ewah ws) \<le> length ws + (1 + q)" using r by (simp split: if_split_asm)
    then show ?thesis unfolding up by simp
  qed simp
  then show ?thesis by (simp add: encode_size_max_def flip: add_mult_distrib)
qed

section \<open>The decoder follows the stream\<close>

lemma put_words_Nil [simp]: "put_words [] d = (if de_target_index d \<le> length (de_target_words d) then Some d else None)"
  by (simp add: put_words_def ensure_def)

lemma put_words_append: "put_words (xs @ ys) d = put_words xs d \<bind> put_words ys"
proof (cases "de_target_index d + length xs \<le> length (de_target_words d)")
  case True
  let ?t = "de_target_index d" let ?T = "take ?t (de_target_words d) @ xs @ drop (?t + length xs) (de_target_words d)"
  have len: "length (take ?t (de_target_words d)) = ?t" "length ?T = length (de_target_words d)" using True by simp_all
  have "take (?t + length xs) ?T = take ?t (de_target_words d) @ xs"
    "drop (?t + length xs + length ys) ?T = drop (?t + length xs + length ys) (de_target_words d)"
    using len(1) by (simp_all add: add.commute add.left_commute)
  then show ?thesis using True len(2) by (simp add: put_words_def ensure_def add.assoc)
qed (simp add: put_words_def ensure_def)

lemma put_words_literals:
  "put_words xs (d\<lparr>de_source_literal_words := k\<rparr>) = map_option (\<lambda>d. d\<lparr>de_source_literal_words := k\<rparr>) (put_words xs d)"
  by (simp add: put_words_def ensure_def)

lemma put_words_within: "put_words xs d = Some d' \<Longrightarrow>
  de_target_index d' \<le> length (de_target_words d') \<and> de_source_literal_words d' = de_source_literal_words d"
  by (auto simp: put_words_def panic_simps)

lemma expand_put: "expand L ws = (let c = min L (length ws); (out, k) = expand (L - c) (drop c ws) in (take c ws @ out, k))"
  using expand_take [of "min L (length ws)" ws L] by (simp add: Let_def)

lemma decode_loop_expands:
  "de_source_literal_words d = 0 \<or> ws = [] \<Longrightarrow> de_target_index d \<le> length (de_target_words d) \<Longrightarrow>
   expand (de_source_literal_words d) ws = (out, k) \<Longrightarrow>
   decode_loop ws d = map_option (\<lambda>d. d\<lparr>de_source_literal_words := k\<rparr>) (put_words out d)"
proof (induction ws d arbitrary: out k rule: decode_loop.induct)
  case (2 word ws d)
  let ?m = "marker_unpack word" let ?l = "unat (mk_literal_word_count ?m)" let ?c = "min ?l (length ws)"
  let ?run = "replicate (unat (mk_uniform_word_count ?m)) (if mk_uniform_bit ?m = 1 then -1 else 0) :: u64 list"
  obtain out1 where out1: "expand (?l - ?c) (drop ?c ws) = (out1, k)" and out: "out = ?run @ take ?c ws @ out1"
    using 2(2,4) by (auto simp: Let_def expand_put [of ?l ws] split: prod.splits)
  have rest: "decode_loop (drop ?c ws) (d2\<lparr>de_source_literal_words := ?l - ?c\<rparr>) =
      map_option (\<lambda>d. d\<lparr>de_source_literal_words := k\<rparr>) (put_words out1 d2)"
    if "put_words ?run d = Some d1" "put_words (take ?c ws) d1 = Some d2" for d1 d2
  proof -
    have ok: "ensure (de_source_literal_words d = 0) = Some ()" using 2(2) by (simp add: ensure_def)
    have "decode_loop (drop ?c ws) (d2\<lparr>de_source_literal_words := ?l - ?c\<rparr>) =
        map_option (\<lambda>d. d\<lparr>de_source_literal_words := k\<rparr>) (put_words out1 (d2\<lparr>de_source_literal_words := ?l - ?c\<rparr>))"
      by (rule "2.IH" [OF ok refl that(1) refl refl that(2)]) (use out1 put_words_within [OF that(2)] in auto)
    then show ?thesis by (cases "put_words out1 d2") (simp_all add: put_words_literals)
  qed
  show ?case using 2(2) rest unfolding out put_words_append
    by (cases "put_words ?run d"; simp add: Let_def ensure_def)
      (cases "put_words (take ?c ws) (the (put_words ?run d))"; simp)
qed simp

lemma decode_words_expands:
  assumes "de_target_index d \<le> length (de_target_words d)" "expand (de_source_literal_words d) ws = (out, k)"
  shows "decode_words ws d = map_option (\<lambda>d. d\<lparr>de_source_literal_words := k\<rparr>) (put_words out d)"
proof -
  let ?L = "de_source_literal_words d" let ?c = "min ?L (length ws)"
  obtain out1 where out1: "expand (?L - ?c) (drop ?c ws) = (out1, k)" and out: "out = take ?c ws @ out1"
    using assms(2) expand_put [of ?L ws] by (auto simp: Let_def split: prod.splits)
  have c: "(if ?L > 0 then min ?L (length ws) else 0) = ?c" by simp
  have "decode_loop (drop ?c ws) (d1\<lparr>de_source_literal_words := ?L - ?c\<rparr>) =
      map_option (\<lambda>d. d\<lparr>de_source_literal_words := k\<rparr>) (put_words out1 d1)" if "put_words (take ?c ws) d = Some d1" for d1
  proof -
    have "decode_loop (drop ?c ws) (d1\<lparr>de_source_literal_words := ?L - ?c\<rparr>) =
        map_option (\<lambda>d. d\<lparr>de_source_literal_words := k\<rparr>) (put_words out1 (d1\<lparr>de_source_literal_words := ?L - ?c\<rparr>))"
      by (rule decode_loop_expands) (use out1 put_words_within [OF that] in auto)
    then show ?thesis by (cases "put_words out1 d1") (simp_all add: put_words_literals)
  qed
  then show ?thesis unfolding decode_words_def c out put_words_append
    by (cases "put_words (take ?c ws) d") (simp_all add: put_words_within)
qed

section \<open>Words and bytes\<close>

lemma length_words_to_bytes [simp]: "length (words_to_bytes ws) = length ws * WORD_BYTES"
  by (induction ws) (simp_all add: words_to_bytes_def)

lemma words_to_bytes_append [simp]: "words_to_bytes (xs @ ys) = words_to_bytes xs @ words_to_bytes ys"
  by (simp add: words_to_bytes_def)

lemma words_to_bytes_Nil [simp]: "words_to_bytes [] = []"
  by (simp add: words_to_bytes_def)

lemma bytes_to_words_of_words [simp]: "bytes_to_words (words_to_bytes ws @ bytes) = ws @ bytes_to_words bytes"
  by (induction ws) (simp_all add: words_to_bytes_def bytes_to_words_def as_chunks_append WORD_BYTES_def le_word_bytes)

lemma bytes_to_words_Nil [simp]: "bytes_to_words [] = []"
  by (simp add: bytes_to_words_def)

lemma words_of_bytes: "length bytes mod WORD_BYTES = 0 \<Longrightarrow> words_to_bytes (bytes_to_words bytes) = bytes"
proof -
  assume whole: "length bytes mod WORD_BYTES = 0"
  have "map (\<lambda>b. le_bytes WORD_BYTES (le_word b :: u64)) (as_chunks WORD_BYTES bytes) = as_chunks WORD_BYTES bytes"
  proof (rule map_idI)
    fix b assume "b \<in> set (as_chunks WORD_BYTES bytes)"
    then have "length b = WORD_BYTES" by (rule as_chunks_lengths)
    then show "le_bytes WORD_BYTES (le_word b :: u64) = b"
      using le_bytes_word [of b, where 'a = 64] by (simp add: WORD_BYTES_def)
  qed
  then have "words_to_bytes (bytes_to_words bytes) = concat (as_chunks WORD_BYTES bytes)"
    by (simp add: words_to_bytes_def bytes_to_words_def o_def)
  then show ?thesis using concat_as_chunks [OF _ whole] by (simp add: WORD_BYTES_def)
qed

lemma bytes_to_words_append:
  assumes "length xs mod WORD_BYTES = 0" shows "bytes_to_words (xs @ ys) = bytes_to_words xs @ bytes_to_words ys"
proof -
  have "bytes_to_words (words_to_bytes (bytes_to_words xs) @ ys) = bytes_to_words xs @ bytes_to_words ys"
    by (rule bytes_to_words_of_words)
  then show ?thesis by (simp add: words_of_bytes [OF assms])
qed

section \<open>Chunk after chunk\<close>

lemma encode_chunk_emits:
  assumes "encoder_ok e" "len mod WORD_BYTES = 0"
  shows "\<exists>target e'. encode_chunk len e = Some (target, length (take (len div WORD_BYTES) (encoder_rest e)) * WORD_BYTES, e') \<and>
     length target = len \<and> take (length (take (len div WORD_BYTES) (encoder_rest e)) * WORD_BYTES) target =
       words_to_bytes (take (len div WORD_BYTES) (encoder_rest e)) \<and>
     encoder_ok e' \<and> en_source_words e' = en_source_words e \<and> encoder_rest e' = drop (len div WORD_BYTES) (encoder_rest e)"
proof -
  obtain e' where e': "encode_words (len div WORD_BYTES) e = Some (take (len div WORD_BYTES) (encoder_rest e), e')" "encoder_ok e'"
    "en_source_words e' = en_source_words e" "encoder_rest e' = drop (len div WORD_BYTES) (encoder_rest e)"
    using encode_words_emits [OF assms(1)] by blast
  define out where "out = take (len div WORD_BYTES) (encoder_rest e)"
  have "length out \<le> len div WORD_BYTES" by (simp add: out_def)
  then have "length out * WORD_BYTES \<le> len div WORD_BYTES * WORD_BYTES" by (rule mult_le_mono1)
  then have fits: "length out * WORD_BYTES \<le> len" using div_times_less_eq_dividend [of len WORD_BYTES] by linarith
  have "encode_chunk len e = Some (words_to_bytes out @ replicate (len - length out * WORD_BYTES) 0, length out * WORD_BYTES, e')"
    using e'(1) assms(2) by (simp add: encode_chunk_def ensure_def out_def)
  then show ?thesis using e' fits unfolding out_def [symmetric] by auto
qed

lemma encode_chunks_emit:
  "encoder_ok e \<Longrightarrow> \<forall>len \<in> set lens. len mod WORD_BYTES = 0 \<Longrightarrow>
   \<exists>e'. encode_chunks lens e = Some (words_to_bytes (take (sum_list lens div WORD_BYTES) (encoder_rest e)), e') \<and>
     encoder_ok e' \<and> encoder_rest e' = drop (sum_list lens div WORD_BYTES) (encoder_rest e)"
proof (induction lens arbitrary: e)
  case (Cons len lens)
  let ?n = "len div WORD_BYTES" let ?k = "sum_list lens div WORD_BYTES"
  have whole: "len mod WORD_BYTES = 0" using Cons.prems(2) by simp
  obtain target e1 where c: "encode_chunk len e = Some (target, length (take ?n (encoder_rest e)) * WORD_BYTES, e1)"
    "take (length (take ?n (encoder_rest e)) * WORD_BYTES) target = words_to_bytes (take ?n (encoder_rest e))"
    "encoder_ok e1" "encoder_rest e1 = drop ?n (encoder_rest e)"
    using encode_chunk_emits [OF Cons.prems(1) whole] by blast
  obtain e' where e': "encode_chunks lens e1 = Some (words_to_bytes (take ?k (encoder_rest e1)), e')"
    "encoder_ok e'" "encoder_rest e' = drop ?k (encoder_rest e1)"
    using Cons.IH [OF c(3)] Cons.prems(2) by auto
  have sum: "sum_list (len # lens) div WORD_BYTES = ?n + ?k" using whole by (simp add: div_add1_eq WORD_BYTES_def)
  have "encode_chunks (len # lens) e =
      Some (words_to_bytes (take ?n (encoder_rest e)) @ words_to_bytes (take ?k (encoder_rest e1)), e')"
    using c(1,2) e'(1) by simp
  also have "words_to_bytes (take ?n (encoder_rest e)) @ words_to_bytes (take ?k (encoder_rest e1)) =
      words_to_bytes (take (?n + ?k) (encoder_rest e))" by (simp add: c(4) take_add)
  finally show ?case using e' by (simp only: sum) (simp add: c(4) add.commute)
qed simp

lemma put_words_remaining: "put_words xs (d\<lparr>de_source_size_remaining := n\<rparr>) =
  map_option (\<lambda>d. d\<lparr>de_source_size_remaining := n\<rparr>) (put_words xs d)"
  by (simp add: put_words_def ensure_def)

lemma put_words_keeps_remaining: "put_words xs d = Some d' \<Longrightarrow> de_source_size_remaining d' = de_source_size_remaining d"
  by (auto simp: put_words_def panic_simps)

lemma decode_chunk_expands:
  assumes "de_target_index d \<le> length (de_target_words d)" "length chunk mod WORD_BYTES = 0"
    "length chunk \<le> de_source_size_remaining d" "expand (de_source_literal_words d) (bytes_to_words chunk) = (out, k)"
    "put_words out d = Some d'"
  shows "decode_chunk chunk d = Some (length out,
    d'\<lparr>de_source_size_remaining := de_source_size_remaining d - length chunk, de_source_literal_words := k\<rparr>)"
proof -
  have "de_target_index d' = de_target_index d + length out" using assms(5) by (auto simp: put_words_def panic_simps)
  moreover have "decode_words (bytes_to_words chunk) (d\<lparr>de_source_size_remaining := de_source_size_remaining d - length chunk\<rparr>) =
      Some (d'\<lparr>de_source_size_remaining := de_source_size_remaining d - length chunk, de_source_literal_words := k\<rparr>)"
    using decode_words_expands [of "d\<lparr>de_source_size_remaining := de_source_size_remaining d - length chunk\<rparr>"] assms(1,4,5)
    by (simp add: put_words_remaining)
  ultimately show ?thesis using assms(2,3) by (simp add: decode_chunk_def ensure_def)
qed

lemma decode_chunks_expand:
  "\<forall>c \<in> set chunks. length c mod WORD_BYTES = 0 \<Longrightarrow> de_target_index d \<le> length (de_target_words d) \<Longrightarrow>
   length (concat chunks) \<le> de_source_size_remaining d \<Longrightarrow>
   expand (de_source_literal_words d) (bytes_to_words (concat chunks)) = (out, k) \<Longrightarrow> put_words out d = Some d' \<Longrightarrow>
   decode_chunks chunks d =
     Some (d'\<lparr>de_source_size_remaining := de_source_size_remaining d - length (concat chunks), de_source_literal_words := k\<rparr>)"
proof (induction chunks arbitrary: d d' out)
  case Nil
  then have "out = []" "k = de_source_literal_words d" "d' = d" by auto
  then show ?case by simp
next
  case (Cons chunk chunks)
  have whole: "length chunk mod WORD_BYTES = 0" using Cons.prems(1) by simp
  obtain out1 k1 out2 where split: "expand (de_source_literal_words d) (bytes_to_words chunk) = (out1, k1)"
    "expand k1 (bytes_to_words (concat chunks)) = (out2, k)" "out = out1 @ out2"
    using Cons.prems(4) by (auto simp: bytes_to_words_append [OF whole] expand_append Let_def split: prod.splits)
  obtain d1 where d1: "put_words out1 d = Some d1" "put_words out2 d1 = Some d'"
    using Cons.prems(5) unfolding split(3) put_words_append by (cases "put_words out1 d") auto
  let ?d = "d1\<lparr>de_source_size_remaining := de_source_size_remaining d - length chunk, de_source_literal_words := k1\<rparr>"
  have chunk: "decode_chunk chunk d = Some (length out1, ?d)"
    by (rule decode_chunk_expands [OF Cons.prems(2) whole _ split(1) d1(1)]) (use Cons.prems(3) in simp)
  have "decode_chunks chunks ?d = Some ((d'\<lparr>de_source_size_remaining := de_source_size_remaining d - length chunk,
      de_source_literal_words := k1\<rparr>)\<lparr>de_source_size_remaining := de_source_size_remaining ?d - length (concat chunks),
      de_source_literal_words := k\<rparr>)"
  proof (rule Cons.IH)
    have "put_words out2 (d1\<lparr>de_source_size_remaining := n, de_source_literal_words := k1\<rparr>) =
        Some (d'\<lparr>de_source_size_remaining := n, de_source_literal_words := k1\<rparr>)" for n
      using d1(2) by (simp add: put_words_literals put_words_remaining)
    then show "put_words out2 ?d = Some (d'\<lparr>de_source_size_remaining := de_source_size_remaining d - length chunk,
        de_source_literal_words := k1\<rparr>)" .
  qed (use Cons.prems put_words_within [OF d1(1)] split(2) in auto)
  then show ?case using chunk by simp
qed

lemma decode_chunks_ewah:
  assumes "\<forall>c \<in> set chunks. length c mod WORD_BYTES = 0" "concat chunks = words_to_bytes (ewah ws)"
    "length ws \<le> length target"
  shows "decode_chunks chunks (decoder_new target (length (concat chunks))) =
     Some \<lparr>de_source_size_remaining = 0, de_target_words = ws @ drop (length ws) target, de_target_index = length ws,
       de_source_literal_words = 0\<rparr>"
proof -
  let ?d = "decoder_new target (length (concat chunks))"
  have "bytes_to_words (concat chunks) = ewah ws"
    using bytes_to_words_of_words [of "ewah ws" "[]"] by (simp add: assms(2))
  then have e: "expand (de_source_literal_words ?d) (bytes_to_words (concat chunks)) = (ws, 0)"
    by (simp add: expand_ewah decoder_new_def)
  have p: "put_words ws ?d = Some (?d\<lparr>de_target_words := ws @ drop (length ws) target, de_target_index := length ws\<rparr>)"
    using assms(3) by (simp add: put_words_def ensure_def decoder_new_def)
  show ?thesis
    by (subst decode_chunks_expand [OF assms(1) _ _ e p]) (simp_all add: decoder_new_def)
qed

lemma ewah_cut_anywhere:
  assumes encoded: "encode_chunks lens (encoder_new ws) = Some (bytes, e)" "encoder_done e"
    and whole: "\<forall>len \<in> set lens. len mod WORD_BYTES = 0" "\<forall>c \<in> set chunks. length c mod WORD_BYTES = 0"
    and cut: "concat chunks = bytes" and room: "length ws \<le> length target"
  shows "\<exists>d. decode_chunks chunks (decoder_new target (length bytes)) = Some d \<and> decoder_done d = Some True \<and>
     de_target_index d = length ws \<and> de_target_words d = ws @ drop (length ws) target"
proof -
  obtain e' where e': "encode_chunks lens (encoder_new ws) = Some (words_to_bytes (take (sum_list lens div WORD_BYTES) (ewah ws)), e')"
    "encoder_ok e'" "encoder_rest e' = drop (sum_list lens div WORD_BYTES) (ewah ws)"
    using encode_chunks_emit [of "encoder_new ws" lens] whole(1) by auto
  have "encoder_rest e' = []" using e' encoded encoder_done_rest by auto
  then have "bytes = words_to_bytes (ewah ws)" using e' encoded(1) by simp
  then show ?thesis using decode_chunks_ewah [OF whole(2) _ room] cut
    by (simp add: decoder_done_def ensure_def room)
qed

lemma encode_all_emits:
  assumes "length target = encode_size_max (length ws)"
  shows "\<exists>target'. encode_all ws target = Some (target', length (ewah ws) * WORD_BYTES) \<and>
     length target' = length target \<and> take (length (ewah ws) * WORD_BYTES) target' = words_to_bytes (ewah ws)"
proof -
  have whole: "length target mod WORD_BYTES = 0" by (simp add: assms encode_size_max_def WORD_BYTES_def)
  have fits: "length (ewah ws) \<le> length target div WORD_BYTES"
    using div_le_mono [OF ewah_fits [of ws], of WORD_BYTES] by (simp add: assms WORD_BYTES_def)
  obtain target' e' where e': "encode_chunk (length target) (encoder_new ws) = Some (target', length (ewah ws) * WORD_BYTES, e')"
    "length target' = length target" "take (length (ewah ws) * WORD_BYTES) target' = words_to_bytes (ewah ws)"
    "encoder_ok e'" "encoder_rest e' = []"
    using encode_chunk_emits [OF encoder_new_rest(2) whole, of ws] fits by auto
  then show ?thesis using encoder_done_rest [OF e'(4)] by (simp add: encode_all_def assms [symmetric] ensure_def)
qed

lemma ewah_example: "ewah [0, 5] = [0x100000002, 5]"
proof -
  have run: "uniform_run [0, 5] = 1" by (simp add: uniform_run_def is_literal_def MARKER_UNIFORM_WORD_COUNT_MAX_def)
  have lits: "literal_run [5] = 1" by (simp add: literal_run_def is_literal_def MARKER_LITERAL_WORD_COUNT_MAX_def)
  show ?thesis
    by (subst ewah.simps) (simp add: Let_def run lits run_marker_def marker_pack_def ensure_def MARKER_UNIFORM_WORD_COUNT_MAX_def)
qed

lemma ewah_bytes_example: "words_to_bytes [0x100000002, 5] = [2, 0, 0, 0, 1, 0, 0, 0, 5, 0, 0, 0, 0, 0, 0, 0]"
  by (simp add: words_to_bytes_def WORD_BYTES_def le_bytes_def upt_rec)

text \<open>C38. The EWAH codec is lossless however the stream is cut: encode a bitset of words into target chunks of any
  sizes (whole words each) until the encoder is done, cut the bytes into source chunks anywhere on word boundaries, and
  the decoder accepts them all, reports itself done, has written exactly the words of the bitset to the
  front of its target and has left the rest of the target alone.\<close>
theorem ewah_round_trip:
  assumes "encode_chunks lens (encoder_new ws) = Some (bytes, e)" "encoder_done e"
    and "\<forall>len \<in> set lens. len mod WORD_BYTES = 0" "\<forall>c \<in> set chunks. length c mod WORD_BYTES = 0"
    and "concat chunks = bytes" and "length ws \<le> length target"
  shows "\<exists>d. decode_chunks chunks (decoder_new target (length bytes)) = Some d \<and> decoder_done d = Some True \<and>
     de_target_index d = length ws \<and> de_target_words d = ws @ drop (length ws) target"
  using assms by (rule ewah_cut_anywhere)

lemma ewah_round_trip_witness:
  "\<exists>d. decode_chunks [[2, 0, 0, 0, 1, 0, 0, 0], [5, 0, 0, 0, 0, 0, 0, 0]] (decoder_new [7, 7, 7] 16) = Some d \<and>
     decoder_done d = Some True \<and> de_target_index d = 2 \<and> de_target_words d = [0, 5, 7]"
proof -
  let ?bytes = "[2, 0, 0, 0, 1, 0, 0, 0, 5, 0, 0, 0, 0, 0, 0, 0] :: u8 list"
  obtain e where "encode_chunks [8, 8] (encoder_new [0, 5]) = Some (?bytes, e)" "encoder_ok e" "encoder_rest e = []"
    using encode_chunks_emit [of "encoder_new [0, 5]" "[8, 8]"] by (auto simp: ewah_example WORD_BYTES_def ewah_bytes_example)
  then show ?thesis
    using ewah_round_trip [of "[8, 8]" "[0, 5]" ?bytes e "[[2, 0, 0, 0, 1, 0, 0, 0], [5, 0, 0, 0, 0, 0, 0, 0]]" "[7, 7, 7]"]
    by (simp add: encoder_done_rest WORD_BYTES_def del: decode_chunks.simps) (simp add: numeral_eq_Suc del: decode_chunks.simps)
qed

text \<open>\<open>encode_size_max\<close> is enough: \<open>encode_all\<close> never panics on a target of that size, never writes more than it,
  and \<open>decode_all\<close> of the bytes it reports as written gives the words back and their number.\<close>
theorem encode_all_fits:
  assumes "length target = encode_size_max (length ws)" "length ws \<le> length decoded"
  shows "\<exists>target' written. encode_all ws target = Some (target', written) \<and> written \<le> encode_size_max (length ws) \<and>
     decode_all (take written target') decoded = Some (length ws, ws @ drop (length ws) decoded)"
proof -
  obtain target' where t: "encode_all ws target = Some (target', length (ewah ws) * WORD_BYTES)"
    "take (length (ewah ws) * WORD_BYTES) target' = words_to_bytes (ewah ws)"
    using encode_all_emits [OF assms(1)] by blast
  have whole: "length (words_to_bytes (ewah ws)) mod WORD_BYTES = 0" by simp
  obtain written d where d: "decode_chunk (words_to_bytes (ewah ws)) (decoder_new decoded (length (words_to_bytes (ewah ws)))) = Some (written, d)"
    "d = \<lparr>de_source_size_remaining = 0, de_target_words = ws @ drop (length ws) decoded, de_target_index = length ws,
       de_source_literal_words = 0\<rparr>"
    using decode_chunks_ewah [of "[words_to_bytes (ewah ws)]" ws decoded] assms(2)
    by (auto simp: panic_simps)
  have "written = length ws" using d by (auto simp: decode_chunk_def decoder_new_def panic_simps)
  then have "decode_all (words_to_bytes (ewah ws)) decoded = Some (length ws, ws @ drop (length ws) decoded)"
    using d whole assms(2) by (simp add: decode_all_def ensure_def decoder_done_def)
  then show ?thesis using t ewah_fits [of ws] by auto
qed

lemma encode_all_fits_witness:
  "\<exists>target' written. encode_all [0, 5] (replicate 24 0) = Some (target', written) \<and> written \<le> 24 \<and>
     decode_all (take written target') [7, 7, 7] = Some (2, [0, 5, 7])"
proof -
  have size: "encode_size_max 2 = 24" by (simp add: encode_size_max_def MARKER_LITERAL_WORD_COUNT_MAX_def WORD_BYTES_def)
  then show ?thesis using encode_all_fits [of "replicate 24 0" "[0, 5]" "[7, 7, 7]"] 
    by (simp add: numeral_2_eq_2 [symmetric] del: One_nat_def)
qed
end
