(* ===== verification/BitSet.thy ===== *)
theory BitSet
  imports Prelude
begin

text \<open>
  The bit set of \<open>tigerbeetle-core/src/stdx/bitset.rs\<close> and the word-wise scan \<open>find_bit\<close> of
  \<open>tigerbeetle-lsm/src/free_set.rs\<close>. \<open>bs_members\<close> is the set a well-formed bit set (\<open>bs_ok\<close>: whole words, padding bits
  zero) stands for; every operation is shown to be the set operation it implements, and the scan to be a
  bit-by-bit search.
\<close>

section \<open>Words\<close>

definition count_ones :: "'a::len word \<Rightarrow> nat" where
  "count_ones w = length (filter (bit w) [0..<LENGTH('a)])"

definition leading_zeros :: "'a::len word \<Rightarrow> nat" where
  "leading_zeros w = length (takeWhile (\<lambda>i. \<not> bit w i) (rev [0..<LENGTH('a)]))"

definition trailing_zeros :: "'a::len word \<Rightarrow> nat" where
  "trailing_zeros w = length (takeWhile (\<lambda>i. \<not> bit w i) [0..<LENGTH('a)])"

section \<open>The bit set\<close>

definition WORD_BITS :: nat where "WORD_BITS = 64"

record bit_set =
  bs_words :: "u64 list"
  bs_bit_length :: nat

datatype bit_kind = KindSet | KindUnset
datatype bit_direction = IterForward | IterReverse

definition bs_new_empty :: "nat \<Rightarrow> bit_set" where
  "bs_new_empty bit_length = \<lparr>bs_words = replicate ((bit_length + WORD_BITS - 1) div WORD_BITS) 0, bs_bit_length = bit_length\<rparr>"

definition mask_for :: "nat \<Rightarrow> u64" where
  "mask_for bit_length =
     (let remainder = bit_length mod WORD_BITS in if remainder = 0 then -1 else push_bit remainder 1 - 1)"

definition bs_new_full :: "nat \<Rightarrow> bit_set" where
  "bs_new_full bit_length =
     (let words = replicate ((bit_length + WORD_BITS - 1) div WORD_BITS) (-1)
      in \<lparr>bs_words = words[length words - 1 := mask_for bit_length], bs_bit_length = bit_length\<rparr>)"

definition bs_is_empty :: "bit_set \<Rightarrow> bool" where "bs_is_empty b \<longleftrightarrow> bs_bit_length b = 0"

definition bs_count :: "bit_set \<Rightarrow> nat" where "bs_count b = sum_list (map count_ones (bs_words b))"

definition bs_empty :: "bit_set \<Rightarrow> bool" where "bs_empty b \<longleftrightarrow> bs_count b = 0"

definition bs_full :: "bit_set \<Rightarrow> bool" where "bs_full b \<longleftrightarrow> bs_count b = bs_bit_length b"

definition bs_get :: "bit_set \<Rightarrow> nat \<Rightarrow> bool option" where
  "bs_get b index =
     do { ensure (index < bs_bit_length b);
          word \<leftarrow> index_at (bs_words b) (index div WORD_BITS);
          Some (word AND push_bit (index mod WORD_BITS) 1 \<noteq> 0) }"

definition bs_update :: "(u64 \<Rightarrow> u64 \<Rightarrow> u64) \<Rightarrow> bit_set \<Rightarrow> nat \<Rightarrow> bit_set option" where
  "bs_update f b index =
     do { ensure (index < bs_bit_length b);
          word \<leftarrow> index_at (bs_words b) (index div WORD_BITS);
          words \<leftarrow> index_set (bs_words b) (index div WORD_BITS) (f word (push_bit (index mod WORD_BITS) 1));
          Some (b\<lparr>bs_words := words\<rparr>) }"

definition bs_set :: "bit_set \<Rightarrow> nat \<Rightarrow> bit_set option" where "bs_set = bs_update (\<lambda>word mask. word OR mask)"
definition bs_unset :: "bit_set \<Rightarrow> nat \<Rightarrow> bit_set option" where "bs_unset = bs_update (\<lambda>word mask. word AND NOT mask)"
definition bs_toggle :: "bit_set \<Rightarrow> nat \<Rightarrow> bit_set option" where "bs_toggle = bs_update (\<lambda>word mask. word XOR mask)"

definition bs_set_value :: "bit_set \<Rightarrow> nat \<Rightarrow> bool \<Rightarrow> bit_set option" where
  "bs_set_value b index value = (if value then bs_set b index else bs_unset b index)"

definition bs_toggle_all :: "bit_set \<Rightarrow> bit_set" where
  "bs_toggle_all b =
     (let words = map (\<lambda>word. NOT word) (bs_words b)
      in b\<lparr>bs_words := (if words = [] then [] else butlast words @ [last words AND mask_for (bs_bit_length b)])\<rparr>)"

section \<open>Iteration\<close>

record bit_iter =
  it_bitset :: bit_set
  it_kind :: bit_kind
  it_forward :: bool
  it_position :: nat

definition bs_iter :: "bit_set \<Rightarrow> bit_kind \<Rightarrow> bit_direction \<Rightarrow> bit_iter" where
  "bs_iter b kind direction = \<lparr>it_bitset = b, it_kind = kind, it_forward = (direction = IterForward),
     it_position = (case direction of IterForward \<Rightarrow> 0 | IterReverse \<Rightarrow> bs_bit_length b)\<rparr>"

definition it_left :: "bit_iter \<Rightarrow> nat" where
  "it_left it = (if it_forward it then bs_bit_length (it_bitset it) - it_position it else it_position it)"

function bit_iter_next :: "bit_iter \<Rightarrow> (nat option \<times> bit_iter) option" where
  "bit_iter_next it =
     (if it_forward it \<and> bs_bit_length (it_bitset it) \<le> it_position it then Some (None, it)
      else if \<not> it_forward it \<and> it_position it = 0 then Some (None, it)
      else
        do { let index = (if it_forward it then it_position it else it_position it - 1);
             let it = it\<lparr>it_position := (if it_forward it then it_position it + 1 else it_position it - 1)\<rparr>;
             bit \<leftarrow> bs_get (it_bitset it) index;
             if bit = (it_kind it = KindSet) then Some (Some index, it) else bit_iter_next it })"
  by pat_completeness auto
termination by (relation "measure it_left") (auto simp: it_left_def)

declare bit_iter_next.simps [simp del]

definition bs_find_first_set :: "bit_set \<Rightarrow> nat option option" where
  "bs_find_first_set b = map_option fst (bit_iter_next (bs_iter b KindSet IterForward))"

definition bs_find_last_set :: "bit_set \<Rightarrow> nat option option" where
  "bs_find_last_set b = map_option fst (bit_iter_next (bs_iter b KindSet IterReverse))"

lemma bit_iter_next_left: "bit_iter_next it = Some (Some i, it') \<Longrightarrow> it_left it' < it_left it"
proof (induction it rule: bit_iter_next.induct)
  case (1 it)
  note next_eq = "1.prems" [unfolded bit_iter_next.simps [of it]]
  show ?case
  proof (cases "it_forward it \<and> bs_bit_length (it_bitset it) \<le> it_position it \<or> \<not> it_forward it \<and> it_position it = 0")
    case False
    let ?it = "it\<lparr>it_position := (if it_forward it then it_position it + 1 else it_position it - 1)\<rparr>"
    have "it_left ?it < it_left it" using False by (auto simp: it_left_def)
    moreover obtain bit where "bs_get (it_bitset ?it) (if it_forward it then it_position it else it_position it - 1) = Some bit"
      "it' = ?it \<or> bit_iter_next ?it = Some (Some i, it') \<and> bit \<noteq> (it_kind ?it = KindSet)"
      using next_eq False by (auto simp: Let_def bind_eq_Some_conv split: if_splits)
    ultimately show ?thesis using "1.IH" [OF _ _ refl refl] False by fastforce
  qed (use next_eq in auto)
qed

text \<open>\<open>iter(..).collect()\<close>.\<close>

function bit_iter_collect :: "bit_iter \<Rightarrow> nat list option" where
  "bit_iter_collect it =
     do { (item, it') \<leftarrow> bit_iter_next it;
          case item of None \<Rightarrow> Some []
          | Some index \<Rightarrow> do { rest \<leftarrow> bit_iter_collect it'; Some (index # rest) } }"
  by pat_completeness auto
termination by (relation "measure it_left") (auto dest: bit_iter_next_left)

declare bit_iter_collect.simps [simp del]

section \<open>The scan\<close>

fun find_bit_words :: "bool \<Rightarrow> nat \<Rightarrow> nat \<Rightarrow> nat \<Rightarrow> u64 list \<Rightarrow> nat option option" where
  "find_bit_words want_set bit_min bit_max w [] = Some None"
| "find_bit_words want_set bit_min bit_max w (word # words) =
     do { let word_start = bit_min div WORD_BITS;
          let word_offset = bit_min mod WORD_BITS;
          let candidate = (if want_set then word else NOT word);
          let candidate = (if w = 0 \<and> word_offset > 0 then candidate AND NOT (push_bit word_offset 1 - 1) else candidate);
          let word_bit_base = (word_start + w) * WORD_BITS;
          candidate \<leftarrow> (if word_bit_base + WORD_BITS > bit_max
             then do { ensure (word_bit_base \<le> bit_max); Some (candidate AND (push_bit (bit_max - word_bit_base) 1 - 1)) }
             else Some candidate);
          if candidate \<noteq> 0
          then do { let found = word_bit_base + trailing_zeros candidate;
                    ensure (found \<ge> bit_min \<and> found < bit_max);
                    Some (Some found) }
          else find_bit_words want_set bit_min bit_max (w + 1) words }"

definition find_bit :: "bit_set \<Rightarrow> nat \<Rightarrow> nat \<Rightarrow> bit_kind \<Rightarrow> nat option option" where
  "find_bit b bit_min bit_max kind =
     do { ensure (bit_max \<ge> bit_min);
          ensure (bit_max \<le> bs_bit_length b);
          let word_start = bit_min div WORD_BITS;
          let word_end = (bit_max + WORD_BITS - 1) div WORD_BITS;
          ensure (word_start \<le> word_end);
          words \<leftarrow> slice_at (bs_words b) word_start (word_end - word_start);
          find_bit_words (kind = KindSet) bit_min bit_max 0 words }"

section \<open>What a bit set stands for\<close>

definition bs_bit :: "bit_set \<Rightarrow> nat \<Rightarrow> bool" where
  "bs_bit b i \<longleftrightarrow> bit (bs_words b ! (i div WORD_BITS)) (i mod WORD_BITS)"

definition bs_ok :: "bit_set \<Rightarrow> bool" where
  "bs_ok b \<longleftrightarrow> length (bs_words b) = (bs_bit_length b + WORD_BITS - 1) div WORD_BITS \<and>
     (\<forall>i < length (bs_words b) * WORD_BITS. bs_bit_length b \<le> i \<longrightarrow> \<not> bs_bit b i)"

definition bs_members :: "bit_set \<Rightarrow> nat set" where
  "bs_members b = {i. i < bs_bit_length b \<and> bs_bit b i}"

lemma word_index: "i < n \<Longrightarrow> i div WORD_BITS < (n + WORD_BITS - 1) div WORD_BITS"
  by (simp add: WORD_BITS_def)

lemma bs_word_index: "bs_ok b \<Longrightarrow> i < bs_bit_length b \<Longrightarrow> i div WORD_BITS < length (bs_words b)"
  using word_index [of i "bs_bit_length b"] by (simp add: bs_ok_def del: One_nat_def)

lemma bs_members_finite [simp]: "finite (bs_members b)"
  by (simp add: bs_members_def)

lemma bs_members_bounded: "i \<in> bs_members b \<Longrightarrow> i < bs_bit_length b"
  by (simp add: bs_members_def)

lemma word_test: "word AND push_bit n 1 = 0 \<longleftrightarrow> \<not> bit (word :: u64) n"
  by (simp only: push_bit_of_1 and_exp_eq_0_iff_not_bit)

lemma bs_get_correct [simp]: "bs_ok b \<Longrightarrow> i < bs_bit_length b \<Longrightarrow> bs_get b i = Some (i \<in> bs_members b)"
  using bs_word_index [of b i] by (simp add: bs_get_def bs_members_def bs_bit_def word_test del: push_bit_of_1)

lemma mod_word_less [simp]: "i mod WORD_BITS < WORD_BITS" by (simp add: WORD_BITS_def)

lemma same_word: "i div WORD_BITS = j div WORD_BITS \<Longrightarrow> i mod WORD_BITS = j mod WORD_BITS \<longleftrightarrow> i = j"
  by (metis div_mult_mod_eq)

lemma bs_update_correct:
  assumes ok: "bs_ok b" and i: "i < bs_bit_length b"
    and f: "\<And>word j. j < WORD_BITS \<Longrightarrow> bit (f word (push_bit (i mod WORD_BITS) 1)) j \<longleftrightarrow>
      (if j = i mod WORD_BITS then F (bit word j) else bit word j)"
  obtains b' where "bs_update f b i = Some b'" "bs_ok b'" "bs_bit_length b' = bs_bit_length b"
    "\<forall>j < bs_bit_length b. j \<in> bs_members b' \<longleftrightarrow> (if j = i then F (j \<in> bs_members b) else j \<in> bs_members b)"
proof -
  let ?w = "i div WORD_BITS"
  define b' where "b' = b\<lparr>bs_words := (bs_words b)[?w := f (bs_words b ! ?w) (push_bit (i mod WORD_BITS) 1)]\<rparr>"
  have w: "?w < length (bs_words b)" by (rule bs_word_index [OF ok i])
  have some: "bs_update f b i = Some b'" using i w by (simp add: bs_update_def b'_def)
  have bits: "bs_bit b' j \<longleftrightarrow> (if j = i then F (bs_bit b j) else bs_bit b j)" if "j < length (bs_words b) * WORD_BITS" for j
  proof -
    have j: "j div WORD_BITS < length (bs_words b)" using that by (simp add: less_mult_imp_div_less)
    show ?thesis using j w same_word [of j i] f [of "j mod WORD_BITS" "bs_words b ! ?w"]
      by (cases "j div WORD_BITS = ?w") (auto simp: b'_def bs_bit_def)
  qed
  have len: "bs_bit_length b' = bs_bit_length b" "length (bs_words b') = length (bs_words b)" by (simp_all add: b'_def)
  have "bs_ok b'" using ok i unfolding bs_ok_def len by (auto simp: bits)
  moreover have "j \<in> bs_members b' \<longleftrightarrow> (if j = i then F (j \<in> bs_members b) else j \<in> bs_members b)" if "j < bs_bit_length b" for j
  proof -
    have "j div WORD_BITS < length (bs_words b)" by (rule bs_word_index [OF ok that])
    then have "j < length (bs_words b) * WORD_BITS" by (simp only: div_less_iff_less_mult WORD_BITS_def zero_less_numeral)
    then show ?thesis using that bits by (simp add: bs_members_def len)
  qed
  ultimately show ?thesis using that some len by blast
qed

lemma bit_mask_64: "bit (push_bit n (1 :: u64)) j \<longleftrightarrow> j = n \<and> n < 64"
  using bit_exp_iff [where 'a = "64 word", of n j] by (auto simp: push_bit_of_1 possible_bit_word)

lemma bs_set_correct:
  assumes "bs_ok b" "i < bs_bit_length b"
  obtains b' where "bs_set b i = Some b'" "bs_ok b'" "bs_bit_length b' = bs_bit_length b" "bs_members b' = insert i (bs_members b)"
proof -
  have f: "bit ((\<lambda>word mask. word OR mask) word (push_bit (i mod WORD_BITS) 1)) j \<longleftrightarrow>
      (if j = i mod WORD_BITS then (\<lambda>_. True) (bit word j) else bit word j)" if "j < WORD_BITS" for word :: u64 and j
    using that mod_word_less [of i] by (auto simp: bit_or_iff bit_and_iff bit_not_iff bit_mask_64 WORD_BITS_def simp del: push_bit_of_1)
  obtain b' where b': "bs_set b i = Some b'" "bs_ok b'" "bs_bit_length b' = bs_bit_length b"
    "\<forall>j < bs_bit_length b. j \<in> bs_members b' \<longleftrightarrow> (if j = i then True else j \<in> bs_members b)"
    unfolding bs_set_def using bs_update_correct [where f = "\<lambda>word mask. word OR mask" and F = "\<lambda>_. True", OF assms f] by blast
  have "j \<in> bs_members b' \<longleftrightarrow> j \<in> insert i (bs_members b)" for j
    using b'(3,4) assms(2) bs_members_bounded [of j b] bs_members_bounded [of j b'] by (cases "j < bs_bit_length b") auto
  then show ?thesis using that b' by blast
qed

lemma bs_unset_correct:
  assumes "bs_ok b" "i < bs_bit_length b"
  obtains b' where "bs_unset b i = Some b'" "bs_ok b'" "bs_bit_length b' = bs_bit_length b" "bs_members b' = bs_members b - {i}"
proof -
  have f: "bit ((\<lambda>word mask. word AND NOT mask) word (push_bit (i mod WORD_BITS) 1)) j \<longleftrightarrow>
      (if j = i mod WORD_BITS then (\<lambda>_. False) (bit word j) else bit word j)" if "j < WORD_BITS" for word :: u64 and j
    using that mod_word_less [of i] by (auto simp: bit_or_iff bit_and_iff bit_not_iff bit_mask_64 WORD_BITS_def simp del: push_bit_of_1)
  obtain b' where b': "bs_unset b i = Some b'" "bs_ok b'" "bs_bit_length b' = bs_bit_length b"
    "\<forall>j < bs_bit_length b. j \<in> bs_members b' \<longleftrightarrow> (if j = i then False else j \<in> bs_members b)"
    unfolding bs_unset_def using bs_update_correct [where f = "\<lambda>word mask. word AND NOT mask" and F = "\<lambda>_. False", OF assms f] by blast
  have "j \<in> bs_members b' \<longleftrightarrow> j \<in> bs_members b - {i}" for j
    using b'(3,4) assms(2) bs_members_bounded [of j b] bs_members_bounded [of j b'] by (cases "j < bs_bit_length b") auto
  then show ?thesis using that b' by blast
qed

lemma bs_new_empty_correct [simp]: "bs_ok (bs_new_empty n)" "bs_bit_length (bs_new_empty n) = n" "bs_members (bs_new_empty n) = {}"
proof -
  have bits: "\<not> bs_bit (bs_new_empty n) i" if "i div WORD_BITS < (n + WORD_BITS - 1) div WORD_BITS" for i
    using that by (simp add: bs_bit_def bs_new_empty_def)
  show "bs_ok (bs_new_empty n)" using bits by (auto simp: bs_ok_def bs_new_empty_def less_mult_imp_div_less)
  show "bs_bit_length (bs_new_empty n) = n" by (simp add: bs_new_empty_def)
  show "bs_members (bs_new_empty n) = {}" using bits word_index [of _ n] by (auto simp: bs_members_def bs_new_empty_def)
qed

section \<open>Counting and iterating\<close>

lemma count_ones_card: "count_ones (w :: u64) = card {j. j < WORD_BITS \<and> bit w j}"
proof -
  have "count_ones w = card (set (filter (bit w) [0..<64]))" unfolding count_ones_def by (subst distinct_card) auto
  also have "set (filter (bit w) [0..<64]) = {j. j < WORD_BITS \<and> bit w j}" by (auto simp: WORD_BITS_def)
  finally show ?thesis .
qed

lemma word_of_index: "j < WORD_BITS \<Longrightarrow> (n * WORD_BITS + j) div WORD_BITS = n" "j < WORD_BITS \<Longrightarrow> (n * WORD_BITS + j) mod WORD_BITS = j"
  by (simp_all add: WORD_BITS_def)

lemma words_card:
  "sum_list (map count_ones ws) = card {i. i < length ws * WORD_BITS \<and> bit (ws ! (i div WORD_BITS) :: u64) (i mod WORD_BITS)}"
proof (induction ws rule: rev_induct)
  case (snoc w ws)
  let ?n = "length ws * WORD_BITS"
  let ?old = "{i. i < ?n \<and> bit (ws ! (i div WORD_BITS)) (i mod WORD_BITS)}"
  let ?new = "(\<lambda>j. ?n + j) ` {j. j < WORD_BITS \<and> bit w j}"
  have split: "i < ?n \<or> (\<exists>j < WORD_BITS. i = ?n + j)" if "i < ?n + WORD_BITS" for i
    using that by (metis add_diff_inverse_nat add_less_cancel_left)
  have low: "i div WORD_BITS < length ws" if "i < ?n" for i using that by (simp add: less_mult_imp_div_less)
  have "{i. i < length (ws @ [w]) * WORD_BITS \<and> bit ((ws @ [w]) ! (i div WORD_BITS)) (i mod WORD_BITS)} = ?old \<union> ?new"
    using split low by (fastforce simp: nth_append word_of_index add.commute [of WORD_BITS])
  moreover have "card (?old \<union> ?new) = card ?old + card {j. j < WORD_BITS \<and> bit w j}"
    by (subst card_Un_disjoint) (auto simp: card_image)
  ultimately show ?case using snoc by (simp add: count_ones_card)
qed simp

lemma bs_count_correct: "bs_ok b \<Longrightarrow> bs_count b = card (bs_members b)"
proof -
  assume ok: "bs_ok b"
  have "i < length (bs_words b) * WORD_BITS" if "i < bs_bit_length b" for i
    using bs_word_index [OF ok that] by (simp only: div_less_iff_less_mult WORD_BITS_def zero_less_numeral)
  then have "bs_members b = {i. i < length (bs_words b) * WORD_BITS \<and> bs_bit b i}"
    using ok by (auto simp: bs_members_def bs_ok_def not_le [symmetric])
  then show ?thesis by (simp add: bs_count_def words_card bs_bit_def)
qed

definition kind_holds :: "bit_set \<Rightarrow> bit_kind \<Rightarrow> nat \<Rightarrow> bool" where
  "kind_holds b kind i \<longleftrightarrow> (i \<in> bs_members b) = (kind = KindSet)"

lemma bit_iter_next_forward:
  assumes "bs_ok (it_bitset it)" "it_forward it" "it_position it \<le> bs_bit_length (it_bitset it)"
  shows "bit_iter_next it = Some (case filter (kind_holds (it_bitset it) (it_kind it)) [it_position it..<bs_bit_length (it_bitset it)] of
      [] \<Rightarrow> (None, it\<lparr>it_position := bs_bit_length (it_bitset it)\<rparr>) | i # _ \<Rightarrow> (Some i, it\<lparr>it_position := i + 1\<rparr>))"
  using assms
proof (induction it rule: bit_iter_next.induct)
  case (1 it)
  show ?case
  proof (cases "it_position it = bs_bit_length (it_bitset it)")
    case False
    let ?it = "it\<lparr>it_position := it_position it + 1\<rparr>"
    have less: "it_position it < bs_bit_length (it_bitset it)" using False "1.prems"(3) by simp
    have get: "bs_get (it_bitset it) (it_position it) = Some (it_position it \<in> bs_members (it_bitset it))"
      using "1.prems"(1) less by simp
    have "bit_iter_next it = (if kind_holds (it_bitset it) (it_kind it) (it_position it) then Some (Some (it_position it), ?it) else bit_iter_next ?it)"
      using "1.prems"(2) less get by (subst bit_iter_next.simps) (simp add: Let_def kind_holds_def)
    moreover have "bit_iter_next ?it = Some (case filter (kind_holds (it_bitset it) (it_kind it)) [it_position it + 1..<bs_bit_length (it_bitset it)] of
        [] \<Rightarrow> (None, it\<lparr>it_position := bs_bit_length (it_bitset it)\<rparr>) | i # _ \<Rightarrow> (Some i, it\<lparr>it_position := i + 1\<rparr>))"
      if "\<not> (it_position it \<in> bs_members (it_bitset it)) = (it_kind it = KindSet)"
      using "1.IH" [of "it_position it" ?it] "1.prems" less get that by (simp split: list.splits)
    ultimately show ?thesis using less by (simp add: upt_conv_Cons kind_holds_def [of _ _ "it_position it"])
  qed (use "1.prems" in \<open>subst bit_iter_next.simps, simp\<close>)
qed

lemma upt_split: "[l..<h] = xs @ i # ys \<Longrightarrow> ys = [i + 1..<h] \<and> i < h"
  by (induction xs arbitrary: l) (auto simp: upt_eq_Cons_conv)

lemma bit_iter_collect_forward:
  assumes "bs_ok (it_bitset it)" "it_forward it" "it_position it \<le> bs_bit_length (it_bitset it)"
  shows "bit_iter_collect it = Some (filter (kind_holds (it_bitset it) (it_kind it)) [it_position it..<bs_bit_length (it_bitset it)])"
  using assms
proof (induction it rule: bit_iter_collect.induct)
  case (1 it)
  let ?f = "\<lambda>p. filter (kind_holds (it_bitset it) (it_kind it)) [p..<bs_bit_length (it_bitset it)]"
  note step = bit_iter_next_forward [OF "1.prems"]
  show ?case
  proof (cases "?f (it_position it)")
    case Nil
    then show ?thesis using step by (subst bit_iter_collect.simps) simp
  next
    case (Cons i rest)
    then obtain skipped tail where split: "[it_position it..<bs_bit_length (it_bitset it)] = skipped @ i # tail"
      "rest = filter (kind_holds (it_bitset it) (it_kind it)) tail"
      unfolding filter_eq_Cons_iff by blast
    then have tail: "tail = [i + 1..<bs_bit_length (it_bitset it)]" "i < bs_bit_length (it_bitset it)"
      using upt_split by auto
    then show ?thesis using step Cons split(2) "1.IH" [OF _ refl, of "Some i" "it\<lparr>it_position := i + 1\<rparr>" i] "1.prems"
      by (subst bit_iter_collect.simps) simp
  qed
qed

lemma bit_iter_next_reverse:
  assumes "bs_ok (it_bitset it)" "\<not> it_forward it" "it_position it \<le> bs_bit_length (it_bitset it)"
  shows "map_option fst (bit_iter_next it) = Some (find (kind_holds (it_bitset it) (it_kind it)) (rev [0..<it_position it]))"
  using assms
proof (induction it rule: bit_iter_next.induct)
  case (1 it)
  show ?case
  proof (cases "it_position it")
    case (Suc p)
    let ?it = "it\<lparr>it_position := it_position it - 1\<rparr>"
    have get: "bs_get (it_bitset it) p = Some (p \<in> bs_members (it_bitset it))" using "1.prems" Suc by simp
    have "bit_iter_next it = (if (p \<in> bs_members (it_bitset it)) = (it_kind it = KindSet) then Some (Some p, ?it) else bit_iter_next ?it)"
      using "1.prems"(2) Suc get by (subst bit_iter_next.simps) (simp add: Let_def)
    moreover have "map_option fst (bit_iter_next ?it) = Some (find (kind_holds (it_bitset ?it) (it_kind ?it)) (rev [0..<it_position ?it]))"
      if "\<not> (p \<in> bs_members (it_bitset it)) = (it_kind it = KindSet)"
      by (rule "1.IH" [of p ?it "p \<in> bs_members (it_bitset it)"]) (use "1.prems" Suc get that in \<open>simp_all split del: if_split\<close>)
    moreover have "kind_holds (it_bitset it) (it_kind it) p \<longleftrightarrow> (p \<in> bs_members (it_bitset it)) = (it_kind it = KindSet)"
      by (simp add: kind_holds_def)
    ultimately show ?thesis using Suc by (cases "kind_holds (it_bitset it) (it_kind it) p") simp_all
  next
    case 0
    then show ?thesis using "1.prems" by (subst bit_iter_next.simps) simp
  qed
qed

lemma find_upt_Some: "find P [a..<b] = Some i \<longleftrightarrow> a \<le> i \<and> i < b \<and> P i \<and> (\<forall>k. a \<le> k \<longrightarrow> k < i \<longrightarrow> \<not> P k)"
proof (induction "b - a" arbitrary: a)
  case (Suc n)
  then have "[a..<b] = a # [Suc a..<b]" by (simp add: upt_conv_Cons)
  moreover have "n = b - Suc a" using Suc.hyps(2) by simp
  note IH = Suc.hyps(1) [OF this]
  ultimately show ?case
    using Suc.hyps(2) by (cases "P a") (auto simp: IH Suc_le_eq le_eq_less_or_eq [of a])
qed simp

lemma find_upt_None: "find P [a..<b] = None \<longleftrightarrow> (\<forall>i. a \<le> i \<longrightarrow> i < b \<longrightarrow> \<not> P i)"
  by (auto simp: find_None_iff)

section \<open>The scan is a bit-by-bit search\<close>

lemma trailing_zeros_bit:
  assumes "(w :: u64) \<noteq> 0"
  shows "trailing_zeros w < WORD_BITS" "bit w (trailing_zeros w)" "k < trailing_zeros w \<Longrightarrow> \<not> bit w k"
proof -
  let ?P = "\<lambda>i. \<not> bit w i"
  have "\<exists>i \<in> set [0..<64]. \<not> ?P i"
  proof (rule ccontr)
    assume "\<not> ?thesis"
    then have "w = 0" by (intro bit_word_eqI) simp
    then show False using assms by simp
  qed
  then have less: "length (takeWhile ?P [0..<64]) < length [0..<64]"
    by (metis length_takeWhile_le nat_less_le takeWhile_eq_all_conv takeWhile_eq_take take_all_iff)
  then have len: "trailing_zeros w < 64" by (simp add: trailing_zeros_def)
  then show "trailing_zeros w < WORD_BITS" by (simp add: WORD_BITS_def)
  show "bit w (trailing_zeros w)" using nth_length_takeWhile [OF less] len by (simp add: trailing_zeros_def)
  show "\<not> bit w k" if "k < trailing_zeros w"
    using takeWhile_nth [of k ?P "[0..<64]"] nth_mem [of k "takeWhile ?P [0..<64]"] that len
    by (auto simp: trailing_zeros_def dest: set_takeWhileD)
qed

lemma bit_low_mask: "bit (push_bit n (1 :: u64) - 1) j \<longleftrightarrow> j < n \<and> j < WORD_BITS"
  using bit_mask_iff [where 'a = "64 word", of n j] by (simp add: push_bit_of_1 mask_eq_exp_minus_1 possible_bit_word WORD_BITS_def conj_commute)

lemma find_upt_skip: "a \<le> c \<Longrightarrow> (\<And>i. a \<le> i \<Longrightarrow> i < c \<Longrightarrow> i < b \<Longrightarrow> \<not> P i) \<Longrightarrow> find P [a..<b] = find P [c..<b]"
proof (rule option_eqI)
  fix i assume skip: "a \<le> c" "\<And>i. a \<le> i \<Longrightarrow> i < c \<Longrightarrow> i < b \<Longrightarrow> \<not> P i"
  show "find P [a..<b] = Some i \<longleftrightarrow> find P [c..<b] = Some i"
    unfolding find_upt_Some using skip by (meson le_trans less_trans not_le)
qed

text \<open>The candidate bits of one word: the wanted bits between \<open>lo\<close> and \<open>hi\<close>.\<close>

definition scan_candidate :: "bool \<Rightarrow> nat \<Rightarrow> nat \<Rightarrow> nat \<Rightarrow> u64 \<Rightarrow> u64" where
  "scan_candidate want lo hi w word =
     (let c = (if want then word else NOT word);
          c = (if w = 0 \<and> lo mod WORD_BITS > 0 then c AND NOT (push_bit (lo mod WORD_BITS) 1 - 1) else c);
          base = (lo div WORD_BITS + w) * WORD_BITS
      in if base + WORD_BITS > hi then c AND (push_bit (hi - base) 1 - 1) else c)"

lemma scan_candidate_bit:
  assumes "(lo div WORD_BITS + w) * WORD_BITS < hi"
  shows "bit (scan_candidate want lo hi w word) j \<longleftrightarrow> j < WORD_BITS \<and> bit word j = want \<and>
    lo \<le> (lo div WORD_BITS + w) * WORD_BITS + j \<and> (lo div WORD_BITS + w) * WORD_BITS + j < hi"
proof (cases "j < WORD_BITS")
  case True
  let ?base = "(lo div WORD_BITS + w) * WORD_BITS"
  have lo: "lo = lo div WORD_BITS * WORD_BITS + lo mod WORD_BITS" by simp
  have low: "lo \<le> ?base + j \<longleftrightarrow> (w = 0 \<longrightarrow> lo mod WORD_BITS \<le> j)"
  proof (cases w)
    case (Suc v)
    have "lo \<le> lo div WORD_BITS * WORD_BITS + WORD_BITS" using lo mod_word_less [of lo] by linarith
    then show ?thesis using Suc by (simp add: add_mult_distrib)
  next
    case 0
    have "lo \<le> q + j \<longleftrightarrow> lo mod WORD_BITS \<le> j" if "lo = q + lo mod WORD_BITS" for q using that by linarith
    then show ?thesis using 0 lo by simp
  qed
  have neg: "bit (NOT word) j \<longleftrightarrow> \<not> bit word j" using True by (simp add: bit_not_iff WORD_BITS_def)
  have mask: "bit (NOT (push_bit (lo mod WORD_BITS) (1 :: u64) - 1)) j \<longleftrightarrow> lo mod WORD_BITS \<le> j"
    using True bit_low_mask [of "lo mod WORD_BITS" j] by (simp add: bit_not_iff WORD_BITS_def not_less del: push_bit_of_1)
  have high: "bit (push_bit (hi - ?base) (1 :: u64) - 1) j \<longleftrightarrow> ?base + j < hi"
    using True bit_low_mask [of "hi - ?base" j] assms by (simp add: less_diff_conv add.commute del: push_bit_of_1)
  show ?thesis using True neg mask high low
    by (auto simp: scan_candidate_def Let_def bit_and_iff simp del: push_bit_of_1)
next
  case False
  then have "\<not> bit v j" for v :: u64 using bit_imp_le_length [of v j] by (auto simp: WORD_BITS_def)
  then show ?thesis using False by simp
qed

lemma find_bit_words_correct:
  assumes "\<And>n. n < length words \<Longrightarrow> words ! n = bs_words b ! (lo div WORD_BITS + w + n)"
    and "(lo div WORD_BITS + w + length words) * WORD_BITS \<ge> hi" "(lo div WORD_BITS + w + length words) * WORD_BITS < hi + WORD_BITS"
  shows "find_bit_words want lo hi w words =
    Some (find (\<lambda>i. bs_bit b i = want) [max lo ((lo div WORD_BITS + w) * WORD_BITS)..<hi])"
  using assms
proof (induction words arbitrary: w)
  case (Cons word words)
  let ?base = "(lo div WORD_BITS + w) * WORD_BITS" and ?P = "\<lambda>i. bs_bit b i = want"
  define c where "c = scan_candidate want lo hi w word"
  have base: "?base < hi" using Cons.prems(3) by (simp add: add_mult_distrib)
  have word: "word = bs_words b ! (lo div WORD_BITS + w)" using Cons.prems(1) [of 0] by simp
  have P: "?P (?base + j) \<longleftrightarrow> bit word j = want" if "j < WORD_BITS" for j
    using that by (simp add: bs_bit_def word word_of_index)
  have bits: "bit c j \<longleftrightarrow> j < WORD_BITS \<and> ?P (?base + j) \<and> lo \<le> ?base + j \<and> ?base + j < hi" for j
    using P scan_candidate_bit [OF base] by (auto simp: c_def)
  have step: "find_bit_words want lo hi w (word # words) =
      (if c \<noteq> 0 then do { ensure (lo \<le> ?base + trailing_zeros c \<and> ?base + trailing_zeros c < hi); Some (Some (?base + trailing_zeros c)) }
       else find_bit_words want lo hi (w + 1) words)"
    using base by (simp add: c_def scan_candidate_def Let_def ensure_def)
  show ?case
  proof (cases "c = 0")
    case False
    note t = trailing_zeros_bit [OF False]
    have "find ?P [max lo ?base..<hi] = Some (?base + trailing_zeros c)"
      unfolding find_upt_Some
    proof (intro conjI allI impI)
      fix k assume k: "max lo ?base \<le> k" "k < ?base + trailing_zeros c"
      then have "\<not> bit c (k - ?base)" "k - ?base < WORD_BITS" using t(1) by (auto intro!: t(3))
      then show "\<not> ?P k" using bits [of "k - ?base"] bits [of "trailing_zeros c"] t(2) k by auto
    qed (use bits [of "trailing_zeros c"] t(2) in auto)
    then show ?thesis using step False bits [of "trailing_zeros c"] t(2) by simp
  next
    case True
    have "find_bit_words want lo hi (w + 1) words = Some (find ?P [max lo ((lo div WORD_BITS + (w + 1)) * WORD_BITS)..<hi])"
      by (rule Cons.IH) (use Cons.prems(1) [of "Suc _"] Cons.prems(2,3) in auto)
    moreover have "find ?P [max lo ?base..<hi] = find ?P [max lo ((lo div WORD_BITS + (w + 1)) * WORD_BITS)..<hi]"
    proof (rule find_upt_skip)
      fix i assume i: "max lo ?base \<le> i" "i < max lo ((lo div WORD_BITS + (w + 1)) * WORD_BITS)" "i < hi"
      then have "i - ?base < WORD_BITS" "?base + (i - ?base) = i" by (auto simp: add_mult_distrib)
      then show "\<not> ?P i" using bits [of "i - ?base"] True i by auto
    qed (simp add: add_mult_distrib)
    ultimately show ?thesis using step True by simp
  qed
qed (simp add: find_upt_None)

text \<open>\<open>find_bit\<close> finds the first bit of the wanted kind in the range, and looks at no bit outside it.\<close>

lemma find_bit_correct:
  assumes ok: "bs_ok b" and "lo \<le> hi" "hi \<le> bs_bit_length b"
  shows "find_bit b lo hi kind = Some (find (kind_holds b kind) [lo..<hi])"
proof -
  let ?start = "lo div WORD_BITS" and ?stop = "(hi + WORD_BITS - 1) div WORD_BITS"
  have le: "?start \<le> ?stop" using assms(2) by (intro div_le_mono) (simp add: WORD_BITS_def)
  have "?stop \<le> length (bs_words b)" using ok assms(3) unfolding bs_ok_def by (simp add: div_le_mono diff_le_mono)
  then have slice: "slice_at (bs_words b) ?start (?stop - ?start) = Some (take (?stop - ?start) (drop ?start (bs_words b)))"
    using le by simp
  have ends: "?stop * WORD_BITS \<ge> hi" "?stop * WORD_BITS < hi + WORD_BITS" by (simp_all add: WORD_BITS_def)
  have "find_bit_words (kind = KindSet) lo hi 0 (take (?stop - ?start) (drop ?start (bs_words b)))
      = Some (find (\<lambda>i. bs_bit b i = (kind = KindSet)) [max lo ((?start + 0) * WORD_BITS)..<hi])"
    using le ends \<open>?stop \<le> length (bs_words b)\<close> by (intro find_bit_words_correct) auto
  moreover have "max lo ((?start + 0) * WORD_BITS) = lo" by (simp add: div_times_less_eq_dividend max_absorb1)
  moreover have "find (\<lambda>i. bs_bit b i = (kind = KindSet)) [lo..<hi] = find (kind_holds b kind) [lo..<hi]"
    by (rule find_cong [OF refl]) (use assms(3) in \<open>auto simp: kind_holds_def bs_members_def\<close>)
  ultimately show ?thesis using assms(2,3) le slice by (simp add: find_bit_def)
qed

end
