(* ===== verification/FreeSet.thy ===== *)
theory FreeSet
  imports BitSet Ewah
begin

text \<open>
  The free set of \<open>tigerbeetle-lsm/src/free_set.rs\<close>: which blocks of the grid are acquired, which of them are
  released and wait for a checkpoint, and the reservations that make concurrent acquisition
  deterministic. A block is an index from 0, an address is that index plus one. The outer option of an
  operation is the panic, the inner one the \<open>Option\<close> it returns.
\<close>

definition BLOCK_SIZE :: nat where "BLOCK_SIZE = 512 * 1024"
definition CACHE_LINE_SIZE :: nat where "CACHE_LINE_SIZE = 64"
definition SHARD_CACHE_LINES :: nat where "SHARD_CACHE_LINES = 8"
definition SHARD_BITS :: nat where "SHARD_BITS = SHARD_CACHE_LINES * CACHE_LINE_SIZE * 8"

record reservation =
  rv_block_base :: nat
  rv_block_count :: nat
  rv_session :: u64

record released_prior =
  rp_keys :: "nat list"
  rp_capacity :: nat

definition rp_new :: "nat \<Rightarrow> released_prior" where "rp_new capacity = \<lparr>rp_keys = [], rp_capacity = capacity\<rparr>"
definition rp_count :: "released_prior \<Rightarrow> nat" where "rp_count r = length (rp_keys r)"
definition rp_contains :: "released_prior \<Rightarrow> nat \<Rightarrow> bool" where "rp_contains r key \<longleftrightarrow> key \<in> set (rp_keys r)"

definition rp_put :: "released_prior \<Rightarrow> nat \<Rightarrow> released_prior option" where
  "rp_put r key =
     do { ensure (\<not> rp_contains r key);
          ensure (length (rp_keys r) < rp_capacity r);
          Some (r\<lparr>rp_keys := rp_keys r @ [key]\<rparr>) }"

definition rp_pop :: "released_prior \<Rightarrow> nat option \<times> released_prior" where
  "rp_pop r = (if rp_keys r = [] then (None, r) else (Some (last (rp_keys r)), r\<lparr>rp_keys := butlast (rp_keys r)\<rparr>))"

datatype reservation_state = Reserving | Forfeiting
datatype bitset_kind = BlocksAcquired | BlocksReleased

record free_set =
  fs_opened :: bool
  fs_checkpoint_durable :: bool
  fs_index :: bit_set
  fs_blocks_count_limit :: nat
  fs_blocks_acquired :: bit_set
  fs_blocks_released :: bit_set
  fs_released_prior :: released_prior
  fs_reservation_blocks :: nat
  fs_reservation_count :: nat
  fs_reservation_state :: reservation_state
  fs_reservation_session :: u64

definition block_count_max :: "nat \<Rightarrow> nat" where
  "block_count_max grid_size_limit =
     (let block_count_limit = grid_size_limit div BLOCK_SIZE
      in (block_count_limit + SHARD_BITS - 1) div SHARD_BITS * SHARD_BITS)"

definition block_count_for_trailer_size :: "nat \<Rightarrow> nat" where
  "block_count_for_trailer_size trailer_size = (trailer_size + BLOCK_SIZE - 1) div BLOCK_SIZE"

definition free_set_new :: "nat \<Rightarrow> nat \<Rightarrow> free_set option" where
  "free_set_new grid_size_limit prior_max =
     do { let blocks_count = block_count_max grid_size_limit;
          ensure (blocks_count mod SHARD_BITS = 0);
          ensure (blocks_count mod WORD_BITS = 0);
          let index = bs_new_empty (blocks_count div SHARD_BITS);
          let blocks = bs_new_empty blocks_count;
          let prior = rp_new (prior_max + 2 * block_count_for_trailer_size (encode_size_max (blocks_count div WORD_BITS)));
          ensure (bs_count index = 0);
          ensure (bs_count blocks = 0);
          ensure (bs_count blocks = 0);
          ensure (rp_count prior = 0);
          Some \<lparr>fs_opened = False, fs_checkpoint_durable = False, fs_index = index,
            fs_blocks_count_limit = grid_size_limit div BLOCK_SIZE, fs_blocks_acquired = blocks, fs_blocks_released = blocks,
            fs_released_prior = prior, fs_reservation_blocks = 0, fs_reservation_count = 0,
            fs_reservation_state = Reserving, fs_reservation_session = 1\<rparr> }"

definition free_set_reset :: "free_set \<Rightarrow> free_set option" where
  "free_set_reset fs =
     do { let fs = fs\<lparr>fs_index := bs_new_empty (bs_bit_length (fs_index fs)),
                fs_blocks_acquired := bs_new_empty (bs_bit_length (fs_blocks_acquired fs)),
                fs_blocks_released := bs_new_empty (bs_bit_length (fs_blocks_released fs)),
                fs_released_prior := (fs_released_prior fs)\<lparr>rp_keys := []\<rparr>,
                fs_opened := False, fs_checkpoint_durable := False, fs_reservation_blocks := 0, fs_reservation_count := 0,
                fs_reservation_state := Reserving, fs_reservation_session := fs_reservation_session fs + 1\<rparr>;
          ensure (bs_count (fs_index fs) = 0);
          ensure (bs_count (fs_blocks_acquired fs) = 0);
          ensure (bs_count (fs_blocks_released fs) = 0);
          ensure (rp_count (fs_released_prior fs) = 0);
          ensure (\<not> fs_opened fs);
          Some fs }"

section \<open>Shards\<close>

definition find_free_block_in_shard :: "free_set \<Rightarrow> nat \<Rightarrow> nat option option" where
  "find_free_block_in_shard fs shard =
     do { let shard_start = shard * SHARD_BITS;
          let shard_end = shard_start + SHARD_BITS;
          ensure (shard_start < bs_bit_length (fs_blocks_acquired fs));
          find_bit (fs_blocks_acquired fs) shard_start shard_end KindUnset }"

text \<open>\<open>Update the index when every block in the shard is acquired\<close>.\<close>

definition update_index :: "nat \<Rightarrow> free_set \<Rightarrow> free_set option" where
  "update_index shard fs =
     do { free_block \<leftarrow> find_free_block_in_shard fs shard;
          if free_block = None
          then do { index \<leftarrow> bs_set (fs_index fs) shard; Some (fs\<lparr>fs_index := index\<rparr>) }
          else Some fs }"

fun verify_index_from :: "free_set \<Rightarrow> nat list \<Rightarrow> unit option" where
  "verify_index_from fs [] = Some ()"
| "verify_index_from fs (shard # shards) =
     do { free_block \<leftarrow> find_free_block_in_shard fs shard;
          full \<leftarrow> bs_get (fs_index fs) shard;
          ensure ((free_block = None) = full);
          verify_index_from fs shards }"

definition verify_index :: "free_set \<Rightarrow> unit option" where
  "verify_index fs = verify_index_from fs [0..<bs_bit_length (fs_index fs)]"

section \<open>Counts and queries\<close>

definition count_reservations :: "free_set \<Rightarrow> nat option" where
  "count_reservations fs = do { ensure (fs_opened fs); Some (fs_reservation_count fs) }"

definition is_reserving :: "free_set \<Rightarrow> bool" where "is_reserving fs \<longleftrightarrow> fs_reservation_state fs = Reserving"

definition count_free :: "free_set \<Rightarrow> nat option" where
  "count_free fs = do { ensure (fs_opened fs); Some (bs_bit_length (fs_blocks_acquired fs) - bs_count (fs_blocks_acquired fs)) }"

definition count_acquired :: "free_set \<Rightarrow> nat option" where
  "count_acquired fs = do { ensure (fs_opened fs); Some (bs_count (fs_blocks_acquired fs)) }"

definition count_released :: "free_set \<Rightarrow> nat option" where
  "count_released fs = do { ensure (fs_opened fs); Some (bs_count (fs_blocks_released fs) + rp_count (fs_released_prior fs)) }"

definition highest_address_acquired :: "free_set \<Rightarrow> nat option option" where
  "highest_address_acquired fs =
     do { ensure (fs_opened fs);
          (block, _) \<leftarrow> bit_iter_next (bs_iter (fs_blocks_acquired fs) KindSet IterReverse);
          case block of Some block \<Rightarrow> Some (Some (block + 1))
          | None \<Rightarrow> do { ensure (bs_count (fs_blocks_acquired fs) = 0); Some None } }"

definition highest_address_released :: "free_set \<Rightarrow> nat option option" where
  "highest_address_released fs =
     do { ensure (fs_opened fs);
          (block, _) \<leftarrow> bit_iter_next (bs_iter (fs_blocks_released fs) KindSet IterReverse);
          case block of Some block \<Rightarrow> Some (Some (block + 1))
          | None \<Rightarrow> do { released \<leftarrow> count_released fs; ensure (released = 0); Some None } }"

definition is_free :: "free_set \<Rightarrow> nat \<Rightarrow> bool option" where
  "is_free fs address =
     (if fs_opened fs
      then do { ensure (address > 0); acquired \<leftarrow> bs_get (fs_blocks_acquired fs) (address - 1); Some (\<not> acquired) }
      else Some False)"

definition is_released :: "free_set \<Rightarrow> nat \<Rightarrow> bool option" where
  "is_released fs address =
     do { ensure (fs_opened fs);
          ensure (address > 0);
          if rp_contains (fs_released_prior fs) (address - 1) then Some True
          else bs_get (fs_blocks_released fs) (address - 1) }"

definition to_be_freed_at_checkpoint_durability :: "free_set \<Rightarrow> nat \<Rightarrow> bool option" where
  "to_be_freed_at_checkpoint_durability fs address =
     do { ensure (address > 0);
          let block = address - 1;
          ensure (fs_opened fs);
          ensure (\<not> fs_checkpoint_durable fs);
          acquired \<leftarrow> bs_get (fs_blocks_acquired fs) block;
          ensure acquired;
          released \<leftarrow> bs_get (fs_blocks_released fs) block;
          ensure (\<not> released \<or> \<not> rp_contains (fs_released_prior fs) block);
          bs_get (fs_blocks_released fs) block }"

section \<open>Reserve, acquire, forfeit\<close>

text \<open>The loop of \<open>reserve\<close>: the inner \<open>None\<close> is its early \<open>return None\<close>.\<close>

fun reserve_blocks :: "free_set \<Rightarrow> nat \<Rightarrow> nat \<Rightarrow> nat option option" where
  "reserve_blocks fs 0 block = Some (Some block)"
| "reserve_blocks fs (Suc n) block =
     do { found \<leftarrow> find_bit (fs_blocks_acquired fs) block (bs_bit_length (fs_blocks_acquired fs)) KindUnset;
          case found of None \<Rightarrow> Some None
          | Some found \<Rightarrow>
              (let block = found + 1
               in if block > fs_blocks_count_limit fs then Some None else reserve_blocks fs n block) }"

definition reserve :: "nat \<Rightarrow> free_set \<Rightarrow> (reservation option \<times> free_set) option" where
  "reserve reserve_count fs =
     do { ensure (fs_opened fs);
          ensure (fs_reservation_state fs = Reserving);
          ensure (reserve_count > 0);
          shard_start \<leftarrow> find_bit (fs_index fs) (fs_reservation_blocks fs div SHARD_BITS) (bs_bit_length (fs_index fs)) KindUnset;
          case shard_start of None \<Rightarrow> Some (None, fs)
          | Some shard_start \<Rightarrow>
            do { block \<leftarrow> reserve_blocks fs reserve_count (max (shard_start * SHARD_BITS) (fs_reservation_blocks fs));
                 case block of None \<Rightarrow> Some (None, fs)
                 | Some block \<Rightarrow>
                   do { let block_base = fs_reservation_blocks fs;
                        let block_count = block - fs_reservation_blocks fs;
                        Some (Some \<lparr>rv_block_base = block_base, rv_block_count = block_count, rv_session = fs_reservation_session fs\<rparr>,
                          fs\<lparr>fs_reservation_blocks := fs_reservation_blocks fs + block_count,
                             fs_reservation_count := fs_reservation_count fs + 1\<rparr>) } } }"

definition forfeit :: "reservation \<Rightarrow> free_set \<Rightarrow> free_set option" where
  "forfeit reservation fs =
     do { ensure (fs_opened fs);
          ensure (fs_reservation_session fs = rv_session reservation);
          ensure (fs_reservation_count fs > 0);
          let fs = fs\<lparr>fs_reservation_count := fs_reservation_count fs - 1\<rparr>;
          if fs_reservation_count fs = 0
          then Some (fs\<lparr>fs_reservation_blocks := 0, fs_reservation_session := fs_reservation_session fs + 1, fs_reservation_state := Reserving\<rparr>)
          else Some (fs\<lparr>fs_reservation_state := Forfeiting\<rparr>) }"

definition acquire :: "reservation \<Rightarrow> free_set \<Rightarrow> (nat option \<times> free_set) option" where
  "acquire reservation fs =
     do { ensure (fs_opened fs);
          ensure (fs_reservation_count fs > 0);
          ensure (rv_block_count reservation > 0);
          ensure (rv_block_base reservation < fs_reservation_blocks fs);
          ensure (rv_block_base reservation + rv_block_count reservation \<le> fs_reservation_blocks fs);
          ensure (rv_session reservation = fs_reservation_session fs);
          shard_start \<leftarrow> find_bit (fs_index fs) (rv_block_base reservation div SHARD_BITS)
            ((rv_block_base reservation + rv_block_count reservation + SHARD_BITS - 1) div SHARD_BITS) KindUnset;
          case shard_start of None \<Rightarrow> Some (None, fs)
          | Some shard_start \<Rightarrow>
            do { full \<leftarrow> bs_get (fs_index fs) shard_start;
                 ensure (\<not> full);
                 let reservation_start = max (shard_start * SHARD_BITS) (rv_block_base reservation);
                 let reservation_end = rv_block_base reservation + rv_block_count reservation;
                 block \<leftarrow> find_bit (fs_blocks_acquired fs) reservation_start reservation_end KindUnset;
                 case block of None \<Rightarrow> Some (None, fs)
                 | Some block \<Rightarrow>
                   do { ensure (block \<ge> rv_block_base reservation);
                        ensure (block \<le> rv_block_base reservation + rv_block_count reservation);
                        acquired \<leftarrow> bs_get (fs_blocks_acquired fs) block;
                        ensure (\<not> acquired);
                        released \<leftarrow> bs_get (fs_blocks_released fs) block;
                        ensure (\<not> released);
                        ensure (\<not> rp_contains (fs_released_prior fs) block);
                        let shard = block div SHARD_BITS;
                        ensure (shard \<ge> shard_start);
                        blocks_acquired \<leftarrow> bs_set (fs_blocks_acquired fs) block;
                        fs \<leftarrow> update_index shard (fs\<lparr>fs_blocks_acquired := blocks_acquired\<rparr>);
                        Some (Some (block + 1), fs) } } }"

section \<open>Release and checkpoints\<close>

definition release :: "nat \<Rightarrow> free_set \<Rightarrow> free_set option" where
  "release address fs =
     do { ensure (fs_opened fs);
          ensure (address > 0);
          let block = address - 1;
          acquired \<leftarrow> bs_get (fs_blocks_acquired fs) block;
          ensure acquired;
          released \<leftarrow> bs_get (fs_blocks_released fs) block;
          ensure (\<not> released);
          ensure (\<not> rp_contains (fs_released_prior fs) block);
          if fs_checkpoint_durable fs
          then do { blocks_released \<leftarrow> bs_set (fs_blocks_released fs) block; Some (fs\<lparr>fs_blocks_released := blocks_released\<rparr>) }
          else do { prior \<leftarrow> rp_put (fs_released_prior fs) block; Some (fs\<lparr>fs_released_prior := prior\<rparr>) } }"

fun mark_released_from :: "nat \<Rightarrow> nat list \<Rightarrow> free_set \<Rightarrow> free_set option" where
  "mark_released_from address_previous [] fs = Some fs"
| "mark_released_from address_previous (address # addresses) fs =
     do { ensure (address > 0);
          ensure (address > address_previous);
          let block = address - 1;
          acquired \<leftarrow> bs_get (fs_blocks_acquired fs) block;
          ensure (\<not> acquired);
          released \<leftarrow> bs_get (fs_blocks_released fs) block;
          ensure (\<not> released);
          ensure (\<not> rp_contains (fs_released_prior fs) block);
          blocks_acquired \<leftarrow> bs_set (fs_blocks_acquired fs) block;
          fs \<leftarrow> update_index (block div SHARD_BITS) (fs\<lparr>fs_blocks_acquired := blocks_acquired\<rparr>);
          prior \<leftarrow> rp_put (fs_released_prior fs) block;
          mark_released_from address addresses (fs\<lparr>fs_released_prior := prior\<rparr>) }"

definition mark_released :: "nat list \<Rightarrow> free_set \<Rightarrow> free_set option" where
  "mark_released addresses fs =
     do { ensure (\<not> fs_opened fs);
          ensure (\<not> fs_checkpoint_durable fs);
          mark_released_from 0 addresses fs }"

definition free_block :: "nat \<Rightarrow> free_set \<Rightarrow> free_set option" where
  "free_block address fs =
     do { ensure (fs_opened fs);
          ensure (fs_checkpoint_durable fs);
          ensure (address > 0);
          let block = address - 1;
          acquired \<leftarrow> bs_get (fs_blocks_acquired fs) block;
          ensure acquired;
          released \<leftarrow> bs_get (fs_blocks_released fs) block;
          ensure released;
          ensure (\<not> rp_contains (fs_released_prior fs) block);
          ensure (fs_reservation_count fs = 0);
          ensure (fs_reservation_blocks fs = 0);
          index \<leftarrow> bs_unset (fs_index fs) (block div SHARD_BITS);
          blocks_acquired \<leftarrow> bs_unset (fs_blocks_acquired fs) block;
          blocks_released \<leftarrow> bs_unset (fs_blocks_released fs) block;
          Some (fs\<lparr>fs_index := index, fs_blocks_acquired := blocks_acquired, fs_blocks_released := blocks_released\<rparr>) }"

fun free_blocks :: "nat list \<Rightarrow> free_set \<Rightarrow> free_set option" where
  "free_blocks [] fs = Some fs"
| "free_blocks (address # addresses) fs = do { fs \<leftarrow> free_block address fs; free_blocks addresses fs }"

definition mark_checkpoint_not_durable :: "free_set \<Rightarrow> free_set option" where
  "mark_checkpoint_not_durable fs =
     do { ensure (fs_opened fs);
          ensure (fs_checkpoint_durable fs);
          ensure (rp_count (fs_released_prior fs) = 0);
          Some (fs\<lparr>fs_checkpoint_durable := False\<rparr>) }"

text \<open>The \<open>while let Some(block) = ..pop()\<close> loop.\<close>

function move_prior :: "free_set \<Rightarrow> free_set option" where
  "move_prior fs =
     (case rp_pop (fs_released_prior fs) of
        (None, prior) \<Rightarrow> Some (fs\<lparr>fs_released_prior := prior\<rparr>)
      | (Some block, prior) \<Rightarrow>
          do { blocks_released \<leftarrow> bs_set (fs_blocks_released fs) block;
               move_prior (fs\<lparr>fs_released_prior := prior, fs_blocks_released := blocks_released\<rparr>) })"
  by pat_completeness auto
termination
  by (relation "measure (\<lambda>fs. length (rp_keys (fs_released_prior fs)))") (auto simp: rp_pop_def split: if_splits)

declare move_prior.simps [simp del]

definition mark_checkpoint_durable :: "free_set \<Rightarrow> free_set option" where
  "mark_checkpoint_durable fs =
     do { ensure (fs_opened fs);
          ensure (\<not> fs_checkpoint_durable fs);
          let fs = fs\<lparr>fs_checkpoint_durable := True\<rparr>;
          released \<leftarrow> bit_iter_collect (bs_iter (fs_blocks_released fs) KindSet IterForward);
          fs \<leftarrow> free_blocks (map (\<lambda>block. block + 1) released) fs;
          ensure (bs_count (fs_blocks_released fs) = 0);
          fs \<leftarrow> move_prior fs;
          ensure (rp_count (fs_released_prior fs) = 0);
          verify_index fs;
          Some fs }"

section \<open>Trailers\<close>

definition fs_encode_size_max :: "free_set \<Rightarrow> nat option" where
  "fs_encode_size_max fs =
     do { ensure (bs_bit_length (fs_blocks_acquired fs) = bs_bit_length (fs_blocks_released fs));
          let blocks_count = bs_bit_length (fs_blocks_acquired fs);
          ensure (blocks_count mod SHARD_BITS = 0);
          ensure (blocks_count mod WORD_BITS = 0);
          Some (encode_size_max (blocks_count div WORD_BITS)) }"

definition bitset_of :: "bitset_kind \<Rightarrow> free_set \<Rightarrow> bit_set" where
  "bitset_of kind fs = (case kind of BlocksAcquired \<Rightarrow> fs_blocks_acquired fs | BlocksReleased \<Rightarrow> fs_blocks_released fs)"

definition bitset_put :: "bitset_kind \<Rightarrow> u64 list \<Rightarrow> free_set \<Rightarrow> free_set" where
  "bitset_put kind words fs =
     (case kind of BlocksAcquired \<Rightarrow> fs\<lparr>fs_blocks_acquired := (fs_blocks_acquired fs)\<lparr>bs_words := words\<rparr>\<rparr>
      | BlocksReleased \<Rightarrow> fs\<lparr>fs_blocks_released := (fs_blocks_released fs)\<lparr>bs_words := words\<rparr>\<rparr>)"

fun decode_each :: "u8 list list \<Rightarrow> nat \<Rightarrow> decoder \<Rightarrow> (nat \<times> decoder) option" where
  "decode_each [] words_decoded d = Some (words_decoded, d)"
| "decode_each (chunk # chunks) words_decoded d =
     do { (decoded, d) \<leftarrow> decode_chunk chunk d; decode_each chunks (words_decoded + decoded) d }"

definition fs_decode :: "bitset_kind \<Rightarrow> u8 list list \<Rightarrow> free_set \<Rightarrow> free_set option" where
  "fs_decode kind source_chunks fs =
     do { ensure (\<not> fs_opened fs);
          ensure (\<not> fs_checkpoint_durable fs);
          let source_size = sum_list (map length source_chunks);
          let bitset_len = bs_bit_length (bitset_of kind fs);
          (words_decoded, d) \<leftarrow> decode_each source_chunks 0 (decoder_new (bs_words (bitset_of kind fs)) source_size);
          finished \<leftarrow> decoder_done d;
          ensure finished;
          ensure (words_decoded * WORD_BITS \<le> bitset_len);
          ensure (words_decoded \<le> length (de_target_words d));
          ensure (list_all (\<lambda>word. word = 0) (drop words_decoded (de_target_words d)));
          Some (bitset_put kind (de_target_words d) fs) }"

fun index_shards :: "nat list \<Rightarrow> free_set \<Rightarrow> free_set option" where
  "index_shards [] fs = Some fs"
| "index_shards (shard # shards) fs = do { fs \<leftarrow> update_index shard fs; index_shards shards fs }"

definition fs_decode_chunks :: "u8 list list \<Rightarrow> u8 list list \<Rightarrow> free_set \<Rightarrow> free_set option" where
  "fs_decode_chunks source_chunks_blocks_acquired source_chunks_blocks_released fs =
     do { ensure (\<not> fs_opened fs);
          ensure (\<not> fs_checkpoint_durable fs);
          ensure (bs_count (fs_index fs) = 0);
          ensure (bs_count (fs_blocks_acquired fs) = 0);
          ensure (bs_count (fs_blocks_released fs) = 0);
          ensure (rp_count (fs_released_prior fs) = 0);
          ensure (fs_reservation_count fs = 0);
          ensure (fs_reservation_blocks fs = 0);
          fs \<leftarrow> fs_decode BlocksAcquired source_chunks_blocks_acquired fs;
          fs \<leftarrow> fs_decode BlocksReleased source_chunks_blocks_released fs;
          fs \<leftarrow> index_shards [0..<bs_bit_length (fs_index fs)] fs;
          verify_index fs;
          Some fs }"

definition free_set_open :: "u8 list list \<Rightarrow> u8 list list \<Rightarrow> nat list \<Rightarrow> nat list \<Rightarrow> free_set \<Rightarrow> free_set option" where
  "free_set_open encoded_blocks_acquired encoded_blocks_released addresses_acquired addresses_released fs =
     do { ensure (\<not> fs_opened fs);
          let encoded_empty = (encoded_blocks_acquired = [] \<and> encoded_blocks_released = []);
          let addresses_empty = (addresses_acquired = [] \<and> addresses_released = []);
          ensure (encoded_empty = addresses_empty);
          fs \<leftarrow> fs_decode BlocksAcquired encoded_blocks_acquired fs;
          fs \<leftarrow> fs_decode BlocksReleased encoded_blocks_released fs;
          fs \<leftarrow> mark_released addresses_acquired fs;
          fs \<leftarrow> mark_released addresses_released fs;
          Some (fs\<lparr>fs_opened := True\<rparr>) }"

definition free_set_init_empty :: "nat \<Rightarrow> free_set option" where
  "free_set_init_empty blocks_count = free_set_new (blocks_count * BLOCK_SIZE) 0"

definition free_set_open_empty :: "nat \<Rightarrow> free_set option" where
  "free_set_open_empty blocks_count =
     do { fs \<leftarrow> free_set_init_empty blocks_count;
          fs \<leftarrow> free_set_open [] [] [] [] fs;
          let fs = fs\<lparr>fs_checkpoint_durable := True\<rparr>;
          free \<leftarrow> count_free fs;
          ensure (free = blocks_count);
          released \<leftarrow> count_released fs;
          ensure (released = 0);
          Some fs }"

text \<open>Encoding into target chunks of the given sizes: the bytes written to each, their total and the encoder; stops at the
  chunk that completes it.\<close>

fun encode_each :: "nat list \<Rightarrow> encoder \<Rightarrow> (u8 list list \<times> nat \<times> encoder) option" where
  "encode_each [] e = None"
| "encode_each (chunk # chunks) e =
     do { (target, bytes_encoded, e) \<leftarrow> encode_chunk chunk e;
          ensure (bytes_encoded > 0);
          if encoder_done e then Some ([take bytes_encoded target], bytes_encoded, e)
          else do { (targets, total, e) \<leftarrow> encode_each chunks e; Some (take bytes_encoded target # targets, bytes_encoded + total, e) } }"

definition encode_one :: "bitset_kind \<Rightarrow> nat list \<Rightarrow> free_set \<Rightarrow> (u8 list list \<times> nat) option" where
  "encode_one kind target_chunks fs =
     do { ensure (fs_opened fs);
          ensure (fs_checkpoint_durable fs);
          (targets, bytes_encoded_total, e) \<leftarrow> encode_each target_chunks (encoder_new (bs_words (bitset_of kind fs)));
          let bytes_trailing_zero_runs = en_trailing_zero_runs_count e * 8;
          ensure (bytes_trailing_zero_runs \<le> bytes_encoded_total);
          Some (targets, bytes_encoded_total - bytes_trailing_zero_runs) }"

definition fs_encode_chunks :: "nat list \<Rightarrow> nat list \<Rightarrow> free_set \<Rightarrow> ((u8 list list \<times> nat) \<times> (u8 list list \<times> nat)) option" where
  "fs_encode_chunks target_chunks_blocks_acquired target_chunks_blocks_released fs =
     do { ensure (fs_opened fs);
          ensure (fs_checkpoint_durable fs);
          ensure (fs_reservation_count fs = 0);
          ensure (fs_reservation_blocks fs = 0);
          acquired \<leftarrow> encode_one BlocksAcquired target_chunks_blocks_acquired fs;
          released \<leftarrow> encode_one BlocksReleased target_chunks_blocks_released fs;
          Some (acquired, released) }"

end
