(* ===== verification/FreeSetProps.thy ===== *)
theory FreeSetProps
  imports FreeSet
begin

text \<open>
  What the free set promises: exact specifications of its operations over the sets of acquired and released
  blocks, the invariant they keep with any interleaving of reservations, and what a checkpoint frees.
\<close>

section \<open>The invariant\<close>

abbreviation acquired_blocks :: "free_set \<Rightarrow> nat set" where "acquired_blocks fs \<equiv> bs_members (fs_blocks_acquired fs)"
abbreviation released_blocks :: "free_set \<Rightarrow> nat set" where "released_blocks fs \<equiv> bs_members (fs_blocks_released fs)"
abbreviation prior_blocks :: "free_set \<Rightarrow> nat set" where "prior_blocks fs \<equiv> set (rp_keys (fs_released_prior fs))"
abbreviation block_total :: "free_set \<Rightarrow> nat" where "block_total fs \<equiv> bs_bit_length (fs_blocks_acquired fs)"

definition shard_blocks :: "nat \<Rightarrow> nat set" where
  "shard_blocks shard = {shard * SHARD_BITS..<(shard + 1) * SHARD_BITS}"

definition fs_shape :: "free_set \<Rightarrow> bool" where
  "fs_shape fs \<longleftrightarrow> bs_ok (fs_index fs) \<and> bs_ok (fs_blocks_acquired fs) \<and> bs_ok (fs_blocks_released fs) \<and>
     block_total fs = bs_bit_length (fs_index fs) * SHARD_BITS \<and> bs_bit_length (fs_blocks_released fs) = block_total fs"

definition index_ok :: "free_set \<Rightarrow> bool" where
  "index_ok fs \<longleftrightarrow> (\<forall>shard < bs_bit_length (fs_index fs). shard \<in> bs_members (fs_index fs) \<longleftrightarrow> shard_blocks shard \<subseteq> acquired_blocks fs)"

definition blocks_ok :: "free_set \<Rightarrow> bool" where
  "blocks_ok fs \<longleftrightarrow> released_blocks fs \<subseteq> acquired_blocks fs \<and> prior_blocks fs \<subseteq> acquired_blocks fs \<and>
     released_blocks fs \<inter> prior_blocks fs = {} \<and> distinct (rp_keys (fs_released_prior fs)) \<and>
     length (rp_keys (fs_released_prior fs)) \<le> rp_capacity (fs_released_prior fs)"

definition fs_inv :: "free_set \<Rightarrow> bool" where
  "fs_inv fs \<longleftrightarrow> fs_opened fs \<and> fs_shape fs \<and> index_ok fs \<and> blocks_ok fs \<and>
     (fs_checkpoint_durable fs \<longrightarrow> rp_keys (fs_released_prior fs) = [])"

definition free_in :: "free_set \<Rightarrow> nat \<Rightarrow> nat \<Rightarrow> nat list" where
  "free_in fs lo hi = filter (\<lambda>block. block \<notin> acquired_blocks fs) [lo..<hi]"

lemma SHARD_BITS_pos [simp]: "0 < SHARD_BITS" by (simp add: SHARD_BITS_def SHARD_CACHE_LINES_def CACHE_LINE_SIZE_def)

lemma in_shard_blocks: "block \<in> shard_blocks shard \<longleftrightarrow> block div SHARD_BITS = shard"
proof -
  have "block div SHARD_BITS = shard \<longleftrightarrow> shard * SHARD_BITS \<le> block \<and> block < (shard + 1) * SHARD_BITS"
    by (metis SHARD_BITS_pos Suc_eq_plus1 div_nat_eqI dividend_less_times_div div_times_less_eq_dividend mult.commute times_div_less_eq_dividend mult_Suc add.commute)
  then show ?thesis by (auto simp: shard_blocks_def)
qed

lemma shard_of_block: "fs_shape fs \<Longrightarrow> block < block_total fs \<Longrightarrow> block div SHARD_BITS < bs_bit_length (fs_index fs)"
  by (simp add: fs_shape_def less_mult_imp_div_less)

lemma shard_end: "fs_shape fs \<Longrightarrow> shard < bs_bit_length (fs_index fs) \<Longrightarrow> (shard + 1) * SHARD_BITS \<le> block_total fs"
  unfolding fs_shape_def by (metis Suc_eq_plus1 Suc_leI mult_le_mono1)

lemma find_unset: "bs_ok b \<Longrightarrow> lo \<le> hi \<Longrightarrow> hi \<le> bs_bit_length b \<Longrightarrow>
    find_bit b lo hi KindUnset = Some (find (\<lambda>i. i \<notin> bs_members b) [lo..<hi])"
proof -
  have "kind_holds b KindUnset = (\<lambda>i. i \<notin> bs_members b)" by (simp add: kind_holds_def fun_eq_iff)
  then show "bs_ok b \<Longrightarrow> lo \<le> hi \<Longrightarrow> hi \<le> bs_bit_length b \<Longrightarrow> ?thesis" by (simp add: find_bit_correct)
qed

lemma find_filter: "find P xs = (case filter P xs of [] \<Rightarrow> None | x # _ \<Rightarrow> Some x)"
  by (induction xs) auto

lemma find_free_block_in_shard_correct:
  assumes "fs_shape fs" "shard < bs_bit_length (fs_index fs)"
  shows "\<exists>r. find_free_block_in_shard fs shard = Some r \<and> (r = None \<longleftrightarrow> shard_blocks shard \<subseteq> acquired_blocks fs)"
proof -
  have le: "shard * SHARD_BITS + SHARD_BITS \<le> block_total fs" using shard_end [OF assms] by (simp add: add_mult_distrib add.commute)
  then have "shard * SHARD_BITS < block_total fs" using SHARD_BITS_pos by linarith
  then have "find_free_block_in_shard fs shard =
      Some (find (\<lambda>i. i \<notin> acquired_blocks fs) [shard * SHARD_BITS..<shard * SHARD_BITS + SHARD_BITS])"
    using assms(1) le by (simp add: find_free_block_in_shard_def find_unset fs_shape_def Let_def)
  then show ?thesis by (auto simp: find_upt_None shard_blocks_def subset_iff add.commute)
qed

lemma update_index_correct:
  assumes "fs_shape fs" "shard < bs_bit_length (fs_index fs)"
  obtains index where "update_index shard fs = Some (fs\<lparr>fs_index := index\<rparr>)" "bs_ok index" "bs_bit_length index = bs_bit_length (fs_index fs)"
    "bs_members index = bs_members (fs_index fs) \<union> {s. s = shard \<and> shard_blocks shard \<subseteq> acquired_blocks fs}"
proof (cases "shard_blocks shard \<subseteq> acquired_blocks fs")
  case True
  have ok: "bs_ok (fs_index fs)" using assms(1) by (simp add: fs_shape_def)
  obtain index where "bs_set (fs_index fs) shard = Some index" "bs_ok index" "bs_bit_length index = bs_bit_length (fs_index fs)"
    "bs_members index = insert shard (bs_members (fs_index fs))"
    by (rule bs_set_correct [OF ok assms(2)])
  then show ?thesis using that find_free_block_in_shard_correct [OF assms] True by (fastforce simp: update_index_def)
next
  case False
  have "fs\<lparr>fs_index := fs_index fs\<rparr> = fs" by simp
  then show ?thesis using that [of "fs_index fs"] find_free_block_in_shard_correct [OF assms] False assms(1)
    by (auto simp: update_index_def fs_shape_def)
qed

lemma verify_index_correct:
  assumes "fs_shape fs"
  shows "verify_index fs = (if index_ok fs then Some () else None)"
proof -
  have "verify_index_from fs shards = (if \<forall>s \<in> set shards. s \<in> bs_members (fs_index fs) \<longleftrightarrow> shard_blocks s \<subseteq> acquired_blocks fs then Some () else None)"
    if "\<forall>s \<in> set shards. s < bs_bit_length (fs_index fs)" for shards
    using that
  proof (induction shards)
    case (Cons s shards)
    then obtain r where "find_free_block_in_shard fs s = Some r" "r = None \<longleftrightarrow> shard_blocks s \<subseteq> acquired_blocks fs"
      using find_free_block_in_shard_correct [OF assms, of s] by auto
    then show ?case using Cons assms by (auto simp: fs_shape_def ensure_def)
  qed simp
  from this [of "[0..<bs_bit_length (fs_index fs)]"] show ?thesis by (auto simp: verify_index_def index_ok_def)
qed

section \<open>Reserve\<close>

lemma free_in_skip: "lo \<le> lo' \<Longrightarrow> (\<And>b. lo \<le> b \<Longrightarrow> b < lo' \<Longrightarrow> b < hi \<Longrightarrow> b \<in> acquired_blocks fs) \<Longrightarrow> free_in fs lo hi = free_in fs lo' hi"
proof -
  assume le: "lo \<le> lo'" and acq: "\<And>b. lo \<le> b \<Longrightarrow> b < lo' \<Longrightarrow> b < hi \<Longrightarrow> b \<in> acquired_blocks fs"
  show ?thesis
  proof (cases "lo' \<le> hi")
    case True
    have "[lo..<hi] = [lo..<lo'] @ [lo'..<hi]" using le True by (metis le_add_diff_inverse upt_add_eq_append)
    then show ?thesis using acq True by (auto simp: free_in_def)
  next
    case False
    then show ?thesis using acq by (auto simp: free_in_def)
  qed
qed

text \<open>Blocks of the shards the index passes over are all acquired.\<close>

lemma index_skip:
  assumes "fs_shape fs" "index_ok fs" "lo div SHARD_BITS \<le> shard" "\<And>s. lo div SHARD_BITS \<le> s \<Longrightarrow> s < shard \<Longrightarrow> s \<in> bs_members (fs_index fs)"
    "lo \<le> block" "block < shard * SHARD_BITS"
  shows "block \<in> acquired_blocks fs"
proof -
  let ?s = "block div SHARD_BITS"
  have "lo div SHARD_BITS \<le> ?s" using assms(5) by (rule div_le_mono)
  moreover have "?s < shard" using assms(6) by (simp add: less_mult_imp_div_less)
  ultimately have "?s \<in> bs_members (fs_index fs)" using assms(4) by simp
  then have "shard_blocks ?s \<subseteq> acquired_blocks fs" using assms(2) bs_members_bounded unfolding index_ok_def by blast
  then show ?thesis using in_shard_blocks by blast
qed

lemma filter_nth_Suc: "filter P [lo..<hi] = x # xs \<Longrightarrow> xs = filter P [x + 1..<hi]"
proof -
  assume "filter P [lo..<hi] = x # xs"
  then obtain us vs where "[lo..<hi] = us @ x # vs" "xs = filter P vs" unfolding filter_eq_Cons_iff by blast
  then show ?thesis using upt_split by blast
qed

lemma reserve_blocks_correct:
  assumes "fs_shape fs" "p \<le> block_total fs"
  shows "reserve_blocks fs n p =
    Some (let free = free_in fs p (block_total fs)
          in if n \<le> length free \<and> (\<forall>i < n. free ! i < fs_blocks_count_limit fs) then Some (if n = 0 then p else free ! (n - 1) + 1) else None)"
  using assms(2)
proof (induction n arbitrary: p)
  case (Suc n)
  let ?free = "free_in fs p (block_total fs)"
  have find: "find_bit (fs_blocks_acquired fs) p (block_total fs) KindUnset = Some (case ?free of [] \<Rightarrow> None | x # _ \<Rightarrow> Some x)"
    using assms(1) Suc.prems by (simp add: find_unset fs_shape_def find_filter free_in_def)
  show ?case
  proof (cases ?free)
    case (Cons x xs)
    then have "x \<in> set ?free" by simp
    then have x: "x < block_total fs" by (simp add: free_in_def)
    have xs: "free_in fs (Suc x) (block_total fs) = xs" using filter_nth_Suc Cons unfolding free_in_def by (metis Suc_eq_plus1)
    have "reserve_blocks fs n (x + 1) = Some (if n \<le> length xs \<and> (\<forall>i < n. xs ! i < fs_blocks_count_limit fs) then Some (if n = 0 then x + 1 else xs ! (n - 1) + 1) else None)"
      using Suc.IH [of "x + 1"] x by (simp add: xs Let_def)
    then show ?thesis using find Cons by (cases n) (auto simp: Let_def All_less_Suc2 nth_Cons')
  qed (simp add: find)
qed simp

lemma free_in_sorted: "sorted (free_in fs lo hi)"
  by (simp add: free_in_def sorted_wrt_filter)

lemma free_in_bounds: "b \<in> set (free_in fs lo hi) \<longleftrightarrow> lo \<le> b \<and> b < hi \<and> b \<notin> acquired_blocks fs"
  by (auto simp: free_in_def)

text \<open>The reservation \<open>reserve\<close> decides on.\<close>

definition reservation_of :: "nat \<Rightarrow> free_set \<Rightarrow> reservation option" where
  "reservation_of n fs =
     (let free = free_in fs (fs_reservation_blocks fs) (block_total fs)
      in if n \<le> length free \<and> free ! (n - 1) < fs_blocks_count_limit fs
         then Some \<lparr>rv_block_base = fs_reservation_blocks fs, rv_block_count = free ! (n - 1) + 1 - fs_reservation_blocks fs,
                rv_session = fs_reservation_session fs\<rparr>
         else None)"

lemma reserve_correct:
  assumes inv: "fs_inv fs" and state: "fs_reservation_state fs = Reserving" "0 < n" and res: "fs_reservation_blocks fs \<le> block_total fs"
  shows "reserve n fs = Some (case reservation_of n fs of None \<Rightarrow> (None, fs)
    | Some r \<Rightarrow> (Some r, fs\<lparr>fs_reservation_blocks := rv_block_base r + rv_block_count r, fs_reservation_count := fs_reservation_count fs + 1\<rparr>))"
proof -
  let ?lo = "fs_reservation_blocks fs" and ?shards = "bs_bit_length (fs_index fs)"
  have shape: "fs_shape fs" and index: "index_ok fs" and opened: "fs_opened fs" using inv by (simp_all add: fs_inv_def)
  have total: "block_total fs = ?shards * SHARD_BITS" using shape by (simp add: fs_shape_def)
  have lo: "?lo div SHARD_BITS \<le> ?shards" using res unfolding total by (metis SHARD_BITS_pos div_le_mono div_mult_self_is_m)
  have find: "find_bit (fs_index fs) (?lo div SHARD_BITS) ?shards KindUnset = Some (find (\<lambda>s. s \<notin> bs_members (fs_index fs)) [?lo div SHARD_BITS..<?shards])"
    using shape lo by (simp add: find_unset fs_shape_def)
  show ?thesis
  proof (cases "find (\<lambda>s. s \<notin> bs_members (fs_index fs)) [?lo div SHARD_BITS..<?shards]")
    case None
    then have "free_in fs ?lo (block_total fs) = []"
      using index_skip [OF shape index lo] total by (auto simp: free_in_def find_upt_None filter_empty_conv)
    then show ?thesis using find None opened state by (simp add: reserve_def reservation_of_def)
  next
    case (Some shard)
    then have shard: "?lo div SHARD_BITS \<le> shard" "shard < ?shards" "\<And>s. ?lo div SHARD_BITS \<le> s \<Longrightarrow> s < shard \<Longrightarrow> s \<in> bs_members (fs_index fs)"
      unfolding find_upt_Some by auto
    define p where "p = max (shard * SHARD_BITS) ?lo"
    have "shard * SHARD_BITS \<le> block_total fs" unfolding total using shard(2) by simp
    then have p: "p \<le> block_total fs" using res by (simp add: p_def)
    define free where "free = free_in fs ?lo (block_total fs)"
    have same: "free_in fs p (block_total fs) = free"
      unfolding free_def by (rule free_in_skip [symmetric]) (use index_skip [OF shape index shard(1) shard(3)] in \<open>auto simp: p_def\<close>)
    have limit: "(\<forall>i < n. free ! i < fs_blocks_count_limit fs) \<longleftrightarrow> free ! (n - 1) < fs_blocks_count_limit fs" if "n \<le> length free"
    proof -
      have "free ! i \<le> free ! (n - 1)" if "i < n" for i
        using that \<open>n \<le> length free\<close> free_in_sorted unfolding free_def by (intro sorted_nth_mono) auto
      then show ?thesis using state(2) by (meson diff_less le_less_trans less_one)
    qed
    have blocks: "reserve_blocks fs n p = Some (if n \<le> length free \<and> free ! (n - 1) < fs_blocks_count_limit fs then Some (free ! (n - 1) + 1) else None)"
      using reserve_blocks_correct [OF shape p, of n] limit state(2) by (auto simp: same Let_def)
    have "?lo \<le> free ! (n - 1)" if "n \<le> length free"
      using that state(2) free_in_bounds [of "free ! (n - 1)" fs ?lo "block_total fs"] nth_mem [of "n - 1" free] by (simp add: free_def)
    then show ?thesis using find Some opened state blocks
      by (auto simp: reserve_def reservation_of_def p_def [symmetric] free_def [symmetric] Let_def)
  qed
qed

section \<open>Acquire\<close>

lemma take_block:
  assumes shape: "fs_shape fs" and index: "index_ok fs" and b: "b < block_total fs"
  obtains acq idx where "bs_set (fs_blocks_acquired fs) b = Some acq"
    "update_index (b div SHARD_BITS) (fs\<lparr>fs_blocks_acquired := acq\<rparr>) = Some (fs\<lparr>fs_blocks_acquired := acq, fs_index := idx\<rparr>)"
    "fs_shape (fs\<lparr>fs_blocks_acquired := acq, fs_index := idx\<rparr>)" "index_ok (fs\<lparr>fs_blocks_acquired := acq, fs_index := idx\<rparr>)"
    "bs_members acq = insert b (acquired_blocks fs)"
proof -
  have ok: "bs_ok (fs_blocks_acquired fs)" using shape by (simp add: fs_shape_def)
  obtain acq where acq: "bs_set (fs_blocks_acquired fs) b = Some acq" "bs_ok acq" "bs_bit_length acq = block_total fs"
    "bs_members acq = insert b (acquired_blocks fs)" by (rule bs_set_correct [OF ok b])
  let ?fs = "fs\<lparr>fs_blocks_acquired := acq\<rparr>"
  have shape1: "fs_shape ?fs" using shape acq by (simp add: fs_shape_def)
  have shard: "b div SHARD_BITS < bs_bit_length (fs_index ?fs)" using shard_of_block [OF shape b] by simp
  obtain idx where idx: "update_index (b div SHARD_BITS) ?fs = Some (?fs\<lparr>fs_index := idx\<rparr>)" "bs_ok idx"
    "bs_bit_length idx = bs_bit_length (fs_index ?fs)"
    "bs_members idx = bs_members (fs_index ?fs) \<union> {s. s = b div SHARD_BITS \<and> shard_blocks (b div SHARD_BITS) \<subseteq> acquired_blocks ?fs}"
    by (rule update_index_correct [OF shape1 shard])
  have "index_ok (?fs\<lparr>fs_index := idx\<rparr>)"
    unfolding index_ok_def
  proof (intro allI impI)
    fix s assume s: "s < bs_bit_length (fs_index (?fs\<lparr>fs_index := idx\<rparr>))"
    have "shard_blocks s \<subseteq> insert b (acquired_blocks fs) \<longleftrightarrow> shard_blocks s \<subseteq> acquired_blocks fs" if "s \<noteq> b div SHARD_BITS"
      using that in_shard_blocks by blast
    then show "s \<in> bs_members (fs_index (?fs\<lparr>fs_index := idx\<rparr>)) \<longleftrightarrow> shard_blocks s \<subseteq> acquired_blocks (?fs\<lparr>fs_index := idx\<rparr>)"
      using index s idx acq(4) unfolding index_ok_def by (cases "s = b div SHARD_BITS") auto
  qed
  moreover have "fs_shape (?fs\<lparr>fs_index := idx\<rparr>)" using shape1 idx by (simp add: fs_shape_def)
  ultimately show ?thesis using that acq idx by simp
qed

text \<open>What \<open>acquire\<close> asserts of a reservation.\<close>

definition reservation_ok :: "reservation \<Rightarrow> free_set \<Rightarrow> bool" where
  "reservation_ok r fs \<longleftrightarrow> 0 < rv_block_count r \<and> rv_block_base r + rv_block_count r \<le> fs_reservation_blocks fs \<and>
     fs_reservation_blocks fs \<le> block_total fs \<and> rv_session r = fs_reservation_session fs \<and> 0 < fs_reservation_count fs"

definition free_of :: "reservation \<Rightarrow> free_set \<Rightarrow> nat list" where
  "free_of r fs = free_in fs (rv_block_base r) (rv_block_base r + rv_block_count r)"

lemma ceil_div:
  assumes "0 < (d :: nat)"
  shows "n \<le> (n + d - 1) div d * d" "n \<le> m * d \<Longrightarrow> (n + d - 1) div d \<le> m" "s < (n + d - 1) div d \<Longrightarrow> s * d < n"
proof -
  let ?q = "(n + d - 1) div d"
  have eq: "n + d - 1 = ?q * d + (n + d - 1) mod d" and less: "(n + d - 1) mod d < d" using assms by simp_all
  show "n \<le> ?q * d" using eq less by linarith
  have mult: "i < j \<Longrightarrow> i * d + d \<le> j * d" for i j by (metis Suc_leI add.commute mult_Suc mult_le_mono1)
  show "?q \<le> m" if "n \<le> m * d"
  proof (rule ccontr)
    assume "\<not> ?q \<le> m"
    then have "m * d + d \<le> ?q * d" by (intro mult) simp
    then show False using eq that assms by linarith
  qed
  show "s * d < n" if "s < ?q" using mult [OF that] eq assms by linarith
qed

lemma acquire_correct:
  assumes inv: "fs_inv fs" and r: "reservation_ok r fs"
  shows "case free_of r fs of [] \<Rightarrow> acquire r fs = Some (None, fs)
    | b # _ \<Rightarrow> \<exists>acq idx. acquire r fs = Some (Some (b + 1), fs\<lparr>fs_blocks_acquired := acq, fs_index := idx\<rparr>) \<and>
        bs_members acq = insert b (acquired_blocks fs) \<and> fs_inv (fs\<lparr>fs_blocks_acquired := acq, fs_index := idx\<rparr>)"
proof -
  let ?lo = "rv_block_base r" and ?hi = "rv_block_base r + rv_block_count r"
  let ?stop = "(?hi + SHARD_BITS - 1) div SHARD_BITS"
  have shape: "fs_shape fs" and index: "index_ok fs" and opened: "fs_opened fs" and blocks: "blocks_ok fs" using inv by (simp_all add: fs_inv_def)
  have total: "block_total fs = bs_bit_length (fs_index fs) * SHARD_BITS" using shape by (simp add: fs_shape_def)
  have range: "?lo < ?hi" "?hi \<le> block_total fs" using r by (simp_all add: reservation_ok_def)
  have ends: "?stop \<le> bs_bit_length (fs_index fs)" using range total by (intro ceil_div(2)) simp_all
  have lo: "?lo div SHARD_BITS \<le> ?stop" by (rule div_le_mono) (use SHARD_BITS_pos range in linarith)
  have find: "find_bit (fs_index fs) (?lo div SHARD_BITS) ?stop KindUnset = Some (find (\<lambda>s. s \<notin> bs_members (fs_index fs)) [?lo div SHARD_BITS..<?stop])"
    using shape lo ends by (simp add: find_unset fs_shape_def)
  have asserts: "ensure (fs_opened fs) = Some ()" "ensure (fs_reservation_count fs > 0) = Some ()" "ensure (rv_block_count r > 0) = Some ()"
    "ensure (?lo < fs_reservation_blocks fs) = Some ()" "ensure (?hi \<le> fs_reservation_blocks fs) = Some ()"
    "ensure (rv_session r = fs_reservation_session fs) = Some ()" using r opened by (auto simp: reservation_ok_def ensure_def)
  show ?thesis
  proof (cases "find (\<lambda>s. s \<notin> bs_members (fs_index fs)) [?lo div SHARD_BITS..<?stop]")
    case None
    then have "b \<in> acquired_blocks fs" if "?lo \<le> b" "b < ?hi" for b
      using index_skip [OF shape index lo _ that(1)] that ceil_div(1) [OF SHARD_BITS_pos, of ?hi] by (auto simp: find_upt_None)
    then have "free_of r fs = []" by (auto simp: free_of_def free_in_def filter_empty_conv)
    then show ?thesis using find None by (simp add: acquire_def asserts)
  next
    case (Some shard)
    then have shard: "?lo div SHARD_BITS \<le> shard" "shard < ?stop" "shard \<notin> bs_members (fs_index fs)"
      "\<And>s. ?lo div SHARD_BITS \<le> s \<Longrightarrow> s < shard \<Longrightarrow> s \<in> bs_members (fs_index fs)" unfolding find_upt_Some by auto
    define start where "start = max (shard * SHARD_BITS) ?lo"
    have start: "start \<le> ?hi" using ceil_div(3) [OF SHARD_BITS_pos shard(2)] range by (simp add: start_def)
    have same: "free_in fs start ?hi = free_of r fs"
      unfolding free_of_def by (rule free_in_skip [symmetric]) (use index_skip [OF shape index shard(1) shard(4)] in \<open>auto simp: start_def\<close>)
    have get: "bs_get (fs_index fs) shard = Some False" using shape shard ends by (simp add: fs_shape_def)
    have scan: "find_bit (fs_blocks_acquired fs) start ?hi KindUnset = Some (case free_of r fs of [] \<Rightarrow> None | b # _ \<Rightarrow> Some b)"
      using shape start range unfolding same [symmetric] by (simp add: find_unset fs_shape_def find_filter free_in_def)
    show ?thesis
    proof (cases "free_of r fs")
      case Nil
      then show ?thesis using find Some scan by (simp add: acquire_def asserts get start_def)
    next
      case (Cons b bs)
      then have "b \<in> set (free_in fs start ?hi)" by (simp add: same)
      then have b: "start \<le> b" "b < ?hi" "b \<notin> acquired_blocks fs" unfolding free_in_bounds by auto
      then have total_b: "b < block_total fs" using range by simp
      have unreleased: "b \<notin> released_blocks fs" "\<not> rp_contains (fs_released_prior fs) b" using blocks b by (auto simp: blocks_ok_def rp_contains_def)
      have gets: "bs_get (fs_blocks_acquired fs) b = Some False" "bs_get (fs_blocks_released fs) b = Some False"
        using shape total_b b unreleased by (simp_all add: fs_shape_def)
      have "shard \<le> b div SHARD_BITS" using b(1) by (simp add: start_def less_eq_div_iff_mult_less_eq)
      obtain acq idx where taken: "bs_set (fs_blocks_acquired fs) b = Some acq"
        "update_index (b div SHARD_BITS) (fs\<lparr>fs_blocks_acquired := acq\<rparr>) = Some (fs\<lparr>fs_blocks_acquired := acq, fs_index := idx\<rparr>)"
        "fs_shape (fs\<lparr>fs_blocks_acquired := acq, fs_index := idx\<rparr>)" "index_ok (fs\<lparr>fs_blocks_acquired := acq, fs_index := idx\<rparr>)"
        "bs_members acq = insert b (acquired_blocks fs)" by (rule take_block [OF shape index total_b])
      have "fs_inv (fs\<lparr>fs_blocks_acquired := acq, fs_index := idx\<rparr>)"
        using inv taken by (auto simp: fs_inv_def blocks_ok_def)
      moreover have "acquire r fs = Some (Some (b + 1), fs\<lparr>fs_blocks_acquired := acq, fs_index := idx\<rparr>)"
        using find Some scan Cons b unreleased \<open>shard \<le> b div SHARD_BITS\<close>
        by (simp add: acquire_def asserts get start_def [symmetric] gets taken(1,2) Let_def) (simp add: start_def)
      ultimately show ?thesis using Cons taken(5) by auto
    qed
  qed
qed

section \<open>Checkpoints\<close>

lemma free_block_correct:
  assumes shape: "fs_shape fs" and index: "index_ok fs" and state: "fs_opened fs" "fs_checkpoint_durable fs"
    "fs_reservation_count fs = 0" "fs_reservation_blocks fs = 0"
    and b: "b \<in> released_blocks fs" "b \<in> acquired_blocks fs" "b \<notin> prior_blocks fs"
  obtains idx acq rel where "free_block (b + 1) fs = Some (fs\<lparr>fs_index := idx, fs_blocks_acquired := acq, fs_blocks_released := rel\<rparr>)"
    "fs_shape (fs\<lparr>fs_index := idx, fs_blocks_acquired := acq, fs_blocks_released := rel\<rparr>)"
    "index_ok (fs\<lparr>fs_index := idx, fs_blocks_acquired := acq, fs_blocks_released := rel\<rparr>)"
    "bs_members acq = acquired_blocks fs - {b}" "bs_members rel = released_blocks fs - {b}" "bs_bit_length acq = block_total fs"
proof -
  have oks: "bs_ok (fs_index fs)" "bs_ok (fs_blocks_acquired fs)" "bs_ok (fs_blocks_released fs)" using shape by (simp_all add: fs_shape_def)
  have less: "b < block_total fs" using b(2) by (rule bs_members_bounded)
  then have less': "b < bs_bit_length (fs_blocks_released fs)" using shape by (simp add: fs_shape_def)
  have shard: "b div SHARD_BITS < bs_bit_length (fs_index fs)" by (rule shard_of_block [OF shape less])
  obtain idx where idx: "bs_unset (fs_index fs) (b div SHARD_BITS) = Some idx" "bs_ok idx" "bs_bit_length idx = bs_bit_length (fs_index fs)"
    "bs_members idx = bs_members (fs_index fs) - {b div SHARD_BITS}" by (rule bs_unset_correct [OF oks(1) shard])
  obtain acq where acq: "bs_unset (fs_blocks_acquired fs) b = Some acq" "bs_ok acq" "bs_bit_length acq = block_total fs"
    "bs_members acq = acquired_blocks fs - {b}" by (rule bs_unset_correct [OF oks(2) less])
  obtain rel where rel: "bs_unset (fs_blocks_released fs) b = Some rel" "bs_ok rel" "bs_bit_length rel = bs_bit_length (fs_blocks_released fs)"
    "bs_members rel = released_blocks fs - {b}" by (rule bs_unset_correct [OF oks(3) less'])
  let ?fs = "fs\<lparr>fs_index := idx, fs_blocks_acquired := acq, fs_blocks_released := rel\<rparr>"
  have "index_ok ?fs"
    unfolding index_ok_def
  proof (intro allI impI)
    fix s assume s: "s < bs_bit_length (fs_index ?fs)"
    have "shard_blocks s \<subseteq> acquired_blocks fs - {b} \<longleftrightarrow> shard_blocks s \<subseteq> acquired_blocks fs \<and> s \<noteq> b div SHARD_BITS"
      using in_shard_blocks by auto
    then show "s \<in> bs_members (fs_index ?fs) \<longleftrightarrow> shard_blocks s \<subseteq> acquired_blocks ?fs"
      using index s idx acq(4) unfolding index_ok_def by auto
  qed
  moreover have "fs_shape ?fs" using shape idx acq rel by (simp add: fs_shape_def)
  moreover have "free_block (b + 1) fs = Some ?fs"
    using state b less less' oks idx(1) acq(1) rel(1) by (simp add: free_block_def rp_contains_def Let_def)
  ultimately show ?thesis using that acq(3,4) rel(4) by blast
qed

lemma free_blocks_correct:
  assumes "fs_shape fs" "index_ok fs" "fs_opened fs" "fs_checkpoint_durable fs" "fs_reservation_count fs = 0" "fs_reservation_blocks fs = 0"
    "set blocks \<subseteq> released_blocks fs" "released_blocks fs \<subseteq> acquired_blocks fs" "released_blocks fs \<inter> prior_blocks fs = {}" "distinct blocks"
  shows "\<exists>idx acq rel. free_blocks (map (\<lambda>b. b + 1) blocks) fs = Some (fs\<lparr>fs_index := idx, fs_blocks_acquired := acq, fs_blocks_released := rel\<rparr>) \<and>
    fs_shape (fs\<lparr>fs_index := idx, fs_blocks_acquired := acq, fs_blocks_released := rel\<rparr>) \<and>
    index_ok (fs\<lparr>fs_index := idx, fs_blocks_acquired := acq, fs_blocks_released := rel\<rparr>) \<and>
    bs_members acq = acquired_blocks fs - set blocks \<and> bs_members rel = released_blocks fs - set blocks \<and> bs_bit_length acq = block_total fs"
  using assms
proof (induction blocks arbitrary: fs)
  case Nil
  have "fs = fs\<lparr>fs_index := fs_index fs, fs_blocks_acquired := fs_blocks_acquired fs, fs_blocks_released := fs_blocks_released fs\<rparr>" by simp
  then show ?case using Nil by (intro exI [of _ "fs_index fs"] exI [of _ "fs_blocks_acquired fs"] exI [of _ "fs_blocks_released fs"]) simp
next
  case (Cons b blocks)
  have b: "b \<in> released_blocks fs" "b \<in> acquired_blocks fs" "b \<notin> prior_blocks fs" using Cons.prems(7-9) by auto
  obtain idx acq rel where one: "free_block (b + 1) fs = Some (fs\<lparr>fs_index := idx, fs_blocks_acquired := acq, fs_blocks_released := rel\<rparr>)"
    "fs_shape (fs\<lparr>fs_index := idx, fs_blocks_acquired := acq, fs_blocks_released := rel\<rparr>)"
    "index_ok (fs\<lparr>fs_index := idx, fs_blocks_acquired := acq, fs_blocks_released := rel\<rparr>)"
    "bs_members acq = acquired_blocks fs - {b}" "bs_members rel = released_blocks fs - {b}" "bs_bit_length acq = block_total fs"
    by (rule free_block_correct [OF Cons.prems(1-6) b])
  let ?fs = "fs\<lparr>fs_index := idx, fs_blocks_acquired := acq, fs_blocks_released := rel\<rparr>"
  have "set blocks \<subseteq> released_blocks ?fs" "released_blocks ?fs \<subseteq> acquired_blocks ?fs" "released_blocks ?fs \<inter> prior_blocks ?fs = {}" "distinct blocks"
    using Cons.prems(7-10) one by auto
  from Cons.IH [OF one(2,3) _ _ _ _ this] Cons.prems(3-6)
  obtain idx' acq' rel' where rest: "free_blocks (map (\<lambda>b. b + 1) blocks) ?fs = Some (?fs\<lparr>fs_index := idx', fs_blocks_acquired := acq', fs_blocks_released := rel'\<rparr>)"
    "fs_shape (?fs\<lparr>fs_index := idx', fs_blocks_acquired := acq', fs_blocks_released := rel'\<rparr>)"
    "index_ok (?fs\<lparr>fs_index := idx', fs_blocks_acquired := acq', fs_blocks_released := rel'\<rparr>)"
    "bs_members acq' = acquired_blocks ?fs - set blocks" "bs_members rel' = released_blocks ?fs - set blocks" "bs_bit_length acq' = block_total ?fs" by auto
  have "bs_members acq' = acquired_blocks fs - set (b # blocks)" "bs_members rel' = released_blocks fs - set (b # blocks)"
    using one(4,5) rest(4,5) by auto
  then show ?case using one(1,6) rest(1-3,6) by (intro exI [of _ idx'] exI [of _ acq'] exI [of _ rel']) simp
qed

lemma move_prior_correct:
  assumes "bs_ok (fs_blocks_released fs)" "\<forall>b \<in> prior_blocks fs. b < bs_bit_length (fs_blocks_released fs)"
  shows "\<exists>rel. move_prior fs = Some (fs\<lparr>fs_blocks_released := rel, fs_released_prior := (fs_released_prior fs)\<lparr>rp_keys := []\<rparr>\<rparr>) \<and>
    bs_ok rel \<and> bs_bit_length rel = bs_bit_length (fs_blocks_released fs) \<and> bs_members rel = released_blocks fs \<union> prior_blocks fs"
  using assms
proof (induction fs rule: move_prior.induct)
  case (1 fs)
  show ?case
  proof (cases "rp_keys (fs_released_prior fs)" rule: rev_cases)
    case Nil
    then have "fs_released_prior fs = (fs_released_prior fs)\<lparr>rp_keys := []\<rparr>" by simp
    then show ?thesis using Nil "1.prems" by (subst move_prior.simps) (auto simp: rp_pop_def intro!: exI [of _ "fs_blocks_released fs"])
  next
    case (snoc keys b)
    have b: "b < bs_bit_length (fs_blocks_released fs)" using "1.prems"(2) snoc by simp
    obtain rel where rel: "bs_set (fs_blocks_released fs) b = Some rel" "bs_ok rel" "bs_bit_length rel = bs_bit_length (fs_blocks_released fs)"
      "bs_members rel = insert b (released_blocks fs)" by (rule bs_set_correct [OF "1.prems"(1) b])
    define fs1 where "fs1 = fs\<lparr>fs_released_prior := (fs_released_prior fs)\<lparr>rp_keys := keys\<rparr>, fs_blocks_released := rel\<rparr>"
    have pop: "rp_pop (fs_released_prior fs) = (Some b, (fs_released_prior fs)\<lparr>rp_keys := keys\<rparr>)" using snoc by (simp add: rp_pop_def)
    have step: "move_prior fs = move_prior fs1" using pop rel(1) by (subst move_prior.simps) (simp add: fs1_def)
    have prior: "prior_blocks fs = insert b (prior_blocks fs1)" using snoc by (simp add: fs1_def)
    have "\<exists>rel. move_prior fs1 = Some (fs1\<lparr>fs_blocks_released := rel, fs_released_prior := (fs_released_prior fs1)\<lparr>rp_keys := []\<rparr>\<rparr>) \<and>
      bs_ok rel \<and> bs_bit_length rel = bs_bit_length (fs_blocks_released fs1) \<and> bs_members rel = released_blocks fs1 \<union> prior_blocks fs1"
      unfolding fs1_def by (rule "1.IH" [OF pop [symmetric] refl rel(1)]) (use rel "1.prems"(2) snoc in auto)
    then show ?thesis unfolding step prior using rel by (auto simp: fs1_def)
  qed
qed

text \<open>A checkpoint that becomes durable frees exactly the blocks released before it; those released since then are
  freed by the next one.\<close>

lemma checkpoint_correct:
  assumes inv: "fs_inv fs" and durable: "\<not> fs_checkpoint_durable fs" and res: "released_blocks fs = {} \<or> fs_reservation_count fs = 0 \<and> fs_reservation_blocks fs = 0"
  shows "\<exists>idx acq rel. mark_checkpoint_durable fs = Some (fs\<lparr>fs_checkpoint_durable := True, fs_index := idx, fs_blocks_acquired := acq,
        fs_blocks_released := rel, fs_released_prior := (fs_released_prior fs)\<lparr>rp_keys := []\<rparr>\<rparr>) \<and>
      fs_inv (fs\<lparr>fs_checkpoint_durable := True, fs_index := idx, fs_blocks_acquired := acq,
        fs_blocks_released := rel, fs_released_prior := (fs_released_prior fs)\<lparr>rp_keys := []\<rparr>\<rparr>) \<and>
      bs_members acq = acquired_blocks fs - released_blocks fs \<and> bs_members rel = prior_blocks fs \<and> bs_bit_length acq = block_total fs"
proof -
  have shape: "fs_shape fs" and index: "index_ok fs" and opened: "fs_opened fs" and blocks: "blocks_ok fs" using inv by (simp_all add: fs_inv_def)
  define fs1 where "fs1 = fs\<lparr>fs_checkpoint_durable := True\<rparr>"
  define released where "released = filter (\<lambda>b. b \<in> released_blocks fs) [0..<block_total fs]"
  have set_released: "set released = released_blocks fs" "distinct released"
    using shape by (auto simp: released_def fs_shape_def dest: bs_members_bounded)
  have kind: "kind_holds (fs_blocks_released fs) KindSet = (\<lambda>b. b \<in> released_blocks fs)" by (simp add: kind_holds_def fun_eq_iff)
  have collect: "bit_iter_collect (bs_iter (fs_blocks_released fs) KindSet IterForward) = Some released"
    using shape bit_iter_collect_forward [of "bs_iter (fs_blocks_released fs) KindSet IterForward"]
    by (simp add: bs_iter_def released_def fs_shape_def kind)
  have "\<exists>idx acq rel. free_blocks (map (\<lambda>b. b + 1) released) fs1 = Some (fs1\<lparr>fs_index := idx, fs_blocks_acquired := acq, fs_blocks_released := rel\<rparr>) \<and>
      fs_shape (fs1\<lparr>fs_index := idx, fs_blocks_acquired := acq, fs_blocks_released := rel\<rparr>) \<and>
      index_ok (fs1\<lparr>fs_index := idx, fs_blocks_acquired := acq, fs_blocks_released := rel\<rparr>) \<and>
      bs_members acq = acquired_blocks fs1 - set released \<and> bs_members rel = released_blocks fs1 - set released \<and> bs_bit_length acq = block_total fs1"
  proof (cases "released_blocks fs = {}")
    case True
    then have "released = []" using set_released by simp
    moreover have "fs1 = fs1\<lparr>fs_index := fs_index fs1, fs_blocks_acquired := fs_blocks_acquired fs1, fs_blocks_released := fs_blocks_released fs1\<rparr>" by simp
    ultimately show ?thesis using shape index
      by (intro exI [of _ "fs_index fs1"] exI [of _ "fs_blocks_acquired fs1"] exI [of _ "fs_blocks_released fs1"])
        (simp add: fs1_def fs_shape_def index_ok_def)
  next
    case False
    then show ?thesis
      using res shape index opened blocks set_released
      by (intro free_blocks_correct) (auto simp: fs1_def fs_shape_def index_ok_def blocks_ok_def)
  qed
  then obtain idx acq rel where freed: "free_blocks (map (\<lambda>b. b + 1) released) fs1 = Some (fs1\<lparr>fs_index := idx, fs_blocks_acquired := acq, fs_blocks_released := rel\<rparr>)"
    "fs_shape (fs1\<lparr>fs_index := idx, fs_blocks_acquired := acq, fs_blocks_released := rel\<rparr>)"
    "index_ok (fs1\<lparr>fs_index := idx, fs_blocks_acquired := acq, fs_blocks_released := rel\<rparr>)"
    "bs_members acq = acquired_blocks fs - released_blocks fs" "bs_members rel = {}" "bs_bit_length acq = block_total fs"
    using set_released by (auto simp: fs1_def)
  define fs2 where "fs2 = fs1\<lparr>fs_index := idx, fs_blocks_acquired := acq, fs_blocks_released := rel\<rparr>"
  have count: "bs_count rel = 0" using freed by (simp add: bs_count_correct fs_shape_def)
  have bounded: "\<forall>b \<in> prior_blocks fs2. b < bs_bit_length (fs_blocks_released fs2)"
    using blocks freed(2,4) shape bs_members_bounded [of _ acq] unfolding fs2_def fs1_def blocks_ok_def fs_shape_def by (fastforce dest: bs_members_bounded)
  obtain rel' where moved: "move_prior fs2 = Some (fs2\<lparr>fs_blocks_released := rel', fs_released_prior := (fs_released_prior fs2)\<lparr>rp_keys := []\<rparr>\<rparr>)"
    "bs_ok rel'" "bs_bit_length rel' = bs_bit_length (fs_blocks_released fs2)" "bs_members rel' = prior_blocks fs"
    using move_prior_correct [OF _ bounded] freed by (auto simp: fs2_def fs1_def fs_shape_def)
  define fs3 where "fs3 = fs2\<lparr>fs_blocks_released := rel', fs_released_prior := (fs_released_prior fs2)\<lparr>rp_keys := []\<rparr>\<rparr>"
  have shape3: "fs_shape fs3" and index3: "index_ok fs3" using freed(2,3) moved(2,3) by (simp_all add: fs3_def fs2_def fs_shape_def index_ok_def)
  have "mark_checkpoint_durable fs = Some fs3"
    using opened durable collect freed(1) count moved(1) verify_index_correct [OF shape3] index3
    by (simp add: mark_checkpoint_durable_def fs1_def [symmetric] fs2_def [symmetric] fs3_def [symmetric] Let_def)
      (simp add: fs1_def fs2_def fs3_def rp_count_def)
  moreover have "fs_inv fs3"
    using opened shape3 index3 blocks freed(4) moved(4) by (auto simp: fs_inv_def blocks_ok_def fs3_def fs2_def fs1_def)
  ultimately show ?thesis using freed(4,6) moved(4) by (intro exI [of _ idx] exI [of _ acq] exI [of _ rel']) (simp add: fs3_def fs2_def fs1_def)
qed

end
