(* ===== verification/FreeSetRun.thy ===== *)
theory FreeSetRun
  imports FreeSetProps
begin

text \<open>
  The free set under any interleaving of its operations. A state carries, beside the free set, the
  reservations that are active and how many blocks each may still acquire; a step is one call that
  returns, made as the protocol of \<open>free_set.rs\<close> prescribes: acquire and forfeit only with an active
  reservation. The invariant \<open>fs_ok\<close> is what the module documents: active reservations are disjoint and
  each covers the free blocks it was promised.
\<close>

type_synonym fs_state = "free_set \<times> (reservation \<times> nat) list"

datatype fs_label = Reserve nat | Acquire reservation "nat option" | Forfeit reservation | Release nat | NotDurable | Durable

inductive fs_step :: "fs_state \<Rightarrow> fs_label \<Rightarrow> fs_state \<Rightarrow> bool" where
  reserved: "reserve n fs = Some (Some r, fs') \<Longrightarrow> fs_step (fs, act) (Reserve n) (fs', act @ [(r, n)])"
| not_reserved: "reserve n fs = Some (None, fs') \<Longrightarrow> fs_step (fs, act) (Reserve n) (fs', act)"
| acquired: "acquire r fs = Some (Some a, fs') \<Longrightarrow>
    fs_step (fs, us @ (r, k) # vs) (Acquire r (Some a)) (fs', us @ (r, k - 1) # vs)"
| not_acquired: "acquire r fs = Some (None, fs') \<Longrightarrow> (r, k) \<in> set act \<Longrightarrow> fs_step (fs, act) (Acquire r None) (fs', act)"
| forfeited: "forfeit r fs = Some fs' \<Longrightarrow> fs_step (fs, us @ (r, k) # vs) (Forfeit r) (fs', us @ vs)"
| released: "release a fs = Some fs' \<Longrightarrow> fs_step (fs, act) (Release a) (fs', act)"
| not_durable: "mark_checkpoint_not_durable fs = Some fs' \<Longrightarrow> fs_step (fs, act) NotDurable (fs', act)"
| durable: "mark_checkpoint_durable fs = Some fs' \<Longrightarrow> fs_step (fs, act) Durable (fs', act)"

inductive_cases fs_step_cases: "fs_step s l s'"

inductive fs_run :: "fs_state \<Rightarrow> fs_label list \<Rightarrow> fs_state \<Rightarrow> bool" where
  run_Nil: "fs_run s [] s"
| run_Cons: "fs_step s l s' \<Longrightarrow> fs_run s' ls s'' \<Longrightarrow> fs_run s (l # ls) s''"

lemma run_append: "fs_run s ls s' \<Longrightarrow> fs_run s' ls' s'' \<Longrightarrow> fs_run s (ls @ ls') s''"
  by (induction rule: fs_run.induct) (auto intro: run_Cons)

section \<open>Reservations\<close>

definition before :: "reservation \<times> nat \<Rightarrow> reservation \<times> nat \<Rightarrow> bool" where
  "before x y \<longleftrightarrow> rv_block_base (fst x) + rv_block_count (fst x) \<le> rv_block_base (fst y)"

definition entry_ok :: "free_set \<Rightarrow> reservation \<times> nat \<Rightarrow> bool" where
  "entry_ok fs x \<longleftrightarrow> 0 < rv_block_count (fst x) \<and> rv_block_base (fst x) + rv_block_count (fst x) \<le> fs_reservation_blocks fs \<and>
     rv_session (fst x) = fs_reservation_session fs \<and> snd x \<le> length (free_of (fst x) fs)"

definition reservations_ok :: "free_set \<Rightarrow> (reservation \<times> nat) list \<Rightarrow> bool" where
  "reservations_ok fs act \<longleftrightarrow> fs_reservation_count fs = length act \<and> fs_reservation_blocks fs \<le> block_total fs \<and>
     (act = [] \<longrightarrow> fs_reservation_blocks fs = 0 \<and> fs_reservation_state fs = Reserving) \<and>
     sorted_wrt before act \<and> (\<forall>x \<in> set act. entry_ok fs x)"

definition fs_ok :: "fs_state \<Rightarrow> bool" where
  "fs_ok s \<longleftrightarrow> fs_inv (fst s) \<and> reservations_ok (fst s) (snd s)"

lemma entry_reservation_ok: "fs_ok (fs, act) \<Longrightarrow> (r, k) \<in> set act \<Longrightarrow> reservation_ok r fs"
  by (auto simp: fs_ok_def reservations_ok_def entry_ok_def reservation_ok_def intro: length_pos_if_in_set)

lemma free_in_upto_nth:
  assumes "0 < n" "n \<le> length (free_in fs lo hi)"
  shows "length (free_in fs lo (free_in fs lo hi ! (n - 1) + 1)) = n"
proof -
  let ?F = "free_in fs lo hi" and ?P = "\<lambda>b. b \<notin> acquired_blocks fs"
  define x where "x = ?F ! (n - 1)"
  have "x \<in> set ?F" using assms by (simp add: x_def)
  then have x: "lo \<le> x" "x < hi" "?P x" by (auto simp: free_in_bounds)
  have "[lo..<hi] = [lo..<x] @ [x..<hi]" using upt_add_eq_append [of lo x "hi - x"] x by simp
  then have "[lo..<hi] = [lo..<x] @ x # [x + 1..<hi]" by (simp only: upt_conv_Cons [OF x(2)] Suc_eq_plus1)
  then have F: "?F = filter ?P [lo..<x] @ x # filter ?P [x + 1..<hi]" using x(3) by (simp add: free_in_def)
  have A: "free_in fs lo (x + 1) = filter ?P [lo..<x] @ [x]" using x by (simp add: free_in_def)
  have dist: "distinct ?F" by (simp add: free_in_def)
  have i: "length (filter ?P [lo..<x]) < length ?F" using arg_cong [OF F, of length] by simp
  have nth: "G ! length us = y" if "G = us @ y # vs" for G us vs and y :: nat using that by simp
  have at: "?F ! length (filter ?P [lo..<x]) = x" by (rule nth [OF F])
  have "length (filter ?P [lo..<x]) = n - 1"
    using nth_eq_iff_index_eq [OF dist i, of "n - 1"] at assms unfolding x_def by (metis diff_less less_le_trans zero_less_one)
  then show ?thesis unfolding x_def [symmetric] A using assms by simp
qed

lemma free_in_cong: "acquired_blocks fs' = acquired_blocks fs \<Longrightarrow> free_in fs' lo hi = free_in fs lo hi"
  by (simp add: free_in_def)

lemma free_of_cong: "acquired_blocks fs' = acquired_blocks fs \<Longrightarrow> free_of r fs' = free_of r fs"
  unfolding free_of_def by (rule free_in_cong)

lemma free_of_other:
  assumes "acquired_blocks fs' = insert b (acquired_blocks fs)" "b < rv_block_base r \<or> rv_block_base r + rv_block_count r \<le> b"
  shows "free_of r fs' = free_of r fs"
  unfolding free_of_def free_in_def by (rule filter_cong [OF refl]) (use assms in auto)

lemma free_of_own:
  assumes "acquired_blocks fs' = insert b (acquired_blocks fs)" "free_of r fs = b # bs"
  shows "free_of r fs' = bs"
proof -
  have d: "distinct (free_of r fs)" by (simp add: free_of_def free_in_def)
  have "free_of r fs' = filter (\<lambda>c. c \<noteq> b) (free_of r fs)" unfolding free_of_def free_in_def assms(1) by (simp add: conj_commute)
  also have "\<dots> = bs" using assms(2) d by (auto simp: filter_id_conv)
  finally show ?thesis .
qed

text \<open>The head of the free blocks of a reservation is the first of them.\<close>

lemma free_of_first:
  assumes "free_of r fs = b # bs"
  shows "rv_block_base r \<le> b" "b < rv_block_base r + rv_block_count r" "b \<notin> acquired_blocks fs"
    "\<And>c. rv_block_base r \<le> c \<Longrightarrow> c < b \<Longrightarrow> c \<in> acquired_blocks fs"
proof -
  have "b \<in> set (free_of r fs)" using assms by simp
  then show b: "rv_block_base r \<le> b" "b < rv_block_base r + rv_block_count r" "b \<notin> acquired_blocks fs"
    unfolding free_of_def free_in_bounds by auto
  have "sorted (b # bs)" using free_in_sorted assms unfolding free_of_def by metis
  then have "c \<notin> set (free_of r fs)" if "c < b" for c using that assms by auto
  then show "\<And>c. rv_block_base r \<le> c \<Longrightarrow> c < b \<Longrightarrow> c \<in> acquired_blocks fs"
    using b(2) unfolding free_of_def free_in_bounds by auto
qed

section \<open>Every step keeps the invariant\<close>

lemma reserve_keeps_ok:
  assumes ok: "fs_ok (fs, act)" and reserve: "reserve n fs = Some (Some r, fs')"
  shows "fs_ok (fs', act @ [(r, n)])"
proof -
  have inv: "fs_inv fs" and res: "reservations_ok fs act" using ok by (simp_all add: fs_ok_def)
  have state: "fs_reservation_state fs = Reserving" "0 < n" using reserve by (auto simp: reserve_def bind_eq_Some_conv)
  have le: "fs_reservation_blocks fs \<le> block_total fs" using res by (simp add: reservations_ok_def)
  let ?F = "free_in fs (fs_reservation_blocks fs) (block_total fs)"
  have r: "reservation_of n fs = Some r" and fs': "fs' = fs\<lparr>fs_reservation_blocks := rv_block_base r + rv_block_count r,
      fs_reservation_count := fs_reservation_count fs + 1\<rparr>"
    using reserve reserve_correct [OF inv state le] by (auto split: option.splits)
  have n: "n \<le> length ?F" and r_eq: "r = \<lparr>rv_block_base = fs_reservation_blocks fs, rv_block_count = ?F ! (n - 1) + 1 - fs_reservation_blocks fs,
      rv_session = fs_reservation_session fs\<rparr>" using r by (auto simp: reservation_of_def Let_def split: if_splits)
  have "?F ! (n - 1) \<in> set ?F" using n state(2) by simp
  then have x: "fs_reservation_blocks fs \<le> ?F ! (n - 1)" "?F ! (n - 1) < block_total fs" unfolding free_in_bounds by auto
  have last: "rv_block_base r + rv_block_count r = ?F ! (n - 1) + 1" "rv_block_base r = fs_reservation_blocks fs" using r_eq x by simp_all
  have "free_of r fs' = free_in fs' (rv_block_base r) (?F ! (n - 1) + 1)" by (simp only: free_of_def last(1))
  also have "\<dots> = free_in fs (fs_reservation_blocks fs) (?F ! (n - 1) + 1)" unfolding last(2) by (rule free_in_cong) (simp add: fs')
  finally have "free_of r fs' = free_in fs (fs_reservation_blocks fs) (?F ! (n - 1) + 1)" .
  then have new: "entry_ok fs' (r, n)" using free_in_upto_nth [OF state(2) n] x r_eq by (simp add: entry_ok_def fs')
  have grown: "fs_reservation_blocks fs \<le> fs_reservation_blocks fs'" using last x by (simp add: fs')
  have old: "entry_ok fs' y" if "entry_ok fs y" for y
    using that grown free_of_cong [of fs' fs] by (auto simp: entry_ok_def fs')
  have "before y (r, n)" if "y \<in> set act" for y
    using that res r_eq by (auto simp: reservations_ok_def entry_ok_def before_def)
  then have "reservations_ok fs' (act @ [(r, n)])"
    using res new old last x by (auto simp: reservations_ok_def sorted_wrt_append fs')
  moreover have "fs_inv fs'" using inv by (simp add: fs' fs_inv_def fs_shape_def index_ok_def blocks_ok_def)
  ultimately show ?thesis by (simp add: fs_ok_def)
qed

lemma entry_ok_cong:
  assumes "acquired_blocks fs' = acquired_blocks fs" "fs_reservation_blocks fs' = fs_reservation_blocks fs"
    "fs_reservation_session fs' = fs_reservation_session fs"
  shows "entry_ok fs' x = entry_ok fs x"
  using free_of_cong [OF assms(1), of "fst x"] assms(2,3) by (simp add: entry_ok_def)

lemma reservations_ok_cong:
  assumes "reservations_ok fs act" "acquired_blocks fs' = acquired_blocks fs" "block_total fs' = block_total fs"
    "fs_reservation_blocks fs' = fs_reservation_blocks fs" "fs_reservation_session fs' = fs_reservation_session fs"
    "fs_reservation_count fs' = fs_reservation_count fs" "fs_reservation_state fs' = fs_reservation_state fs"
  shows "reservations_ok fs' act"
  using assms(1,3-7) entry_ok_cong [OF assms(2,4,5)] by (simp add: reservations_ok_def)

lemma acquire_keeps_ok:
  assumes ok: "fs_ok (fs, us @ (r, k) # vs)" and acquire: "acquire r fs = Some (Some a, fs')"
  shows "fs_ok (fs', us @ (r, k - 1) # vs)"
proof -
  have inv: "fs_inv fs" and res: "reservations_ok fs (us @ (r, k) # vs)" using ok by (simp_all add: fs_ok_def)
  have r: "reservation_ok r fs" by (rule entry_reservation_ok [OF ok, of r k]) simp
  obtain b bs where free: "free_of r fs = b # bs" using acquire_correct [OF inv r] acquire by (cases "free_of r fs") auto
  then obtain acq idx where fs': "fs' = fs\<lparr>fs_blocks_acquired := acq, fs_index := idx\<rparr>" "bs_members acq = insert b (acquired_blocks fs)" "fs_inv fs'"
    using acquire_correct [OF inv r] acquire by auto
  have b: "rv_block_base r \<le> b" "b < rv_block_base r + rv_block_count r"
  proof -
    have "b \<in> set (free_of r fs)" using free by simp
    then show "rv_block_base r \<le> b" "b < rv_block_base r + rv_block_count r" unfolding free_of_def free_in_bounds by auto
  qed
  have acq: "acquired_blocks fs' = insert b (acquired_blocks fs)" using fs' by simp
  have other: "entry_ok fs' y" if "y \<in> set us \<union> set vs" for y
  proof -
    have y: "entry_ok fs y" "before y (r, k) \<or> before (r, k) y" using that res by (auto simp: reservations_ok_def sorted_wrt_append)
    have "free_of (fst y) fs' = free_of (fst y) fs"
      by (rule free_of_other [OF acq]) (use y(2) b in \<open>auto simp: before_def\<close>)
    then show ?thesis using y(1) by (simp add: entry_ok_def fs'(1))
  qed
  have own: "entry_ok fs' (r, k - 1)"
    using res free free_of_own [OF acq free] by (auto simp: reservations_ok_def entry_ok_def fs'(1))
  have total: "block_total fs' = block_total fs" using fs'(3) inv by (simp add: fs'(1) fs_inv_def fs_shape_def)
  have sorted: "sorted_wrt before (us @ (r, k - 1) # vs)" using res by (auto simp: reservations_ok_def sorted_wrt_append before_def)
  have "reservations_ok fs' (us @ (r, k - 1) # vs)"
    using res other own sorted total by (auto simp: reservations_ok_def fs'(1))
  then show ?thesis using fs'(3) by (simp add: fs_ok_def)
qed

lemma forfeit_keeps_ok:
  assumes ok: "fs_ok (fs, us @ (r, k) # vs)" and forfeit: "forfeit r fs = Some fs'"
  shows "fs_ok (fs', us @ vs)"
proof -
  have inv: "fs_inv fs" and res: "reservations_ok fs (us @ (r, k) # vs)" using ok by (simp_all add: fs_ok_def)
  have count: "fs_reservation_count fs = length (us @ vs) + 1" using res by (simp add: reservations_ok_def)
  have fs': "fs' = (if us @ vs = []
      then fs\<lparr>fs_reservation_count := 0, fs_reservation_blocks := 0, fs_reservation_session := fs_reservation_session fs + 1, fs_reservation_state := Reserving\<rparr>
      else fs\<lparr>fs_reservation_count := fs_reservation_count fs - 1, fs_reservation_state := Forfeiting\<rparr>)"
    using forfeit count by (auto simp: forfeit_def Let_def bind_eq_Some_conv split: if_splits)
  have "fs_inv fs'" using inv by (simp add: fs' fs_inv_def fs_shape_def index_ok_def blocks_ok_def)
  moreover have "reservations_ok fs' (us @ vs)"
  proof (cases "us @ vs = []")
    case True
    then show ?thesis by (simp add: fs' reservations_ok_def)
  next
    case False
    then have fs'': "fs' = fs\<lparr>fs_reservation_count := fs_reservation_count fs - 1, fs_reservation_state := Forfeiting\<rparr>" using fs' by auto
    have "entry_ok fs' y = entry_ok fs y" for y by (rule entry_ok_cong) (simp_all add: fs'')
    then show ?thesis using res False by (auto simp: reservations_ok_def sorted_wrt_append fs'')
  qed
  ultimately show ?thesis by (simp add: fs_ok_def)
qed

lemma release_correct:
  assumes inv: "fs_inv fs" and release: "release a fs = Some fs'"
  shows "fs_inv fs' \<and> a - 1 \<in> acquired_blocks fs \<and> 0 < a \<and>
    (if fs_checkpoint_durable fs
     then \<exists>rel. fs' = fs\<lparr>fs_blocks_released := rel\<rparr> \<and> bs_members rel = insert (a - 1) (released_blocks fs)
     else fs' = fs\<lparr>fs_released_prior := (fs_released_prior fs)\<lparr>rp_keys := rp_keys (fs_released_prior fs) @ [a - 1]\<rparr>\<rparr>)"
proof -
  let ?b = "a - 1"
  have oks: "bs_ok (fs_blocks_acquired fs)" "bs_ok (fs_blocks_released fs)" "bs_bit_length (fs_blocks_released fs) = block_total fs"
    using inv by (simp_all add: fs_inv_def fs_shape_def)
  obtain v w where gets: "bs_get (fs_blocks_acquired fs) ?b = Some v" "v" "bs_get (fs_blocks_released fs) ?b = Some w" "\<not> w"
    "0 < a" "\<not> rp_contains (fs_released_prior fs) ?b"
    using release by (auto simp: release_def Let_def bind_eq_Some_conv)
  have less: "?b < block_total fs" using gets(1) by (auto simp: bs_get_def bind_eq_Some_conv)
  then have b: "?b \<in> acquired_blocks fs" "?b \<notin> released_blocks fs" "?b \<notin> prior_blocks fs"
    using gets oks by (auto simp: rp_contains_def)
  show ?thesis
  proof (cases "fs_checkpoint_durable fs")
    case True
    have less': "?b < bs_bit_length (fs_blocks_released fs)" using less oks by simp
    obtain rel where rel: "bs_set (fs_blocks_released fs) ?b = Some rel" "bs_ok rel" "bs_bit_length rel = bs_bit_length (fs_blocks_released fs)"
      "bs_members rel = insert ?b (released_blocks fs)" by (rule bs_set_correct [OF oks(2) less'])
    then have fs': "fs' = fs\<lparr>fs_blocks_released := rel\<rparr>" using release True by (auto simp: release_def Let_def bind_eq_Some_conv)
    have "fs_inv fs'" using inv rel b True by (auto simp: fs' fs_inv_def fs_shape_def index_ok_def blocks_ok_def)
    then show ?thesis using True fs' rel b gets by auto
  next
    case False
    then have fs': "fs' = fs\<lparr>fs_released_prior := (fs_released_prior fs)\<lparr>rp_keys := rp_keys (fs_released_prior fs) @ [?b]\<rparr>\<rparr>"
      "length (rp_keys (fs_released_prior fs)) < rp_capacity (fs_released_prior fs)"
      using release by (auto simp: release_def rp_put_def Let_def bind_eq_Some_conv)
    have "fs_inv fs'" using inv fs'(2) b False by (auto simp: fs'(1) fs_inv_def fs_shape_def index_ok_def blocks_ok_def)
    then show ?thesis using False fs' b gets by auto
  qed
qed

text \<open>The queries, over the sets of blocks.\<close>

lemma bs_get_eq: "bs_ok b \<Longrightarrow> bs_get b i = (if i < bs_bit_length b then Some (i \<in> bs_members b) else None)"
  by (auto simp: bs_get_correct) (simp add: bs_get_def ensure_def)

lemma is_free_eq: "fs_inv fs \<Longrightarrow> is_free fs a = (if 0 < a \<and> a \<le> block_total fs then Some (a - 1 \<notin> acquired_blocks fs) else None)"
  by (auto simp: is_free_def fs_inv_def fs_shape_def bs_get_eq ensure_def)

lemma is_released_eq: "fs_inv fs \<Longrightarrow>
    is_released fs a = (if 0 < a \<and> a \<le> block_total fs then Some (a - 1 \<in> prior_blocks fs \<union> released_blocks fs) else None)"
  using bs_members_bounded [of "a - 1" "fs_blocks_acquired fs"]
  by (auto simp: is_released_def fs_inv_def fs_shape_def blocks_ok_def rp_contains_def bs_get_eq ensure_def)

lemma to_be_freed_eq: "fs_inv fs \<Longrightarrow> to_be_freed_at_checkpoint_durability fs a =
    (if \<not> fs_checkpoint_durable fs \<and> is_free fs a = Some False then Some (a - 1 \<in> released_blocks fs) else None)"
  using bs_members_bounded [of "a - 1" "fs_blocks_acquired fs"]
  by (auto simp: to_be_freed_at_checkpoint_durability_def is_free_eq fs_inv_def fs_shape_def blocks_ok_def rp_contains_def bs_get_eq ensure_def Let_def)

lemma last_member: "bs_ok b \<Longrightarrow> map_option fst (bit_iter_next (bs_iter b KindSet IterReverse)) =
    Some (if bs_members b = {} then None else Some (Max (bs_members b)))"
proof -
  assume ok: "bs_ok b"
  have kind: "kind_holds b KindSet = (\<lambda>i. i \<in> bs_members b)" by (simp add: kind_holds_def fun_eq_iff)
  have "find (\<lambda>i. i \<in> A) (rev [0..<n]) = (if A = {} then None else Some (Max A))" if "A \<subseteq> {..<n}" for A :: "nat set" and n
    using that
  proof (induction n)
    case (Suc n)
    have fin: "finite A" using Suc.prems finite_subset by blast
    show ?case
    proof (cases "n \<in> A")
      case True
      then have "Max A = n" using Suc.prems fin by (intro Max_eqI) (auto simp: less_Suc_eq_le)
      then show ?thesis using True by auto
    next
      case False
      then have "A \<subseteq> {..<n}" using Suc.prems by (auto simp: less_Suc_eq)
      then show ?thesis using Suc.IH False by simp
    qed
  qed simp
  moreover have "bs_members b \<subseteq> {..<bs_bit_length b}" using bs_members_bounded by blast
  ultimately show ?thesis using bit_iter_next_reverse [of "bs_iter b KindSet IterReverse"] ok by (simp add: bs_iter_def kind)
qed

lemma highest_address_acquired_eq: "fs_inv fs \<Longrightarrow>
    highest_address_acquired fs = Some (if acquired_blocks fs = {} then None else Some (Max (acquired_blocks fs) + 1))"
  using last_member [of "fs_blocks_acquired fs"] bs_count_correct [of "fs_blocks_acquired fs"]
  by (auto simp: highest_address_acquired_def fs_inv_def fs_shape_def ensure_def split: if_splits)

text \<open>With every release staged for the next checkpoint the assertion of \<open>highest_address_released\<close> fails.\<close>

lemma highest_address_released_eq: "fs_inv fs \<Longrightarrow>
    highest_address_released fs = (if released_blocks fs \<noteq> {} then Some (Some (Max (released_blocks fs) + 1))
      else if prior_blocks fs = {} then Some None else None)"
  using last_member [of "fs_blocks_released fs"] bs_count_correct [of "fs_blocks_released fs"]
  by (auto simp: highest_address_released_def count_released_def rp_count_def fs_inv_def fs_shape_def ensure_def split: if_splits)

lemma release_needs:
  assumes inv: "fs_inv fs" and release: "release a fs = Some fs'"
  shows "is_free fs a = Some False" "is_released fs a = Some False"
    "fs_checkpoint_durable fs \<or> rp_count (fs_released_prior fs) < rp_capacity (fs_released_prior fs)"
  using release inv
  by (auto simp: release_def is_free_def is_released_def rp_put_def rp_count_def fs_inv_def Let_def bind_eq_Some_conv split: if_splits)

lemma release_total:
  assumes inv: "fs_inv fs" and a: "is_free fs a = Some False" "is_released fs a = Some False"
    "fs_checkpoint_durable fs \<or> rp_count (fs_released_prior fs) < rp_capacity (fs_released_prior fs)"
  shows "release a fs \<noteq> None"
proof -
  have oks: "bs_ok (fs_blocks_acquired fs)" "bs_ok (fs_blocks_released fs)" "bs_bit_length (fs_blocks_released fs) = block_total fs" "fs_opened fs"
    using inv by (simp_all add: fs_inv_def fs_shape_def)
  have gets: "bs_get (fs_blocks_acquired fs) (a - 1) = Some True" "0 < a" "bs_get (fs_blocks_released fs) (a - 1) = Some False"
    "\<not> rp_contains (fs_released_prior fs) (a - 1)"
    using a(1,2) oks(4) by (auto simp: is_free_def is_released_def bind_eq_Some_conv split: if_splits)
  have "a - 1 < bs_bit_length (fs_blocks_released fs)" using gets(3) by (auto simp: bs_get_def bind_eq_Some_conv)
  then obtain rel where "bs_set (fs_blocks_released fs) (a - 1) = Some rel" by (rule bs_set_correct [OF oks(2)])
  then show ?thesis using gets oks(4) a(3) by (auto simp: release_def rp_put_def rp_count_def Let_def)
qed

text \<open>A checkpoint cannot become durable while reservations are held and a block waits to be freed.\<close>

lemma checkpoint_needs_no_reservations:
  assumes inv: "fs_inv fs" and durable: "mark_checkpoint_durable fs = Some fs'"
  shows "\<not> fs_checkpoint_durable fs" "released_blocks fs = {} \<or> fs_reservation_count fs = 0 \<and> fs_reservation_blocks fs = 0"
proof -
  show "\<not> fs_checkpoint_durable fs" using durable by (auto simp: mark_checkpoint_durable_def bind_eq_Some_conv)
  have kind: "kind_holds (fs_blocks_released fs) KindSet = (\<lambda>b. b \<in> released_blocks fs)" by (simp add: kind_holds_def fun_eq_iff)
  have collect: "bit_iter_collect (bs_iter (fs_blocks_released fs) KindSet IterForward)
      = Some (filter (\<lambda>b. b \<in> released_blocks fs) [0..<bs_bit_length (fs_blocks_released fs)])"
    using inv bit_iter_collect_forward [of "bs_iter (fs_blocks_released fs) KindSet IterForward"]
    by (simp add: bs_iter_def fs_inv_def fs_shape_def kind)
  show "released_blocks fs = {} \<or> fs_reservation_count fs = 0 \<and> fs_reservation_blocks fs = 0"
  proof (cases "filter (\<lambda>b. b \<in> released_blocks fs) [0..<bs_bit_length (fs_blocks_released fs)]")
    case Nil
    then show ?thesis using bs_members_bounded [of _ "fs_blocks_released fs"] by (auto simp: filter_empty_conv)
  next
    case (Cons b bs)
    then obtain fs1 where "free_block (b + 1) (fs\<lparr>fs_checkpoint_durable := True\<rparr>) = Some fs1"
      using durable collect by (auto simp: mark_checkpoint_durable_def Let_def bind_eq_Some_conv)
    then show ?thesis by (auto simp: free_block_def Let_def bind_eq_Some_conv)
  qed
qed

lemma durable_keeps_ok:
  assumes ok: "fs_ok (fs, act)" and durable: "mark_checkpoint_durable fs = Some fs'"
  shows "fs_ok (fs', act) \<and> acquired_blocks fs' = acquired_blocks fs - released_blocks fs \<and> released_blocks fs' = prior_blocks fs \<and>
    prior_blocks fs' = {} \<and> fs_checkpoint_durable fs'"
proof -
  have inv: "fs_inv fs" and res: "reservations_ok fs act" using ok by (simp_all add: fs_ok_def)
  note can = checkpoint_needs_no_reservations [OF inv durable]
  obtain idx acq rel where fs': "fs' = fs\<lparr>fs_checkpoint_durable := True, fs_index := idx, fs_blocks_acquired := acq,
        fs_blocks_released := rel, fs_released_prior := (fs_released_prior fs)\<lparr>rp_keys := []\<rparr>\<rparr>" "fs_inv fs'"
      "bs_members acq = acquired_blocks fs - released_blocks fs" "bs_members rel = prior_blocks fs" "bs_bit_length acq = block_total fs"
    using checkpoint_correct [OF inv can] durable by auto
  have "reservations_ok fs' act"
  proof (cases "act = []")
    case True
    then show ?thesis using res by (simp add: reservations_ok_def fs'(1))
  next
    case False
    then have "released_blocks fs = {}" using can(2) res by (auto simp: reservations_ok_def)
    then show ?thesis using reservations_ok_cong [OF res, of fs'] fs'(3,5) by (simp add: fs'(1))
  qed
  then show ?thesis using fs' by (auto simp: fs_ok_def)
qed

lemma step_keeps_ok: "fs_step s l s' \<Longrightarrow> fs_ok s \<Longrightarrow> fs_ok s'"
proof (induction rule: fs_step.induct)
  case (reserved n fs r fs' act)
  then show ?case by (rule reserve_keeps_ok [rotated])
next
  case (not_reserved n fs fs' act)
  have "fs' = fs"
    using not_reserved.hyps by (auto simp: reserve_def Let_def bind_eq_Some_conv split: option.splits)
  then show ?case using not_reserved by simp
next
  case (acquired r fs a fs' us k vs)
  then show ?case by (rule acquire_keeps_ok [rotated])
next
  case (not_acquired r fs fs' k act)
  have "fs' = fs"
    using not_acquired.hyps by (auto simp: acquire_def Let_def bind_eq_Some_conv split: option.splits)
  then show ?case using not_acquired by simp
next
  case (forfeited r fs fs' us k vs)
  then show ?case by (rule forfeit_keeps_ok [rotated])
next
  case (released a fs fs' act)
  then have inv: "fs_inv fs" and res: "reservations_ok fs act" by (simp_all add: fs_ok_def)
  show ?case
    using release_correct [OF inv released.hyps] reservations_ok_cong [OF res, of fs'] by (auto simp: fs_ok_def split: if_splits)
next
  case (not_durable fs fs' act)
  then have fs': "fs' = fs\<lparr>fs_checkpoint_durable := False\<rparr>" by (auto simp: mark_checkpoint_not_durable_def bind_eq_Some_conv)
  then show ?case using not_durable.prems reservations_ok_cong [of fs act fs']
    by (auto simp: fs_ok_def fs_inv_def fs_shape_def index_ok_def blocks_ok_def)
next
  case (durable fs fs' act)
  then show ?case using durable_keeps_ok by blast
qed

lemma run_keeps_ok: "fs_run s ls s' \<Longrightarrow> fs_ok s \<Longrightarrow> fs_ok s'"
  by (induction rule: fs_run.induct) (auto dest: step_keeps_ok)

section \<open>A fresh free set\<close>

definition fresh_free_set :: "nat \<Rightarrow> nat \<Rightarrow> free_set option" where
  "fresh_free_set grid_size_limit prior_max = do { fs \<leftarrow> free_set_new grid_size_limit prior_max; free_set_open [] [] [] [] fs }"

definition new_state :: "nat \<Rightarrow> nat \<Rightarrow> free_set" where
  "new_state g p =
     (let blocks_count = block_count_max g
      in \<lparr>fs_opened = False, fs_checkpoint_durable = False, fs_index = bs_new_empty (blocks_count div SHARD_BITS),
        fs_blocks_count_limit = g div BLOCK_SIZE, fs_blocks_acquired = bs_new_empty blocks_count, fs_blocks_released = bs_new_empty blocks_count,
        fs_released_prior = rp_new (p + 2 * block_count_for_trailer_size (encode_size_max (blocks_count div WORD_BITS))),
        fs_reservation_blocks = 0, fs_reservation_count = 0, fs_reservation_state = Reserving, fs_reservation_session = 1\<rparr>)"

lemma SHARD_BITS_words: "SHARD_BITS = 64 * WORD_BITS"
  by (simp add: SHARD_BITS_def SHARD_CACHE_LINES_def CACHE_LINE_SIZE_def WORD_BITS_def)

lemma block_count_max_mod: "block_count_max g mod SHARD_BITS = 0" "block_count_max g mod WORD_BITS = 0"
proof -
  obtain k where k: "block_count_max g = k * SHARD_BITS" unfolding block_count_max_def Let_def by blast
  then show "block_count_max g mod SHARD_BITS = 0" by simp
  have "k * SHARD_BITS = k * 64 * WORD_BITS" by (simp add: SHARD_BITS_words)
  then show "block_count_max g mod WORD_BITS = 0" unfolding k by (metis mod_mult_self2_is_0)
qed

lemma free_set_new_correct: "free_set_new g p = Some (new_state g p)"
  using block_count_max_mod [of g]
  by (simp add: free_set_new_def new_state_def ensure_def bs_count_correct rp_count_def rp_new_def Let_def)

lemma free_set_new_shape: "fs_shape (new_state g p)" "index_ok (new_state g p)" "blocks_ok (new_state g p)"
proof -
  show "fs_shape (new_state g p)"
    using block_count_max_mod(1) [of g] by (simp add: new_state_def Let_def fs_shape_def)
      (metis div_mult_mod_eq add_0_right)
  have "shard * SHARD_BITS \<in> shard_blocks shard" for shard using SHARD_BITS_pos in_shard_blocks by auto
  then show "index_ok (new_state g p)" by (auto simp: new_state_def Let_def index_ok_def)
  show "blocks_ok (new_state g p)" by (simp add: new_state_def Let_def blocks_ok_def rp_new_def)
qed

lemma fresh_eq: "fresh_free_set g p = Some ((new_state g p)\<lparr>fs_opened := True\<rparr>)"
proof -
  have zero: "list_all (\<lambda>word. word = 0) (bs_words (fs_blocks_acquired (new_state g p)))" "list_all (\<lambda>word. word = 0) (bs_words (fs_blocks_released (new_state g p)))"
    by (simp_all add: new_state_def Let_def bs_new_empty_def list_all_iff)
  have opened: "\<not> fs_opened (new_state g p)" "\<not> fs_checkpoint_durable (new_state g p)" by (simp_all add: new_state_def Let_def)
  have put: "bitset_put kind (bs_words (bitset_of kind fs)) fs = fs" for kind fs by (cases kind) (simp_all add: bitset_put_def bitset_of_def)
  have decode: "fs_decode kind [] (new_state g p) = Some (new_state g p)" for kind
    using zero opened by (cases kind) (simp_all add: fs_decode_def decoder_new_def decoder_done_def put bitset_of_def flip: put, simp_all add: bitset_put_def)
  show ?thesis
    by (simp add: fresh_free_set_def free_set_new_correct free_set_open_def decode mark_released_def opened)
qed

lemma fresh_ok: "fresh_free_set g p = Some fs \<Longrightarrow> fs_ok (fs, []) \<and> acquired_blocks fs = {}"
  using free_set_new_shape [of g p]
  by (auto simp: fresh_eq fs_ok_def fs_inv_def fs_shape_def index_ok_def blocks_ok_def reservations_ok_def new_state_def Let_def)

lemma fresh_reserve:
  assumes "fresh_free_set g p = Some fs" "0 < n" "n \<le> g div BLOCK_SIZE"
  shows "reserve n fs = Some (Some \<lparr>rv_block_base = 0, rv_block_count = n, rv_session = 1\<rparr>, fs\<lparr>fs_reservation_blocks := n, fs_reservation_count := 1\<rparr>)"
proof -
  have fs: "fs = (new_state g p)\<lparr>fs_opened := True\<rparr>" using assms(1) by (simp add: fresh_eq)
  have inv: "fs_inv fs" "acquired_blocks fs = {}" using fresh_ok [OF assms(1)] by (simp_all add: fs_ok_def)
  have start: "fs_reservation_blocks fs = 0" "fs_reservation_count fs = 0" "fs_reservation_state fs = Reserving" "fs_reservation_session fs = 1"
    "fs_blocks_count_limit fs = g div BLOCK_SIZE" by (simp_all add: fs new_state_def Let_def)
  have "g div BLOCK_SIZE \<le> block_total fs"
    using ceil_div(1) [OF SHARD_BITS_pos, of "g div BLOCK_SIZE"] by (simp add: fs new_state_def block_count_max_def Let_def)
  then have "free_in fs 0 (block_total fs) = [0..<block_total fs]" "n \<le> block_total fs" using inv(2) assms(3) by (simp_all add: free_in_def)
  then show ?thesis using reserve_correct [OF inv(1) start(3) assms(2)] start assms(2,3) by (simp add: reservation_of_def Let_def)
qed

section \<open>What lasts until a checkpoint\<close>

text \<open>A property of a block that every step but \<open>Durable\<close> keeps lasts until the next checkpoint becomes durable.\<close>

locale kept_until_durable =
  fixes P :: "nat \<Rightarrow> free_set \<Rightarrow> bool"
  assumes step_keeps: "fs_ok s \<Longrightarrow> fs_step s l s' \<Longrightarrow> l \<noteq> Durable \<Longrightarrow> P b (fst s) \<Longrightarrow> P b (fst s')"
begin

lemma run_keeps: "fs_run s ls s' \<Longrightarrow> fs_ok s \<Longrightarrow> Durable \<notin> set ls \<Longrightarrow> P b (fst s) \<Longrightarrow> P b (fst s')"
  by (induction rule: fs_run.induct) (auto dest: step_keeps_ok step_keeps)

end

text \<open>What one step does to the three sets of blocks.\<close>

lemma step_sets:
  assumes "fs_step s l s'" "fs_ok s" "l \<noteq> Durable"
  shows "acquired_blocks (fst s) \<subseteq> acquired_blocks (fst s') \<and> released_blocks (fst s) \<subseteq> released_blocks (fst s') \<and>
    prior_blocks (fst s) \<subseteq> prior_blocks (fst s')"
  using assms
proof (cases rule: fs_step.cases)
  case (reserved n fs r fs' act)
  then show ?thesis by (auto simp: reserve_def Let_def bind_eq_Some_conv split: option.splits)
next
  case (not_reserved n fs fs' act)
  then show ?thesis by (auto simp: reserve_def Let_def bind_eq_Some_conv split: option.splits)
next
  case (acquired r fs a fs' us k vs)
  then have inv: "fs_inv fs" and r: "reservation_ok r fs" using assms(2) entry_reservation_ok [of fs "us @ (r, k) # vs" r k] by (auto simp: fs_ok_def)
  show ?thesis using acquire_correct [OF inv r] acquired by (cases "free_of r fs") auto
next
  case (not_acquired r fs fs' k act)
  then show ?thesis by (auto simp: acquire_def Let_def bind_eq_Some_conv split: option.splits)
next
  case (forfeited r fs fs' us k vs)
  then show ?thesis by (auto simp: forfeit_def Let_def bind_eq_Some_conv split: if_splits)
next
  case (released a fs fs' act)
  then have "fs_inv fs" using assms(2) by (simp add: fs_ok_def)
  from release_correct [OF this released(4)] show ?thesis using released by (auto split: if_splits)
next
  case (not_durable fs fs' act)
  then show ?thesis by (auto simp: mark_checkpoint_not_durable_def bind_eq_Some_conv)
qed simp

interpretation acquired_kept: kept_until_durable "\<lambda>b fs. b \<in> acquired_blocks fs"
  by unfold_locales (use step_sets in blast)

interpretation released_kept: kept_until_durable "\<lambda>b fs. b \<in> released_blocks fs"
  by unfold_locales (use step_sets in blast)

interpretation prior_kept: kept_until_durable "\<lambda>b fs. b \<in> prior_blocks fs"
  by unfold_locales (use step_sets in blast)

lemma run_split_durable:
  "fs_run s ls s' \<Longrightarrow> Durable \<in> set ls \<Longrightarrow>
    \<exists>us vs t t'. ls = us @ Durable # vs \<and> Durable \<notin> set us \<and> fs_run s us t \<and> fs_step t Durable t' \<and> fs_run t' vs s'"
proof (induction rule: fs_run.induct)
  case (run_Cons s l s1 ls s2)
  show ?case
  proof (cases "l = Durable")
    case True
    then show ?thesis using run_Cons.hyps run_Nil by (intro exI [of _ "[]"] exI [of _ ls] exI [of _ s] exI [of _ s1]) simp
  next
    case False
    then obtain us vs t t' where "ls = us @ Durable # vs" "Durable \<notin> set us" "fs_run s1 us t" "fs_step t Durable t'" "fs_run t' vs s2"
      using run_Cons by auto
    then show ?thesis using False run_Cons.hyps(1) fs_run.run_Cons
      by (intro exI [of _ "l # us"] exI [of _ vs] exI [of _ t] exI [of _ t']) auto
  qed
qed simp

text \<open>With \<open>m\<close> more checkpoints to become durable before the block is free.\<close>

definition waits :: "nat \<Rightarrow> nat \<Rightarrow> free_set \<Rightarrow> bool" where
  "waits m b fs \<longleftrightarrow> (m = 1 \<and> b \<in> released_blocks fs) \<or> (m = 2 \<and> b \<in> prior_blocks fs)"

lemma waits_acquired: "fs_inv fs \<Longrightarrow> waits m b fs \<Longrightarrow> b \<in> acquired_blocks fs"
  by (auto simp: waits_def fs_inv_def blocks_ok_def)

lemma waits_kept: "fs_run s ls s' \<Longrightarrow> fs_ok s \<Longrightarrow> Durable \<notin> set ls \<Longrightarrow> waits m b (fst s) \<Longrightarrow> waits m b (fst s')"
  unfolding waits_def using released_kept.run_keeps prior_kept.run_keeps by blast

lemma durable_step:
  assumes "fs_step s Durable s'" "fs_ok s"
  shows "acquired_blocks (fst s') = acquired_blocks (fst s) - released_blocks (fst s)" "released_blocks (fst s') = prior_blocks (fst s)"
proof -
  obtain fs act fs' where s: "s = (fs, act)" "s' = (fs', act)" "mark_checkpoint_durable fs = Some fs'"
    using assms(1) by (auto elim: fs_step_cases)
  then show "acquired_blocks (fst s') = acquired_blocks (fst s) - released_blocks (fst s)" "released_blocks (fst s') = prior_blocks (fst s)"
    using durable_keeps_ok [of fs act fs'] assms(2) by simp_all
qed

lemma waits_run:
  assumes "fs_run s ls s'" "fs_ok s" "waits m b (fst s)" "count_list ls Durable < m"
  shows "waits (m - count_list ls Durable) b (fst s')"
proof (cases "Durable \<in> set ls")
  case False
  then show ?thesis using waits_kept [OF assms(1,2) False assms(3)] by (simp add: count_list_0_iff)
next
  case True
  then obtain us vs t t' where split: "ls = us @ Durable # vs" "Durable \<notin> set us" "fs_run s us t" "fs_step t Durable t'" "fs_run t' vs s'"
    using run_split_durable [OF assms(1)] by blast
  have count: "count_list ls Durable = count_list vs Durable + 1" using split(1,2) by (simp add: count_list_0_iff)
  then have m: "m = 2" "count_list vs Durable = 0" using assms(3,4) by (auto simp: waits_def)
  have ok: "fs_ok t" "fs_ok t'" using run_keeps_ok [OF split(3) assms(2)] step_keeps_ok [OF split(4)] by blast+
  have "waits 2 b (fst t)" using waits_kept [OF split(3) assms(2) split(2)] assms(3) m by simp
  then have "waits 1 b (fst t')" using durable_step(2) [OF split(4) ok(1)] by (simp add: waits_def)
  then have "waits 1 b (fst s')" using waits_kept [OF split(5) ok(2)] m(2) by (simp add: count_list_0_iff)
  then show ?thesis using m count by simp
qed

text \<open>A first block: reserved, acquired and released again.\<close>

lemma first_block:
  obtains fs0 fs act a fs1 r where "fresh_free_set (4096 * BLOCK_SIZE) 0 = Some fs0" "fs_run (fs0, []) [Reserve 1, Acquire r (Some a)] (fs, act)"
    "release a fs = Some fs1" "\<not> fs_checkpoint_durable fs" "released_blocks fs = {}"
proof -
  obtain fs0 where fs0: "fresh_free_set (4096 * BLOCK_SIZE) 0 = Some fs0" by (simp add: fresh_eq)
  define fs1 where "fs1 = fs0\<lparr>fs_reservation_blocks := 1, fs_reservation_count := 1\<rparr>"
  define r :: reservation where "r = \<lparr>rv_block_base = 0, rv_block_count = 1, rv_session = 1\<rparr>"
  have reserve: "reserve 1 fs0 = Some (Some r, fs1)" using fresh_reserve [OF fs0, of 1] by (simp add: BLOCK_SIZE_def fs1_def r_def)
  have ok0: "fs_ok (fs0, [])" and free0: "acquired_blocks fs0 = {}" using fresh_ok [OF fs0] by simp_all
  have ok1: "fs_ok (fs1, [(r, 1)])" using reserve_keeps_ok [OF ok0 reserve] by simp
  then have inv1: "fs_inv fs1" by (simp add: fs_ok_def)
  have "free_of r fs1 = [0]" by (simp add: free_of_def free_in_def r_def fs1_def free0)
  then obtain acq idx where acquire: "acquire r fs1 = Some (Some 1, fs1\<lparr>fs_blocks_acquired := acq, fs_index := idx\<rparr>)"
    "bs_members acq = {0}" "fs_inv (fs1\<lparr>fs_blocks_acquired := acq, fs_index := idx\<rparr>)"
    using acquire_correct [OF inv1 entry_reservation_ok [OF ok1, of r 1]] by (auto simp: fs1_def free0)
  define fs2 where "fs2 = fs1\<lparr>fs_blocks_acquired := acq, fs_index := idx\<rparr>"
  have inv2: "fs_inv fs2" and acq2: "acquired_blocks fs2 = {0}" using acquire by (simp_all add: fs2_def)
  have empty: "released_blocks fs2 = {}" "rp_keys (fs_released_prior fs2) = []" "\<not> fs_checkpoint_durable fs2" "0 < rp_capacity (fs_released_prior fs2)"
    using fs0 by (auto simp: fs2_def fs1_def fresh_eq new_state_def Let_def rp_new_def block_count_for_trailer_size_def BLOCK_SIZE_def
        encode_size_max_def block_count_max_def SHARD_BITS_words WORD_BITS_def WORD_BYTES_def MARKER_LITERAL_WORD_COUNT_MAX_def)
  have "0 < block_total fs2" using acq2 bs_members_bounded [of 0 "fs_blocks_acquired fs2"] by simp
  then have "release 1 fs2 \<noteq> None"
    using inv2 acq2 empty by (intro release_total) (simp_all add: is_free_def is_released_def rp_contains_def rp_count_def fs_inv_def fs_shape_def)
  then obtain fs3 where "release 1 fs2 = Some fs3" by blast
  moreover have "fs_run (fs0, []) [Reserve 1, Acquire r (Some 1)] (fs2, [] @ (r, 1 - 1) # [])"
    using reserved [OF reserve, of "[]"] acquired [OF acquire(1), of "[]" 1 "[]"] by (auto simp: fs2_def intro: run_Cons run_Nil)
  ultimately show ?thesis using that fs0 empty(1,3) by blast
qed

section \<open>Properties\<close>

text \<open>C10. A reservation keeps its promise under every interleaving: as long as a job has acquired fewer blocks than it reserved, an
  acquire with its reservation returns the first free block of its range: the block was free, every block of the range
  before it is acquired, and no other active reservation covers it. It takes that block and no other.\<close>

theorem reservation_guarantee:
  assumes "fresh_free_set g p = Some fs0" "fs_run (fs0, []) ls (fs, us @ (r, k) # vs)" "0 < k"
  shows "\<exists>a fs'. acquire r fs = Some (Some a, fs') \<and> 0 < a \<and> is_free fs a = Some True \<and> is_free fs' a = Some False \<and>
    rv_block_base r \<le> a - 1 \<and> a - 1 < rv_block_base r + rv_block_count r \<and>
    (\<forall>b. rv_block_base r < b \<and> b < a \<longrightarrow> is_free fs b = Some False) \<and> (\<forall>b. b \<noteq> a \<longrightarrow> is_free fs' b = is_free fs b) \<and>
    (\<forall>(r', k') \<in> set (us @ vs). a - 1 < rv_block_base r' \<or> rv_block_base r' + rv_block_count r' \<le> a - 1)"
proof -
  have ok: "fs_ok (fs, us @ (r, k) # vs)" using run_keeps_ok [OF assms(2)] fresh_ok [OF assms(1)] by simp
  then have inv: "fs_inv fs" and res: "reservations_ok fs (us @ (r, k) # vs)" by (simp_all add: fs_ok_def)
  have "k \<le> length (free_of r fs)" using res by (simp add: reservations_ok_def entry_ok_def)
  then obtain b bs where free: "free_of r fs = b # bs" using assms(3) by (cases "free_of r fs") auto
  have r: "reservation_ok r fs" by (rule entry_reservation_ok [OF ok, of r k]) simp
  obtain acq idx where acquire: "acquire r fs = Some (Some (b + 1), fs\<lparr>fs_blocks_acquired := acq, fs_index := idx\<rparr>)"
    "bs_members acq = insert b (acquired_blocks fs)" "fs_inv (fs\<lparr>fs_blocks_acquired := acq, fs_index := idx\<rparr>)"
    using acquire_correct [OF inv r] free by auto
  define fs' where "fs' = fs\<lparr>fs_blocks_acquired := acq, fs_index := idx\<rparr>"
  have inv': "fs_inv fs'" and total: "block_total fs' = block_total fs" and acq: "acquired_blocks fs' = insert b (acquired_blocks fs)"
    using acquire(2,3) inv by (simp_all add: fs'_def fs_inv_def fs_shape_def)
  note first = free_of_first [OF free]
  have "b < block_total fs" using first(2) r by (simp add: reservation_ok_def)
  then have "is_free fs (b + 1) = Some True" "is_free fs' (b + 1) = Some False" using first(3) acq total by (simp_all add: is_free_eq inv inv')
  moreover have "\<forall>c. rv_block_base r < c \<and> c < b + 1 \<longrightarrow> is_free fs c = Some False"
    using first(4) \<open>b < block_total fs\<close> by (auto simp: is_free_eq inv)
  moreover have "\<forall>c. c \<noteq> b + 1 \<longrightarrow> is_free fs' c = is_free fs c" using acq total by (auto simp: is_free_eq inv inv')
  moreover have "\<forall>(r', k') \<in> set (us @ vs). b < rv_block_base r' \<or> rv_block_base r' + rv_block_count r' \<le> b"
    using res first(1,2) by (fastforce simp: reservations_ok_def sorted_wrt_append before_def)
  ultimately show ?thesis using acquire(1) first(1,2) by (intro exI [of _ "b + 1"] exI [of _ fs']) (simp add: fs'_def)
qed

theorem reservation_guarantee_witness:
  "\<exists>fs0 fs r fs'. fresh_free_set (4096 * BLOCK_SIZE) 0 = Some fs0 \<and> fs_run (fs0, []) [Reserve 2] (fs, [(r, 2)]) \<and>
    acquire r fs = Some (Some 1, fs') \<and> is_free fs 1 = Some True \<and> is_free fs' 1 = Some False \<and> is_free fs' 2 = Some True"
proof -
  obtain fs0 where fs0: "fresh_free_set (4096 * BLOCK_SIZE) 0 = Some fs0" by (simp add: fresh_eq)
  define r :: reservation where "r = \<lparr>rv_block_base = 0, rv_block_count = 2, rv_session = 1\<rparr>"
  define fs where "fs = fs0\<lparr>fs_reservation_blocks := 2, fs_reservation_count := 1\<rparr>"
  have reserve: "reserve 2 fs0 = Some (Some r, fs)" using fresh_reserve [OF fs0, of 2] by (simp add: BLOCK_SIZE_def r_def fs_def)
  have run: "fs_run (fs0, []) [Reserve 2] (fs, [] @ (r, 2) # [])" using run_Cons [OF reserved [OF reserve] run_Nil, of "[]"] by simp
  have ok: "fs_ok (fs, [(r, 2)])" using run_keeps_ok [OF run] fresh_ok [OF fs0] by simp
  then have inv: "fs_inv fs" and room: "2 \<le> block_total fs" by (simp_all add: fs_ok_def reservations_ok_def fs_def)
  have "acquired_blocks fs = {}" using fresh_ok [OF fs0] by (simp add: fs_def)
  then have free: "is_free fs 1 = Some True" "is_free fs 2 = Some True" using room by (simp_all add: is_free_eq [OF inv])
  obtain a fs' where a: "acquire r fs = Some (Some a, fs')" "0 < a" "is_free fs' a = Some False"
    "\<forall>b. 0 < b \<and> b < a \<longrightarrow> is_free fs b = Some False" "\<forall>b. b \<noteq> a \<longrightarrow> is_free fs' b = is_free fs b"
    using reservation_guarantee [OF fs0 run] by (auto simp: r_def)
  have "a = 1" using a(2,4) free(1) by (cases "a = 1") auto
  then show ?thesis using fs0 run a(1,3,5) free by (intro exI [of _ fs0] exI [of _ fs] exI [of _ r] exI [of _ fs']) simp
qed

text \<open>C11. A released block survives the checkpoints that may still need it: it stays acquired until the next checkpoint becomes durable,
  or, when it was released while the current one was not durable yet, until the one after that, whatever happens in
  between; and that checkpoint frees it.\<close>

theorem released_block_survives:
  assumes "fresh_free_set g p = Some fs0" "fs_run (fs0, []) ls (fs, act)" "release a fs = Some fs1" "fs_run (fs1, act) ls' (fs2, act')"
    "count_list ls' Durable < (if fs_checkpoint_durable fs then 1 else 2)"
  shows "is_free fs2 a = Some False \<and>
    (count_list ls' Durable + 1 = (if fs_checkpoint_durable fs then 1 else 2) \<longrightarrow>
     (\<forall>fs3. mark_checkpoint_durable fs2 = Some fs3 \<longrightarrow> is_free fs3 a = Some True))"
proof -
  let ?m = "if fs_checkpoint_durable fs then 1 else 2 :: nat"
  have ok: "fs_ok (fs, act)" using run_keeps_ok [OF assms(2)] fresh_ok [OF assms(1)] by simp
  then have inv: "fs_inv fs" by (simp add: fs_ok_def)
  have ok1: "fs_ok (fs1, act)" using step_keeps_ok [OF released [OF assms(3)] ok] .
  have a: "0 < a" "waits ?m (a - 1) fs1" using release_correct [OF inv assms(3)] by (auto simp: waits_def split: if_splits)
  have w: "waits (?m - count_list ls' Durable) (a - 1) fs2" using waits_run [OF assms(4) ok1 _ assms(5)] a by simp
  have ok2: "fs_ok (fs2, act')" by (rule run_keeps_ok [OF assms(4) ok1])
  then have inv2: "fs_inv fs2" by (simp add: fs_ok_def)
  have acq: "a - 1 \<in> acquired_blocks fs2" by (rule waits_acquired [OF inv2 w])
  have free2: "is_free fs2 a = Some False"
    using inv2 acq a(1) bs_members_bounded [OF acq] by (simp add: is_free_def fs_inv_def fs_shape_def)
  have "is_free fs3 a = Some True" if last: "count_list ls' Durable + 1 = ?m" and fs3: "mark_checkpoint_durable fs2 = Some fs3" for fs3
  proof -
    have "a - 1 \<in> released_blocks fs2" using w last by (auto simp: waits_def split: if_splits)
    moreover have d: "acquired_blocks fs3 = acquired_blocks fs2 - released_blocks fs2" "fs_inv fs3" "block_total fs3 = block_total fs2"
      using durable_keeps_ok [OF ok2 fs3] checkpoint_correct [OF inv2 checkpoint_needs_no_reservations [OF inv2 fs3]] fs3
      by (auto simp: fs_ok_def)
    ultimately show ?thesis using a(1) bs_members_bounded [OF acq] by (simp add: is_free_def fs_inv_def fs_shape_def)
  qed
  then show ?thesis using free2 by blast
qed

theorem released_block_survives_witness:
  "\<exists>fs0 ls fs act a fs1. fresh_free_set (4096 * BLOCK_SIZE) 0 = Some fs0 \<and> fs_run (fs0, []) ls (fs, act) \<and> release a fs = Some fs1 \<and>
    is_free fs1 a = Some False"
proof -
  obtain fs0 fs act a fs1 r where block: "fresh_free_set (4096 * BLOCK_SIZE) 0 = Some fs0" "fs_run (fs0, []) [Reserve 1, Acquire r (Some a)] (fs, act)"
    "release a fs = Some fs1" "\<not> fs_checkpoint_durable fs" by (rule first_block)
  then show ?thesis using released_block_survives [OF block(1-3) run_Nil] by auto
qed

text \<open>C32. \<open>reserve\<close> is exact: the reservation starts where the last one ended, covers precisely the requested number of free
  blocks and stays below the storage limit, and it is refused only when fewer such blocks are left.\<close>

theorem reserve_exact:
  assumes "fresh_free_set g p = Some fs0" "fs_run (fs0, []) ls (fs, act)" "is_reserving fs" "0 < n"
  shows "\<exists>r fs'. reserve n fs = Some (r, fs') \<and>
    (case r of Some r \<Rightarrow> rv_block_base r = fs_reservation_blocks fs \<and> length (free_of r fs) = n \<and>
        rv_block_base r + rv_block_count r \<le> fs_blocks_count_limit fs
      | None \<Rightarrow> fs' = fs \<and> length (filter (\<lambda>b. b < fs_blocks_count_limit fs) (free_in fs (fs_reservation_blocks fs) (block_total fs))) < n)"
proof -
  have ok: "fs_ok (fs, act)" using run_keeps_ok [OF assms(2)] fresh_ok [OF assms(1)] by simp
  have inv: "fs_inv fs" and le: "fs_reservation_blocks fs \<le> block_total fs" using ok by (simp_all add: fs_ok_def reservations_ok_def)
  have state: "fs_reservation_state fs = Reserving" using assms(3) by (simp add: is_reserving_def)
  let ?F = "free_in fs (fs_reservation_blocks fs) (block_total fs)" and ?limit = "fs_blocks_count_limit fs"
  note reserve = reserve_correct [OF inv state assms(4) le]
  show ?thesis
  proof (cases "n \<le> length ?F \<and> ?F ! (n - 1) < ?limit")
    case True
    let ?r = "\<lparr>rv_block_base = fs_reservation_blocks fs, rv_block_count = ?F ! (n - 1) + 1 - fs_reservation_blocks fs, rv_session = fs_reservation_session fs\<rparr>"
    have "?F ! (n - 1) \<in> set ?F" using True assms(4) by (intro nth_mem) linarith
    then have "fs_reservation_blocks fs \<le> ?F ! (n - 1)" unfolding free_in_bounds by simp
    then have bounds: "rv_block_base ?r + rv_block_count ?r = ?F ! (n - 1) + 1" by simp
    have "length (free_of ?r fs) = n"
      using free_in_upto_nth [OF assms(4), of fs "fs_reservation_blocks fs" "block_total fs"] True unfolding free_of_def bounds by simp
    then show ?thesis using reserve True bounds by (simp add: reservation_of_def Let_def)
  next
    case False
    have "length (filter (\<lambda>b. b < ?limit) ?F) < n"
    proof (cases "n \<le> length ?F")
      case True
      then have limit: "?limit \<le> ?F ! (n - 1)" using False by simp
      have "?limit \<le> b" if b: "b \<in> set (drop (n - 1) ?F)" for b
      proof -
        have "n - 1 \<le> length ?F" using True by linarith
        then obtain j where "j < length ?F - (n - 1)" "b = ?F ! (n - 1 + j)" using b by (auto simp: in_set_conv_nth)
        moreover from this have "?F ! (n - 1) \<le> ?F ! (n - 1 + j)" using free_in_sorted by (intro sorted_nth_mono) auto
        ultimately show ?thesis using limit by simp
      qed
      then have "filter (\<lambda>b. b < ?limit) (drop (n - 1) ?F) = []" by (auto simp: filter_empty_conv not_less)
      then have "filter (\<lambda>b. b < ?limit) ?F = filter (\<lambda>b. b < ?limit) (take (n - 1) ?F)"
        by (metis append_take_drop_id append_Nil2 filter_append)
      also have "length \<dots> \<le> n - 1" by (rule le_trans [OF length_filter_le]) simp
      finally show ?thesis using assms(4) by simp
    next
      case False
      then show ?thesis using length_filter_le [of "\<lambda>b. b < ?limit" ?F] by linarith
    qed
    moreover have "reservation_of n fs = None" using False by (auto simp: reservation_of_def Let_def)
    ultimately show ?thesis using reserve by simp
  qed
qed

theorem reserve_exact_witness:
  "\<exists>fs0 r fs'. fresh_free_set (4096 * BLOCK_SIZE) 0 = Some fs0 \<and> reserve 7 fs0 = Some (Some r, fs') \<and> length (free_of r fs0) = 7"
proof -
  obtain fs0 where fs0: "fresh_free_set (4096 * BLOCK_SIZE) 0 = Some fs0" by (simp add: fresh_eq)
  then have "is_reserving fs0" by (auto simp: fresh_eq new_state_def is_reserving_def Let_def)
  then show ?thesis using fs0 reserve_exact [OF fs0 run_Nil, of 7] fresh_reserve [OF fs0, of 7] by (auto simp: BLOCK_SIZE_def)
qed

text \<open>C33. When the calls of an open free set panic, in any state it can reach: a reservation needs the reserving phase and a positive
  count, a release an acquired and unreleased block and room in the staged list, the checkpoint transitions
  alternate (and the durable one must not free a block while reservations are held), the address queries an address
  of the grid; acquiring and forfeiting with an active reservation, the counts, the highest acquired address, the
  encoded size and the reset always return. \<open>highest_address_released\<close> panics, although its documentation
  does not say so, exactly when releases are staged for the next checkpoint and none is due at this one. The trailer codec
  (\<open>open\<close>, \<open>decode_chunks\<close>, \<open>encode_chunks\<close>) is not covered here.\<close>

theorem free_set_panics_exactly:
  assumes "fresh_free_set g p = Some fs0" "fs_run (fs0, []) ls (fs, act)"
  shows "(reserve n fs \<noteq> None \<longleftrightarrow> is_reserving fs \<and> 0 < n) \<and>
    (\<forall>(r, k) \<in> set act. acquire r fs \<noteq> None \<and> forfeit r fs \<noteq> None) \<and>
    (release a fs \<noteq> None \<longleftrightarrow> is_free fs a = Some False \<and> is_released fs a = Some False \<and>
      (fs_checkpoint_durable fs \<or> rp_count (fs_released_prior fs) < rp_capacity (fs_released_prior fs))) \<and>
    (mark_checkpoint_not_durable fs \<noteq> None \<longleftrightarrow> fs_checkpoint_durable fs) \<and>
    (mark_checkpoint_durable fs \<noteq> None \<longleftrightarrow> \<not> fs_checkpoint_durable fs \<and> (act = [] \<or> bs_count (fs_blocks_released fs) = 0)) \<and>
    (is_free fs a \<noteq> None \<longleftrightarrow> 0 < a \<and> a \<le> block_total fs) \<and> (is_released fs a \<noteq> None \<longleftrightarrow> 0 < a \<and> a \<le> block_total fs) \<and>
    (to_be_freed_at_checkpoint_durability fs a \<noteq> None \<longleftrightarrow> \<not> fs_checkpoint_durable fs \<and> is_free fs a = Some False) \<and>
    count_reservations fs \<noteq> None \<and> count_free fs \<noteq> None \<and> count_acquired fs \<noteq> None \<and> count_released fs \<noteq> None \<and>
    highest_address_acquired fs \<noteq> None \<and> fs_encode_size_max fs \<noteq> None \<and> free_set_reset fs \<noteq> None \<and>
    (highest_address_released fs = None \<longleftrightarrow> bs_count (fs_blocks_released fs) = 0 \<and> 0 < rp_count (fs_released_prior fs))"
proof -
  have ok: "fs_ok (fs, act)" using run_keeps_ok [OF assms(2)] fresh_ok [OF assms(1)] by simp
  then have inv: "fs_inv fs" and res: "reservations_ok fs act" by (simp_all add: fs_ok_def)
  have le: "fs_reservation_blocks fs \<le> block_total fs" using res by (simp add: reservations_ok_def)
  have released: "bs_count (fs_blocks_released fs) = 0 \<longleftrightarrow> released_blocks fs = {}"
    using inv by (simp add: bs_count_correct fs_inv_def fs_shape_def)
  have opened: "fs_opened fs" using inv by (simp add: fs_inv_def)
  have reserve: "reserve n fs \<noteq> None \<longleftrightarrow> is_reserving fs \<and> 0 < n"
  proof
    show "is_reserving fs \<and> 0 < n" if "reserve n fs \<noteq> None" using that by (auto simp: reserve_def is_reserving_def ensure_def split: if_splits)
    show "reserve n fs \<noteq> None" if "is_reserving fs \<and> 0 < n" using that reserve_correct [OF inv _ _ le] by (simp add: is_reserving_def)
  qed
  have active: "\<forall>(r, k) \<in> set act. acquire r fs \<noteq> None \<and> forfeit r fs \<noteq> None"
  proof safe
    fix r k assume "(r, k) \<in> set act"
    then have r: "reservation_ok r fs" by (rule entry_reservation_ok [OF ok])
    show "\<exists>x. acquire r fs = Some x" using acquire_correct [OF inv r] by (cases "free_of r fs") auto
    show "\<exists>x. forfeit r fs = Some x" using r inv by (simp add: forfeit_def reservation_ok_def fs_inv_def Let_def)
  qed
  have release: "release a fs \<noteq> None \<longleftrightarrow> is_free fs a = Some False \<and> is_released fs a = Some False \<and>
      (fs_checkpoint_durable fs \<or> rp_count (fs_released_prior fs) < rp_capacity (fs_released_prior fs))"
    using release_total [OF inv, of a] release_needs [OF inv, of a] by blast
  have not_durable: "mark_checkpoint_not_durable fs \<noteq> None \<longleftrightarrow> fs_checkpoint_durable fs"
    using inv by (auto simp: mark_checkpoint_not_durable_def fs_inv_def rp_count_def ensure_def)
  have durable: "mark_checkpoint_durable fs \<noteq> None \<longleftrightarrow> \<not> fs_checkpoint_durable fs \<and> (act = [] \<or> released_blocks fs = {})"
    using checkpoint_correct [OF inv] checkpoint_needs_no_reservations [OF inv] res by (fastforce simp: reservations_ok_def)
  have sizes: "fs_encode_size_max fs \<noteq> None" "free_set_reset fs \<noteq> None"
    using inv by (simp_all add: fs_encode_size_max_def free_set_reset_def fs_inv_def fs_shape_def bs_count_correct rp_count_def SHARD_BITS_words ensure_def Let_def)
  have counts: "count_reservations fs \<noteq> None" "count_free fs \<noteq> None" "count_acquired fs \<noteq> None" "count_released fs \<noteq> None"
    using opened by (simp_all add: count_reservations_def count_free_def count_acquired_def count_released_def)
  have addresses: "is_free fs a \<noteq> None \<longleftrightarrow> 0 < a \<and> a \<le> block_total fs" "is_released fs a \<noteq> None \<longleftrightarrow> 0 < a \<and> a \<le> block_total fs"
    "to_be_freed_at_checkpoint_durability fs a \<noteq> None \<longleftrightarrow> \<not> fs_checkpoint_durable fs \<and> is_free fs a = Some False"
    by (simp_all add: is_free_eq [OF inv] is_released_eq [OF inv] to_be_freed_eq [OF inv])
  have highest: "highest_address_acquired fs \<noteq> None"
    "highest_address_released fs = None \<longleftrightarrow> released_blocks fs = {} \<and> 0 < rp_count (fs_released_prior fs)"
    by (simp_all add: highest_address_acquired_eq [OF inv] highest_address_released_eq [OF inv] rp_count_def)
  show ?thesis unfolding released
    by (intro conjI reserve active release not_durable durable addresses counts highest sizes)
qed

text \<open>One block, acquired and released before the first checkpoint is durable: asking for the highest released address panics.\<close>

theorem free_set_panics_exactly_witness:
  "\<exists>fs0 ls fs act. fresh_free_set (4096 * BLOCK_SIZE) 0 = Some fs0 \<and> fs_run (fs0, []) ls (fs, act) \<and>
    highest_address_released fs = None \<and> mark_checkpoint_durable fs \<noteq> None \<and> mark_checkpoint_not_durable fs = None \<and> count_released fs \<noteq> None"
proof -
  obtain fs0 fs act a fs1 r where block: "fresh_free_set (4096 * BLOCK_SIZE) 0 = Some fs0" "fs_run (fs0, []) [Reserve 1, Acquire r (Some a)] (fs, act)"
    "release a fs = Some fs1" "\<not> fs_checkpoint_durable fs" "released_blocks fs = {}" by (rule first_block)
  have inv: "fs_inv fs" using run_keeps_ok [OF block(2)] fresh_ok [OF block(1)] by (simp add: fs_ok_def)
  have run: "fs_run (fs0, []) ([Reserve 1, Acquire r (Some a)] @ [Release a]) (fs1, act)"
    by (rule run_append [OF block(2)]) (use released [OF block(3)] in \<open>auto intro: run_Cons run_Nil\<close>)
  have fs1: "fs1 = fs\<lparr>fs_released_prior := (fs_released_prior fs)\<lparr>rp_keys := rp_keys (fs_released_prior fs) @ [a - 1]\<rparr>\<rparr>"
    using release_correct [OF inv block(3)] block(4) by simp
  have "bs_count (fs_blocks_released fs1) = 0" "0 < rp_count (fs_released_prior fs1)" "\<not> fs_checkpoint_durable fs1"
    using inv block(4,5) by (simp_all add: fs1 bs_count_correct rp_count_def fs_inv_def fs_shape_def)
  then have "highest_address_released fs1 = None" "mark_checkpoint_durable fs1 \<noteq> None" "mark_checkpoint_not_durable fs1 = None" "count_released fs1 \<noteq> None"
    using free_set_panics_exactly [OF block(1) run, of 1 1] by simp_all
  then show ?thesis using block(1) run by blast
qed

end
