(* ===== verification/FreeSetOpen.thy ===== *)
theory FreeSetOpen
  imports FreeSetRun
begin

text \<open>
  Opening a free set from its checkpoint trailers. \<open>open\<close> decodes the two bitsets with \<open>decode\<close> and not with
  \<open>decode_chunks\<close>, so the index of full shards is not rebuilt: a shard that was full before the restart keeps
  an index bit of zero, and the verification of the index in \<open>mark_checkpoint_durable\<close> panics.
\<close>

section \<open>Decoding keeps the size of a bit set\<close>

lemma put_words_length: "put_words ws d = Some d' \<Longrightarrow> length (de_target_words d') = length (de_target_words d)"
  by (auto simp: put_words_def bind_eq_Some_conv)

lemma decode_loop_length: "decode_loop ws d = Some d' \<Longrightarrow> length (de_target_words d') = length (de_target_words d)"
proof (induction ws d arbitrary: d' rule: decode_loop.induct)
  case (2 word ws d)
  let ?m = "marker_unpack word"
  let ?n = "min (unat (mk_literal_word_count ?m)) (length ws)"
  obtain d1 d2 where steps: "ensure (de_source_literal_words d = 0) = Some ()"
    "put_words (replicate (unat (mk_uniform_word_count ?m)) (if mk_uniform_bit ?m = 1 then -1 else 0)) d = Some d1"
    "put_words (take ?n ws) d1 = Some d2"
    "decode_loop (drop ?n ws) (d2\<lparr>de_source_literal_words := unat (mk_literal_word_count ?m) - ?n\<rparr>) = Some d'"
    using "2.prems" unfolding decode_loop.simps(2) Let_def by (auto simp: bind_eq_Some_conv)
  show ?case using "2.IH" [OF steps(1) refl steps(2) refl refl steps(3) steps(4)] put_words_length [OF steps(2)] put_words_length [OF steps(3)] by simp
qed (simp add: decode_loop.simps)

lemma decode_each_length: "decode_each chunks n d = Some (m, d') \<Longrightarrow> length (de_target_words d') = length (de_target_words d)"
proof (induction chunks arbitrary: n d)
  case (Cons chunk chunks)
  then obtain k d1 where d1: "decode_chunk chunk d = Some (k, d1)" "decode_each chunks (n + k) d1 = Some (m, d')" by (auto simp: bind_eq_Some_conv)
  have "length (de_target_words d1) = length (de_target_words d)"
    using d1(1) by (auto simp: decode_chunk_def decode_words_def bind_eq_Some_conv Let_def dest!: put_words_length decode_loop_length)
  then show ?case using Cons.IH [OF d1(2)] by simp
qed simp

lemma fs_decode_words: "fs_decode kind chunks fs = Some fs' \<Longrightarrow>
    \<exists>words. fs' = bitset_put kind words fs \<and> length words = length (bs_words (bitset_of kind fs))"
  by (auto simp: fs_decode_def bind_eq_Some_conv Let_def decoder_new_def dest!: decode_each_length)

lemma bs_ok_aligned: "bs_bit_length b mod WORD_BITS = 0 \<Longrightarrow> bs_ok b \<longleftrightarrow> length (bs_words b) = bs_bit_length b div WORD_BITS"
proof -
  assume "bs_bit_length b mod WORD_BITS = 0"
  then obtain k where k: "bs_bit_length b = k * WORD_BITS" by (metis div_mult_mod_eq add_0_right)
  have pos: "0 < WORD_BITS" by (simp add: WORD_BITS_def)
  then have "(k * WORD_BITS + WORD_BITS - 1) div WORD_BITS = k"
    using ceil_div(1,2) [OF pos, of "k * WORD_BITS"] by (metis le_antisym mult_le_cancel2 order_refl)
  then show ?thesis using k pos by (auto simp: bs_ok_def)
qed

lemma fs_decode_shape:
  assumes "fs_shape fs" "fs_decode kind chunks fs = Some fs'"
  shows "fs_shape fs' \<and> fs_index fs' = fs_index fs"
proof -
  have "block_total fs = bs_bit_length (fs_index fs) * 64 * WORD_BITS" using assms(1) by (simp add: fs_shape_def SHARD_BITS_words)
  then have aligned: "block_total fs mod WORD_BITS = 0" by simp
  obtain words where "fs' = bitset_put kind words fs" "length words = length (bs_words (bitset_of kind fs))" using fs_decode_words [OF assms(2)] by blast
  then show ?thesis using assms(1) aligned by (cases kind) (auto simp: fs_shape_def bitset_put_def bitset_of_def bs_ok_aligned)
qed

section \<open>What the operations do to the index, whatever it was\<close>

lemma bs_set_Some:
  assumes "bs_ok b" "bs_set b i = Some b'"
  shows "i < bs_bit_length b" "bs_ok b'" "bs_bit_length b' = bs_bit_length b" "bs_members b' = insert i (bs_members b)"
proof -
  show i: "i < bs_bit_length b" using assms(2) by (auto simp: bs_set_def bs_update_def bind_eq_Some_conv)
  show "bs_ok b'" "bs_bit_length b' = bs_bit_length b" "bs_members b' = insert i (bs_members b)"
    by (rule bs_set_correct [OF assms(1) i], use assms(2) in simp)+
qed

lemma bs_unset_Some:
  assumes "bs_ok b" "bs_unset b i = Some b'"
  shows "bs_ok b'" "bs_bit_length b' = bs_bit_length b" "bs_members b' = bs_members b - {i}"
proof -
  have i: "i < bs_bit_length b" using assms(2) by (auto simp: bs_unset_def bs_update_def bind_eq_Some_conv)
  show "bs_ok b'" "bs_bit_length b' = bs_bit_length b" "bs_members b' = bs_members b - {i}"
    by (rule bs_unset_correct [OF assms(1) i], use assms(2) in simp)+
qed

lemma mark_released_index:
  assumes "mark_released_from previous addresses fs = Some fs'" "fs_shape fs"
  shows "fs_shape fs' \<and> bs_bit_length (fs_index fs') = bs_bit_length (fs_index fs) \<and>
    bs_members (fs_index fs') \<subseteq> bs_members (fs_index fs) \<union> (\<lambda>a. (a - 1) div SHARD_BITS) ` set addresses"
  using assms
proof (induction addresses arbitrary: previous fs)
  case (Cons a addresses)
  let ?b = "a - 1"
  obtain acq fs1 prior where step: "bs_set (fs_blocks_acquired fs) ?b = Some acq"
    "update_index (?b div SHARD_BITS) (fs\<lparr>fs_blocks_acquired := acq\<rparr>) = Some fs1"
    "mark_released_from a addresses (fs1\<lparr>fs_released_prior := prior\<rparr>) = Some fs'"
    using Cons.prems(1) by (auto simp: bind_eq_Some_conv Let_def)
  have ok: "bs_ok (fs_blocks_acquired fs)" using Cons.prems(2) by (simp add: fs_shape_def)
  note set = bs_set_Some [OF ok step(1)]
  have shape1: "fs_shape (fs\<lparr>fs_blocks_acquired := acq\<rparr>)" using Cons.prems(2) set by (simp add: fs_shape_def)
  have shard: "?b div SHARD_BITS < bs_bit_length (fs_index (fs\<lparr>fs_blocks_acquired := acq\<rparr>))" using shard_of_block [OF Cons.prems(2) set(1)] by simp
  obtain idx where idx: "update_index (?b div SHARD_BITS) (fs\<lparr>fs_blocks_acquired := acq\<rparr>) = Some (fs\<lparr>fs_blocks_acquired := acq\<rparr>\<lparr>fs_index := idx\<rparr>)"
    "bs_ok idx" "bs_bit_length idx = bs_bit_length (fs_index (fs\<lparr>fs_blocks_acquired := acq\<rparr>))"
    "bs_members idx = bs_members (fs_index (fs\<lparr>fs_blocks_acquired := acq\<rparr>)) \<union>
       {s. s = ?b div SHARD_BITS \<and> shard_blocks (?b div SHARD_BITS) \<subseteq> acquired_blocks (fs\<lparr>fs_blocks_acquired := acq\<rparr>)}"
    by (rule update_index_correct [OF shape1 shard])
  have fs1: "fs1 = fs\<lparr>fs_blocks_acquired := acq, fs_index := idx\<rparr>" using step(2) idx(1) by simp
  have shape2: "fs_shape (fs1\<lparr>fs_released_prior := prior\<rparr>)" using shape1 idx(2,3) by (simp add: fs1 fs_shape_def)
  show ?case using Cons.IH [OF step(3) shape2] idx(3,4) by (auto simp: fs1)
qed simp

lemma free_blocks_index:
  "free_blocks addresses fs = Some fs' \<Longrightarrow> fs_shape fs \<Longrightarrow>
    fs_shape fs' \<and> bs_bit_length (fs_index fs') = bs_bit_length (fs_index fs) \<and> bs_members (fs_index fs') \<subseteq> bs_members (fs_index fs) \<and>
    acquired_blocks fs - (\<lambda>a. a - 1) ` set addresses \<subseteq> acquired_blocks fs'"
proof (induction addresses arbitrary: fs)
  case (Cons a addresses)
  obtain fs1 where fs1: "free_block a fs = Some fs1" "free_blocks addresses fs1 = Some fs'" using Cons.prems(1) by (auto simp: bind_eq_Some_conv)
  obtain idx acq rel where unset: "bs_unset (fs_index fs) ((a - 1) div SHARD_BITS) = Some idx" "bs_unset (fs_blocks_acquired fs) (a - 1) = Some acq"
    "bs_unset (fs_blocks_released fs) (a - 1) = Some rel" "fs1 = fs\<lparr>fs_index := idx, fs_blocks_acquired := acq, fs_blocks_released := rel\<rparr>"
    using fs1(1) by (auto simp: free_block_def Let_def bind_eq_Some_conv)
  have oks: "bs_ok (fs_index fs)" "bs_ok (fs_blocks_acquired fs)" "bs_ok (fs_blocks_released fs)" using Cons.prems(2) by (simp_all add: fs_shape_def)
  note sets = bs_unset_Some [OF oks(1) unset(1)] bs_unset_Some [OF oks(2) unset(2)] bs_unset_Some [OF oks(3) unset(3)]
  have "fs_shape fs1" using Cons.prems(2) sets unset(4) by (simp add: fs_shape_def)
  from Cons.IH [OF fs1(2) this] show ?case using sets unset(4) by auto
qed simp

lemma move_prior_index:
  "move_prior fs = Some fs' \<Longrightarrow> fs_shape fs \<Longrightarrow>
    fs_shape fs' \<and> fs_index fs' = fs_index fs \<and> fs_blocks_acquired fs' = fs_blocks_acquired fs"
proof (induction fs rule: move_prior.induct)
  case (1 fs)
  show ?case
  proof (cases "rp_pop (fs_released_prior fs)")
    case (Pair item prior)
    show ?thesis
    proof (cases item)
      case None
      then show ?thesis using "1.prems" Pair by (subst (asm) move_prior.simps) (auto simp: fs_shape_def)
    next
      case (Some b)
      then obtain rel where rel: "bs_set (fs_blocks_released fs) b = Some rel"
        "move_prior (fs\<lparr>fs_released_prior := prior, fs_blocks_released := rel\<rparr>) = Some fs'"
        using "1.prems"(1) Pair by (subst (asm) move_prior.simps) (auto simp: bind_eq_Some_conv)
      have ok: "bs_ok (fs_blocks_released fs)" using "1.prems"(2) by (simp add: fs_shape_def)
      have "fs_shape (fs\<lparr>fs_released_prior := prior, fs_blocks_released := rel\<rparr>)"
        using "1.prems"(2) bs_set_Some [OF ok rel(1)] by (simp add: fs_shape_def)
      then show ?thesis using "1.IH" [OF Pair [symmetric] Some rel(1) rel(2)] by simp
    qed
  qed
qed

section \<open>The index after a restart\<close>

lemma stale_index_panics:
  assumes shape: "fs_shape fs" and full: "shard_blocks shard \<subseteq> acquired_blocks fs" and stale: "shard \<notin> bs_members (fs_index fs)"
    and kept: "shard_blocks shard \<inter> released_blocks fs = {}"
  shows "mark_checkpoint_durable fs = None"
proof (rule ccontr)
  assume "mark_checkpoint_durable fs \<noteq> None"
  then obtain released fs2 fs3 where run: "bit_iter_collect (bs_iter (fs_blocks_released fs) KindSet IterForward) = Some released"
    "free_blocks (map (\<lambda>block. block + 1) released) (fs\<lparr>fs_checkpoint_durable := True\<rparr>) = Some fs2" "move_prior fs2 = Some fs3"
    "verify_index fs3 = Some ()"
    by (auto simp: mark_checkpoint_durable_def Let_def bind_eq_Some_conv)
  have kind: "kind_holds (fs_blocks_released fs) KindSet = (\<lambda>b. b \<in> released_blocks fs)" by (simp add: kind_holds_def fun_eq_iff)
  have "released = filter (\<lambda>b. b \<in> released_blocks fs) [0..<bs_bit_length (fs_blocks_released fs)]"
    using run(1) shape bit_iter_collect_forward [of "bs_iter (fs_blocks_released fs) KindSet IterForward"] by (simp add: bs_iter_def fs_shape_def kind)
  then have released: "set released \<subseteq> released_blocks fs" by auto
  have shape1: "fs_shape (fs\<lparr>fs_checkpoint_durable := True\<rparr>)" using shape by (simp add: fs_shape_def)
  note two = free_blocks_index [OF run(2) shape1]
  note three = move_prior_index [OF run(3) conjunct1 [OF two]]
  have "(\<lambda>a. a - 1) ` set (map (\<lambda>block. block + 1) released) = set released" by (force simp: image_iff)
  then have "acquired_blocks fs - set released \<subseteq> acquired_blocks fs3" using two three by simp
  then have still: "shard_blocks shard \<subseteq> acquired_blocks fs3" using full kept released by blast
  have "shard * SHARD_BITS \<in> shard_blocks shard" by (simp add: in_shard_blocks)
  then have "shard * SHARD_BITS < block_total fs" using full bs_members_bounded by blast
  then have "shard < bs_bit_length (fs_index fs)" using shape by (simp add: fs_shape_def)
  then have "shard < bs_bit_length (fs_index fs3)" "shard \<notin> bs_members (fs_index fs3)" using two three stale by auto
  then have "\<not> index_ok fs3" using still unfolding index_ok_def by blast
  then show False using run(4) verify_index_correct [of fs3] three by simp
qed

text \<open>\<open>decode_chunks\<close>, which \<open>open\<close> does not call, leaves an index that agrees with the shards.\<close>

lemma decode_chunks_index_ok: "fs_decode_chunks ea er fs = Some fs' \<Longrightarrow> fs_shape fs' \<Longrightarrow> index_ok fs'"
  using verify_index_correct [of fs'] by (auto simp: fs_decode_chunks_def bind_eq_Some_conv split: if_splits)

lemma new_index_empty: "bs_members (fs_index (new_state g p)) = {}"
  by (simp add: new_state_def Let_def)

text \<open>C34. A free set opened from checkpoint trailers does not survive its first durable checkpoint when some shard was full before the
  restart, unless a block of the shard is freed by that checkpoint or holds the trailers: the index bit of
  the shard is never set, and the verification of the index panics.\<close>

theorem open_full_shard_panics:
  assumes "free_set_new g p = Some f" "free_set_open ea er aa ar f = Some fs" "shard_blocks shard \<subseteq> acquired_blocks fs"
    "\<forall>a \<in> set aa \<union> set ar. (a - 1) div SHARD_BITS \<noteq> shard" "shard_blocks shard \<inter> released_blocks fs = {}"
  shows "mark_checkpoint_durable fs = None"
proof -
  have f: "f = new_state g p" "fs_shape f" using assms(1) free_set_new_shape by (auto simp: free_set_new_correct)
  obtain f1 f2 f3 f4 where steps: "fs_decode BlocksAcquired ea f = Some f1" "fs_decode BlocksReleased er f1 = Some f2"
    "mark_released_from 0 aa f2 = Some f3" "mark_released_from 0 ar f3 = Some f4" "fs = f4\<lparr>fs_opened := True\<rparr>"
    using assms(2) by (auto simp: free_set_open_def mark_released_def bind_eq_Some_conv Let_def)
  note one = fs_decode_shape [OF f(2) steps(1)]
  note two = fs_decode_shape [OF conjunct1 [OF one] steps(2)]
  note three = mark_released_index [OF steps(3) conjunct1 [OF two]]
  note four = mark_released_index [OF steps(4) conjunct1 [OF three]]
  have "fs_shape fs" using four steps(5) by (simp add: fs_shape_def)
  moreover have "bs_members (fs_index f2) = {}" using one two f(1) new_index_empty by simp
  then have "bs_members (fs_index f4) \<subseteq> (\<lambda>a. (a - 1) div SHARD_BITS) ` (set aa \<union> set ar)" using three four by blast
  then have "shard \<notin> bs_members (fs_index fs)" using assms(4) steps(5) by auto
  ultimately show ?thesis using stale_index_panics assms(3,5) by blast
qed

section \<open>A concrete restart\<close>

text \<open>Two shards, the first one full: one marker of 64 words of ones; the trailer is in the first block of the second.\<close>

definition full_shard_trailer :: "u8 list" where "full_shard_trailer = [129, 0, 0, 0, 0, 0, 0, 0]"

lemma decode_full_shard: "decode_each [full_shard_trailer] 0 (decoder_new (replicate 128 0) 8) =
   Some (64, \<lparr>de_source_size_remaining = 0, de_target_words = replicate 64 (-1) @ replicate 64 0, de_target_index = 64, de_source_literal_words = 0\<rparr>)"
proof -
  have words: "bytes_to_words full_shard_trailer = [129]"
    by (simp add: bytes_to_words_def full_shard_trailer_def as_chunks.simps WORD_BYTES_def)
  have marker: "marker_unpack 129 = \<lparr>mk_uniform_bit = 1, mk_uniform_word_count = 64, mk_literal_word_count = 0\<rparr>"
    by (simp add: marker_unpack_def)
  have "replicate 128 (0 :: u64) = replicate 64 0 @ replicate 64 0" by (simp flip: replicate_add)
  then show ?thesis
    by (simp add: decode_chunk_def words decode_words_def decoder_new_def decode_loop.simps marker put_words_def Let_def)
      (simp add: full_shard_trailer_def WORD_BYTES_def)
qed

lemma full_words_members:
  assumes "fs = (new_state (8192 * BLOCK_SIZE) 0)\<lparr>fs_blocks_acquired := \<lparr>bs_words = replicate 64 (-1) @ replicate 64 0, bs_bit_length = 8192\<rparr>\<rparr>"
  shows "fs_shape fs" "acquired_blocks fs = {..<4096}" "released_blocks fs = {}"
proof -
  have max: "block_count_max (8192 * BLOCK_SIZE) = 8192"
    by (simp add: block_count_max_def BLOCK_SIZE_def SHARD_BITS_words WORD_BITS_def)
  show "released_blocks fs = {}" by (simp add: assms new_state_def Let_def)
  have "bs_bit \<lparr>bs_words = replicate 64 (-1) @ replicate 64 0, bs_bit_length = 8192\<rparr> i \<longleftrightarrow> i < 4096" if "i < 8192" for i
  proof -
    have "i div 64 < 128" "i div 64 < 64 \<longleftrightarrow> i < 4096" using that by auto
    then show ?thesis by (auto simp: bs_bit_def WORD_BITS_def nth_append)
  qed
  then show "acquired_blocks fs = {..<4096}" by (auto simp: assms bs_members_def)
  show "fs_shape fs" using free_set_new_shape(1) [of "8192 * BLOCK_SIZE" 0]
    by (simp add: assms fs_shape_def bs_ok_aligned new_state_def Let_def max SHARD_BITS_words WORD_BITS_def)
qed

theorem open_full_shard_panics_witness:
  "\<exists>f fs. free_set_new (8192 * BLOCK_SIZE) 0 = Some f \<and> free_set_open [full_shard_trailer] [] [4097] [] f = Some fs \<and>
    mark_checkpoint_durable fs = None"
proof -
  let ?f = "new_state (8192 * BLOCK_SIZE) 0"
  define f1 where "f1 = ?f\<lparr>fs_blocks_acquired := \<lparr>bs_words = replicate 64 (-1) @ replicate 64 0, bs_bit_length = 8192\<rparr>\<rparr>"
  have max: "block_count_max (8192 * BLOCK_SIZE) = 8192"
    by (simp add: block_count_max_def BLOCK_SIZE_def SHARD_BITS_words WORD_BITS_def)
  have f1: "fs_shape f1" "acquired_blocks f1 = {..<4096}" "released_blocks f1 = {}" using full_words_members by (simp_all add: f1_def)
  have flags: "\<not> fs_opened f1" "\<not> fs_checkpoint_durable f1" "rp_keys (fs_released_prior f1) = []" "rp_capacity (fs_released_prior f1) = 2"
    by (simp_all add: f1_def new_state_def Let_def rp_new_def max)
      (simp add: block_count_for_trailer_size_def encode_size_max_def BLOCK_SIZE_def WORD_BITS_def WORD_BYTES_def MARKER_LITERAL_WORD_COUNT_MAX_def)
  have zeros: "bs_words (fs_blocks_acquired ?f) = replicate 128 0" "bs_words (fs_blocks_released f1) = replicate 128 0"
    "bs_bit_length (fs_blocks_acquired ?f) = 8192" "\<not> fs_opened ?f" "\<not> fs_checkpoint_durable ?f"
    by (simp_all add: f1_def new_state_def Let_def max bs_new_empty_def WORD_BITS_def)
  have size: "sum_list (map length [full_shard_trailer]) = 8" by (simp add: full_shard_trailer_def)
  have put: "bitset_put BlocksAcquired (replicate 64 (-1) @ replicate 64 0) ?f = f1"
    using zeros(3) by (simp add: bitset_put_def f1_def new_state_def Let_def bs_new_empty_def max)
  have decode1: "fs_decode BlocksAcquired [full_shard_trailer] ?f = Some f1"
    unfolding fs_decode_def Let_def size
    by (simp add: zeros bitset_of_def decode_full_shard decoder_done_def put WORD_BITS_def list_all_iff del: decode_each.simps)
  have decode2: "fs_decode BlocksReleased [] f1 = Some f1"
    using zeros(2) flags(1,2) by (simp add: fs_decode_def bitset_of_def decoder_new_def decoder_done_def bitset_put_def list_all_iff)
  have total: "4096 < block_total f1" by (simp add: f1_def)
  obtain acq idx where taken: "bs_set (fs_blocks_acquired f1) 4096 = Some acq"
    "update_index (4096 div SHARD_BITS) (f1\<lparr>fs_blocks_acquired := acq\<rparr>) = Some (f1\<lparr>fs_blocks_acquired := acq, fs_index := idx\<rparr>)"
    "bs_members acq = insert 4096 (acquired_blocks f1)"
  proof -
    have ok: "bs_ok (fs_blocks_acquired f1)" using f1(1) by (simp add: fs_shape_def)
    obtain acq where acq: "bs_set (fs_blocks_acquired f1) 4096 = Some acq" "bs_ok acq" "bs_bit_length acq = block_total f1"
      "bs_members acq = insert 4096 (acquired_blocks f1)" by (rule bs_set_correct [OF ok total])
    have shape: "fs_shape (f1\<lparr>fs_blocks_acquired := acq\<rparr>)" using f1(1) acq by (simp add: fs_shape_def)
    have shard: "4096 div SHARD_BITS < bs_bit_length (fs_index (f1\<lparr>fs_blocks_acquired := acq\<rparr>))" using shard_of_block [OF f1(1) total] by simp
    obtain idx where "update_index (4096 div SHARD_BITS) (f1\<lparr>fs_blocks_acquired := acq\<rparr>) = Some (f1\<lparr>fs_blocks_acquired := acq\<rparr>\<lparr>fs_index := idx\<rparr>)"
      by (rule update_index_correct [OF shape shard])
    then show ?thesis using that acq by simp
  qed
  define fs where "fs = f1\<lparr>fs_blocks_acquired := acq, fs_index := idx, fs_released_prior := \<lparr>rp_keys = [4096], rp_capacity = 2\<rparr>, fs_opened := True\<rparr>"
  have gets: "bs_get (fs_blocks_acquired f1) 4096 = Some False" "bs_get (fs_blocks_released f1) 4096 = Some False"
    using f1 total by (simp_all add: fs_shape_def)
  have marked: "mark_released_from 0 [4097] f1 = Some (f1\<lparr>fs_blocks_acquired := acq, fs_index := idx, fs_released_prior := \<lparr>rp_keys = [4096], rp_capacity = 2\<rparr>\<rparr>)"
    using taken gets flags(3,4) by (cases "fs_released_prior f1") (simp add: rp_contains_def rp_put_def)
  have none: "mark_released_from 0 [] g = Some g" for g by simp
  have "free_set_open [full_shard_trailer] [] [4097] [] ?f = Some fs"
    using zeros(4) flags(1,2) by (simp add: free_set_open_def decode1 decode2 mark_released_def marked none fs_def del: mark_released_from.simps)
  moreover have "shard_blocks 0 \<subseteq> acquired_blocks fs" "\<forall>a \<in> set [4097] \<union> set []. (a - 1) div SHARD_BITS \<noteq> (0 :: nat)"
    "shard_blocks 0 \<inter> released_blocks fs = {}"
    using f1 taken by (auto simp: fs_def shard_blocks_def SHARD_BITS_words WORD_BITS_def)
  ultimately show ?thesis using open_full_shard_panics [of "8192 * BLOCK_SIZE" 0 ?f "[full_shard_trailer]" "[]" "[4097]" "[]" fs 0]
    by (auto simp: free_set_new_correct)
qed

end
