(* ===== verification/MultiBatch.thy ===== *)
theory MultiBatch
  imports Wire
begin

text \<open>
  The multi-batch format of \<open>tigerbeetle-vsr/src/multi_batch.rs\<close>: several batches of one operation in one message body,
  the payloads back to back, then a trailer with one element count per batch, last batch first, and a
  postamble with the number of batches. The inner option of a decoding step is the \<open>Result\<close> (\<open>None\<close> is
  \<open>MultiBatchInvalid\<close>), the outer one a panic.
\<close>

section \<open>Sizes\<close>

definition POSTAMBLE_SIZE :: nat where "POSTAMBLE_SIZE = 2"
definition TRAILER_ITEM_SIZE :: nat where "TRAILER_ITEM_SIZE = 2"
definition BATCH_COUNT_MAX :: nat where "BATCH_COUNT_MAX = 65534"

definition is_power_of_two :: "nat \<Rightarrow> bool" where
  "is_power_of_two n \<longleftrightarrow> n \<in> set (map (\<lambda>k. 2 ^ k) [0..<32])"

definition multi_batch_count_max :: "nat \<Rightarrow> nat \<Rightarrow> nat option" where
  "multi_batch_count_max batch_size_min batch_size_limit =
     do { ensure (batch_size_limit > POSTAMBLE_SIZE);
          Some (min ((batch_size_limit - POSTAMBLE_SIZE) div (batch_size_min + TRAILER_ITEM_SIZE)) BATCH_COUNT_MAX) }"

definition trailer_total_size :: "nat \<Rightarrow> nat \<Rightarrow> nat option" where
  "trailer_total_size element_size batch_count =
     do { ensure (batch_count > 0);
          ensure (batch_count \<le> BATCH_COUNT_MAX);
          ensure (element_size = 0 \<or> is_power_of_two element_size);
          let trailer_unpadded_size = batch_count * TRAILER_ITEM_SIZE + POSTAMBLE_SIZE;
          Some (if element_size = 0 then trailer_unpadded_size
                else (trailer_unpadded_size + element_size - 1) div element_size * element_size) }"

definition read_u16 :: "u8 list \<Rightarrow> nat" where
  "read_u16 bytes = unat (le_word bytes :: u16)"

section \<open>Decoding\<close>

record multi_decoder =
  md_payload :: "u8 list"
  md_trailer_items :: "u8 list"
  md_payload_index :: nat
  md_batch_index :: nat
  md_element_size :: nat

text \<open>The \<open>?\<close> operator, and the suffix of \<open>counter\<close> bytes before the \<open>parsed\<close> ones.\<close>

definition try_bind :: "'a option \<Rightarrow> ('a \<Rightarrow> 'b option option) \<Rightarrow> 'b option option" where
  "try_bind r f = (case r of None \<Rightarrow> Some None | Some x \<Rightarrow> f x)"

definition take_suffix :: "u8 list \<Rightarrow> nat \<Rightarrow> nat \<Rightarrow> (nat \<times> u8 list) option" where
  "take_suffix body parsed counter =
     (if length body - parsed < counter then None
      else Some (parsed + counter, take counter (drop (length body - (parsed + counter)) body)))"

fun count_events :: "nat \<Rightarrow> u8 list list \<Rightarrow> nat option" where
  "count_events counter [] = Some counter"
| "count_events counter (item # items) =
     (if counter + read_u16 item < 2 ^ 32 then count_events (counter + read_u16 item) items else None)"

definition multi_decoder_new :: "u8 list \<Rightarrow> nat \<Rightarrow> multi_decoder option option" where
  "multi_decoder_new body element_size =
     do { ensure (element_size = 0 \<or> is_power_of_two element_size);
          try_bind (take_suffix body 0 POSTAMBLE_SIZE) (\<lambda>(parsed, postamble).
          let batch_count = read_u16 postamble
          in if batch_count = 0 then Some None
          else if BATCH_COUNT_MAX < batch_count then Some None
          else
            do { trailer_size \<leftarrow> trailer_total_size element_size batch_count;
                 try_bind (take_suffix body parsed (batch_count * TRAILER_ITEM_SIZE)) (\<lambda>(parsed, trailer_items).
                 do { ensure (parsed \<le> trailer_size);
                      try_bind (take_suffix body parsed (trailer_size - parsed)) (\<lambda>(parsed, trailer_items_padding).
                      if \<not> list_all (\<lambda>byte. byte = 255) trailer_items_padding then Some None
                      else try_bind (count_events 0 (as_chunks TRAILER_ITEM_SIZE trailer_items)) (\<lambda>events_count_total.
                      if element_size = 0 \<and> events_count_total \<noteq> 0 then Some None
                      else if \<not> events_count_total * element_size < 2 ^ 32 then Some None
                      else
                        do { let payload_size = events_count_total * element_size;
                             let trailer_padding_size = payload_size mod TRAILER_ITEM_SIZE;
                             ensure (trailer_padding_size < TRAILER_ITEM_SIZE);
                             ensure (trailer_padding_size = 0 \<or> element_size = 1);
                             try_bind (take_suffix body parsed trailer_padding_size) (\<lambda>(parsed, trailer_padding).
                             if \<not> list_all (\<lambda>byte. byte = 255) trailer_padding then Some None
                             else if payload_size \<noteq> length body - parsed then Some None
                             else Some (Some \<lparr>md_payload = take payload_size body, md_trailer_items = trailer_items,
                               md_payload_index = 0, md_batch_index = 0, md_element_size = element_size\<rparr>)) })) }) }) }"

definition multi_decoder_reset :: "multi_decoder \<Rightarrow> multi_decoder" where
  "multi_decoder_reset d = d\<lparr>md_payload_index := 0, md_batch_index := 0\<rparr>"

definition batch_items :: "multi_decoder \<Rightarrow> nat" where
  "batch_items d = length (md_trailer_items d) div TRAILER_ITEM_SIZE"

definition multi_batch_count :: "multi_decoder \<Rightarrow> nat option" where
  "multi_batch_count d = do { ensure (batch_items d \<le> BATCH_COUNT_MAX); Some (batch_items d) }"

definition multi_peek :: "multi_decoder \<Rightarrow> u8 list option" where
  "multi_peek d =
     do { ensure (md_trailer_items d \<noteq> []);
          ensure (md_batch_index d < batch_items d);
          ensure (md_payload_index d \<le> length (md_payload d));
          let item_index = batch_items d - md_batch_index d - 1;
          item \<leftarrow> slice_at (md_trailer_items d) (item_index * TRAILER_ITEM_SIZE) TRAILER_ITEM_SIZE;
          let element_count = read_u16 item;
          if element_count = 0 then Some []
          else
            do { ensure (md_payload_index d < length (md_payload d));
                 let batch_size = element_count * md_element_size d;
                 slice \<leftarrow> slice_at (md_payload d) (md_payload_index d) batch_size;
                 ensure (slice \<noteq> []);
                 ensure (md_element_size d \<noteq> 0);
                 ensure (length slice mod md_element_size d = 0);
                 Some slice } }"

definition multi_pop :: "multi_decoder \<Rightarrow> (u8 list option \<times> multi_decoder) option" where
  "multi_pop d =
     do { ensure (md_trailer_items d \<noteq> []);
          if md_batch_index d = batch_items d
          then do { ensure (md_payload_index d = length (md_payload d)); Some (None, d) }
          else
            do { batch_item \<leftarrow> multi_peek d;
                 let d = d\<lparr>md_batch_index := md_batch_index d + 1, md_payload_index := md_payload_index d + length batch_item\<rparr>;
                 ensure (md_batch_index d \<le> batch_items d);
                 ensure (md_payload_index d \<le> length (md_payload d));
                 Some (Some batch_item, d) } }"

section \<open>Encoding\<close>

record multi_encoder =
  me_buffer :: "u8 list option"
  me_batch_count :: nat
  me_buffer_index :: nat
  me_element_size :: nat

definition multi_encoder_new :: "u8 list \<Rightarrow> nat \<Rightarrow> multi_encoder option" where
  "multi_encoder_new buffer element_size =
     do { ensure (element_size = 0 \<or> is_power_of_two element_size);
          trailer_size_min \<leftarrow> trailer_total_size element_size 1;
          ensure (trailer_size_min \<le> length buffer);
          let aligned_len = length buffer - length buffer mod TRAILER_ITEM_SIZE;
          Some \<lparr>me_buffer = Some (take aligned_len buffer), me_batch_count = 0, me_buffer_index = 0, me_element_size = element_size\<rparr> }"

definition multi_encoder_reset :: "multi_encoder \<Rightarrow> multi_encoder option" where
  "multi_encoder_reset e = do { ensure (me_buffer e \<noteq> None); Some (e\<lparr>me_batch_count := 0, me_buffer_index := 0\<rparr>) }"

text \<open>\<open>writable\<close>: start and length of the slice handed out, if there is room for one more batch.\<close>

definition writable :: "multi_encoder \<Rightarrow> (nat \<times> nat) option option" where
  "writable e =
     (if me_batch_count e = BATCH_COUNT_MAX then Some None
      else
        do { ensure (me_batch_count e < BATCH_COUNT_MAX);
             ensure (me_element_size e > 0 \<or> me_buffer_index e = 0);
             ensure (me_element_size e = 0 \<or> me_buffer_index e mod me_element_size e = 0);
             trailer_size \<leftarrow> trailer_total_size (me_element_size e) (me_batch_count e + 1);
             buffer \<leftarrow> me_buffer e;
             if length buffer < me_buffer_index e + trailer_size then Some None
             else if me_element_size e = 0 then Some (Some (0, 0))
             else
               let size = length buffer - trailer_size - me_buffer_index e
               in Some (Some (me_buffer_index e, size - size mod me_element_size e)) })"

definition put_bytes :: "nat \<Rightarrow> u8 list \<Rightarrow> u8 list \<Rightarrow> u8 list option" where
  "put_bytes index bytes buffer =
     do { ensure (index + length bytes \<le> length buffer);
          Some (take index buffer @ bytes @ drop (index + length bytes) buffer) }"

definition multi_add :: "nat \<Rightarrow> multi_encoder \<Rightarrow> multi_encoder option" where
  "multi_add bytes_written e =
     do { ensure (me_batch_count e < BATCH_COUNT_MAX);
          written_element_count \<leftarrow>
            (if me_element_size e = 0
             then do { ensure (me_buffer_index e = 0); ensure (bytes_written = 0); Some 0 }
             else do { ensure (bytes_written mod me_element_size e = 0);
                       ensure (bytes_written div me_element_size e < 2 ^ 16);
                       Some (bytes_written div me_element_size e) });
          let e = e\<lparr>me_batch_count := me_batch_count e + 1, me_buffer_index := me_buffer_index e + bytes_written\<rparr>;
          buffer \<leftarrow> me_buffer e;
          ensure (me_buffer_index e < length buffer);
          trailer_size \<leftarrow> trailer_total_size (me_element_size e) (me_batch_count e);
          ensure (me_buffer_index e + trailer_size \<le> length buffer);
          let trailer_items_end = length buffer - POSTAMBLE_SIZE;
          let trailer_items_start = length buffer - trailer_size;
          let trailer_items_len = (trailer_items_end - trailer_items_start) div TRAILER_ITEM_SIZE;
          ensure (me_batch_count e \<le> trailer_items_len);
          let item_index = trailer_items_len - me_batch_count e;
          buffer \<leftarrow> put_bytes (trailer_items_start + item_index * TRAILER_ITEM_SIZE)
            (le_bytes TRAILER_ITEM_SIZE (of_nat written_element_count :: u16)) buffer;
          Some (e\<lparr>me_buffer := Some buffer\<rparr>) }"

text \<open>\<open>finish\<close>: the number of bytes written, the buffer they are the front of, and the encoder, whose buffer is taken. \<open>constants.VERIFY\<close> is set.\<close>

definition multi_finish :: "multi_encoder \<Rightarrow> (nat \<times> u8 list \<times> multi_encoder) option" where
  "multi_finish e =
     do { ensure (me_batch_count e > 0);
          ensure (me_batch_count e \<le> BATCH_COUNT_MAX);
          buffer \<leftarrow> me_buffer e;
          ensure (me_buffer_index e < length buffer);
          ensure (me_element_size e > 0 \<or> me_buffer_index e = 0);
          trailer_size \<leftarrow> trailer_total_size (me_element_size e) (me_batch_count e);
          let padding = me_buffer_index e mod TRAILER_ITEM_SIZE;
          ensure (padding < TRAILER_ITEM_SIZE);
          ensure (padding = 0 \<or> me_element_size e = 1);
          ensure (me_buffer_index e + padding + trailer_size \<le> length buffer);
          buffer \<leftarrow> put_bytes (me_buffer_index e) (replicate padding 255) buffer;
          let source_start = length buffer - trailer_size;
          let target_start = me_buffer_index e + padding;
          ensure (target_start \<le> source_start);
          buffer \<leftarrow> put_bytes target_start (drop source_start buffer) buffer;
          let items_len = (trailer_size - POSTAMBLE_SIZE) div TRAILER_ITEM_SIZE;
          ensure (me_batch_count e \<le> items_len);
          let unused_items = items_len - me_batch_count e;
          buffer \<leftarrow> put_bytes target_start (replicate (unused_items * TRAILER_ITEM_SIZE) 255) buffer;
          buffer \<leftarrow> put_bytes (target_start + trailer_size - POSTAMBLE_SIZE)
            (le_bytes POSTAMBLE_SIZE (of_nat (me_batch_count e) :: u16)) buffer;
          let bytes_written = me_buffer_index e + padding + trailer_size;
          ensure (me_element_size e > 0 \<or> bytes_written = trailer_size);
          ensure (me_element_size e = 0 \<or> bytes_written mod me_element_size e = 0);
          decoded \<leftarrow> multi_decoder_new (take bytes_written buffer) (me_element_size e);
          ensure (decoded \<noteq> None);
          Some (bytes_written, buffer, e\<lparr>me_buffer := None\<rparr>) }"

text \<open>One batch, as the clients write it: acquire the slice, fill its front, record it. And a whole body.\<close>

definition multi_put :: "u8 list \<Rightarrow> multi_encoder \<Rightarrow> multi_encoder option" where
  "multi_put batch e =
     do { slice \<leftarrow> writable e;
          (start, size) \<leftarrow> slice;
          ensure (length batch \<le> size);
          buffer \<leftarrow> me_buffer e;
          buffer \<leftarrow> put_bytes start batch buffer;
          multi_add (length batch) (e\<lparr>me_buffer := Some buffer\<rparr>) }"

fun multi_puts :: "u8 list list \<Rightarrow> multi_encoder \<Rightarrow> multi_encoder option" where
  "multi_puts [] e = Some e"
| "multi_puts (batch # batches) e = do { e \<leftarrow> multi_put batch e; multi_puts batches e }"

definition multi_encode :: "u8 list \<Rightarrow> nat \<Rightarrow> u8 list list \<Rightarrow> u8 list option" where
  "multi_encode buffer element_size batches =
     do { e \<leftarrow> multi_encoder_new buffer element_size;
          e \<leftarrow> multi_puts batches e;
          (bytes_written, buffer, _) \<leftarrow> multi_finish e;
          Some (take bytes_written buffer) }"

fun multi_pops :: "nat \<Rightarrow> multi_decoder \<Rightarrow> (u8 list list \<times> multi_decoder) option" where
  "multi_pops 0 d = Some ([], d)"
| "multi_pops (Suc n) d =
     do { (batch, d) \<leftarrow> multi_pop d;
          batch \<leftarrow> batch;
          (batches, d) \<leftarrow> multi_pops n d;
          Some (batch # batches, d) }"

section \<open>Trailer sizes\<close>

lemma try_bind_Some [simp]: "try_bind (Some x) f = f x"
  by (simp add: try_bind_def)

lemma power_of_two_even: "is_power_of_two n \<Longrightarrow> n \<noteq> 1 \<Longrightarrow> n mod 2 = 0 \<and> 0 < n"
proof -
  assume "is_power_of_two n" "n \<noteq> 1"
  then obtain k where "n = 2 ^ k" "k \<noteq> 0" by (auto simp: is_power_of_two_def image_iff)
  then show ?thesis by (cases k) auto
qed

lemma trailer_total:
  assumes "0 < n" "n \<le> BATCH_COUNT_MAX" "es = 0 \<or> is_power_of_two es"
  obtains ts where "trailer_total_size es n = Some ts" "2 * n + 2 \<le> ts" "ts mod 2 = 0" "es \<noteq> 0 \<Longrightarrow> ts mod es = 0"
    "es = 0 \<Longrightarrow> ts = 2 * n + 2"
proof -
  define u where "u = 2 * n + 2"
  define ts where "ts = (if es = 0 then u else (u + es - 1) div es * es)"
  have some: "trailer_total_size es n = Some ts"
    using assms by (simp add: trailer_total_size_def ensure_def ts_def u_def TRAILER_ITEM_SIZE_def POSTAMBLE_SIZE_def mult.commute)
  have up: "u \<le> ts"
  proof (cases "es = 0")
    case False
    have "u + es - 1 = (u + es - 1) div es * es + (u + es - 1) mod es" by simp
    moreover have "(u + es - 1) mod es \<le> es - 1" using mod_less_divisor [of es "u + es - 1"] False by linarith
    ultimately have "u \<le> (u + es - 1) div es * es" using False by linarith
    then show ?thesis using False by (simp add: ts_def)
  qed (simp add: ts_def)
  have "ts mod 2 = 0"
  proof (cases "es = 0 \<or> es = 1")
    case True
    then show ?thesis by (auto simp: ts_def u_def)
  next
    case False
    then have "es mod 2 = 0" using power_of_two_even [of es] assms(3) by argo
    then show ?thesis using False by (simp add: ts_def mod_mult_right_eq [symmetric])
  qed
  then show thesis using that [OF some] up by (simp add: u_def ts_def)
qed

section \<open>The layout of a body\<close>

definition item_bytes :: "nat \<Rightarrow> u8 list" where
  "item_bytes k = le_bytes 2 (of_nat k :: u16)"

definition trailer_items_of :: "nat list \<Rightarrow> u8 list" where
  "trailer_items_of counts = concat (map item_bytes (rev counts))"

definition batch_counts :: "nat \<Rightarrow> u8 list list \<Rightarrow> nat list" where
  "batch_counts es batches = map (\<lambda>b. length b div es) batches"

definition batch_ok :: "nat \<Rightarrow> u8 list \<Rightarrow> bool" where
  "batch_ok es b \<longleftrightarrow> (if es = 0 then b = [] else length b mod es = 0 \<and> length b div es < 2 ^ 16)"

definition multi_body :: "nat \<Rightarrow> nat \<Rightarrow> u8 list list \<Rightarrow> u8 list" where
  "multi_body es ts batches = concat batches @ replicate (length (concat batches) mod 2) 255 @
     replicate (ts - 2 - 2 * length batches) 255 @ trailer_items_of (batch_counts es batches) @ item_bytes (length batches)"

lemma length_item_bytes [simp]: "length (item_bytes k) = 2"
  by (simp add: item_bytes_def)

lemma read_item_bytes [simp]: "k < 2 ^ 16 \<Longrightarrow> read_u16 (item_bytes k) = k"
  by (simp add: read_u16_def item_bytes_def le_word_bytes unat_of_nat)

lemma length_items [simp]: "length (trailer_items_of counts) = 2 * length counts"
proof -
  have "length (concat (map item_bytes ks)) = 2 * length ks" for ks by (induction ks) simp_all
  then show ?thesis by (simp add: trailer_items_of_def)
qed

lemma items_chunks: "as_chunks 2 (trailer_items_of counts) = map item_bytes (rev counts)"
proof -
  have "as_chunks 2 (concat (map item_bytes ks)) = map item_bytes ks" for ks
    by (induction ks) (simp_all add: as_chunks_append)
  then show ?thesis by (simp add: trailer_items_of_def)
qed

lemma items_snoc: "trailer_items_of (batch_counts es (batches @ [b])) = item_bytes (length b div es) @ trailer_items_of (batch_counts es batches)"
  by (simp add: trailer_items_of_def batch_counts_def)

lemma items_slice:
  assumes "i < length counts"
  shows "slice_at (trailer_items_of counts) ((length counts - i - 1) * 2) 2 = Some (item_bytes (counts ! i))"
proof -
  have len: "length (concat (map item_bytes ks)) = 2 * length ks" for ks by (induction ks) simp_all
  have gen: "take 2 (drop (j * 2) (concat (map item_bytes ks))) = item_bytes (ks ! j)" if "j < length ks" for ks j
    using that
  proof (induction ks arbitrary: j)
    case (Cons k ks)
    then show ?case by (cases j) simp_all
  qed simp
  show ?thesis using gen [of "length counts - i - 1" "rev counts"] assms by (simp add: trailer_items_of_def rev_nth len)
qed

lemma count_events_sum:
  "\<forall>k \<in> set ks. k < 2 ^ 16 \<Longrightarrow> c + sum_list ks < 2 ^ 32 \<Longrightarrow> count_events c (map item_bytes ks) = Some (c + sum_list ks)"
  by (induction ks arbitrary: c) (auto simp: add.assoc)

lemma counts_total: "\<forall>b \<in> set batches. batch_ok es b \<Longrightarrow> sum_list (batch_counts es batches) * es = length (concat batches)"
  by (induction batches) (auto simp: batch_counts_def batch_ok_def add_mult_distrib split: if_splits)

lemma counts_small: "\<forall>b \<in> set batches. batch_ok es b \<Longrightarrow> k \<in> set (batch_counts es batches) \<Longrightarrow> k < 2 ^ 16"
  by (auto simp: batch_counts_def batch_ok_def split: if_splits)

lemma counts_sum_small:
  assumes "\<forall>b \<in> set batches. batch_ok es b" "length batches \<le> BATCH_COUNT_MAX"
  shows "sum_list (batch_counts es batches) < 2 ^ 32"
proof -
  have "sum_list ks \<le> length ks * 65535" if "\<forall>k \<in> set ks. k \<le> 65535" for ks :: "nat list"
    using that by (induction ks) auto
  from this [of "batch_counts es batches"] counts_small [OF assms(1)]
  have "sum_list (batch_counts es batches) \<le> length batches * 65535" by (fastforce simp: batch_counts_def)
  then show ?thesis using assms(2) by (simp add: BATCH_COUNT_MAX_def)
qed

lemma take_suffix_middle: "take_suffix (pre @ x @ post) (length post) (length x) = Some (length post + length x, x)"
  by (simp add: take_suffix_def)

lemma elements_even: "es = 0 \<or> is_power_of_two es \<Longrightarrow> k * es mod 2 = 0 \<or> es = 1"
proof -
  assume "es = 0 \<or> is_power_of_two es"
  then consider "es = 0" | "es = 1" | "es mod 2 = 0" using power_of_two_even [of es] by argo
  then show ?thesis
  proof cases
    case 3
    then have "2 dvd k * es" by (simp add: mod_0_imp_dvd)
    then show ?thesis by (simp add: dvd_imp_mod_0)
  qed simp_all
qed

lemma payload_padding:
  assumes "\<forall>b \<in> set batches. batch_ok es b" "es = 0 \<or> is_power_of_two es"
  shows "length (concat batches) mod 2 = 0 \<or> es = 1"
  using elements_even [OF assms(2), of "sum_list (batch_counts es batches)"] unfolding counts_total [OF assms(1)] .

lemma decoder_of_body:
  assumes ok: "\<forall>b \<in> set batches. batch_ok es b" and n: "0 < length batches" "length batches \<le> BATCH_COUNT_MAX"
    and es: "es = 0 \<or> is_power_of_two es" and ts: "trailer_total_size es (length batches) = Some ts"
    and small: "length (concat batches) < 2 ^ 32"
  shows "multi_decoder_new (multi_body es ts batches) es = Some (Some \<lparr>md_payload = concat batches,
     md_trailer_items = trailer_items_of (batch_counts es batches), md_payload_index = 0, md_batch_index = 0, md_element_size = es\<rparr>)"
proof -
  let ?n = "length batches" and ?P = "concat batches" and ?I = "trailer_items_of (batch_counts es batches)"
  let ?pad = "replicate (length ?P mod 2) 255 :: u8 list" and ?unused = "replicate (ts - 2 - 2 * ?n) 255 :: u8 list"
  let ?body = "multi_body es ts batches"
  have len: "length ?I = 2 * ?n" by (simp add: batch_counts_def)
  obtain ts' where ts': "trailer_total_size es ?n = Some ts'" "2 * ?n + 2 \<le> ts'" using trailer_total [OF n es] by metis
  have ge: "2 * ?n + 2 \<le> ts" using ts' ts by simp
  have t1: "take_suffix ?body 0 2 = Some (2, item_bytes ?n)"
    using take_suffix_middle [of "?P @ ?pad @ ?unused @ ?I" "item_bytes ?n" "[]"] by (simp add: multi_body_def)
  have t2: "take_suffix ?body 2 (?n * 2) = Some (2 + 2 * ?n, ?I)"
    using take_suffix_middle [of "?P @ ?pad @ ?unused" ?I "item_bytes ?n"] len by (simp add: multi_body_def mult.commute)
  have t3: "take_suffix ?body (2 + 2 * ?n) (ts - (2 + 2 * ?n)) = Some (ts, ?unused)"
    using take_suffix_middle [of "?P @ ?pad" ?unused "?I @ item_bytes ?n"] len ge by (simp add: multi_body_def add.commute)
  have t4: "take_suffix ?body ts (length ?P mod 2) = Some (ts + length ?P mod 2, ?pad)"
  proof -
    have "length (?unused @ ?I @ item_bytes ?n) = ts" using len ge by simp
    then show ?thesis using take_suffix_middle [of ?P ?pad "?unused @ ?I @ item_bytes ?n"] by (simp add: multi_body_def)
  qed
  have body_len: "length ?body = length ?P + length ?P mod 2 + ts" using len ge by (simp add: multi_body_def)
  have events: "count_events 0 (as_chunks 2 ?I) = Some (sum_list (batch_counts es batches))"
    using count_events_sum [of "rev (batch_counts es batches)" 0] counts_small [OF ok] counts_sum_small [OF ok n(2)]
    by (simp add: items_chunks)
  have total: "sum_list (batch_counts es batches) * es = length ?P" by (rule counts_total [OF ok])
  have zero: "sum_list (batch_counts es batches) = 0" if "es = 0" using that ok by (auto simp: batch_counts_def)
  have payload: "take (length ?P) ?body = ?P" by (simp add: multi_body_def)
  have nn: "read_u16 (item_bytes ?n) = ?n" using n by (simp add: BATCH_COUNT_MAX_def)
  have padding: "length ?P mod 2 = 0 \<or> es = 1" by (rule payload_padding [OF ok es])
  have checks: "ensure (es = 0 \<or> is_power_of_two es) = Some ()" "(?n = 0) = False" "(BATCH_COUNT_MAX < ?n) = False"
    "ensure (2 + 2 * ?n \<le> ts) = Some ()" "list_all (\<lambda>byte. byte = 255) ?unused = True"
    "(es = 0 \<and> sum_list (batch_counts es batches) \<noteq> 0) = False" "(length ?P < 2 ^ 32) = True"
    "ensure (length ?P mod 2 < 2) = Some ()" "ensure (length ?P mod 2 = 0 \<or> es = 1) = Some ()"
    "list_all (\<lambda>byte. byte = 255) ?pad = True" "(length ?P \<noteq> length ?body - (ts + length ?P mod 2)) = False"
    using n es ge zero small padding body_len by (auto simp: ensure_def list_all_iff)
  show ?thesis
    by (simp only: multi_decoder_new_def POSTAMBLE_SIZE_def TRAILER_ITEM_SIZE_def t1 nn ts t2 t3 t4 events total try_bind_Some
        checks payload Let_def bind.bind_lunit case_prod_conv simp_thms if_True if_False)
qed

section \<open>Filling a buffer\<close>

lemma put_bytes_append: "length x \<le> length r \<Longrightarrow> put_bytes (length a) x (a @ r) = Some (a @ x @ drop (length x) r)"
  by (simp add: put_bytes_def ensure_def)

definition encoder_inv :: "nat \<Rightarrow> nat \<Rightarrow> u8 list list \<Rightarrow> multi_encoder \<Rightarrow> bool" where
  "encoder_inv es len batches e \<longleftrightarrow> even len \<and> me_batch_count e = length batches \<and> me_element_size e = es \<and>
     me_buffer_index e = length (concat batches) \<and>
     (\<exists>mid tl_end. me_buffer e = Some (concat batches @ mid @ trailer_items_of (batch_counts es batches) @ tl_end) \<and>
        length tl_end = 2 \<and> length (concat batches) + length mid + 2 * length batches + 2 = len)"

lemma trailer_total_mono:
  assumes "trailer_total_size es m = Some t" "trailer_total_size es n = Some u" "m \<le> n"
  shows "t \<le> u"
proof (cases "es = 0")
  case False
  have "(m * 2 + 2 + es - 1) div es * es \<le> (n * 2 + 2 + es - 1) div es * es"
    using assms(3) by (intro mult_le_mono1 div_le_mono) simp
  then show ?thesis using assms False
    by (auto simp: trailer_total_size_def ensure_def TRAILER_ITEM_SIZE_def POSTAMBLE_SIZE_def split: if_splits)
qed (use assms in \<open>auto simp: trailer_total_size_def ensure_def split: if_splits\<close>)

lemma whole_elements_fit:
  assumes "es \<noteq> 0" "l mod es = 0" "l \<le> (space :: nat)"
  shows "l \<le> space - space mod es"
proof -
  obtain q where q: "l = q * es" using assms(2) by (metis mod_0_imp_dvd dvd_div_mult_self)
  then have "q \<le> space div es" using assms by (simp add: less_eq_div_iff_mult_less_eq)
  then have "q * es \<le> space div es * es" by simp
  then show ?thesis using q by (simp add: minus_mod_eq_div_mult)
qed

lemma item_position:
  assumes "2 * (n + 1) + 2 \<le> ts" "ts mod 2 = 0" "ts \<le> len"
  shows "len - ts + ((len - 2 - (len - ts)) div 2 - (n + 1)) * 2 = len - 2 - 2 * (n + 1 :: nat)"
proof -
  have "(len - 2 - (len - ts)) div 2 - (n + 1) = (ts - 2) div 2 - (n + 1)" using assms by simp
  moreover have "((ts - 2) div 2 - (n + 1)) * 2 = ts - 2 - 2 * (n + 1)" using assms by presburger
  ultimately have "len - ts + ((len - 2 - (len - ts)) div 2 - (n + 1)) * 2 = len - ts + (ts - 2 - 2 * (n + 1))" by (simp only:)
  also have "\<dots> = len - 2 - 2 * (n + 1)" using assms by presburger
  finally show ?thesis .
qed

lemma multi_put_step:
  assumes e: "e = \<lparr>me_buffer = Some (C @ mid @ I @ tl_end), me_batch_count = n, me_buffer_index = length C, me_element_size = es\<rparr>"
    and I: "length I = 2 * n" "length tl_end = 2" and len: "length C + length mid + 2 * n + 2 = len"
    and es: "es = 0 \<or> is_power_of_two es" "es \<noteq> 0 \<Longrightarrow> length C mod es = 0" "es = 0 \<Longrightarrow> C = []"
    and b: "batch_ok es b" and max: "n < BATCH_COUNT_MAX"
    and ts: "trailer_total_size es (n + 1) = Some ts" and fits: "length C + length b + ts \<le> len"
  shows "\<exists>front. multi_put b e = Some \<lparr>me_buffer = Some ((C @ b) @ front @ (item_bytes (length b div es) @ I) @ tl_end),
      me_batch_count = n + 1, me_buffer_index = length (C @ b), me_element_size = es\<rparr>
    \<and> length (C @ b) + length front + 2 * (n + 1) + 2 = len"
proof -
  let ?k = "length b div es"
  obtain ts': "2 * (n + 1) + 2 \<le> ts" "ts mod 2 = 0"
    using trailer_total [of "n + 1" es] max es ts by (metis Suc_eq_plus1 Suc_leI option.inject zero_less_Suc)
  have b': "es \<noteq> 0 \<Longrightarrow> length b mod es = 0 \<and> ?k < 2 ^ 16" "es = 0 \<Longrightarrow> b = []" using b by (auto simp: batch_ok_def)
  have room: "length b \<le> length mid" "2 \<le> length mid - length b" using fits ts' len by auto
  define space where "space = len - ts - length C"
  define sz where "sz = (if es = 0 then 0 else space - space mod es)"
  have blen: "length (C @ mid @ I @ tl_end) = len" using I len by simp
  have "writable e = Some (Some (length C, sz))"
  proof -
    have "ensure (n < BATCH_COUNT_MAX) = Some ()" "(n = BATCH_COUNT_MAX) = False" "ensure (es > 0 \<or> length C = 0) = Some ()"
      "ensure (es = 0 \<or> length C mod es = 0) = Some ()" "(len < length C + ts) = False" "es = 0 \<Longrightarrow> length C = 0"
      using max fits es by (cases "es = 0"; simp add: ensure_def)+
    then show ?thesis
      by (simp only: writable_def e multi_encoder.simps ts blen bind.bind_lunit Let_def if_False sz_def space_def) simp
  qed
  moreover have "length b \<le> sz" using whole_elements_fit [of es "length b" space] b' fits by (auto simp: sz_def space_def)
  moreover define rest where "rest = drop (length b) mid"
  have "put_bytes (length C) b (C @ mid @ I @ tl_end) = Some (C @ b @ rest @ I @ tl_end)"
    using put_bytes_append [of b "mid @ I @ tl_end" C] room by (simp add: rest_def)
  ultimately have put: "multi_put b e = multi_add (length b) (e\<lparr>me_buffer := Some (C @ b @ rest @ I @ tl_end)\<rparr>)"
    by (simp add: multi_put_def e ensure_def)
  define front where "front = take (length rest - 2) rest"
  define hole where "hole = drop (length rest - 2) rest"
  have hole: "rest = front @ hole" "length hole = 2" using room by (simp_all only: front_def hole_def append_take_drop_id) (simp add: rest_def)
  have rest_len: "length C + length b + length front + 2 + 2 * n + 2 = len"
    using room len by (simp add: front_def rest_def)
  have item: "put_bytes (length (C @ b @ front)) (item_bytes ?k) (C @ b @ rest @ I @ tl_end)
      = Some ((C @ b @ front) @ item_bytes ?k @ I @ tl_end)"
    using put_bytes_append [of "item_bytes ?k" "hole @ I @ tl_end" "C @ b @ front"] hole by simp
  have start: "len - ts + ((len - 2 - (len - ts)) div 2 - (n + 1)) * 2 = length (C @ b @ front)"
    using item_position [OF ts'] fits rest_len unfolding length_append by simp
  have items_len: "n + 1 \<le> (len - 2 - (len - ts)) div 2" using ts' fits by simp
  have elements: "(if es = 0 then do { ensure (length C = 0); ensure (length b = 0); Some 0 }
      else do { ensure (length b mod es = 0); ensure (length b div es < 2 ^ 16); Some (length b div es) }) = Some ?k"
    using b' es by (simp add: ensure_def)
  have blen': "length (C @ b @ rest @ I @ tl_end) = len" using blen room by (simp add: rest_def)
  have checks: "ensure (n < BATCH_COUNT_MAX) = Some ()" "ensure (length C + length b < len) = Some ()"
    "ensure (length C + length b + ts \<le> len) = Some ()" "ensure (n + 1 \<le> (len - 2 - (len - ts)) div 2) = Some ()"
    using max fits ts' items_len by (simp_all add: ensure_def)
  have "multi_add (length b) (e\<lparr>me_buffer := Some (C @ b @ rest @ I @ tl_end)\<rparr>)
    = Some \<lparr>me_buffer = Some ((C @ b @ front) @ item_bytes ?k @ I @ tl_end), me_batch_count = n + 1,
        me_buffer_index = length C + length b, me_element_size = es\<rparr>"
    by (simp only: multi_add_def e multi_encoder.simps elements checks Let_def bind.bind_lunit blen' ts POSTAMBLE_SIZE_def
        TRAILER_ITEM_SIZE_def start item_bytes_def [symmetric] item)
  then show ?thesis using put rest_len by (intro exI [of _ front]) simp
qed

lemma multi_put_inv:
  assumes inv: "encoder_inv es len batches e" and es: "es = 0 \<or> is_power_of_two es"
    and ok: "\<forall>b \<in> set batches. batch_ok es b" "batch_ok es b" and max: "length batches < BATCH_COUNT_MAX"
    and ts: "trailer_total_size es (length batches + 1) = Some ts"
    and fits: "length (concat batches) + length b + ts \<le> len"
  shows "\<exists>e'. multi_put b e = Some e' \<and> encoder_inv es len (batches @ [b]) e'"
proof -
  let ?C = "concat batches" and ?n = "length batches" and ?I = "trailer_items_of (batch_counts es batches)"
  obtain mid tl_end where e: "e = \<lparr>me_buffer = Some (?C @ mid @ ?I @ tl_end), me_batch_count = ?n, me_buffer_index = length ?C, me_element_size = es\<rparr>"
    and tl_end: "length tl_end = 2" and len: "length ?C + length mid + 2 * ?n + 2 = len"
    using inv by (cases e) (auto simp: encoder_inv_def)
  have I: "length ?I = 2 * ?n" by (simp add: batch_counts_def)
  have mod0: "length ?C mod es = 0" if "es \<noteq> 0" using counts_total [OF ok(1)] by (metis mod_mult_self2_is_0)
  have empty: "?C = []" if "es = 0" using counts_total [OF ok(1)] that by simp
  obtain front where put: "multi_put b e = Some \<lparr>me_buffer = Some ((?C @ b) @ front @ (item_bytes (length b div es) @ ?I) @ tl_end),
      me_batch_count = ?n + 1, me_buffer_index = length (?C @ b), me_element_size = es\<rparr>"
    and "length (?C @ b) + length front + 2 * (?n + 1) + 2 = len"
    using multi_put_step [OF e I tl_end len es mod0 empty ok(2) max ts fits] by blast
  moreover have "even len" using inv by (simp add: encoder_inv_def)
  ultimately have "encoder_inv es len (batches @ [b]) (the (multi_put b e))"
    unfolding encoder_inv_def items_snoc by (intro conjI exI [of _ front] exI [of _ tl_end]) (simp_all add: tl_end)
  then show ?thesis using put by simp
qed

lemma multi_puts_inv:
  assumes "encoder_inv es len done e" "es = 0 \<or> is_power_of_two es" "\<forall>b \<in> set (done @ batches). batch_ok es b"
    "length (done @ batches) \<le> BATCH_COUNT_MAX" "trailer_total_size es (length (done @ batches)) = Some ts"
    "length (concat (done @ batches)) + ts \<le> len"
  shows "\<exists>e'. multi_puts batches e = Some e' \<and> encoder_inv es len (done @ batches) e'"
  using assms
proof (induction batches arbitrary: "done" e)
  case (Cons b batches)
  have max: "length done < BATCH_COUNT_MAX" using Cons.prems(4) by simp
  obtain t where t: "trailer_total_size es (length done + 1) = Some t"
    using trailer_total [of "length done + 1" es] max Cons.prems(2) by (metis Suc_eq_plus1 Suc_leI zero_less_Suc)
  have "t \<le> ts" by (rule trailer_total_mono [OF t Cons.prems(5)]) simp
  then have "length (concat done) + length b + t \<le> len" using Cons.prems(6) by simp
  then obtain e' where e': "multi_put b e = Some e'" "encoder_inv es len (done @ [b]) e'"
    using multi_put_inv [OF Cons.prems(1,2) _ _ max t] Cons.prems(3) by auto
  then show ?case using Cons.IH [of "done @ [b]" e'] Cons.prems by simp
qed simp

section \<open>Finishing\<close>

text \<open>The four writes of \<open>finish\<close>: sentinels after the payload, the trailer moved next to it, sentinels over its unused items,
  the postamble.\<close>

lemma finish_moves:
  fixes C mid I tl_end :: "u8 list"
  assumes I: "length I = 2 * m" "length tl_end = 2" and len: "length C + length mid + 2 * m + 2 = len"
    and ts: "2 * m + 2 \<le> ts" and fit: "length C + p + ts \<le> len" and unused: "unused = ts - 2 - 2 * m"
  obtains b1 b2 b3 tail where "put_bytes (length C) (replicate p 255) (C @ mid @ I @ tl_end) = Some b1" "length b1 = len"
    "put_bytes (length C + p) (drop (len - ts) b1) b1 = Some b2" "put_bytes (length C + p) (replicate unused 255) b2 = Some b3"
    "put_bytes (length C + p + ts - 2) (item_bytes m) b3 = Some ((C @ replicate p 255 @ replicate unused 255 @ I @ item_bytes m) @ tail)"
proof -
  let ?P = "C @ replicate p 255"
  define rest where "rest = drop p mid @ I @ tl_end"
  have pmid: "p \<le> length mid" using fit ts len by linarith
  define u where "u = drop (len - ts) (?P @ drop p mid)"
  define copied where "copied = drop (len - ts) (?P @ rest)"
  have u: "length u = unused" "copied = u @ I @ tl_end"
    using pmid ts len fit by (simp_all add: u_def copied_def rest_def unused)
  have "length copied = ts" using u ts I by (simp add: unused)
  have rest_len: "length rest = len - length C - p" using pmid len I by (simp add: rest_def)
  define tail where "tail = drop ts rest"
  have put1: "put_bytes (length C) (replicate p 255) (C @ mid @ I @ tl_end) = Some (?P @ rest)"
    using put_bytes_append [of "replicate p 255" "mid @ I @ tl_end" C] pmid by (simp add: rest_def)
  have len1: "length (?P @ rest) = len" using rest_len fit by simp
  have put2: "put_bytes (length C + p) (drop (len - ts) (?P @ rest)) (?P @ rest) = Some (?P @ copied @ tail)"
    unfolding copied_def [symmetric] using put_bytes_append [of copied rest ?P] fit rest_len \<open>length copied = ts\<close> by (simp add: tail_def)
  have put3: "put_bytes (length C + p) (replicate unused 255) (?P @ copied @ tail) = Some ((?P @ replicate unused 255 @ I) @ tl_end @ tail)"
    using put_bytes_append [of "replicate unused 255" "copied @ tail" ?P] u by simp
  have pos: "length C + p + ts - 2 = length (?P @ replicate unused 255 @ I)" using ts I by (simp add: unused)
  have put4: "put_bytes (length C + p + ts - 2) (item_bytes m) ((?P @ replicate unused 255 @ I) @ tl_end @ tail)
      = Some ((C @ replicate p 255 @ replicate unused 255 @ I @ item_bytes m) @ tail)"
    unfolding pos using put_bytes_append [of "item_bytes m" "tl_end @ tail" "?P @ replicate unused 255 @ I"] I by simp
  show ?thesis by (rule that [OF put1 len1 put2 put3 put4])
qed

lemma half_trailer:
  assumes "even ts" shows "(ts - 2) div 2 = ts div 2 - 1" "((ts - 2) div 2 - m) * 2 = ts - 2 - 2 * (m :: nat)"
proof -
  show half: "(ts - 2) div 2 = ts div 2 - 1" by linarith
  show "((ts - 2) div 2 - m) * 2 = ts - 2 - 2 * m" using assms unfolding half by (auto elim!: evenE)
qed

lemma multi_finish_body:
  assumes inv: "encoder_inv es len batches e" and es: "es = 0 \<or> is_power_of_two es"
    and ok: "\<forall>b \<in> set batches. batch_ok es b" and n: "0 < length batches" "length batches \<le> BATCH_COUNT_MAX"
    and ts: "trailer_total_size es (length batches) = Some ts"
    and fits: "length (concat batches) + ts \<le> len" and small: "length (concat batches) < 2 ^ 32"
  shows "\<exists>tail. multi_finish e = Some (length (multi_body es ts batches), multi_body es ts batches @ tail, e\<lparr>me_buffer := None\<rparr>)"
proof -
  define C where "C = concat batches"
  define I where "I = trailer_items_of (batch_counts es batches)"
  define m where "m = length batches"
  define p where "p = length C mod 2"
  define unused where "unused = ts - 2 - 2 * m"
  obtain mid tl_end where e: "e = \<lparr>me_buffer = Some (C @ mid @ I @ tl_end), me_batch_count = m, me_buffer_index = length C, me_element_size = es\<rparr>"
    and tl_end: "length tl_end = 2" and len: "length C + length mid + 2 * m + 2 = len" and "even len"
    using inv unfolding C_def I_def m_def by (cases e) (auto simp: encoder_inv_def)
  obtain ts': "2 * m + 2 \<le> ts" "even ts" "es \<noteq> 0 \<Longrightarrow> ts mod es = 0" "es = 0 \<Longrightarrow> ts = 2 * m + 2"
    using trailer_total [of m es] n es ts unfolding m_def by (metis option.inject even_iff_mod_2_eq_zero)
  have I: "length I = 2 * m" by (simp add: I_def m_def batch_counts_def)
  have pad: "p = 0 \<or> es = 1" using payload_padding [OF ok es] by (simp only: p_def C_def)
  have fit: "length C + p + ts \<le> len"
    using fits \<open>even len\<close> ts'(2) unfolding p_def C_def [symmetric] by presburger
  have body: "multi_body es ts batches = C @ replicate p 255 @ replicate unused 255 @ I @ item_bytes m"
    by (simp only: multi_body_def C_def I_def m_def p_def unused_def)
  obtain b1 b2 b3 tail where b1: "put_bytes (length C) (replicate p 255) (C @ mid @ I @ tl_end) = Some b1" "length b1 = len"
    and puts: "put_bytes (length C + p) (drop (len - ts) b1) b1 = Some b2" "put_bytes (length C + p) (replicate unused 255) b2 = Some b3"
    "put_bytes (length C + p + ts - 2) (item_bytes m) b3 = Some (multi_body es ts batches @ tail)"
    unfolding body by (rule finish_moves [OF I tl_end len ts'(1) fit unused_def])
  have blen: "length (multi_body es ts batches) = length C + p + ts" using ts' I by (simp add: body unused_def)
  have front: "take (length C + p + ts) (multi_body es ts batches @ tail) = multi_body es ts batches" by (simp only: blen [symmetric] take_append) simp
  obtain decoder where decoded: "multi_decoder_new (multi_body es ts batches) es = Some (Some decoder)"
    using decoder_of_body [OF ok n es ts small] by blast
  note half = half_trailer [OF ts'(2)]
  have C0: "es = 0 \<Longrightarrow> length C = 0" using counts_total [OF ok] by (simp add: C_def)
  have aligned: "es \<noteq> 0 \<Longrightarrow> (length C + p + ts) mod es = 0"
  proof -
    assume "es \<noteq> 0"
    then have "length C mod es = 0" using counts_total [OF ok] by (metis C_def mod_mult_self2_is_0)
    then show ?thesis using ts'(3) [OF \<open>es \<noteq> 0\<close>] pad by (auto simp: mod_0_imp_dvd dvd_imp_mod_0)
  qed
  have checks: "ensure (m > 0) = Some ()" "ensure (m \<le> BATCH_COUNT_MAX) = Some ()" "ensure (length C < len) = Some ()"
    "ensure (es > 0 \<or> length C = 0) = Some ()" "ensure (p < 2) = Some ()" "ensure (p = 0 \<or> es = 1) = Some ()"
    "ensure (length C + p + ts \<le> len) = Some ()" "ensure (length C + p \<le> len - ts) = Some ()"
    "ensure (m \<le> (ts - 2) div 2) = Some ()" "ensure (es > 0 \<or> length C + p + ts = ts) = Some ()"
    "ensure (es = 0 \<or> (length C + p + ts) mod es = 0) = Some ()"
    using n fit fit ts'(1) C0 pad aligned half by (cases "es = 0"; simp add: ensure_def m_def p_def)+
  have len0: "length (C @ mid @ I @ tl_end) = len" using len I tl_end by simp
  have "multi_finish e = Some (length C + p + ts, multi_body es ts batches @ tail, e\<lparr>me_buffer := None\<rparr>)"
    by (simp only: multi_finish_def e multi_encoder.simps Let_def bind.bind_lunit len0 b1 ts [folded m_def] POSTAMBLE_SIZE_def
        TRAILER_ITEM_SIZE_def p_def [symmetric] checks half(2) unused_def [symmetric] item_bytes_def [symmetric] puts front decoded)
      (simp add: ensure_def)
  then show ?thesis by (auto simp: blen)
qed

section \<open>Decoding what was encoded\<close>

lemma items_advance: "batch_items (d\<lparr>md_payload_index := k, md_batch_index := j\<rparr>) = batch_items d"
  "batch_items (d\<lparr>md_batch_index := j, md_payload_index := k\<rparr>) = batch_items d"
  by (simp_all add: batch_items_def)

lemma multi_pop_batch:
  assumes ok: "\<forall>b \<in> set batches. batch_ok es b" and i: "i < length batches"
    and d: "d = \<lparr>md_payload = concat batches, md_trailer_items = trailer_items_of (batch_counts es batches),
      md_payload_index = length (concat (take i batches)), md_batch_index = i, md_element_size = es\<rparr>"
  shows "multi_pop d = Some (Some (batches ! i), d\<lparr>md_payload_index := length (concat (take (i + 1) batches)), md_batch_index := i + 1\<rparr>)"
proof -
  let ?b = "batches ! i"
  have split: "concat batches = concat (take i batches) @ ?b @ concat (drop (i + 1) batches)"
    by (metis Suc_eq_plus1 concat.simps(2) concat_append i id_take_nth_drop)
  have items: "batch_items d = length batches" by (simp add: d batch_items_def batch_counts_def TRAILER_ITEM_SIZE_def)
  have bok: "batch_ok es ?b" using ok i by simp
  have count: "batch_counts es batches ! i = length ?b div es" "length ?b div es < 2 ^ 16"
    using bok i by (auto simp: batch_counts_def batch_ok_def split: if_splits)
  have item: "slice_at (md_trailer_items d) ((length batches - i - 1) * 2) 2 = Some (item_bytes (length ?b div es))"
    using items_slice [of i "batch_counts es batches"] i count by (simp add: d batch_counts_def)
  have some: "md_trailer_items d \<noteq> []"
  proof -
    have "length (md_trailer_items d) \<noteq> 0" using i by (simp add: d batch_counts_def del: length_0_conv)
    then show ?thesis by simp
  qed
  have pi: "md_payload_index d = length (concat (take i batches))" "md_payload d = concat batches" "md_batch_index d = i"
      "md_element_size d = es" by (simp_all add: d)
  have len: "length (concat batches) = length (concat (take i batches)) + length ?b + length (concat (drop (i + 1) batches))"
    by (subst split) simp
  have peek: "multi_peek d = Some ?b"
  proof (cases "?b = []")
    case True
    then show ?thesis using i some len item
      by (simp add: multi_peek_def items pi ensure_def TRAILER_ITEM_SIZE_def Let_def del: length_concat)
  next
    case False
    then have es0: "es \<noteq> 0" "length ?b mod es = 0" using bok by (auto simp: batch_ok_def split: if_splits)
    then have b: "length ?b div es * es = length ?b" "length ?b div es \<noteq> 0" using False by (auto simp: div_eq_0_iff)
    have "take (length ?b) (drop (length (concat (take i batches))) (concat batches)) = ?b" by (subst split) simp
    then have slice: "slice_at (concat batches) (length (concat (take i batches))) (length ?b) = Some ?b"
      using len by (simp add: slice_at_def del: length_concat)
    show ?thesis using i some len item False es0 count(2)
      by (simp add: multi_peek_def items pi ensure_def TRAILER_ITEM_SIZE_def Let_def b slice del: length_concat)
  qed
  have next_index: "length (concat (take (i + 1) batches)) = length (concat (take i batches)) + length ?b"
    using i by (simp add: take_Suc_conv_app_nth)
  show ?thesis
    using i some next_index len
    by (simp add: multi_pop_def items peek ensure_def pi items_advance Let_def del: length_concat)
qed

lemma multi_pops_from:
  assumes ok: "\<forall>b \<in> set batches. batch_ok es b" and i: "i + n = length batches"
    and d: "d = \<lparr>md_payload = concat batches, md_trailer_items = trailer_items_of (batch_counts es batches),
      md_payload_index = length (concat (take i batches)), md_batch_index = i, md_element_size = es\<rparr>"
  shows "multi_pops n d = Some (drop i batches,
    d\<lparr>md_payload_index := length (concat batches), md_batch_index := length batches\<rparr>)"
  using i d
proof (induction n arbitrary: i d)
  case (Suc n)
  then have i: "i < length batches" by simp
  have pop: "multi_pop d = Some (Some (batches ! i), d\<lparr>md_payload_index := length (concat (take (i + 1) batches)), md_batch_index := i + 1\<rparr>)"
    by (rule multi_pop_batch [OF ok i Suc.prems(2)])
  show ?case
    using Suc.IH [of "i + 1" "d\<lparr>md_payload_index := length (concat (take (i + 1) batches)), md_batch_index := i + 1\<rparr>"] Suc.prems i pop
    by (simp add: Cons_nth_drop_Suc del: length_concat)
qed simp

lemma multi_pop_end:
  "batches \<noteq> [] \<Longrightarrow> d = \<lparr>md_payload = concat batches, md_trailer_items = trailer_items_of (batch_counts es batches),
      md_payload_index = length (concat batches), md_batch_index = length batches, md_element_size = es\<rparr> \<Longrightarrow>
    multi_pop d = Some (None, d)"
proof -
  assume d: "batches \<noteq> []" "d = \<lparr>md_payload = concat batches, md_trailer_items = trailer_items_of (batch_counts es batches),
      md_payload_index = length (concat batches), md_batch_index = length batches, md_element_size = es\<rparr>"
  then have "length (md_trailer_items d) \<noteq> 0" by (simp add: batch_counts_def del: length_0_conv)
  then have "md_trailer_items d \<noteq> []" by simp
  then show ?thesis using d by (simp add: multi_pop_def batch_items_def batch_counts_def TRAILER_ITEM_SIZE_def ensure_def)
qed

section \<open>Accepted bodies\<close>

lemma try_bind_accepts: "try_bind r f = Some (Some y) \<longleftrightarrow> (\<exists>x. r = Some x \<and> f x = Some (Some y))"
  by (cases r) (auto simp: try_bind_def)

lemma take_suffix_drop:
  assumes "take_suffix body p c = Some (q, x)" "p \<le> length body"
  shows "q \<le> length body \<and> q = p + c \<and> length x = c \<and> drop (length body - q) body = x @ drop (length body - p) body"
proof -
  have q: "q = p + c" "p + c \<le> length body" and x: "x = take c (drop (length body - (p + c)) body)"
    using assms by (auto simp: take_suffix_def split: if_splits)
  have "drop (length body - p) body = drop c (drop (length body - (p + c)) body)" using q by simp
  then show ?thesis using q x by (metis append_take_drop_id diff_diff_cancel le_add2 length_drop length_take min.absorb2)
qed

lemma item_bytes_read: "length x = 2 \<Longrightarrow> item_bytes (read_u16 x) = x"
  using le_bytes_word [of x, where 'a = 16] by (simp add: item_bytes_def read_u16_def)

lemma items_of_bytes: "length items mod 2 = 0 \<Longrightarrow> trailer_items_of (rev (map read_u16 (as_chunks 2 items))) = items"
proof -
  assume "length items mod 2 = 0"
  moreover have "map (item_bytes \<circ> read_u16) (as_chunks 2 items) = as_chunks 2 items"
    by (rule map_idI) (auto simp: item_bytes_read dest: as_chunks_lengths)
  ultimately show ?thesis by (simp add: trailer_items_of_def rev_map concat_as_chunks)
qed

lemma count_events_Some: "count_events c items = Some t \<Longrightarrow> t = c + sum_list (map read_u16 items)"
  by (induction items arbitrary: c) (fastforce split: if_splits)+

lemma split_payload: "length payload = sum_list ks * es \<Longrightarrow>
  \<exists>batches. concat batches = payload \<and> map length batches = map (\<lambda>k. k * es) ks"
proof (induction ks arbitrary: payload)
  case (Cons k ks)
  then obtain batches where "concat batches = drop (k * es) payload" "map length batches = map (\<lambda>k. k * es) ks"
    by (metis add_diff_cancel_left' add_mult_distrib length_drop sum_list.Cons)
  moreover have "k * es \<le> length payload" using Cons.prems by (simp add: add_mult_distrib)
  ultimately show ?case by (intro exI [of _ "take (k * es) payload # batches"]) simp
qed simp

lemma take_suffix_first: "take_suffix body p c = Some (q, x) \<Longrightarrow> q = p + c"
  by (auto simp: take_suffix_def split: if_splits)

lemma multi_decoder_total:
  assumes es: "es = 0 \<or> is_power_of_two es"
  shows "multi_decoder_new body es \<noteq> None"
proof -
  have new: "\<exists>ts. trailer_total_size es n = Some ts" if "n \<noteq> 0" "\<not> BATCH_COUNT_MAX < n" for n
    using trailer_total [of n es] that es by (metis neq0_conv not_less)
  have enough: "2 + n * 2 \<le> ts" if "trailer_total_size es n = Some ts" "n \<noteq> 0" "\<not> BATCH_COUNT_MAX < n" for n ts
    using trailer_total [of n es] that es by (metis add.commute mult.commute neq0_conv not_less option.inject)
  define D :: "multi_decoder option option \<Rightarrow> bool" where "D r \<longleftrightarrow> r \<noteq> None" for r
  have trailer: "D (trailer_total_size es n \<bind> f)" if "n \<noteq> 0" "\<not> BATCH_COUNT_MAX < n" "\<And>ts. 2 + n * 2 \<le> ts \<Longrightarrow> D (f ts)" for n f
    using new [OF that(1,2)] enough that by (fastforce simp: D_def)
  have tries: "D (try_bind r f)" if "\<And>x. r = Some x \<Longrightarrow> D (f x)" for r :: "'b option" and f
    using that by (auto simp: D_def try_bind_def split: option.splits)
  have ensures: "D (ensure c \<bind> f)" if "c" "D (f ())" for c f using that by simp
  have some: "D (Some x)" for x by (simp add: D_def)
  have even_size: "k * es mod 2 = 0" if "es \<noteq> Suc 0" for k using elements_even [OF es] that by auto
  have "D (multi_decoder_new body es)"
    unfolding multi_decoder_new_def Let_def POSTAMBLE_SIZE_def TRAILER_ITEM_SIZE_def
    by (auto intro!: tries ensures trailer some es even_size split: prod.splits if_splits dest!: take_suffix_first)
  then show ?thesis by (simp add: D_def)
qed

lemma multi_decoder_accepts:
  assumes "multi_decoder_new body es = Some (Some d)"
  obtains n ts items k payload where "es = 0 \<or> is_power_of_two es" "0 < n" "n \<le> BATCH_COUNT_MAX" "trailer_total_size es n = Some ts"
    "2 + n * 2 \<le> ts" "length items = n * 2" "k = sum_list (map read_u16 (as_chunks 2 items))" "es = 0 \<Longrightarrow> k = 0" "k * es < 2 ^ 32"
    "length payload = k * es" "n < 2 ^ 16"
    "body = payload @ replicate (k * es mod 2) 255 @ replicate (ts - 2 - n * 2) 255 @ items @ item_bytes n"
proof -
  define nz where "nz k \<longleftrightarrow> (es = 0 \<longrightarrow> k = 0)" for k :: nat
  have nz: "(es = 0 \<and> k \<noteq> 0) = (\<not> nz k)" for k by (simp add: nz_def)
  obtain q0 post ts q1 items q2 unused k q3 pad where es: "es = 0 \<or> is_power_of_two es"
    and t0: "take_suffix body 0 2 = Some (q0, post)" and n: "0 < read_u16 post" "read_u16 post \<le> BATCH_COUNT_MAX"
    and ts: "trailer_total_size es (read_u16 post) = Some ts" and t1: "take_suffix body q0 (read_u16 post * 2) = Some (q1, items)"
    and q1: "q1 \<le> ts" and t2: "take_suffix body q1 (ts - q1) = Some (q2, unused)" and u: "list_all (\<lambda>byte. byte = 255) unused"
    and k: "count_events 0 (as_chunks 2 items) = Some k" "nz k" "k * es < 2 ^ 32"
    and t3: "take_suffix body q2 (k * es mod 2) = Some (q3, pad)" and p: "list_all (\<lambda>byte. byte = 255) pad"
    and total: "k * es = length body - q3"
    using assms unfolding multi_decoder_new_def Let_def POSTAMBLE_SIZE_def TRAILER_ITEM_SIZE_def nz
    by (auto simp: try_bind_accepts ensure_def bind_eq_Some_conv split: if_splits prod.splits)
  note d0 = take_suffix_drop [OF t0 le0]
  note d1 = take_suffix_drop [OF t1 d0 [THEN conjunct1]]
  note d2 = take_suffix_drop [OF t2 d1 [THEN conjunct1]]
  note d3 = take_suffix_drop [OF t3 d2 [THEN conjunct1]]
  have fills: "x = replicate (length x) 255" if "list_all (\<lambda>byte. byte = 255) x" for x :: "u8 list"
    using that by (simp add: list_all_iff replicate_length_same)
  have qs: "q0 = 2" "q1 = 2 + read_u16 post * 2" "q2 = ts" using d0 d1 d2 q1 by auto
  have "body = take (k * es) body @ drop (length body - q3) body" by (simp add: total)
  also have "drop (length body - q3) body = pad @ unused @ items @ post"
  proof -
    have "drop (length body - q3) body = pad @ drop (length body - q2) body" "drop (length body - q2) body = unused @ drop (length body - q1) body"
      "drop (length body - q1) body = items @ drop (length body - q0) body" using d1 d2 d3 by blast+
    moreover have "drop (length body - q0) body = post" using d0 by (metis append_Nil2 diff_zero drop_eq_Nil le_refl)
    ultimately show ?thesis by (simp only:)
  qed
  also have "post = item_bytes (read_u16 post)" using d0 item_bytes_read by simp
  also have "unused = replicate (ts - 2 - read_u16 post * 2) 255" using fills [OF u] d0 d1 d2 qs by simp
  also have "pad = replicate (k * es mod 2) 255" using fills [OF p] d0 d1 d2 d3 by simp
  finally have "body = take (k * es) body @ replicate (k * es mod 2) 255 @ replicate (ts - 2 - read_u16 post * 2) 255 @ items @
    item_bytes (read_u16 post)" .
  then have body: "body = take (k * es) body @ replicate (k * es mod 2) 255 @ replicate (ts - 2 - read_u16 post * 2) 255 @ items @
    item_bytes (read_u16 post)" .
  have small: "read_u16 post < 2 ^ 16" using n by (simp add: BATCH_COUNT_MAX_def)
  have sum: "k = sum_list (map read_u16 (as_chunks 2 items))" using count_events_Some [OF k(1)] by simp
  have enough: "2 + read_u16 post * 2 \<le> ts" using q1 qs by simp
  have len: "length items = read_u16 post * 2" "length (take (k * es) body) = k * es" using d1 total by simp_all
  show ?thesis by (rule that [OF es n ts enough len(1) sum _ k(3) len(2) small body]) (use k(2) in \<open>simp add: nz_def\<close>)
qed

lemma multi_decoder_canonical:
  assumes "multi_decoder_new body es = Some (Some d)"
  shows "\<exists>batches ts. body = multi_body es ts batches \<and> (\<forall>b \<in> set batches. batch_ok es b) \<and> batches \<noteq> [] \<and>
    length batches \<le> BATCH_COUNT_MAX \<and> trailer_total_size es (length batches) = Some ts \<and> length (concat batches) < 2 ^ 32 \<and>
    (es = 0 \<or> is_power_of_two es)"
proof -
  obtain n ts items k payload where es: "es = 0 \<or> is_power_of_two es" and n: "0 < n" "n \<le> BATCH_COUNT_MAX"
    and ts: "trailer_total_size es n = Some ts" and items: "length items = n * 2"
    and k: "k = sum_list (map read_u16 (as_chunks 2 items))" "es = 0 \<Longrightarrow> k = 0" "k * es < 2 ^ 32" "length payload = k * es"
    and body: "body = payload @ replicate (k * es mod 2) 255 @ replicate (ts - 2 - n * 2) 255 @ items @ item_bytes n"
    using multi_decoder_accepts [OF assms] by metis
  define ks where "ks = rev (map read_u16 (as_chunks 2 items))"
  have items_eq: "trailer_items_of ks = items" using items_of_bytes items by (simp add: ks_def)
  then have len: "length ks = n" using items length_items [of ks] by simp
  have sum: "sum_list ks = k" by (simp add: ks_def k(1) sum_list_rev)
  obtain batches where b: "concat batches = payload" "map length batches = map (\<lambda>k. k * es) ks"
    using split_payload [of payload ks es] k(4) sum by auto
  have zero: "es = 0 \<Longrightarrow> j \<in> set ks \<Longrightarrow> j = 0" for j using k(2) sum by simp
  have counts: "batch_counts es batches = ks"
  proof -
    have "batch_counts es batches = map (\<lambda>l. l div es) (map length batches)" by (simp add: batch_counts_def)
    also have "\<dots> = ks" unfolding b(2) using zero by (cases "es = 0") (auto intro: map_idI)
    finally show ?thesis .
  qed
  have n': "length batches = n" using b(2) len by (metis length_map)
  have small: "j < 2 ^ 16" if "j \<in> set ks" for j
    using that unsigned_less [where 'b = 16] by (auto simp: ks_def read_u16_def)
  have "batch_ok es x" if "x \<in> set batches" for x
  proof -
    have "length x \<in> set (map (\<lambda>k. k * es) ks)" unfolding b(2) [symmetric] using that by simp
    then obtain j where "j \<in> set ks" "length x = j * es" by auto
    then show ?thesis using small [of j] by (auto simp: batch_ok_def)
  qed
  moreover have "body = multi_body es ts batches"
    using body b(1) k(4) counts items_eq n' by (simp add: multi_body_def mult.commute)
  ultimately show ?thesis using n n' ts k b(1) es by (intro exI [of _ batches] exI [of _ ts]) auto
qed

section \<open>Properties\<close>

lemma decoded_batches:
  assumes "\<forall>b \<in> set batches. batch_ok es b" "batches \<noteq> []" "length batches \<le> BATCH_COUNT_MAX"
    "es = 0 \<or> is_power_of_two es" "trailer_total_size es (length batches) = Some ts" "length (concat batches) < 2 ^ 32"
  obtains d d' where "multi_decoder_new (multi_body es ts batches) es = Some (Some d)" "md_payload d = concat batches"
    "batch_items d = length batches" "multi_pops (length batches) d = Some (batches, d')" "multi_pop d' = Some (None, d')"
proof -
  have n: "0 < length batches" using assms(2) by simp
  note d = decoder_of_body [OF assms(1) n assms(3-6)]
  let ?d = "\<lparr>md_payload = concat batches, md_trailer_items = trailer_items_of (batch_counts es batches), md_payload_index = 0,
    md_batch_index = 0, md_element_size = es\<rparr>"
  have "multi_pops (length batches) ?d = Some (batches, ?d\<lparr>md_payload_index := length (concat batches), md_batch_index := length batches\<rparr>)"
    using multi_pops_from [OF assms(1), of 0 "length batches" ?d] by simp
  moreover have "multi_pop (?d\<lparr>md_payload_index := length (concat batches), md_batch_index := length batches\<rparr>) =
      Some (None, ?d\<lparr>md_payload_index := length (concat batches), md_batch_index := length batches\<rparr>)"
    by (rule multi_pop_end [OF assms(2)]) simp
  moreover have "batch_items ?d = length batches" by (simp add: batch_items_def batch_counts_def TRAILER_ITEM_SIZE_def)
  ultimately show ?thesis using that [OF d] by simp
qed

text \<open>C36. Encoding any batches of whole elements that fit the buffer succeeds, and the decoder pops the same batches in the
  same order and then reports the end: no panic on either side, whatever the buffer held before.\<close>

theorem multi_batch_round_trip:
  assumes es: "es = 0 \<or> is_power_of_two es" and ok: "\<forall>b \<in> set batches. batch_ok es b"
    and n: "batches \<noteq> []" "length batches \<le> BATCH_COUNT_MAX" and ts: "trailer_total_size es (length batches) = Some ts"
    and fits: "length (concat batches) + ts \<le> length buffer - length buffer mod 2" and small: "length (concat batches) < 2 ^ 32"
  shows "\<exists>body d d'. multi_encode buffer es batches = Some body \<and> multi_decoder_new body es = Some (Some d) \<and>
    multi_pops (length batches) d = Some (batches, d') \<and> multi_pop d' = Some (None, d')"
proof -
  define len where "len = length buffer - length buffer mod 2"
  obtain t1 where t1: "trailer_total_size es 1 = Some t1"
    using trailer_total [of 1 es] es by (metis BATCH_COUNT_MAX_def One_nat_def one_le_numeral zero_less_one)
  have "t1 \<le> ts" by (rule trailer_total_mono [OF t1 ts]) (use n in \<open>cases batches; simp\<close>)
  then have t1_len: "t1 \<le> len" using fits by (simp add: len_def)
  have "2 + 2 * length batches \<le> ts" using trailer_total [of "length batches" es] n es ts by (metis add.commute length_greater_0_conv option.inject)
  then have two: "2 \<le> len" using fits by (simp add: len_def)
  have "even len" by (simp add: len_def)
  define buf where "buf = take len buffer"
  have buf: "length buf = len" by (simp add: buf_def len_def)
  define e where "e = \<lparr>me_buffer = Some buf, me_batch_count = 0, me_buffer_index = 0, me_element_size = es\<rparr>"
  have new: "multi_encoder_new buffer es = Some e"
    using es t1 t1_len by (simp add: multi_encoder_new_def ensure_def TRAILER_ITEM_SIZE_def e_def buf_def len_def)
  have "buf = take (len - 2) buf @ drop (len - 2) buf" by simp
  then have "encoder_inv es len [] e" using buf two \<open>even len\<close>
    unfolding encoder_inv_def by (intro conjI exI [of _ "take (len - 2) buf"] exI [of _ "drop (len - 2) buf"])
      (simp_all add: e_def batch_counts_def trailer_items_of_def)
  then obtain e' where e': "multi_puts batches e = Some e'" "encoder_inv es len batches e'"
    using multi_puts_inv [of es len "[]" e batches ts] es ok n ts fits by (auto simp: len_def)
  have n': "0 < length batches" using n by simp
  obtain tail where "multi_finish e' = Some (length (multi_body es ts batches), multi_body es ts batches @ tail, e'\<lparr>me_buffer := None\<rparr>)"
    using multi_finish_body [OF e'(2) es ok n' n(2) ts _ small] fits by (auto simp: len_def)
  then have "multi_encode buffer es batches = Some (multi_body es ts batches)" by (simp add: multi_encode_def new e')
  then show ?thesis using decoded_batches [OF ok n es ts small] by metis
qed

theorem multi_batch_round_trip_witness:
  "\<exists>body d d'. multi_encode (replicate 32 0) 4 [[1, 2, 3, 4], [], [5, 6, 7, 8, 9, 10, 11, 12], []] = Some body \<and>
    multi_decoder_new body 4 = Some (Some d) \<and>
    multi_pops (length [[1, 2, 3, 4], [], [5, 6, 7, 8, 9, 10, 11, 12 :: u8], []]) d =
      Some ([[1, 2, 3, 4], [], [5, 6, 7, 8, 9, 10, 11, 12], []], d') \<and> multi_pop d' = Some (None, d')"
  by (rule multi_batch_round_trip [where ts = 12])
    (simp_all add: is_power_of_two_def image_iff exI [of _ 2] Bex_def batch_ok_def BATCH_COUNT_MAX_def trailer_total_size_def ensure_def
      TRAILER_ITEM_SIZE_def POSTAMBLE_SIZE_def)

text \<open>C37. The decoder is safe on untrusted bodies: it never panics, and a body it accepts is exactly the encoding of the
  batches it then pops, whose payloads are the message's payload.\<close>

theorem multi_decoder_safe:
  assumes es: "es = 0 \<or> is_power_of_two es"
  shows "\<exists>r. multi_decoder_new body es = Some r \<and>
    (\<forall>d. r = Some d \<longrightarrow> (\<exists>batches d' ts. multi_pops (batch_items d) d = Some (batches, d') \<and> multi_pop d' = Some (None, d') \<and>
      concat batches = md_payload d \<and> trailer_total_size es (length batches) = Some ts \<and> body = multi_body es ts batches))"
proof -
  obtain r where r: "multi_decoder_new body es = Some r" using multi_decoder_total [OF es] by blast
  have "\<exists>batches d' ts. multi_pops (batch_items d) d = Some (batches, d') \<and> multi_pop d' = Some (None, d') \<and>
      concat batches = md_payload d \<and> trailer_total_size es (length batches) = Some ts \<and> body = multi_body es ts batches" if "r = Some d" for d
  proof -
    have new: "multi_decoder_new body es = Some (Some d)" using r that by simp
    obtain batches ts where b: "body = multi_body es ts batches" "\<forall>b \<in> set batches. batch_ok es b" "batches \<noteq> []"
      "length batches \<le> BATCH_COUNT_MAX" "trailer_total_size es (length batches) = Some ts" "length (concat batches) < 2 ^ 32"
      using multi_decoder_canonical [OF new] by blast
    obtain d0 d' where d: "multi_decoder_new body es = Some (Some d0)" "md_payload d0 = concat batches" "batch_items d0 = length batches"
      "multi_pops (length batches) d0 = Some (batches, d')" "multi_pop d' = Some (None, d')"
      using decoded_batches [OF b(2-4) es b(5,6)] unfolding b(1) [symmetric] .
    then have "d0 = d" using new by simp
    then show ?thesis using d b by auto
  qed
  then show ?thesis using r by blast
qed

theorem multi_decoder_safe_witness:
  "\<exists>r. multi_decoder_new [1, 2, 3, 4, 1, 0, 1, 0] 4 = Some r \<and>
    (\<forall>d. r = Some d \<longrightarrow> (\<exists>batches d' ts. multi_pops (batch_items d) d = Some (batches, d') \<and> multi_pop d' = Some (None, d') \<and>
      concat batches = md_payload d \<and> trailer_total_size 4 (length batches) = Some ts \<and> [1, 2, 3, 4, 1, 0, 1, 0] = multi_body 4 ts batches))"
  by (rule multi_decoder_safe) (simp add: is_power_of_two_def image_iff exI [of _ 2] Bex_def)

end
