(* ===== verification/JoinView.thy ===== *)
theory JoinView
  imports BitSet
begin

text \<open>
  The view change of \<open>tigerbeetle-vsr/src/jv_quorum.rs\<close>: how the new primary decides, from the JoinView
  messages (JVs) it has collected, which prepares survive; and the quorum sizes of \<open>replica.rs\<close> the decision
  rests on. Headers are the typed headers of \<open>message_header.rs\<close>, frame fields first. \<open>usize\<close>, \<open>u16\<close> counts and the op numbers the loops
  run over are \<open>nat\<close>; where the code could overflow its width the model panics.
\<close>

definition PIPELINE_PREPARE_QUEUE_MAX :: nat where "PIPELINE_PREPARE_QUEUE_MAX = 8"
definition QUORUM_REPLICATION_MAX :: nat where "QUORUM_REPLICATION_MAX = 3"
definition OPERATION_RESERVED :: u8 where "OPERATION_RESERVED = 0"

section \<open>Quorums\<close>

record quorum =
  q_replication :: nat
  q_view_change :: nat
  q_nack_prepare :: nat
  q_majority :: nat

definition div_ceil :: "nat \<Rightarrow> nat \<Rightarrow> nat" where
  "div_ceil a b = a div b + (if a mod b = 0 then 0 else 1)"

definition quorums :: "nat \<Rightarrow> quorum option" where
  "quorums replica_count =
     do { ensure (replica_count > 0);
          let replication = (if replica_count = 2 then 2 else min QUORUM_REPLICATION_MAX (div_ceil replica_count 2));
          let view_change = (if replica_count = 2 then 2 else replica_count - replication + 1);
          Some \<lparr>q_replication = replication, q_view_change = view_change,
            q_nack_prepare = replica_count - replication + 1,
            q_majority = div_ceil replica_count 2 + (if replica_count mod 2 = 0 then 1 else 0)\<rparr> }"

section \<open>JoinView messages\<close>

record prepare_header =
  ph_checksum :: u128
  ph_checksum_padding :: u128
  ph_checksum_body :: u128
  ph_checksum_body_padding :: u128
  ph_nonce_reserved :: u128
  ph_cluster :: u128
  ph_size :: u32
  ph_epoch :: u32
  ph_view :: u32
  ph_release :: u32
  ph_protocol :: u16
  ph_command :: u8
  ph_replica :: u8
  ph_reserved_frame :: "u8 list"
  ph_parent :: u128
  ph_parent_padding :: u128
  ph_request_checksum :: u128
  ph_request_checksum_padding :: u128
  ph_checkpoint_id :: u128
  ph_client :: u128
  ph_op :: u64
  ph_commit :: u64
  ph_timestamp :: u64
  ph_request :: u32
  ph_operation :: u8
  ph_reserved :: "u8 list"

record join_view_header =
  jh_checksum :: u128
  jh_checksum_padding :: u128
  jh_checksum_body :: u128
  jh_checksum_body_padding :: u128
  jh_nonce_reserved :: u128
  jh_cluster :: u128
  jh_size :: u32
  jh_epoch :: u32
  jh_view :: u32
  jh_release :: u32
  jh_protocol :: u16
  jh_command :: u8
  jh_replica :: u8
  jh_reserved_frame :: "u8 list"
  jh_present_bitset :: u128
  jh_nack_bitset :: u128
  jh_op :: u64
  jh_commit_min :: u64
  jh_checkpoint_op :: u64
  jh_log_view :: u32
  jh_reserved :: "u8 list"

record joined_view =
  jv_header :: join_view_header
  jv_headers :: "prepare_header list"

datatype jv_header_type = Blank | Valid

definition jv_header_type :: "prepare_header \<Rightarrow> jv_header_type" where
  "jv_header_type header = (if ph_operation header = OPERATION_RESERVED then Blank else Valid)"

record quorum_options =
  qo_replica_count :: nat
  qo_quorum_view_change :: nat
  qo_quorum_nack_prepare :: nat

datatype quorum_headers_result =
  AwaitingQuorum
| AwaitingRepair
| CompleteInvalid
| CompleteValid nat nat "prepare_header list"  \<comment> \<open>\<open>op_head\<close>, \<open>op_min\<close>, \<open>headers\<close>\<close>

abbreviation jv_op :: "joined_view \<Rightarrow> nat" where "jv_op jv \<equiv> unat (jh_op (jv_header jv))"
abbreviation jv_log_view :: "joined_view \<Rightarrow> u32" where "jv_log_view jv \<equiv> jh_log_view (jv_header jv)"
abbreviation jv_replica :: "joined_view \<Rightarrow> nat" where "jv_replica jv \<equiv> unat (jh_replica (jv_header jv))"

section \<open>The collected JVs\<close>

definition jvs_all :: "joined_view option list \<Rightarrow> joined_view list option" where
  "jvs_all jvs =
     do { ensure (list_all (\<lambda>(index, received). case received of None \<Rightarrow> True
            | Some message \<Rightarrow> index < 256 \<and> jv_replica message = index) (enumerate 0 jvs));
          Some (concat (map (\<lambda>received. case received of None \<Rightarrow> [] | Some message \<Rightarrow> [message]) jvs)) }"

definition maximum_of :: "'a::linorder list \<Rightarrow> 'a option" where
  "maximum_of xs = (case xs of [] \<Rightarrow> None | x # xs \<Rightarrow> Some (fold max xs x))"

definition log_view_max :: "joined_view option list \<Rightarrow> u32 option" where
  "log_view_max jvs =
     do { all \<leftarrow> jvs_all jvs;
          ensure (list_all (\<lambda>message. jv_log_view message < jh_view (jv_header message)) all);
          maximum_of (map jv_log_view all) }"

definition jvs_with_log_view :: "joined_view option list \<Rightarrow> u32 \<Rightarrow> joined_view list option" where
  "jvs_with_log_view jvs log_view = map_option (filter (\<lambda>message. jv_log_view message = log_view)) (jvs_all jvs)"

definition jvs_canonical :: "joined_view option list \<Rightarrow> joined_view list option" where
  "jvs_canonical jvs = do { log_view \<leftarrow> log_view_max jvs; jvs_with_log_view jvs log_view }"

definition jvs_uncanonical :: "joined_view option list \<Rightarrow> joined_view list option" where
  "jvs_uncanonical jvs =
     do { maximum \<leftarrow> log_view_max jvs;
          all \<leftarrow> jvs_all jvs;
          ensure (list_all (\<lambda>message. jv_log_view message \<le> maximum) all);
          Some (filter (\<lambda>message. jv_log_view message < maximum) all) }"

definition op_checkpoint_max :: "joined_view option list \<Rightarrow> u64 option" where
  "op_checkpoint_max jvs =
     do { all \<leftarrow> jvs_all jvs; maximum_of (map (\<lambda>jv. jh_checkpoint_op (jv_header jv)) all) }"

definition commit_max :: "joined_view option list \<Rightarrow> nat option" where
  "commit_max jvs =
     do { all \<leftarrow> jvs_all jvs;
          ensure (all \<noteq> []);
          ensure (list_all (\<lambda>jv. jv_headers jv \<noteq> []) all);
          Some (fold (\<lambda>jv commit_maximum.
            max (max (max (max commit_maximum (unat (ph_op (last (jv_headers jv)))))
                  (jv_op jv - PIPELINE_PREPARE_QUEUE_MAX))
                (unat (jh_commit_min (jv_header jv))))
              (unat (ph_commit (hd (jv_headers jv))))) all 0) }"

definition timestamp_max :: "joined_view option list \<Rightarrow> u64 option" where
  "timestamp_max jvs =
     do { all \<leftarrow> jvs_all jvs;
          ensure (list_all (\<lambda>jv. jv_headers jv \<noteq> []) all);
          maximum_of (map (\<lambda>jv. ph_timestamp (hd (jv_headers jv))) all) }"

definition op_max_canonical :: "joined_view option list \<Rightarrow> nat option" where
  "op_max_canonical jvs = do { canonical \<leftarrow> jvs_canonical jvs; maximum_of (map jv_op canonical) }"

definition bitset_bit :: "u128 \<Rightarrow> nat \<Rightarrow> bool option" where
  "bitset_bit bitset index = do { ensure (index < 128); Some (bitset AND push_bit index 1 \<noteq> 0) }"

section \<open>Deciding one op\<close>

text \<open>The header of \<open>op\<close> among the canonical JVs; \<open>None\<close> inside when they have none.\<close>

fun canonical_header :: "joined_view list \<Rightarrow> nat \<Rightarrow> prepare_header option option" where
  "canonical_header [] op = Some None"
| "canonical_header (jv # jvs) op =
     (if jv_op jv < op then canonical_header jvs op
      else
        do { let header_index = jv_op jv - op;
             ensure (header_index < length (jv_headers jv));
             let header = jv_headers jv ! header_index;
             ensure (unat (ph_op header) = op);
             if jv_header_type header = Valid then Some (Some header) else canonical_header jvs op })"

text \<open>What one JV says of \<open>op\<close>: whether it holds a copy of the canonical header, and whether it nacks the op.\<close>

definition jv_vote :: "u32 \<Rightarrow> prepare_header option \<Rightarrow> nat \<Rightarrow> joined_view \<Rightarrow> (bool \<times> bool) option" where
  "jv_vote log_view_canonical header_canonical op jv =
     (if jv_op jv < op then Some (False, True)
      else if length (jv_headers jv) \<le> jv_op jv - op then Some (False, True)
      else
        do { let header_index = jv_op jv - op;
             let header = jv_headers jv ! header_index;
             ensure (unat (ph_op header) = op);
             ensure (ph_view header \<le> log_view_canonical);
             copy \<leftarrow> (if jv_header_type header = Valid
               then do { present \<leftarrow> bitset_bit (jh_present_bitset (jv_header jv)) header_index;
                         Some (present \<and> (case header_canonical of None \<Rightarrow> False | Some h \<Rightarrow> ph_checksum h = ph_checksum header)) }
               else Some False);
             nacked \<leftarrow> bitset_bit (jh_nack_bitset (jv_header jv)) header_index;
             nack \<leftarrow> (if nacked then Some True
               else if jv_header_type header = Valid
               then (case header_canonical of
                   None \<Rightarrow> do { ensure (ph_view header < log_view_canonical);
                                ensure (jv_log_view jv < log_view_canonical);
                                Some True }
                 | Some h \<Rightarrow> if ph_checksum h \<noteq> ph_checksum header
                     then do { ensure (jv_log_view jv < log_view_canonical); Some True }
                     else Some False)
               else Some False);
             Some (copy, nack) })"

fun tally :: "u32 \<Rightarrow> prepare_header option \<Rightarrow> nat \<Rightarrow> joined_view list \<Rightarrow> (nat \<times> nat) option" where
  "tally log_view_canonical header_canonical op [] = Some (0, 0)"
| "tally log_view_canonical header_canonical op (jv # jvs) =
     do { (copy, nack) \<leftarrow> jv_vote log_view_canonical header_canonical op jv;
          (copies, nacks) \<leftarrow> tally log_view_canonical header_canonical op jvs;
          Some (copies + of_bool copy, nacks + of_bool nack) }"

section \<open>The decision\<close>

text \<open>The loop from the highest committed op to the canonical head: \<open>Inr\<close> is the new head.\<close>

function op_loop :: "quorum_options \<Rightarrow> joined_view list \<Rightarrow> joined_view list \<Rightarrow> u32 \<Rightarrow> nat \<Rightarrow> nat \<Rightarrow> nat
    \<Rightarrow> (quorum_headers_result + nat) option" where
  "op_loop options all canonical log_view_canonical op_head_min op_head_max op =
     (if op_head_max < op then Some (Inr op_head_max)
      else
        do { header_canonical \<leftarrow> canonical_header canonical op;
             (copies, nacks) \<leftarrow> tally log_view_canonical header_canonical op all;
             if qo_quorum_nack_prepare options \<le> nacks
             then do { ensure (op_head_min < op); Some (Inr (op - 1)) }
             else if header_canonical = None \<or> copies = 0
             then Some (Inl (if length all < qo_replica_count options then AwaitingRepair else CompleteInvalid))
             else do { ensure (op + 1 < 2 ^ 64);
                       op_loop options all canonical log_view_canonical op_head_min op_head_max (op + 1) } })"
  by pat_completeness auto
termination by (relation "measure (\<lambda>(_, _, _, _, _, op_head_max, op). Suc op_head_max - op)") auto

declare op_loop.simps [simp del]

text \<open>\<open>headers_for_view\<close>: the header of \<open>op\<close> all the JVs agree on, and the loop from the head down.\<close>

fun header_at :: "u32 \<Rightarrow> nat \<Rightarrow> prepare_header option \<Rightarrow> joined_view list \<Rightarrow> prepare_header option option" where
  "header_at log_view op header [] = Some header"
| "header_at log_view op header (jv # jvs) =
     do { ensure (log_view = jv_log_view jv);
          if jv_op jv < op then header_at log_view op header jvs
          else if length (jv_headers jv) \<le> jv_op jv - op then header_at log_view op header jvs
          else
            let jv_header = jv_headers jv ! (jv_op jv - op)
            in if jv_header_type jv_header = Valid
               then (case header of
                   Some h \<Rightarrow> do { ensure (ph_checksum h = ph_checksum jv_header); header_at log_view op header jvs }
                 | None \<Rightarrow> header_at log_view op (Some jv_header) jvs)
               else header_at log_view op header jvs }"

function headers_down :: "joined_view list \<Rightarrow> nat \<Rightarrow> u128 option \<Rightarrow> nat \<Rightarrow> prepare_header list option" where
  "headers_down canonical op_min child_parent op =
     do { header \<leftarrow> header_at (jv_log_view (hd canonical)) op None canonical;
          ensure (case child_parent of None \<Rightarrow> True
            | Some parent \<Rightarrow> (case header of None \<Rightarrow> False | Some h \<Rightarrow> ph_checksum h = parent));
          header_found \<leftarrow> header;
          if op \<le> op_min then Some [header_found]
          else do { rest \<leftarrow> headers_down canonical op_min (Some (ph_parent header_found)) (op - 1);
                    Some (header_found # rest) } }"
  by pat_completeness auto
termination by (relation "measure (\<lambda>(_, op_min, _, op). op - op_min)") auto

declare headers_down.simps [simp del]

definition headers_for_view :: "joined_view list \<Rightarrow> nat \<Rightarrow> nat \<Rightarrow> prepare_header list option" where
  "headers_for_view canonical op_max op_min =
     do { ensure (canonical \<noteq> []);
          ensure (op_min \<le> op_max);
          ensure (op_max + 1 < 2 ^ 64);
          headers_down canonical op_min None op_max }"

definition quorum_headers :: "joined_view option list \<Rightarrow> quorum_options \<Rightarrow> quorum_headers_result option" where
  "quorum_headers jvs options =
     do { ensure (qo_replica_count options \<ge> 2);
          ensure (qo_quorum_view_change options \<ge> 2);
          ensure (qo_quorum_view_change options \<le> qo_replica_count options);
          ensure (if qo_replica_count options = 2 then qo_quorum_nack_prepare options = 1
                  else qo_quorum_nack_prepare options = qo_quorum_view_change options);
          all \<leftarrow> jvs_all jvs;
          if length all < qo_quorum_view_change options then Some AwaitingQuorum
          else
            do { log_view_canonical \<leftarrow> log_view_max jvs;
                 canonical \<leftarrow> jvs_canonical jvs;
                 ensure (canonical \<noteq> []);
                 ensure (length canonical \<le> length all);
                 op_head_max \<leftarrow> op_max_canonical jvs;
                 op_head_min \<leftarrow> commit_max jvs;
                 ensure (op_head_min \<le> op_head_max);
                 decided \<leftarrow> op_loop options all canonical log_view_canonical op_head_min op_head_max op_head_min;
                 (case decided of Inl awaiting \<Rightarrow> Some awaiting
                  | Inr op_head \<Rightarrow>
                      do { ensure (op_head_min \<le> op_head);
                           ensure (op_head \<le> op_head_max);
                           headers \<leftarrow> headers_for_view canonical op_head op_head_min;
                           Some (CompleteValid op_head op_head_min headers) }) } }"

section \<open>Admission of a JV\<close>

definition verify_message :: "joined_view \<Rightarrow> unit option" where
  "verify_message message =
     (let header = jv_header message; headers = jv_headers message; log_view = jh_log_view header
      in do { ensure (jh_commit_min header \<le> jh_op header);
              ensure (jh_checkpoint_op header \<le> jh_commit_min header);
              ensure (log_view < jh_view header);
              ensure (headers \<noteq> []);
              ensure (length headers \<le> PIPELINE_PREPARE_QUEUE_MAX + 1);
              ensure (ph_op (hd headers) = jh_op header);
              ensure (ph_view (hd headers) \<le> log_view);
              ensure (count_ones (jh_nack_bitset header) \<le> length headers);
              ensure (128 \<le> leading_zeros (jh_nack_bitset header) + length headers);
              ensure (count_ones (jh_present_bitset header) \<le> length headers);
              ensure (128 \<le> leading_zeros (jh_present_bitset header) + length headers) })"

text \<open>Two JVs of the same \<open>log_view\<close> agree on every op they both prepared; the ops are scanned upwards, and an
  index out of a body panics.\<close>

fun verify_ops :: "joined_view \<Rightarrow> joined_view \<Rightarrow> nat list \<Rightarrow> unit option" where
  "verify_ops a b [] = Some ()"
| "verify_ops a b (op # ops) =
     do { ensure (jv_op a - op < length (jv_headers a));
          ensure (jv_op b - op < length (jv_headers b));
          let left = jv_headers a ! (jv_op a - op);
          let right = jv_headers b ! (jv_op b - op);
          ensure (jv_header_type left = Valid \<and> jv_header_type right = Valid \<longrightarrow> ph_checksum left = ph_checksum right);
          verify_ops a b ops }"

definition verify_pair :: "joined_view \<Rightarrow> joined_view \<Rightarrow> unit option" where
  "verify_pair a b =
     (if jv_log_view a \<noteq> jv_log_view b then Some ()
      else let op_max = min (jv_op a) (jv_op b);
               op_min = max (unat (ph_op (last (jv_headers a)))) (unat (ph_op (last (jv_headers b))))
           in if op_max < op_min then Some () else verify_ops a b [op_min..<Suc op_max])"

fun verify_all_pairs :: "joined_view list \<Rightarrow> joined_view list \<Rightarrow> unit option" where
  "verify_all_pairs earlier [] = Some ()"
| "verify_all_pairs earlier (jv # jvs) =
     do { those (map (verify_pair jv) earlier);
          verify_all_pairs (earlier @ [jv]) jvs }"

definition verify :: "joined_view option list \<Rightarrow> unit option" where
  "verify jvs =
     do { all \<leftarrow> jvs_all jvs;
          those (map verify_message all);
          verify_all_pairs [] all }"

text \<open>\<open>primary_receive_join_view\<close> on a decoded body: a duplicate only replaces an older one.\<close>

definition receive_join_view :: "join_view_header \<Rightarrow> prepare_header list option \<Rightarrow> joined_view option list
    \<Rightarrow> joined_view option list option" where
  "receive_join_view join_view body jvs =
     do { let slot = unat (jh_replica join_view);
          ensure (slot < length jvs);
          let keep = (case jvs ! slot of None \<Rightarrow> False
            | Some existing \<Rightarrow> \<not> (jh_checkpoint_op (jv_header existing) < jh_checkpoint_op join_view \<or>
                jh_checkpoint_op (jv_header existing) = jh_checkpoint_op join_view \<and>
                jh_commit_min (jv_header existing) < jh_commit_min join_view));
          if keep then Some jvs
          else (case body of None \<Rightarrow> Some jvs
                | Some headers \<Rightarrow> Some (jvs[slot := Some \<lparr>jv_header = join_view, jv_headers = headers\<rparr>])) }"

end
