(* ===== verification/ViewChange.thy ===== *)
theory ViewChange
  imports JoinView
begin

text \<open>
  What a decision of \<open>quorum_headers\<close> guarantees. The quorum sizes of \<open>quorums\<close> intersect (a locale,
  interpreted for the two pairs the protocol relies on), the op loop stops at the first op that a nack
  quorum denies, the header loop returns one hash chain; from these, an op that a replication quorum
  holds is never truncated.
\<close>

section \<open>Intersecting quorums\<close>

locale intersecting =
  fixes members a b :: nat
  assumes overlap: "members < a + b"
begin

lemma minority:
  assumes "A \<subseteq> {..<members}" "a \<le> card A" "B \<subseteq> {..<members} - A"
  shows "card B < b"
proof -
  have "card B \<le> card ({..<members} - A)" using assms(3) by (intro card_mono) auto
  also have "\<dots> = members - card A" using assms(1) by (simp add: card_Diff_subset finite_subset)
  finally have "card B \<le> members - card A" .
  moreover have "card A \<le> members" using card_mono [OF _ assms(1)] by simp
  ultimately show ?thesis using overlap assms(2) by arith
qed

lemma meets: "A \<subseteq> {..<members} \<Longrightarrow> B \<subseteq> {..<members} \<Longrightarrow> a \<le> card A \<Longrightarrow> b \<le> card B \<Longrightarrow> A \<inter> B \<noteq> {}"
  using minority [of A B] by fastforce

end

definition quorum_of :: "nat \<Rightarrow> quorum" where "quorum_of n = the (quorums (Suc n))"

lemma quorums_Suc: "quorums (Suc n) = Some (quorum_of n)"
  by (simp add: quorum_of_def quorums_def Let_def)

lemma replication_le: "q_replication (quorum_of n) \<le> Suc n"
proof -
  have "div_ceil (Suc n) 2 \<le> Suc n" by (simp add: div_ceil_def) linarith
  then show ?thesis by (simp add: quorum_of_def quorums_def Let_def min_le_iff_disj)
qed

interpretation nack: intersecting "Suc n" "q_replication (quorum_of n)" "q_nack_prepare (quorum_of n)" for n
  using replication_le [of n] by unfold_locales (simp add: quorum_of_def quorums_def Let_def)

interpretation view_change: intersecting "Suc n" "q_replication (quorum_of n)" "q_view_change (quorum_of n)" for n
  using replication_le [of n] by unfold_locales (simp add: quorum_of_def quorums_def Let_def split: if_splits)

definition options_of :: "nat \<Rightarrow> quorum \<Rightarrow> quorum_options" where
  "options_of n q = \<lparr>qo_replica_count = n, qo_quorum_view_change = q_view_change q, qo_quorum_nack_prepare = q_nack_prepare q\<rparr>"

section \<open>The collected JVs\<close>

lemma maximum_of_eq: "maximum_of xs = (if xs = [] then None else Some (Max (set xs)))"
proof (cases xs)
  case (Cons x ys)
  have "fold max ys x = Max (insert x (set ys))" by (simp add: Max.set_eq_fold flip: list.set)
  then show ?thesis by (simp add: maximum_of_def Cons)
qed (simp add: maximum_of_def)

lemma jvs_all_members:
  assumes "jvs_all jvs = Some all"
  shows "set all = {jv. Some jv \<in> set jvs}"
  using assms by (auto simp: jvs_all_def panic_simps split: option.splits)

lemma jvs_all_slots:
  assumes "jvs_all jvs = Some all"
  shows "distinct (map jv_replica all)" "jv \<in> set all \<Longrightarrow> jv_replica jv < length jvs" "length all \<le> length jvs"
    "length all = length jvs \<longleftrightarrow> None \<notin> set jvs"
proof -
  have gen: "list_all (\<lambda>(index, received). case received of None \<Rightarrow> True
      | Some message \<Rightarrow> index < 256 \<and> jv_replica message = index) (enumerate k js) \<Longrightarrow>
    distinct (map jv_replica (concat (map (\<lambda>received. case received of None \<Rightarrow> [] | Some message \<Rightarrow> [message]) js))) \<and>
    (\<forall>jv. Some jv \<in> set js \<longrightarrow> k \<le> jv_replica jv \<and> jv_replica jv < k + length js)" for k js
  proof (induction js arbitrary: k)
    case (Cons j js)
    have "list_all (\<lambda>(index, received). case received of None \<Rightarrow> True
        | Some message \<Rightarrow> index < 256 \<and> jv_replica message = index) (enumerate (Suc k) js)"
      using Cons.prems by simp
    note IH = Cons.IH [OF this]
    show ?case
    proof (cases j)
      case None
      with IH show ?thesis by fastforce
    next
      case (Some jv)
      with Cons.prems have "jv_replica jv = k" by simp
      with IH Some show ?thesis by fastforce
    qed
  qed simp
  have all: "all = concat (map (\<lambda>received. case received of None \<Rightarrow> [] | Some message \<Rightarrow> [message]) jvs)"
    and ok: "list_all (\<lambda>(index, received). case received of None \<Rightarrow> True
      | Some message \<Rightarrow> index < 256 \<and> jv_replica message = index) (enumerate 0 jvs)"
    using assms by (auto simp: jvs_all_def panic_simps)
  show "distinct (map jv_replica all)" "jv \<in> set all \<Longrightarrow> jv_replica jv < length jvs"
    using gen [OF ok] jvs_all_members [OF assms] by (auto simp: all)
  have "length (concat (map (\<lambda>received. case received of None \<Rightarrow> [] | Some message \<Rightarrow> [message]) js)) \<le> length js \<and>
      (length (concat (map (\<lambda>received. case received of None \<Rightarrow> [] | Some message \<Rightarrow> [message]) js)) = length js
        \<longleftrightarrow> None \<notin> set js)" for js :: "joined_view option list"
    by (induction js) (auto split: option.splits)
  then show "length all \<le> length jvs" "length all = length jvs \<longleftrightarrow> None \<notin> set jvs" by (auto simp: all)
qed

definition is_canonical :: "joined_view option list \<Rightarrow> joined_view \<Rightarrow> bool" where
  "is_canonical jvs jv \<longleftrightarrow> Some jv \<in> set jvs \<and> (\<forall>other. Some other \<in> set jvs \<longrightarrow> jv_log_view other \<le> jv_log_view jv)"

lemma canonical_members:
  assumes "jvs_canonical jvs = Some canonical"
  shows "jv \<in> set canonical \<longleftrightarrow> is_canonical jvs jv"
proof -
  obtain all where all: "jvs_all jvs = Some all" "all \<noteq> []" "log_view_max jvs = Some (Max (jv_log_view ` set all))"
    "canonical = filter (\<lambda>message. jv_log_view message = Max (jv_log_view ` set all)) all"
    using assms by (auto simp: jvs_canonical_def log_view_max_def jvs_with_log_view_def panic_simps maximum_of_eq split: if_splits)
  have "jv_log_view jv = Max (jv_log_view ` set all) \<longleftrightarrow> (\<forall>other \<in> set all. jv_log_view other \<le> jv_log_view jv)" if "jv \<in> set all"
    using that Max_eqI [of "jv_log_view ` set all" "jv_log_view jv"] by fastforce
  then show ?thesis using jvs_all_members [OF all(1)] by (auto simp: all(4) is_canonical_def)
qed

section \<open>What a JV holds\<close>

definition holds :: "joined_view \<Rightarrow> nat \<Rightarrow> prepare_header \<Rightarrow> bool" where
  "holds jv op header \<longleftrightarrow> op \<le> jv_op jv \<and> jv_op jv - op < length (jv_headers jv) \<and>
     jv_headers jv ! (jv_op jv - op) = header \<and> jv_header_type header = Valid"

definition present :: "joined_view \<Rightarrow> nat \<Rightarrow> bool" where
  "present jv op \<longleftrightarrow> bit (jh_present_bitset (jv_header jv)) (jv_op jv - op)"

definition nacked :: "joined_view \<Rightarrow> nat \<Rightarrow> bool" where
  "nacked jv op \<longleftrightarrow> bit (jh_nack_bitset (jv_header jv)) (jv_op jv - op)"

definition jv_nacks :: "u32 \<Rightarrow> prepare_header option \<Rightarrow> nat \<Rightarrow> joined_view \<Rightarrow> bool" where
  "jv_nacks log_view header op jv \<longleftrightarrow> (\<exists>copy. jv_vote log_view header op jv = Some (copy, True))"

lemma bitset_bit_eq [panic_simps]: "bitset_bit w i = Some b \<longleftrightarrow> i < 128 \<and> b = bit w i"
  by (auto simp: bitset_bit_def panic_simps bit_iff_and_push_bit_not_eq_0)

lemma canonical_header_holds:
  "canonical_header jvs op = Some (Some h) \<Longrightarrow> (\<exists>jv \<in> set jvs. holds jv op h) \<and> unat (ph_op h) = op"
  by (induction jvs op rule: canonical_header.induct) (auto simp: panic_simps holds_def Let_def split: if_splits)

lemma canonical_header_none:
  "canonical_header jvs op = Some None \<Longrightarrow> jv \<in> set jvs \<Longrightarrow> \<not> holds jv op h"
  by (induction jvs op rule: canonical_header.induct) (auto simp: panic_simps holds_def Let_def split: if_splits)

lemma tally_counts:
  "tally log_view hc op jvs = Some (copies, nacks) \<Longrightarrow>
   (\<forall>jv \<in> set jvs. \<exists>v. jv_vote log_view hc op jv = Some v) \<and> nacks = length (filter (jv_nacks log_view hc op) jvs) \<and>
   (0 < copies \<longrightarrow> (\<exists>jv \<in> set jvs. \<exists>nack. jv_vote log_view hc op jv = Some (True, nack)))"
proof (induction jvs arbitrary: copies nacks)
  case (Cons jv jvs)
  then obtain copy nack copies' nacks' where v: "jv_vote log_view hc op jv = Some (copy, nack)"
    "tally log_view hc op jvs = Some (copies', nacks')" "copies = copies' + of_bool copy" "nacks = nacks' + of_bool nack"
    by (auto simp: panic_simps)
  have "jv_nacks log_view hc op jv \<longleftrightarrow> nack" using v(1) by (auto simp: jv_nacks_def)
  with Cons.IH [OF v(2)] v show ?case by (cases copy; cases nack) auto
qed simp

lemma jv_vote_op:
  "jv_vote log_view hc op jv = Some v \<Longrightarrow> holds jv op h \<Longrightarrow> unat (ph_op h) = op \<and> ph_view h \<le> log_view"
  by (auto simp: jv_vote_def holds_def panic_simps Let_def split: if_splits)

lemma jv_vote_copy:
  "jv_vote log_view (Some h) op jv = Some (True, nack) \<Longrightarrow> \<exists>h'. holds jv op h' \<and> ph_checksum h' = ph_checksum h \<and> present jv op"
  by (auto simp: jv_vote_def holds_def present_def panic_simps Let_def split: if_splits)

lemma holder_not_nacks:
  "holds jv op h' \<Longrightarrow> ph_checksum h' = ph_checksum h \<Longrightarrow> \<not> nacked jv op \<Longrightarrow> \<not> jv_nacks log_view (Some h) op jv"
  by (auto simp: jv_nacks_def jv_vote_def holds_def nacked_def panic_simps Let_def split: if_splits)

section \<open>The op loop\<close>

text \<open>\<open>op_kept\<close>: the loop passes \<open>op\<close>; \<open>op_denied\<close>: it stops there because a nack quorum denies it.\<close>

definition op_kept :: "quorum_options \<Rightarrow> joined_view list \<Rightarrow> joined_view list \<Rightarrow> u32 \<Rightarrow> nat \<Rightarrow> prepare_header \<Rightarrow> bool" where
  "op_kept options all canonical log_view op h \<longleftrightarrow> canonical_header canonical op = Some (Some h) \<and>
     (\<exists>copies nacks. tally log_view (Some h) op all = Some (copies, nacks) \<and> 0 < copies \<and> nacks < qo_quorum_nack_prepare options)"

definition op_denied :: "quorum_options \<Rightarrow> joined_view list \<Rightarrow> joined_view list \<Rightarrow> u32 \<Rightarrow> nat \<Rightarrow> bool" where
  "op_denied options all canonical log_view op \<longleftrightarrow> (\<exists>hc copies nacks. canonical_header canonical op = Some hc \<and>
     tally log_view hc op all = Some (copies, nacks) \<and> qo_quorum_nack_prepare options \<le> nacks)"

lemma op_loop_decides:
  "op_loop options all canonical lv mn mx op = Some (Inr head) \<Longrightarrow> mn \<le> op \<Longrightarrow> op \<le> Suc mx \<Longrightarrow> mn \<le> mx \<Longrightarrow>
   head \<le> mx \<and> op \<le> Suc head \<and> mn \<le> head \<and> (\<forall>k. op \<le> k \<and> k \<le> head \<longrightarrow> (\<exists>h. op_kept options all canonical lv k h)) \<and>
   (head < mx \<longrightarrow> op_denied options all canonical lv (Suc head))"
proof (induction options all canonical lv mn mx op rule: op_loop.induct)
  case (1 options all canonical lv mn mx op)
  show ?case
  proof (cases "mx < op")
    case True
    with 1(2-5) show ?thesis by (subst (asm) op_loop.simps) auto
  next
    case False
    obtain hc copies nacks where v: "canonical_header canonical op = Some hc" "tally lv hc op all = Some (copies, nacks)"
      using 1(2) False by (subst (asm) op_loop.simps) (auto simp: panic_simps)
    show ?thesis
    proof (cases "qo_quorum_nack_prepare options \<le> nacks")
      case True
      then have "mn < op" "head = op - 1"
        using 1(2) False v by (subst (asm) op_loop.simps; auto simp: panic_simps)+
      with True False v show ?thesis by (auto simp: op_denied_def)
    next
      case few: False
      then have next_op: "op_loop options all canonical lv mn mx (op + 1) = Some (Inr head)" "hc \<noteq> None" "copies \<noteq> 0"
        "op + 1 < 2 ^ 64"
        using 1(2) False v by (subst (asm) op_loop.simps; auto simp: panic_simps split: if_splits)+
      have IH: "head \<le> mx \<and> op + 1 \<le> Suc head \<and> mn \<le> head \<and>
          (\<forall>k. op + 1 \<le> k \<and> k \<le> head \<longrightarrow> (\<exists>h. op_kept options all canonical lv k h)) \<and>
          (head < mx \<longrightarrow> op_denied options all canonical lv (Suc head))"
        by (rule "1.IH" [OF False v(1) v(2) refl few _ _ next_op(1)])
          (use next_op False 1(3,5) in auto)
      obtain h where "hc = Some h" using next_op(2) by blast
      then have "op_kept options all canonical lv op h" using v next_op few by (simp add: op_kept_def)
      with IH show ?thesis by (metis Suc_eq_plus1 Suc_leI le_neq_implies_less le_SucI Suc_le_mono)
    qed
  qed
qed

lemma op_loop_awaits:
  "op_loop options all canonical lv mn mx op = Some (Inl result) \<Longrightarrow>
   result = (if length all < qo_replica_count options then AwaitingRepair else CompleteInvalid)"
proof (induction options all canonical lv mn mx op rule: op_loop.induct)
  case (1 options all canonical lv mn mx op)
  from 1(2) show ?case
    by (subst (asm) op_loop.simps) (auto simp: panic_simps split: if_splits dest: "1.IH")
qed

section \<open>The header loop\<close>

lemma header_at_found:
  "header_at lv op found jvs = Some (Some h) \<Longrightarrow> found = Some h \<or> (\<exists>jv \<in> set jvs. holds jv op h)"
  by (induction lv op found jvs rule: header_at.induct) (fastforce simp: panic_simps holds_def Let_def split: if_splits option.splits)+

lemma header_at_keeps: "header_at lv op (Some h) jvs = Some r \<Longrightarrow> r = Some h"
  by (induction jvs) (auto simp: panic_simps Let_def split: if_splits)

lemma header_at_step:
  assumes "header_at lv op found (jv # jvs) = Some r" "holds jv op h'"
  shows "\<exists>h. header_at lv op (Some h) jvs = Some r \<and> ph_checksum h' = ph_checksum h"
proof -
  have at: "\<not> jv_op jv < op" "\<not> length (jv_headers jv) \<le> jv_op jv - op" "jv_headers jv ! (jv_op jv - op) = h'"
    "jv_header_type h' = Valid" using assms(2) by (auto simp: holds_def)
  show ?thesis
  proof (cases found)
    case None
    then show ?thesis using assms(1) at by (auto simp: panic_simps Let_def)
  next
    case (Some f)
    then show ?thesis using assms(1) at by (auto simp: panic_simps Let_def)
  qed
qed

lemma header_at_agrees:
  "header_at lv op found jvs = Some (Some h) \<Longrightarrow> jv \<in> set jvs \<Longrightarrow> holds jv op h' \<Longrightarrow> ph_checksum h' = ph_checksum h"
proof (induction lv op found jvs rule: header_at.induct)
  case (2 lv op found jv0 jvs)
  show ?case
  proof (cases "jv = jv0")
    case True
    obtain g where "header_at lv op (Some g) jvs = Some (Some h)" "ph_checksum h' = ph_checksum g"
      using header_at_step "2.prems"(1,3) True by blast
    then show ?thesis using header_at_keeps by blast
  next
    case False
    with 2 show ?thesis by (auto simp: panic_simps Let_def split: option.splits if_splits)
  qed
qed simp

lemma headers_down_chain:
  "headers_down canonical mn parent op = Some hs \<Longrightarrow> mn \<le> op \<Longrightarrow>
   length hs = Suc (op - mn) \<and> (\<forall>i < length hs. header_at (jv_log_view (hd canonical)) (op - i) None canonical = Some (Some (hs ! i))) \<and>
   (\<forall>i. Suc i < length hs \<longrightarrow> ph_checksum (hs ! Suc i) = ph_parent (hs ! i)) \<and>
   (\<forall>p. parent = Some p \<longrightarrow> ph_checksum (hs ! 0) = p)"
proof (induction canonical mn parent op arbitrary: hs rule: headers_down.induct)
  case (1 canonical mn parent op)
  obtain h where h: "header_at (jv_log_view (hd canonical)) op None canonical = Some (Some h)"
    "\<forall>p. parent = Some p \<longrightarrow> ph_checksum h = p"
    using 1(2) by (subst (asm) headers_down.simps) (auto simp: panic_simps split: option.splits)
  have first: "ensure (case parent of None \<Rightarrow> True | Some parent \<Rightarrow>
      (case Some h of None \<Rightarrow> False | Some h \<Rightarrow> ph_checksum h = parent)) = Some ()"
    using h(2) by (auto simp: ensure_def split: option.splits)
  show ?case
  proof (cases "op \<le> mn")
    case True
    then have "hs = [h]" using 1(2) h by (subst (asm) headers_down.simps) (auto simp: panic_simps split: option.splits)
    with h True 1(3) show ?thesis by simp
  next
    case False
    then obtain rest where rest: "headers_down canonical mn (Some (ph_parent h)) (op - 1) = Some rest" "hs = h # rest"
      using 1(2) h by (subst (asm) headers_down.simps) (auto simp: panic_simps split: option.splits)
    have IH: "length rest = Suc (op - 1 - mn)"
      "\<forall>i < length rest. header_at (jv_log_view (hd canonical)) (op - 1 - i) None canonical = Some (Some (rest ! i))"
      "\<forall>i. Suc i < length rest \<longrightarrow> ph_checksum (rest ! Suc i) = ph_parent (rest ! i)" "ph_checksum (rest ! 0) = ph_parent h"
      using "1.IH" [OF h(1) first refl False rest(1)] False by auto
    have "ph_checksum (hs ! Suc i) = ph_parent (hs ! i)" if "Suc i < length hs" for i
      using that IH(3,4) by (cases i) (simp_all add: rest)
    moreover have "header_at (jv_log_view (hd canonical)) (op - i) None canonical = Some (Some (hs ! i))" if "i < length hs" for i
      using that IH(2) h(1) by (cases i) (simp_all add: rest)
    ultimately show ?thesis using IH(1) h(2) False by (simp add: rest)
  qed
qed

section \<open>The decision\<close>

lemma quorum_headers_valid:
  assumes "quorum_headers jvs options = Some (CompleteValid head mn hs)"
  obtains all canonical lv mx where "jvs_all jvs = Some all" "log_view_max jvs = Some lv" "jvs_canonical jvs = Some canonical"
    "op_max_canonical jvs = Some mx" "commit_max jvs = Some mn" "mn \<le> head" "head \<le> mx"
    "op_loop options all canonical lv mn mx mn = Some (Inr head)" "headers_down canonical mn None head = Some hs"
    "canonical \<noteq> []"
proof -
  obtain all where all: "jvs_all jvs = Some all" "\<not> length all < qo_quorum_view_change options"
    using assms by (auto simp: quorum_headers_def panic_simps split: if_splits)
  obtain lv canonical mx mn' decided where decided: "log_view_max jvs = Some lv" "jvs_canonical jvs = Some canonical"
    "canonical \<noteq> []" "op_max_canonical jvs = Some mx" "commit_max jvs = Some mn'" "mn' \<le> mx"
    "op_loop options all canonical lv mn' mx mn' = Some decided"
    "(case decided of Inl awaiting \<Rightarrow> Some awaiting
       | Inr op_head \<Rightarrow> do { ensure (mn' \<le> op_head); ensure (op_head \<le> mx); headers \<leftarrow> headers_for_view canonical op_head mn';
           Some (CompleteValid op_head mn' headers) }) = Some (CompleteValid head mn hs)"
    using assms all by (auto simp: quorum_headers_def panic_simps simp del: sum.case)
  show thesis
  proof (cases decided)
    case (Inl awaiting)
    with decided(8) have "awaiting = CompleteValid head mn hs" by simp
    moreover have "awaiting = (if length all < qo_replica_count options then AwaitingRepair else CompleteInvalid)"
      using decided(7) Inl by (auto dest: op_loop_awaits)
    ultimately show thesis by (simp split: if_splits)
  next
    case (Inr op_head)
    with decided(8) have "op_head = head" "mn' = mn" "mn \<le> head" "head \<le> mx" "headers_down canonical mn None head = Some hs"
      by (auto simp: panic_simps headers_for_view_def)
    with that all(1) decided Inr show thesis by simp
  qed
qed

text \<open>The facts every surviving op enjoys.\<close>

lemma surviving_op:
  assumes "quorum_headers jvs options = Some (CompleteValid head mn hs)" "mn \<le> op" "op \<le> head"
  shows "\<exists>h. hs ! (head - op) = h \<and> head - op < length hs \<and> unat (ph_op h) = op \<and>
     (\<exists>jv. is_canonical jvs jv \<and> holds jv op h) \<and>
     (\<forall>jv h'. is_canonical jvs jv \<and> holds jv op h' \<longrightarrow> ph_checksum h' = ph_checksum h) \<and>
     (\<exists>jv h'. Some jv \<in> set jvs \<and> holds jv op h' \<and> present jv op \<and> ph_checksum h' = ph_checksum h)"
proof -
  obtain all canonical lv mx where d: "jvs_all jvs = Some all" "log_view_max jvs = Some lv" "jvs_canonical jvs = Some canonical"
    "mn \<le> head" "head \<le> mx" "op_loop options all canonical lv mn mx mn = Some (Inr head)"
    "headers_down canonical mn None head = Some hs" using quorum_headers_valid [OF assms(1)] by metis
  note members = jvs_all_members [OF d(1)] and canon = canonical_members [OF d(3)]
  obtain hc where hc: "op_kept options all canonical lv op hc" using op_loop_decides [OF d(6)] assms(2,3) d(4,5) by auto
  obtain copies nacks where t: "canonical_header canonical op = Some (Some hc)" "tally lv (Some hc) op all = Some (copies, nacks)" "0 < copies"
    using hc by (auto simp: op_kept_def)
  have len: "length hs = Suc (head - mn)" and at: "\<And>i. i < length hs \<Longrightarrow>
      header_at (jv_log_view (hd canonical)) (head - i) None canonical = Some (Some (hs ! i))"
    using headers_down_chain [OF d(7,4)] by auto
  define h where "h = hs ! (head - op)"
  have i: "head - op < length hs" "head - (head - op) = op" using assms(2,3) len by auto
  have found: "header_at (jv_log_view (hd canonical)) op None canonical = Some (Some h)"
    using at [OF i(1)] i(2) by (simp add: h_def)
  obtain jv where jv: "jv \<in> set canonical" "holds jv op h" using header_at_found [OF found] by auto
  have agree: "ph_checksum h' = ph_checksum h" if "jv' \<in> set canonical" "holds jv' op h'" for jv' h'
    by (rule header_at_agrees [OF found that])
  have in_all: "jv \<in> set all" using jv(1) canon members by (auto simp: is_canonical_def)
  then obtain v where "jv_vote lv (Some hc) op jv = Some v" using tally_counts [OF t(2)] by blast
  then have "unat (ph_op h) = op" using jv_vote_op jv(2) by blast
  moreover have cs: "ph_checksum hc = ph_checksum h" using canonical_header_holds [OF t(1)] agree by blast
  moreover obtain jv' nack where "jv' \<in> set all" "jv_vote lv (Some hc) op jv' = Some (True, nack)"
    using tally_counts [OF t(2)] t(3) by blast
  then obtain h' where "holds jv' op h'" "ph_checksum h' = ph_checksum hc" "present jv' op" "Some jv' \<in> set jvs"
    using jv_vote_copy members by blast
  then have "\<exists>jv h'. Some jv \<in> set jvs \<and> holds jv op h' \<and> present jv op \<and> ph_checksum h' = ph_checksum h"
    unfolding cs by blast
  moreover have "\<exists>jv. is_canonical jvs jv \<and> holds jv op h" using jv canon by blast
  moreover have "\<forall>jv h'. is_canonical jvs jv \<and> holds jv op h' \<longrightarrow> ph_checksum h' = ph_checksum h"
    using agree canon by blast
  ultimately show ?thesis using i(1) unfolding h_def by blast
qed

lemma denied_op:
  assumes "quorum_headers jvs options = Some (CompleteValid head mn hs)" "op_max_canonical jvs = Some mx" "head < mx"
  obtains all hc lv where "jvs_all jvs = Some all" "log_view_max jvs = Some lv"
    "qo_quorum_nack_prepare options \<le> length (filter (jv_nacks lv hc (Suc head)) all)"
    "hc = None \<longrightarrow> (\<forall>jv h. is_canonical jvs jv \<longrightarrow> \<not> holds jv (Suc head) h)"
    "\<forall>h. hc = Some h \<longrightarrow> (\<exists>jv. is_canonical jvs jv \<and> holds jv (Suc head) h)"
proof -
  obtain all canonical lv where d: "jvs_all jvs = Some all" "log_view_max jvs = Some lv" "jvs_canonical jvs = Some canonical"
    "mn \<le> head" "op_loop options all canonical lv mn mx mn = Some (Inr head)"
    using quorum_headers_valid [OF assms(1)] assms(2) by (metis option.inject)
  note canon = canonical_members [OF d(3)]
  have "op_denied options all canonical lv (Suc head)" using op_loop_decides [OF d(5)] d(4) assms(3) by auto
  then obtain hc copies nacks where t: "canonical_header canonical (Suc head) = Some hc"
    "tally lv hc (Suc head) all = Some (copies, nacks)" "qo_quorum_nack_prepare options \<le> nacks"
    by (auto simp: op_denied_def)
  show thesis
  proof (rule that [OF d(1,2)])
    show "qo_quorum_nack_prepare options \<le> length (filter (jv_nacks lv hc (Suc head)) all)"
      using tally_counts [OF t(2)] t(3) by simp
    show "hc = None \<longrightarrow> (\<forall>jv h. is_canonical jvs jv \<longrightarrow> \<not> holds jv (Suc head) h)"
      using canonical_header_none [of canonical] t(1) canon by blast
    show "\<forall>h. hc = Some h \<longrightarrow> (\<exists>jv. is_canonical jvs jv \<and> holds jv (Suc head) h)"
      using canonical_header_holds [of canonical] t(1) canon by blast
  qed
qed

text \<open>A replica acknowledges op \<open>k\<close> of the log \<open>log\<close> (a checksum per op): its JV carries that prepare and does not
  nack it.\<close>

definition acks :: "(nat \<Rightarrow> u128) \<Rightarrow> nat \<Rightarrow> joined_view \<Rightarrow> bool" where
  "acks log k jv \<longleftrightarrow> (\<exists>h. holds jv k h \<and> ph_checksum h = log k) \<and> \<not> nacked jv k"

definition replicated :: "nat \<Rightarrow> quorum \<Rightarrow> joined_view option list \<Rightarrow> (nat \<Rightarrow> u128) \<Rightarrow> nat \<Rightarrow> bool" where
  "replicated n q jvs log k \<longleftrightarrow> (\<exists>R. R \<subseteq> {..<n} \<and> q_replication q \<le> card R \<and>
     (\<forall>jv. Some jv \<in> set jvs \<and> jv_replica jv \<in> R \<longrightarrow> acks log k jv))"

definition canonically_known :: "joined_view option list \<Rightarrow> (nat \<Rightarrow> u128) \<Rightarrow> nat \<Rightarrow> bool" where
  "canonically_known jvs log k \<longleftrightarrow> (\<exists>jv h. is_canonical jvs jv \<and> holds jv k h) \<and>
     (\<forall>jv h. is_canonical jvs jv \<and> holds jv k h \<longrightarrow> ph_checksum h = log k)"

lemma replicated_not_denied:
  assumes q: "quorums n = Some q" and valid: "quorum_headers jvs (options_of n q) = Some (CompleteValid head mn hs)"
    and slots: "length jvs = n" and mx: "op_max_canonical jvs = Some mx" "head < mx"
    and op: "replicated n q jvs log (Suc head)" "canonically_known jvs log (Suc head)"
  shows False
proof -
  obtain m where m: "n = Suc m" using q by (cases n) (auto simp: quorums_def)
  then have quorum: "q = quorum_of m" using q by (simp add: quorums_Suc)
  obtain all hc lv where d: "jvs_all jvs = Some all" and "log_view_max jvs = Some lv"
    and d': "qo_quorum_nack_prepare (options_of n q) \<le> length (filter (jv_nacks lv hc (Suc head)) all)"
    "hc = None \<longrightarrow> (\<forall>jv h. is_canonical jvs jv \<longrightarrow> \<not> holds jv (Suc head) h)"
    "\<forall>h. hc = Some h \<longrightarrow> (\<exists>jv. is_canonical jvs jv \<and> holds jv (Suc head) h)"
    by (rule denied_op [OF valid mx])
  obtain h where h: "hc = Some h" "ph_checksum h = log (Suc head)"
  proof -
    have "hc \<noteq> None" using op(2) d'(2) unfolding canonically_known_def by blast
    then obtain h where "hc = Some h" by blast
    moreover from this have "ph_checksum h = log (Suc head)" using op(2) d'(3) unfolding canonically_known_def by blast
    ultimately show thesis by (rule that)
  qed
  obtain R where R: "R \<subseteq> {..<n}" "q_replication q \<le> card R"
    "\<And>jv. Some jv \<in> set jvs \<Longrightarrow> jv_replica jv \<in> R \<Longrightarrow> acks log (Suc head) jv" using op(1) by (auto simp: replicated_def)
  let ?nackers = "filter (jv_nacks lv hc (Suc head)) all"
  have "jv_replica ` set ?nackers \<subseteq> {..<n} - R"
  proof
    fix r assume "r \<in> jv_replica ` set ?nackers"
    then obtain jv where jv: "r = jv_replica jv" "jv \<in> set all" "jv_nacks lv (Some h) (Suc head) jv" using h(1) by auto
    have "\<not> acks log (Suc head) jv" using holder_not_nacks jv(3) h(2) by (auto simp: acks_def)
    with R(3) jv show "r \<in> {..<n} - R" using jvs_all_members [OF d] jvs_all_slots(2) [OF d] slots by auto
  qed
  then have "card (jv_replica ` set ?nackers) < q_nack_prepare q"
    using nack.minority [of R m] R(1,2) unfolding m quorum by blast
  moreover have "card (jv_replica ` set ?nackers) = length ?nackers"
    using distinct_card [of "map jv_replica ?nackers"] jvs_all_slots(1) [OF d] by (simp add: distinct_map_filter)
  ultimately show False using d'(1) by (simp add: options_of_def)
qed

lemma received_count: "jvs_all jvs = Some all \<Longrightarrow> length all = length (filter (\<lambda>received. received \<noteq> None) jvs)"
proof -
  assume "jvs_all jvs = Some all"
  then have "all = concat (map (\<lambda>received. case received of None \<Rightarrow> [] | Some message \<Rightarrow> [message]) jvs)"
    by (auto simp: jvs_all_def panic_simps)
  moreover have "length (concat (map (\<lambda>received. case received of None \<Rightarrow> [] | Some message \<Rightarrow> [message]) js)) =
      length (filter (\<lambda>received. received \<noteq> None) js)" for js :: "joined_view option list"
    by (induction js) (auto split: option.splits)
  ultimately show ?thesis by simp
qed

lemma verdict:
  assumes "quorum_headers jvs (options_of n q) = Some r" "length jvs = n"
  shows "(r = AwaitingQuorum \<longleftrightarrow> length (filter (\<lambda>received. received \<noteq> None) jvs) < q_view_change q) \<and>
     (r = AwaitingRepair \<longrightarrow> None \<in> set jvs) \<and> (r = CompleteInvalid \<longrightarrow> None \<notin> set jvs)"
proof -
  obtain all where all: "jvs_all jvs = Some all"
    using assms(1) by (auto simp: quorum_headers_def panic_simps split: if_splits)
  note count = received_count [OF all] and full = jvs_all_slots(3,4) [OF all]
  have o: "qo_quorum_view_change (options_of n q) = q_view_change q" "qo_replica_count (options_of n q) = n"
    by (simp_all add: options_of_def)
  show ?thesis
  proof (cases "length all < q_view_change q")
    case True
    then have "r = AwaitingQuorum" using assms(1) all by (auto simp: quorum_headers_def panic_simps o)
    with True count show ?thesis by simp
  next
    case False
    obtain lv canonical mx mn decided where d: "op_loop (options_of n q) all canonical lv mn mx mn = Some decided"
      "(case decided of Inl awaiting \<Rightarrow> Some awaiting
         | Inr op_head \<Rightarrow> do { ensure (mn \<le> op_head); ensure (op_head \<le> mx); headers \<leftarrow> headers_for_view canonical op_head mn;
             Some (CompleteValid op_head mn headers) }) = Some r"
      using assms(1) all False by (auto simp: quorum_headers_def panic_simps o simp del: sum.case)
    show ?thesis
    proof (cases decided)
      case (Inl awaiting)
      with d have "r = (if length all < n then AwaitingRepair else CompleteInvalid)" by (auto dest: op_loop_awaits simp: o)
      with count full False assms(2) show ?thesis by (simp split: if_splits)
    next
      case (Inr op_head)
      with d(2) have "r \<noteq> AwaitingQuorum" "r \<noteq> AwaitingRepair" "r \<noteq> CompleteInvalid" by (auto simp: panic_simps)
      with count False show ?thesis by simp
    qed
  qed
qed

text \<open>Three replicas prepared ops 2 to 4 and committed op 2; the third has lost op 4 and nacks it.\<close>

definition prepare_example :: "nat \<Rightarrow> prepare_header" where
  "prepare_example k = \<lparr>ph_checksum = of_nat (10 + k), ph_checksum_padding = 0, ph_checksum_body = 0, ph_checksum_body_padding = 0,
     ph_nonce_reserved = 0, ph_cluster = 0, ph_size = 256, ph_epoch = 0, ph_view = 0, ph_release = 0, ph_protocol = 0,
     ph_command = 6, ph_replica = 0, ph_reserved_frame = replicate 12 0,
     ph_parent = of_nat (9 + k), ph_parent_padding = 0, ph_request_checksum = 0, ph_request_checksum_padding = 0,
     ph_checkpoint_id = 0, ph_client = 0, ph_op = of_nat k, ph_commit = 2, ph_timestamp = of_nat k, ph_request = 0,
     ph_operation = 4, ph_reserved = replicate 3 0\<rparr>"

definition jv_example :: "u8 \<Rightarrow> u128 \<Rightarrow> u128 \<Rightarrow> joined_view" where
  "jv_example r held nack = \<lparr>jv_header = \<lparr>jh_checksum = 0, jh_checksum_padding = 0, jh_checksum_body = 0, jh_checksum_body_padding = 0,
     jh_nonce_reserved = 0, jh_cluster = 0, jh_size = 256, jh_epoch = 0, jh_view = 1, jh_release = 0, jh_protocol = 0,
     jh_command = 11, jh_replica = r, jh_reserved_frame = replicate 12 0,
     jh_present_bitset = held, jh_nack_bitset = nack, jh_op = 4, jh_commit_min = 2, jh_checkpoint_op = 0, jh_log_view = 0,
     jh_reserved = replicate 68 0\<rparr>,
     jv_headers = map prepare_example [4, 3, 2]\<rparr>"

definition received_example :: "joined_view list" where
  "received_example = [jv_example 0 7 0, jv_example 1 7 0, jv_example 2 6 1]"

definition jvs_example :: "joined_view option list" where "jvs_example = map Some received_example"

definition options_example :: quorum_options where
  "options_example = \<lparr>qo_replica_count = 3, qo_quorum_view_change = 2, qo_quorum_nack_prepare = 2\<rparr>"

lemmas example_defs = jvs_example_def received_example_def jv_example_def prepare_example_def

lemma quorums_3: "quorums 3 = Some \<lparr>q_replication = 2, q_view_change = 2, q_nack_prepare = 2, q_majority = 2\<rparr>"
  by (simp add: quorums_def div_ceil_def QUORUM_REPLICATION_MAX_def)

lemma example_all: "jvs_all jvs_example = Some received_example"
  by (simp add: jvs_all_def example_defs)

lemma example_log_view: "log_view_max jvs_example = Some 0"
  by (simp add: log_view_max_def example_all) (simp add: example_defs maximum_of_def)

lemma example_canonical: "jvs_canonical jvs_example = Some received_example"
  by (simp add: jvs_canonical_def jvs_with_log_view_def example_log_view example_all) (simp add: example_defs)

lemma example_op_max: "op_max_canonical jvs_example = Some 4"
  by (simp add: op_max_canonical_def example_canonical) (simp add: example_defs maximum_of_def)

lemma example_commit_max: "commit_max jvs_example = Some 2"
  by (simp add: commit_max_def example_all) (simp add: example_defs PIPELINE_PREPARE_QUEUE_MAX_def)

lemma example_canonical_header:
  "canonical_header received_example 2 = Some (Some (prepare_example 2))"
  "canonical_header received_example 3 = Some (Some (prepare_example 3))"
  "canonical_header received_example 4 = Some (Some (prepare_example 4))"
  by (simp_all add: example_defs jv_header_type_def OPERATION_RESERVED_def)

lemma example_tally:
  "tally 0 (Some (prepare_example 2)) 2 received_example = Some (3, 0)"
  "tally 0 (Some (prepare_example 3)) 3 received_example = Some (3, 0)"
  "tally 0 (Some (prepare_example 4)) 4 received_example = Some (2, 1)"
  by (simp_all add: example_defs jv_vote_def bitset_bit_def jv_header_type_def OPERATION_RESERVED_def)

lemma example_loop: "op_loop options_example received_example received_example 0 2 4 2 = Some (Inr 4)"
proof -
  note facts = example_canonical_header example_tally
  have o: "qo_quorum_nack_prepare options_example = 2" by (simp add: options_example_def)
  have "op_loop options_example received_example received_example 0 2 4 5 = Some (Inr 4)"
    by (subst op_loop.simps) simp
  then have "op_loop options_example received_example received_example 0 2 4 4 = Some (Inr 4)"
    by (subst op_loop.simps) (simp add: facts o)
  then have "op_loop options_example received_example received_example 0 2 4 3 = Some (Inr 4)"
    by (subst op_loop.simps) (simp add: facts o)
  then show ?thesis by (subst op_loop.simps) (simp add: facts o)
qed

lemma example_header_at:
  "header_at 0 2 None received_example = Some (Some (prepare_example 2))"
  "header_at 0 3 None received_example = Some (Some (prepare_example 3))"
  "header_at 0 4 None received_example = Some (Some (prepare_example 4))"
  by (simp_all add: example_defs jv_header_type_def OPERATION_RESERVED_def)

lemma example_headers: "headers_for_view received_example 4 2 = Some (map prepare_example [4, 3, 2])"
proof -
  have lv: "jv_log_view (hd received_example) = 0" "received_example \<noteq> []" by (simp_all add: example_defs)
  have parents: "ph_parent (prepare_example 4) = ph_checksum (prepare_example 3)"
    "ph_parent (prepare_example 3) = ph_checksum (prepare_example 2)" by (simp_all add: prepare_example_def)
  have "headers_down received_example 2 (Some (ph_checksum (prepare_example 2))) 2 = Some [prepare_example 2]"
    by (subst headers_down.simps) (simp add: lv example_header_at)
  then have "headers_down received_example 2 (Some (ph_checksum (prepare_example 3))) 3 = Some [prepare_example 3, prepare_example 2]"
    by (subst headers_down.simps) (simp add: lv example_header_at parents)
  then have "headers_down received_example 2 None 4 = Some (map prepare_example [4, 3, 2])"
    by (subst headers_down.simps) (simp add: lv example_header_at parents)
  then show ?thesis by (simp add: headers_for_view_def lv)
qed

lemma example_decision:
  "quorum_headers jvs_example options_example = Some (CompleteValid 4 2 (map prepare_example [4, 3, 2]))"
proof -
  have lens: "length received_example = 3" "received_example \<noteq> []" by (simp_all add: received_example_def)
  show ?thesis
    by (simp add: quorum_headers_def example_all example_log_view example_canonical example_op_max example_commit_max lens
        example_loop [unfolded options_example_def] example_headers options_example_def)
qed

lemma example_holds:
  assumes "jv \<in> {jv_example 0 7 0, jv_example 1 7 0, jv_example 2 6 1}" "k \<in> {2, 3, 4}"
  shows "holds jv k h \<longleftrightarrow> h = prepare_example k"
  using assms by (auto simp: holds_def jv_example_def prepare_example_def jv_header_type_def OPERATION_RESERVED_def)

lemma example_acks:
  "k \<in> {2, 3, 4} \<Longrightarrow> acks (\<lambda>k. of_nat (10 + k)) k (jv_example 0 7 0)"
  "k \<in> {2, 3, 4} \<Longrightarrow> acks (\<lambda>k. of_nat (10 + k)) k (jv_example 1 7 0)"
  by (simp_all add: acks_def example_holds) (auto simp: prepare_example_def nacked_def jv_example_def)

lemma example_slots: "Some jv \<in> set jvs_example \<longleftrightarrow> jv \<in> {jv_example 0 7 0, jv_example 1 7 0, jv_example 2 6 1}"
  by (auto simp: jvs_example_def received_example_def)

lemma example_log:
  assumes "2 \<le> k \<and> k \<le> 4"
  shows "replicated 3 \<lparr>q_replication = 2, q_view_change = 2, q_nack_prepare = 2, q_majority = 2\<rparr> jvs_example (\<lambda>k. of_nat (10 + k)) k"
    "canonically_known jvs_example (\<lambda>k. of_nat (10 + k)) k"
proof -
  have k: "k \<in> {2, 3, 4}" using assms by auto
  have "acks (\<lambda>k. of_nat (10 + k)) k jv" if "Some jv \<in> set jvs_example" "jv_replica jv \<in> {0, 1}" for jv
  proof -
    have "jv_replica (jv_example 2 6 1) = 2" by (simp add: jv_example_def)
    then have "jv \<in> {jv_example 0 7 0, jv_example 1 7 0}" using that by (auto simp: example_slots)
    then show ?thesis using example_acks [OF k] by auto
  qed
  then show "replicated 3 \<lparr>q_replication = 2, q_view_change = 2, q_nack_prepare = 2, q_majority = 2\<rparr> jvs_example (\<lambda>k. of_nat (10 + k)) k"
    unfolding replicated_def by (intro exI [of _ "{0, 1}"]) auto
  have "is_canonical jvs_example (jv_example 0 7 0)" by (auto simp: is_canonical_def example_slots) (simp_all add: jv_example_def)
  moreover have "holds (jv_example 0 7 0) k (prepare_example k)" using k by (simp add: example_holds)
  moreover have "ph_checksum h = of_nat (10 + k)" if "is_canonical jvs_example jv" "holds jv k h" for jv h
  proof -
    have "jv \<in> {jv_example 0 7 0, jv_example 1 7 0, jv_example 2 6 1}"
      using that(1) unfolding is_canonical_def example_slots by (rule conjunct1)
    then have "h = prepare_example k" using that(2) example_holds k by blast
    then show ?thesis by (simp add: prepare_example_def)
  qed
  ultimately show "canonically_known jvs_example (\<lambda>k. of_nat (10 + k)) k" unfolding canonically_known_def by blast
qed

text \<open>C9. What a finished view change decides: the new log runs without a gap from the highest committed op of the
  JVs to the new head, newest first and hash-chained; every header of it is a prepare that a canonical JV carries, and
  at least one replica of the quorum has that prepare on disk.\<close>
theorem view_change_log:
  assumes "quorum_headers jvs options = Some (CompleteValid head mn hs)"
  shows "commit_max jvs = Some mn \<and> mn \<le> head \<and> (\<exists>mx. op_max_canonical jvs = Some mx \<and> head \<le> mx) \<and>
     map (\<lambda>h. unat (ph_op h)) hs = rev [mn..<Suc head] \<and>
     (\<forall>i. Suc i < length hs \<longrightarrow> ph_checksum (hs ! Suc i) = ph_parent (hs ! i)) \<and>
     (\<forall>h \<in> set hs. (\<exists>jv. is_canonical jvs jv \<and> holds jv (unat (ph_op h)) h) \<and>
        (\<exists>jv h'. Some jv \<in> set jvs \<and> holds jv (unat (ph_op h)) h' \<and> present jv (unat (ph_op h)) \<and>
          ph_checksum h' = ph_checksum h))"
proof -
  obtain canonical mx where d: "op_max_canonical jvs = Some mx" "commit_max jvs = Some mn" "mn \<le> head" "head \<le> mx"
    "headers_down canonical mn None head = Some hs" using quorum_headers_valid [OF assms] by metis
  have len: "length hs = Suc (head - mn)" and chain: "\<forall>i. Suc i < length hs \<longrightarrow> ph_checksum (hs ! Suc i) = ph_parent (hs ! i)"
    using headers_down_chain [OF d(5,3)] by auto
  have at: "unat (ph_op (hs ! i)) = head - i \<and> (\<exists>jv. is_canonical jvs jv \<and> holds jv (head - i) (hs ! i)) \<and>
      (\<exists>jv h'. Some jv \<in> set jvs \<and> holds jv (head - i) h' \<and> present jv (head - i) \<and> ph_checksum h' = ph_checksum (hs ! i))"
    if "i < length hs" for i
  proof -
    have "head - (head - i) = i" "mn \<le> head - i" using that len d(3) by auto
    then show ?thesis using surviving_op [OF assms, of "head - i"] by auto
  qed
  have "map (\<lambda>h. unat (ph_op h)) hs = rev [mn..<Suc head]"
    using at len d(3) by (intro nth_equalityI) (auto simp: rev_nth simp del: upt_Suc)
  moreover have "\<forall>h \<in> set hs. (\<exists>jv. is_canonical jvs jv \<and> holds jv (unat (ph_op h)) h) \<and>
      (\<exists>jv h'. Some jv \<in> set jvs \<and> holds jv (unat (ph_op h)) h' \<and> present jv (unat (ph_op h)) \<and> ph_checksum h' = ph_checksum h)"
    using at by (auto simp: in_set_conv_nth)
  ultimately show ?thesis using d chain by auto
qed

lemma view_change_log_witness:
  "commit_max jvs_example = Some 2 \<and> map (\<lambda>h. unat (ph_op h)) (map prepare_example [4, 3, 2]) = rev [2..<Suc 4]"
  using view_change_log [OF example_decision] by blast

text \<open>C8. A view change never loses a committed op: if every op from \<open>commit_max\<close> up to \<open>op\<close> is held by a replication
  quorum of the \<open>n\<close> replicas (no JV of a member lacks or nacks it) and the canonical JVs know it, then the new head is
  at least \<open>op\<close> and the new log has that very prepare at \<open>op\<close>.\<close>
theorem committed_ops_survive:
  assumes "quorums n = Some q" and "quorum_headers jvs (options_of n q) = Some (CompleteValid head mn hs)"
    and "length jvs = n" and "op_max_canonical jvs = Some mx" "mn \<le> op" "op \<le> mx"
    and "\<forall>k. mn \<le> k \<and> k \<le> op \<longrightarrow> replicated n q jvs log k \<and> canonically_known jvs log k"
  shows "op \<le> head \<and> (\<exists>h \<in> set hs. unat (ph_op h) = op \<and> ph_checksum h = log op)"
proof -
  have mn: "mn \<le> head" using quorum_headers_valid [OF assms(2)] by metis
  have "op \<le> head"
  proof (rule ccontr)
    assume "\<not> op \<le> head"
    then have "mn \<le> Suc head \<and> Suc head \<le> op" "head < mx" using mn assms(6) by auto
    then show False using replicated_not_denied [OF assms(1-4)] assms(7) by blast
  qed
  moreover obtain h where h: "hs ! (head - op) = h" "head - op < length hs" "unat (ph_op h) = op"
    "\<exists>jv. is_canonical jvs jv \<and> holds jv op h"
    using surviving_op [OF assms(2,5) calculation] by blast
  moreover have "ph_checksum h = log op" using h(4) assms(5,7) by (auto simp: canonically_known_def)
  ultimately show ?thesis by (metis nth_mem)
qed

lemma committed_ops_survive_witness:
  "\<exists>h \<in> set (map prepare_example [4, 3, 2]). unat (ph_op h) = 4 \<and> ph_checksum h = 14"
proof -
  have o: "options_of 3 \<lparr>q_replication = 2, q_view_change = 2, q_nack_prepare = 2, q_majority = 2\<rparr> = options_example"
    by (simp add: options_of_def options_example_def)
  have len: "length jvs_example = 3" by (simp add: jvs_example_def received_example_def)
  have "\<exists>h \<in> set (map prepare_example [4, 3, 2]). unat (ph_op h) = 4 \<and> ph_checksum h = of_nat (10 + 4)"
  proof (rule conjunct2 [OF committed_ops_survive [OF quorums_3, unfolded o, OF example_decision len example_op_max,
        where op = 4 and log = "\<lambda>k. of_nat (10 + k)"]])
    show "\<forall>k. 2 \<le> k \<and> k \<le> 4 \<longrightarrow>
        replicated 3 \<lparr>q_replication = 2, q_view_change = 2, q_nack_prepare = 2, q_majority = 2\<rparr> jvs_example (\<lambda>k. of_nat (10 + k)) k \<and>
        canonically_known jvs_example (\<lambda>k. of_nat (10 + k)) k" using example_log by blast
  qed simp_all
  then show ?thesis by simp
qed

text \<open>C39. The decision waits only while it can still learn something: it asks for a view-change quorum exactly while
  fewer JVs are in, waits for repair only while some replica has not sent its JV, and gives up only when all have.\<close>
theorem quorum_verdict:
  assumes "quorum_headers jvs (options_of n q) = Some r" "length jvs = n"
  shows "(r = AwaitingQuorum \<longleftrightarrow> length (filter (\<lambda>received. received \<noteq> None) jvs) < q_view_change q) \<and>
     (r = AwaitingRepair \<longrightarrow> None \<in> set jvs) \<and> (r = CompleteInvalid \<longrightarrow> None \<notin> set jvs)"
  using assms by (rule verdict)

lemma quorum_verdict_witness:
  "\<not> length (filter (\<lambda>received. received \<noteq> None) jvs_example) < 2"
proof -
  have "length jvs_example = 3" by (simp add: jvs_example_def received_example_def)
  then show ?thesis
    using quorum_verdict [of jvs_example 3 "\<lparr>q_replication = 2, q_view_change = 2, q_nack_prepare = 2, q_majority = 2\<rparr>"
        "CompleteValid 4 2 (map prepare_example [4, 3, 2])"] example_decision
    by (simp add: options_of_def options_example_def)
qed

end
