(* ===== verification/Marzullo.thy ===== *)
theory Marzullo
  imports Prelude "HOL-Library.Product_Lexorder"
begin

text \<open>
  Marzullo's algorithm (\<open>tigerbeetle-vsr/src/marzullo.rs\<close>): the smallest interval of clock offsets that agrees with
  the largest number of sources. An \<open>i64\<close> is an \<open>int\<close>, a subtraction that would leave its range is a panic; the
  bounds of an interval are sorted and swept once, counting the intervals that are open.
\<close>

section \<open>Signed 64-bit integers\<close>

definition i64 :: "int \<Rightarrow> bool" where
  "i64 x \<longleftrightarrow> - (2 ^ 63) \<le> x \<and> x < 2 ^ 63"

definition i64_checked :: "int \<Rightarrow> int option" where
  "i64_checked x = (if i64 x then Some x else None)"

definition i64_wrap :: "int \<Rightarrow> int" where
  "i64_wrap x = (x + 2 ^ 63) mod 2 ^ 64 - 2 ^ 63"

lemma i64_checked_Some [panic_simps]: "i64_checked x = Some y \<longleftrightarrow> i64 x \<and> y = x"
  by (auto simp: i64_checked_def)

lemma i64_wrap_range: "i64 (i64_wrap x)"
  using pos_mod_bound [of "2 ^ 64" "x + 2 ^ 63"] by (simp add: i64_def i64_wrap_def)

section \<open>Tuples\<close>

datatype bound = Lower | Upper

instantiation bound :: linorder
begin

definition less_bound :: "bound \<Rightarrow> bound \<Rightarrow> bool" where "less_bound a b \<longleftrightarrow> a = Lower \<and> b = Upper"
definition less_eq_bound :: "bound \<Rightarrow> bound \<Rightarrow> bool" where "less_eq_bound a b \<longleftrightarrow> a = Lower \<or> b = Upper"

instance
proof
  fix x y z :: bound
  show "x < y \<longleftrightarrow> x \<le> y \<and> \<not> y \<le> x" by (cases x; cases y) (simp_all add: less_bound_def less_eq_bound_def)
  show "x \<le> x" by (cases x) (simp_all add: less_eq_bound_def)
  show "x \<le> y \<Longrightarrow> y \<le> z \<Longrightarrow> x \<le> z" by (auto simp: less_eq_bound_def)
  show "x \<le> y \<Longrightarrow> y \<le> x \<Longrightarrow> x = y" by (cases x; cases y) (simp_all add: less_eq_bound_def)
  show "x \<le> y \<or> y \<le> x" by (cases x; cases y) (simp_all add: less_eq_bound_def)
qed

end

record tuple =
  tu_source :: u8
  tu_offset :: int
  tu_bound :: bound

record interval =
  iv_lower_bound :: int
  iv_upper_bound :: int
  iv_sources_true :: nat
  iv_sources_false :: nat

definition interval_zero :: interval where
  "interval_zero = \<lparr>iv_lower_bound = 0, iv_upper_bound = 0, iv_sources_true = 0, iv_sources_false = 0\<rparr>"

datatype ordering = Less | Equal | Greater

definition cmp :: "'a::linorder \<Rightarrow> 'a \<Rightarrow> ordering" where
  "cmp a b = (if a < b then Less else if b < a then Greater else Equal)"

definition less_than :: "tuple \<Rightarrow> tuple \<Rightarrow> ordering" where
  "less_than a b =
     (if tu_offset a < tu_offset b then Less
      else if tu_offset b < tu_offset a then Greater
      else if tu_bound a = Lower \<and> tu_bound b = Upper then Less
      else if tu_bound b = Lower \<and> tu_bound a = Upper then Greater
      else cmp (tu_source a) (tu_source b))"

text \<open>\<open>less_than\<close> is the lexicographic order of this key, so sorting by it is sorting by the key.\<close>

definition tuple_key :: "tuple \<Rightarrow> int \<times> bound \<times> u8" where
  "tuple_key t = (tu_offset t, tu_bound t, tu_source t)"

lemma less_than_key: "less_than a b = cmp (tuple_key a) (tuple_key b)"
  by (cases "tu_bound a"; cases "tu_bound b")
    (auto simp: less_than_def cmp_def tuple_key_def less_bound_def less_eq_bound_def)

definition sort_tuples :: "tuple list \<Rightarrow> tuple list" where
  "sort_tuples tuples = sort_key tuple_key tuples"

section \<open>The sweep\<close>

definition in_order :: "tuple option \<Rightarrow> tuple \<Rightarrow> bool" where
  "in_order previous t \<longleftrightarrow>
     (case previous of None \<Rightarrow> True
      | Some p \<Rightarrow> tu_offset p \<le> tu_offset t \<and>
          (tu_offset p = tu_offset t \<longrightarrow>
             (if tu_bound p = tu_bound t then tu_source p < tu_source t
              else tu_bound p = Lower \<and> tu_bound t = Upper)))"

text \<open>One pass of the \<open>for\<close> loop; the rest of the list holds \<open>tuples[i + 1]\<close>.\<close>

fun sweep :: "int \<Rightarrow> int \<Rightarrow> tuple option \<Rightarrow> interval \<Rightarrow> tuple list \<Rightarrow> (int \<times> tuple option \<times> interval) option" where
  "sweep best counter previous interval [] = Some (best, previous, interval)"
| "sweep best counter previous interval (t # ts) =
     do { ensure (in_order previous t);
          let counter = (case tu_bound t of Lower \<Rightarrow> counter + 1 | Upper \<Rightarrow> counter - 1);
          if best < counter
          then do { ensure (ts \<noteq> []);
                    sweep counter counter (Some t)
                      (interval\<lparr>iv_lower_bound := tu_offset t, iv_upper_bound := tu_offset (hd ts)\<rparr>) ts }
          else if counter = best
          then do { ensure (ts \<noteq> []);
                    if tu_bound (hd ts) = Upper
                    then do { alternative \<leftarrow> i64_checked (tu_offset (hd ts) - tu_offset t);
                              width \<leftarrow> i64_checked (iv_upper_bound interval - iv_lower_bound interval);
                              sweep best counter (Some t)
                                (if alternative < width
                                 then interval\<lparr>iv_lower_bound := tu_offset t, iv_upper_bound := tu_offset (hd ts)\<rparr>
                                 else interval) ts }
                    else sweep best counter (Some t) interval ts }
          else sweep best counter (Some t) interval ts }"

definition smallest_interval :: "tuple list \<Rightarrow> (interval \<times> tuple list) option" where
  "smallest_interval tuples =
     do { ensure (length tuples mod 2 = 0);
          ensure (length tuples \<le> 255 * 2);
          let sources = length tuples div 2;
          if sources = 0 then Some (interval_zero, tuples)
          else
            do { let tuples = sort_tuples tuples;
                 (best, previous, interval) \<leftarrow> sweep 0 0 None interval_zero tuples;
                 ensure (map_option tu_bound previous = Some Upper);
                 ensure (0 \<le> best);
                 ensure (best \<le> int sources);
                 Some (interval\<lparr>iv_sources_true := nat best, iv_sources_false := sources - nat best\<rparr>, tuples) } }"

section \<open>The count over a prefix\<close>

definition delta :: "tuple \<Rightarrow> int" where
  "delta t = (case tu_bound t of Lower \<Rightarrow> 1 | Upper \<Rightarrow> -1)"

definition cnt :: "tuple list \<Rightarrow> int" where
  "cnt ts = sum_list (map delta ts)"

lemma cnt_simps [simp]: "cnt [] = 0" "cnt (t # ts) = delta t + cnt ts" "cnt (ts @ us) = cnt ts + cnt us"
  by (simp_all add: cnt_def)

lemma cnt_mset: "mset ts = mset us \<Longrightarrow> cnt ts = cnt us"
  unfolding cnt_def by (metis mset_map sum_mset_sum_list)

lemma cnt_take_Suc: "k < length ts \<Longrightarrow> cnt (take (Suc k) ts) = cnt (take k ts) + delta (ts ! k)"
  by (simp add: take_Suc_conv_app_nth)

text \<open>What the sweep knows after \<open>k\<close> tuples.\<close>

definition swept :: "tuple list \<Rightarrow> nat \<Rightarrow> int \<Rightarrow> interval \<Rightarrow> bool" where
  "swept ts k best iv \<longleftrightarrow> (if k = 0 then best = 0 else 0 < best) \<and> (\<forall>j < k. cnt (take (Suc j) ts) \<le> best) \<and>
     (0 < best \<longrightarrow> (\<exists>j < k. cnt (take (Suc j) ts) = best \<and> Suc j < length ts \<and>
        iv_lower_bound iv = tu_offset (ts ! j) \<and> iv_upper_bound iv = tu_offset (ts ! Suc j))) \<and>
     (\<forall>j < k. cnt (take (Suc j) ts) = best \<and> Suc j < length ts \<and> tu_bound (ts ! Suc j) = Upper \<longrightarrow>
        iv_upper_bound iv - iv_lower_bound iv < tu_offset (ts ! Suc j) - tu_offset (ts ! j) \<or>
        iv_upper_bound iv - iv_lower_bound iv = tu_offset (ts ! Suc j) - tu_offset (ts ! j) \<and> iv_lower_bound iv \<le> tu_offset (ts ! j))"

lemma swept_range:
  assumes "swept ts k best iv" "0 < best" "\<forall>j. Suc j < length ts \<longrightarrow> i64 (tu_offset (ts ! Suc j) - tu_offset (ts ! j))"
  shows "i64 (iv_upper_bound iv - iv_lower_bound iv)"
  using assms by (auto simp: swept_def)

lemma sweep_correct:
  assumes order: "sorted_wrt (\<lambda>a b. tuple_key a < tuple_key b) ts" and total: "cnt ts = 0"
    and first: "ts \<noteq> [] \<Longrightarrow> tu_bound (hd ts) = Lower"
    and range: "\<forall>j. Suc j < length ts \<longrightarrow> i64 (tu_offset (ts ! Suc j) - tu_offset (ts ! j))"
  shows "k \<le> length ts \<Longrightarrow> swept ts k best iv \<Longrightarrow> previous = (if k = 0 then None else Some (ts ! (k - 1))) \<Longrightarrow>
    \<exists>best' iv'. sweep best (cnt (take k ts)) previous iv (drop k ts) =
        Some (best', (if ts = [] then None else Some (last ts)), iv') \<and> swept ts (length ts) best' iv'"
proof (induction "length ts - k" arbitrary: k best iv previous)
  case 0
  then have "k = length ts" by simp
  with 0 show ?case by (auto simp: last_conv_nth)
next
  case (Suc d)
  then have k: "k < length ts" by simp
  define t where "t = ts ! k"
  define c where "c = cnt (take (Suc k) ts)"
  have drop: "drop k ts = t # drop (Suc k) ts" using k by (simp add: Cons_nth_drop_Suc t_def)
  have c: "(case tu_bound t of Lower \<Rightarrow> cnt (take k ts) + 1 | Upper \<Rightarrow> cnt (take k ts) - 1) = c"
    using cnt_take_Suc [OF k] by (simp add: c_def t_def delta_def split: bound.split)
  have ordered: "in_order previous t"
  proof (cases k)
    case (Suc m)
    have "tuple_key (ts ! m) < tuple_key (ts ! k)" using sorted_wrt_nth_less [OF order, of m k] k Suc by simp
    then have "less_than (ts ! m) (ts ! k) = Less" by (simp add: less_than_key cmp_def)
    then show ?thesis using Suc.prems(3) Suc
      by (cases "tu_bound (ts ! m)"; cases "tu_bound (ts ! k)")
        (auto simp: in_order_def t_def less_than_def cmp_def split: if_splits)
  qed (simp add: Suc.prems(3) in_order_def)
  have not_last: "Suc k < length ts" if "best \<le> c"
  proof (rule ccontr)
    assume "\<not> Suc k < length ts"
    then have "c = 0" "take (Suc k) ts = ts" using k total by (auto simp: c_def)
    moreover have "c = 1" if "k = 0" using that c first k by (cases ts) (auto simp: t_def)
    ultimately show False using that Suc.prems(2) by (auto simp: swept_def split: if_splits)
  qed
  have c0: "c = 1" if "k = 0" using that c first k by (cases ts) (auto simp: t_def)
  have next_tuple: "drop (Suc k) ts \<noteq> []" "hd (drop (Suc k) ts) = ts ! Suc k" if "best \<le> c"
    using not_last [OF that] by (simp_all add: hd_drop_conv_nth)
  have IH: "\<exists>best' iv'. sweep b c (Some t) v (drop (Suc k) ts) =
      Some (best', (if ts = [] then None else Some (last ts)), iv') \<and> swept ts (length ts) best' iv'"
    if "swept ts (Suc k) b v" for b v
    using Suc.hyps(1) [of "Suc k" b v "Some t"] that Suc.hyps(2) k by (simp add: c_def t_def)
  consider (more) "best < c" | (same) "c = best" | (less) "c < best" by linarith
  then show ?case
  proof cases
    case more
    let ?iv = "iv\<lparr>iv_lower_bound := tu_offset t, iv_upper_bound := tu_offset (ts ! Suc k)\<rparr>"
    have "swept ts (Suc k) c ?iv"
      using Suc.prems(2) more not_last c0 unfolding swept_def
      by (auto simp: less_Suc_eq t_def c_def split: if_splits intro!: exI [of _ k])
    then show ?thesis using more ordered next_tuple IH [of c ?iv] by (simp add: drop c)
  next
    case same
    have pos: "0 < best" using Suc.prems(2) same c0 by (auto simp: swept_def split: if_splits)
    have later: "Suc k < length ts" using not_last same by simp
    let ?iv = "iv\<lparr>iv_lower_bound := tu_offset t, iv_upper_bound := tu_offset (ts ! Suc k)\<rparr>"
    have "tu_offset (ts ! j) \<le> tu_offset t" if "j < k" for j
      using sorted_wrt_nth_less [OF order, of j k] that k by (auto simp: t_def tuple_key_def)
    then have low: "iv_lower_bound iv \<le> tu_offset t" using Suc.prems(2) pos unfolding swept_def by (metis)
    have keep: "swept ts (Suc k) best iv"
      if "tu_bound (ts ! Suc k) = Upper \<longrightarrow> iv_upper_bound iv - iv_lower_bound iv \<le> tu_offset (ts ! Suc k) - tu_offset t"
      using Suc.prems(2) pos same that low unfolding swept_def by (auto simp: less_Suc_eq t_def c_def split: if_splits)
    have take: "swept ts (Suc k) best ?iv"
      if "tu_offset (ts ! Suc k) - tu_offset t < iv_upper_bound iv - iv_lower_bound iv"
      using Suc.prems(2) pos same that later unfolding swept_def
      by (fastforce simp: less_Suc_eq t_def c_def split: if_splits)
    show ?thesis
    proof (cases "tu_bound (ts ! Suc k) = Upper")
      case True
      have "i64 (tu_offset (ts ! Suc k) - tu_offset t)" using range later by (simp add: t_def)
      moreover have "i64 (iv_upper_bound iv - iv_lower_bound iv)" by (rule swept_range [OF Suc.prems(2) pos range])
      ultimately show ?thesis using same ordered next_tuple True IH [of best iv] IH [of best ?iv] keep take
        by (cases "tu_offset (ts ! Suc k) - tu_offset t < iv_upper_bound iv - iv_lower_bound iv")
          (simp_all add: drop c i64_checked_def)
    next
      case False
      then show ?thesis using same ordered next_tuple IH [of best iv] keep by (simp add: drop c)
    qed
  next
    case less
    have "swept ts (Suc k) best iv"
      using Suc.prems(2) less c0 unfolding swept_def by (auto simp: less_Suc_eq c_def split: if_splits)
    then show ?thesis using less ordered IH [of best iv] by (simp add: drop c)
  qed
qed

section \<open>Counts are coverage\<close>

text \<open>The input: the two bounds of each of \<open>n\<close> sources, in any order. \<open>cover\<close> counts the sources whose interval
  holds \<open>x\<close>.\<close>

fun bounds_of :: "nat \<Rightarrow> (nat \<Rightarrow> int) \<Rightarrow> (nat \<Rightarrow> int) \<Rightarrow> tuple list" where
  "bounds_of 0 lo up = []"
| "bounds_of (Suc n) lo up = bounds_of n lo up @
     [\<lparr>tu_source = of_nat n, tu_offset = lo n, tu_bound = Lower\<rparr>, \<lparr>tu_source = of_nat n, tu_offset = up n, tu_bound = Upper\<rparr>]"

definition cover :: "nat \<Rightarrow> (nat \<Rightarrow> int) \<Rightarrow> (nat \<Rightarrow> int) \<Rightarrow> int \<Rightarrow> nat" where
  "cover n lo up x = length (filter (\<lambda>s. lo s \<le> x \<and> x \<le> up s) [0..<n])"

definition open_at :: "int \<Rightarrow> tuple \<Rightarrow> bool" where
  "open_at x t \<longleftrightarrow> tu_offset t < x \<or> tu_offset t = x \<and> tu_bound t = Lower"

lemma open_at_key: "open_at x t \<longleftrightarrow> tuple_key t < (x, Upper, 0)"
  by (cases "tu_bound t") (auto simp: open_at_def tuple_key_def less_bound_def)

lemma length_bounds_of [simp]: "length (bounds_of n lo up) = 2 * n"
  by (induction n) simp_all

lemma cover_le: "cover n lo up x \<le> n"
  unfolding cover_def using length_filter_le [of _ "[0..<n]"] by simp

lemma cnt_bounds_of: "cnt (bounds_of n lo up) = 0"
  by (induction n) (simp_all add: delta_def)

lemma cnt_open: "\<forall>s < n. lo s \<le> up s \<Longrightarrow> cnt (filter (open_at x) (bounds_of n lo up)) = int (cover n lo up x)"
  by (induction n) (auto simp: cover_def open_at_def delta_def)

lemma bounds_of_members:
  "t \<in> set (bounds_of n lo up) \<longleftrightarrow> (\<exists>s < n. t = \<lparr>tu_source = of_nat s, tu_offset = lo s, tu_bound = Lower\<rparr> \<or>
     t = \<lparr>tu_source = of_nat s, tu_offset = up s, tu_bound = Upper\<rparr>)"
  by (induction n) (auto simp: less_Suc_eq)

lemma of_nat_u8: "s < n \<Longrightarrow> n \<le> 255 \<Longrightarrow> (of_nat s :: u8) \<noteq> of_nat n"
  by (auto dest!: arg_cong [where f = unat] simp: unat_of_nat)

lemma distinct_keys: "n \<le> 255 \<Longrightarrow> distinct (map tuple_key (bounds_of n lo up))"
  by (induction n) (auto simp: tuple_key_def bounds_of_members dest!: of_nat_u8)

lemma filter_prefix:
  "sorted (map f ts) \<Longrightarrow> filter (\<lambda>t. f t < y) ts = takeWhile (\<lambda>t. f t < y) ts" for f :: "'a \<Rightarrow> 'b::linorder"
proof (induction ts)
  case (Cons t ts)
  show ?case
  proof (cases "f t < y")
    case False
    then have "filter (\<lambda>t. f t < y) ts = []" using Cons.prems by (auto simp: filter_empty_conv)
    with False show ?thesis by simp
  qed (use Cons in simp)
qed simp

lemma sort_tuples_facts: "mset (sort_tuples ts) = mset ts" "sorted (map tuple_key (sort_tuples ts))"
  by (simp_all add: sort_tuples_def)

lemma prefix_at:
  assumes "sorted (map tuple_key ts)" "cnt (filter (open_at x) ts) = int c"
  obtains k where "k \<le> length ts" "cnt (take k ts) = int c" "\<And>i. i < length ts \<Longrightarrow> open_at x (ts ! i) \<longleftrightarrow> i < k"
proof -
  let ?P = "\<lambda>t. tuple_key t < (x, Upper, 0)" let ?k = "length (takeWhile ?P ts)"
  have P: "open_at x = ?P" by (rule ext) (rule open_at_key)
  have k: "?k \<le> length ts" by (rule length_takeWhile_le)
  have take: "take ?k ts = takeWhile ?P ts" by (simp add: takeWhile_eq_take [symmetric])
  have "open_at x (ts ! i) \<longleftrightarrow> i < ?k" if i: "i < length ts" for i
  proof
    assume "i < ?k"
    then have "ts ! i = takeWhile ?P ts ! i" by (simp add: takeWhile_nth)
    also have "\<dots> \<in> set (takeWhile ?P ts)" using \<open>i < ?k\<close> by (rule nth_mem)
    finally show "open_at x (ts ! i)" by (auto simp: P dest: set_takeWhileD)
  next
    assume op: "open_at x (ts ! i)"
    show "i < ?k"
    proof (rule ccontr)
      assume "\<not> i < ?k"
      then have "?k < length ts" "tuple_key (ts ! ?k) \<le> tuple_key (ts ! i)"
        using i sorted_nth_mono [OF assms(1), of ?k i] by auto
      moreover from this have "\<not> ?P (ts ! ?k)" by (intro nth_length_takeWhile)
      ultimately show False using op by (simp add: P)
    qed
  qed
  moreover have "cnt (take ?k ts) = int c" using assms by (simp add: take P filter_prefix)
  ultimately show thesis using k that by blast
qed

text \<open>A tuple at which the count is maximal starts an interval of maximal coverage, which the next tuple ends.\<close>

lemma at_best:
  assumes sorted: "sorted (map tuple_key ts)" and total: "cnt ts = 0" and first: "tu_bound (hd ts) = Lower"
    and covers: "\<And>x. cnt (filter (open_at x) ts) = int (c x)"
    and best: "0 < best" "\<forall>i < length ts. cnt (take (Suc i) ts) \<le> best" "cnt (take (Suc j) ts) = best" and j: "j < length ts"
  shows "Suc j < length ts" "tu_bound (ts ! j) = Lower" "tu_bound (ts ! Suc j) = Upper"
    "tu_offset (ts ! j) \<le> x \<Longrightarrow> x \<le> tu_offset (ts ! Suc j) \<Longrightarrow> int (c x) = best"
proof -
  show later: "Suc j < length ts"
  proof (rule ccontr)
    assume "\<not> Suc j < length ts"
    then have "take (Suc j) ts = ts" by simp
    with total best(1,3) show False by simp
  qed
  show low: "tu_bound (ts ! j) = Lower"
  proof (rule ccontr)
    assume "tu_bound (ts ! j) \<noteq> Lower"
    then have "tu_bound (ts ! j) = Upper" by (cases "tu_bound (ts ! j)") auto
    then have "cnt (take j ts) = best + 1" using cnt_take_Suc [OF j] best(3) by (simp add: delta_def)
    moreover obtain i where "j = Suc i" using first j \<open>tu_bound (ts ! j) = Upper\<close> by (cases ts; cases j) auto
    ultimately have "i < length ts" "cnt (take (Suc i) ts) = best + 1" using j by simp_all
    with best(2) have "best + 1 \<le> best" by metis
    then show False by simp
  qed
  show up: "tu_bound (ts ! Suc j) = Upper"
  proof (rule ccontr)
    assume "tu_bound (ts ! Suc j) \<noteq> Upper"
    then have "tu_bound (ts ! Suc j) = Lower" by (cases "tu_bound (ts ! Suc j)") auto
    then have "cnt (take (Suc (Suc j)) ts) = best + 1" using cnt_take_Suc [OF later] best(3) by (simp add: delta_def)
    with best(2) later show False by force
  qed
  assume x: "tu_offset (ts ! j) \<le> x" "x \<le> tu_offset (ts ! Suc j)"
  obtain k where k: "k \<le> length ts" "cnt (take k ts) = int (c x)" "\<And>i. i < length ts \<Longrightarrow> open_at x (ts ! i) \<longleftrightarrow> i < k"
    using prefix_at [OF sorted covers] by blast
  have "open_at x (ts ! j)" "\<not> open_at x (ts ! Suc j)" using x low up by (auto simp: open_at_def)
  then have "k = Suc j" using k(3) [OF j] k(3) [OF later] by simp
  then show "int (c x) = best" using k(2) best(3) by simp
qed

lemma sorted_ends:
  assumes ts: "mset ts = mset (bounds_of n lo up)" "sorted (map tuple_key ts)" and n: "0 < n" "\<forall>s < n. lo s \<le> up s"
  shows "ts \<noteq> []" "tu_bound (hd ts) = Lower" "tu_bound (last ts) = Upper"
proof -
  have set: "set ts = set (bounds_of n lo up)" using ts(1) by (metis set_mset_mset)
  have "length ts = 2 * n" using ts(1) by (metis length_bounds_of size_mset)
  then show ne: "ts \<noteq> []" using n(1) by auto
  have least: "tuple_key (hd ts) \<le> tuple_key t" if "t \<in> set ts" for t
    using that ts(2) ne by (cases ts) auto
  have greatest: "tuple_key t \<le> tuple_key (last ts)" if "t \<in> set ts" for t
  proof -
    obtain us where us: "ts = us @ [last ts]" using ne by (metis append_butlast_last_id)
    then have "sorted (map tuple_key us @ [tuple_key (last ts)])" using ts(2) by (metis list.simps(8,9) map_append)
    moreover have "t \<in> set us \<or> t = last ts" using that us by (metis Un_iff empty_iff set_ConsD set_append list.set(1))
    ultimately show ?thesis by (auto simp: sorted_append)
  qed
  show "tu_bound (hd ts) = Lower"
  proof (rule ccontr)
    assume not: "tu_bound (hd ts) \<noteq> Lower"
    have "hd ts \<in> set (bounds_of n lo up)" unfolding set [symmetric] using ne by (rule hd_in_set)
    then obtain s where s: "s < n" and "hd ts = \<lparr>tu_source = of_nat s, tu_offset = lo s, tu_bound = Lower\<rparr> \<or>
        hd ts = \<lparr>tu_source = of_nat s, tu_offset = up s, tu_bound = Upper\<rparr>" unfolding bounds_of_members by blast
    with not have at: "hd ts = \<lparr>tu_source = of_nat s, tu_offset = up s, tu_bound = Upper\<rparr>" by (elim disjE) simp_all
    have "\<lparr>tu_source = of_nat s, tu_offset = lo s, tu_bound = Lower\<rparr> \<in> set ts"
      unfolding set bounds_of_members using s by blast
    from least [OF this] s n(2) show False unfolding at by (auto simp: tuple_key_def less_eq_bound_def less_bound_def)
  qed
  show "tu_bound (last ts) = Upper"
  proof (rule ccontr)
    assume not: "tu_bound (last ts) \<noteq> Upper"
    have "last ts \<in> set (bounds_of n lo up)" unfolding set [symmetric] using ne by (rule last_in_set)
    then obtain s where s: "s < n" and "last ts = \<lparr>tu_source = of_nat s, tu_offset = lo s, tu_bound = Lower\<rparr> \<or>
        last ts = \<lparr>tu_source = of_nat s, tu_offset = up s, tu_bound = Upper\<rparr>" unfolding bounds_of_members by blast
    with not have at: "last ts = \<lparr>tu_source = of_nat s, tu_offset = lo s, tu_bound = Lower\<rparr>" by (elim disjE) simp_all
    have "\<lparr>tu_source = of_nat s, tu_offset = up s, tu_bound = Upper\<rparr> \<in> set ts"
      unfolding set bounds_of_members using s by blast
    from greatest [OF this] s n(2) show False unfolding at by (auto simp: tuple_key_def less_eq_bound_def less_bound_def)
  qed
qed

section \<open>The algorithm\<close>

text \<open>The sorted input, and what one sweep over it finds.\<close>

lemma sorted_bounds:
  assumes input: "mset tuples = mset (bounds_of n lo up)" and n: "0 < n" "n \<le> 255" and le: "\<forall>s < n. lo s \<le> up s"
    and ts: "ts = sort_tuples tuples"
  shows "set ts = set (bounds_of n lo up)" "sorted (map tuple_key ts)" "sorted_wrt (\<lambda>a b. tuple_key a < tuple_key b) ts"
    "cnt ts = 0" "\<And>x. cnt (filter (open_at x) ts) = int (cover n lo up x)" "length tuples = 2 * n"
    "ts \<noteq> []" "tu_bound (hd ts) = Lower" "tu_bound (last ts) = Upper"
    "\<And>i j. i \<le> j \<Longrightarrow> j < length ts \<Longrightarrow> tu_offset (ts ! i) \<le> tu_offset (ts ! j)"
proof -
  have ms: "mset ts = mset (bounds_of n lo up)" and sorted: "sorted (map tuple_key ts)"
    using sort_tuples_facts [of tuples] input by (simp_all add: ts)
  show "set ts = set (bounds_of n lo up)" using ms by (metis set_mset_mset)
  show "sorted (map tuple_key ts)" by (rule sorted)
  have "distinct (map tuple_key ts)"
    using distinct_keys [OF n(2), of lo up] ms by (metis mset_eq_imp_distinct_iff mset_map)
  then show "sorted_wrt (\<lambda>a b. tuple_key a < tuple_key b) ts"
    using sorted strict_sorted_iff [of "map tuple_key ts"] by (simp add: sorted_wrt_map)
  show "cnt ts = 0" using cnt_mset [OF ms] cnt_bounds_of by simp
  show "cnt (filter (open_at x) ts) = int (cover n lo up x)" for x
    using cnt_mset [of "filter (open_at x) ts" "filter (open_at x) (bounds_of n lo up)"] ms cnt_open [OF le] by simp
  show "length tuples = 2 * n" using input by (metis length_bounds_of size_mset)
  show "ts \<noteq> []" "tu_bound (hd ts) = Lower" "tu_bound (last ts) = Upper" by (rule sorted_ends [OF ms sorted n(1) le])+
  show "tu_offset (ts ! i) \<le> tu_offset (ts ! j)" if "i \<le> j" "j < length ts" for i j
    using sorted_nth_mono [OF sorted, of i j] that by (auto simp: tuple_key_def less_eq_prod_def)
qed

lemma smallest_interval_found:
  assumes input: "mset tuples = mset (bounds_of n lo up)" and n: "0 < n" "n \<le> 255"
    and sources: "\<forall>s < n. - (2 ^ 62) \<le> lo s \<and> lo s \<le> up s \<and> up s < 2 ^ 62" and ts: "ts = sort_tuples tuples"
  obtains iv j where "smallest_interval tuples = Some (iv, ts)" "swept ts (length ts) (int (iv_sources_true iv)) iv" "0 < iv_sources_true iv"
    "iv_sources_true iv + iv_sources_false iv = n" "\<forall>i < length ts. cnt (take (Suc i) ts) \<le> int (iv_sources_true iv)"
    "j < length ts" "cnt (take (Suc j) ts) = int (iv_sources_true iv)" "iv_lower_bound iv = tu_offset (ts ! j)"
    "iv_upper_bound iv = tu_offset (ts ! Suc j)"
proof -
  have le: "\<forall>s < n. lo s \<le> up s" using sources by blast
  note facts = sorted_bounds [OF input n le ts]
  have bounded: "- (2 ^ 62) \<le> tu_offset t \<and> tu_offset t < 2 ^ 62" if "t \<in> set ts" for t
    using that sources by (force simp: facts(1) bounds_of_members)
  have range: "\<forall>j. Suc j < length ts \<longrightarrow> i64 (tu_offset (ts ! Suc j) - tu_offset (ts ! j))"
  proof (intro allI impI)
    fix j assume "Suc j < length ts"
    then show "i64 (tu_offset (ts ! Suc j) - tu_offset (ts ! j))"
      using bounded [of "ts ! j"] bounded [of "ts ! Suc j"] by (simp add: i64_def)
  qed
  obtain best iv where sw: "sweep 0 0 None interval_zero ts = Some (best, Some (last ts), iv)" "swept ts (length ts) best iv"
    using sweep_correct [OF facts(3,4,8) range, of 0 0 interval_zero None] facts(7) by (auto simp: swept_def)
  have best: "0 < best" "\<forall>i < length ts. cnt (take (Suc i) ts) \<le> best"
    using sw(2) facts(7) by (simp_all add: swept_def)
  obtain j where j: "j < length ts" "cnt (take (Suc j) ts) = best" "iv_lower_bound iv = tu_offset (ts ! j)"
    "iv_upper_bound iv = tu_offset (ts ! Suc j)" using sw(2) best(1) by (auto simp: swept_def)
  note j_at = at_best [OF facts(2,4,8,5) best j(2,1)]
  have "int (cover n lo up (iv_lower_bound iv)) = best" using j_at(4) facts(10) [of j "Suc j"] j_at(1) j(3) by simp
  then have best_n: "best \<le> int n" using cover_le [of n lo up "iv_lower_bound iv"] by linarith
  define result where "result = iv\<lparr>iv_sources_true := nat best, iv_sources_false := n - nat best\<rparr>"
  have "smallest_interval tuples = Some (result, ts)"
    using sw(1) facts(9) best(1) best_n n by (simp add: smallest_interval_def facts(6) Let_def ts [symmetric] result_def ensure_def)
  moreover have "swept ts (length ts) best result" using sw(2) by (simp add: swept_def result_def)
  ultimately show thesis using that [of result j] best j best_n by (simp add: result_def)
qed

lemma smallest_interval_correct:
  assumes input: "mset tuples = mset (bounds_of n lo up)" and n: "0 < n" "n \<le> 255"
    and sources: "\<forall>s < n. - (2 ^ 62) \<le> lo s \<and> lo s \<le> up s \<and> up s < 2 ^ 62"
  shows "\<exists>iv. smallest_interval tuples = Some (iv, sort_tuples tuples) \<and> iv_lower_bound iv \<le> iv_upper_bound iv \<and>
     0 < iv_sources_true iv \<and> iv_sources_true iv + iv_sources_false iv = n \<and>
     (\<forall>x. cover n lo up x \<le> iv_sources_true iv) \<and>
     (\<forall>x. iv_lower_bound iv \<le> x \<and> x \<le> iv_upper_bound iv \<longrightarrow> cover n lo up x = iv_sources_true iv)"
proof -
  define ts where "ts = sort_tuples tuples"
  have le: "\<forall>s < n. lo s \<le> up s" using sources by blast
  note facts = sorted_bounds [OF input n le ts_def]
  obtain iv j where iv: "smallest_interval tuples = Some (iv, ts)" "swept ts (length ts) (int (iv_sources_true iv)) iv" "0 < iv_sources_true iv"
    "iv_sources_true iv + iv_sources_false iv = n" and best: "\<forall>i < length ts. cnt (take (Suc i) ts) \<le> int (iv_sources_true iv)"
    and j: "j < length ts" "cnt (take (Suc j) ts) = int (iv_sources_true iv)" "iv_lower_bound iv = tu_offset (ts ! j)"
    "iv_upper_bound iv = tu_offset (ts ! Suc j)" by (rule smallest_interval_found [OF input n sources ts_def])
  have pos: "0 < int (iv_sources_true iv)" using iv(3) by simp
  note j_at = at_best [OF facts(2,4,8,5) pos best j(2,1)]
  have "cover n lo up x \<le> iv_sources_true iv" for x
  proof -
    obtain k where "k \<le> length ts" "cnt (take k ts) = int (cover n lo up x)"
      using prefix_at [OF facts(2) facts(5)] by blast
    then show ?thesis using best by (cases k) (auto simp: Suc_le_eq)
  qed
  moreover have "cover n lo up x = iv_sources_true iv" if "iv_lower_bound iv \<le> x" "x \<le> iv_upper_bound iv" for x
    using j_at(4) that j(3,4) by simp
  moreover have "iv_lower_bound iv \<le> iv_upper_bound iv" using facts(10) [of j "Suc j"] j_at(1) j(3,4) by simp
  ultimately show ?thesis using iv by (auto simp: ts_def)
qed

section \<open>Intervals as intersections\<close>

text \<open>A set of sources agrees on the intersection of its intervals.\<close>

definition agree_on :: "nat set \<Rightarrow> (nat \<Rightarrow> int) \<Rightarrow> (nat \<Rightarrow> int) \<Rightarrow> int \<Rightarrow> int \<Rightarrow> bool" where
  "agree_on S lo up a b \<longleftrightarrow> a \<le> b \<and> {a..b} = (\<Inter>s \<in> S. {lo s..up s})"

lemma cover_card: "cover n lo up x = card {s. s < n \<and> lo s \<le> x \<and> x \<le> up s}"
proof -
  have "{s. s < n \<and> lo s \<le> x \<and> x \<le> up s} = set (filter (\<lambda>s. lo s \<le> x \<and> x \<le> up s) [0..<n])" by auto
  then show ?thesis using distinct_card [of "filter (\<lambda>s. lo s \<le> x \<and> x \<le> up s) [0..<n]"] by (simp add: cover_def)
qed

lemma agree_on_ends:
  assumes "agree_on S lo up a b"
  obtains s s' where "s \<in> S" "lo s = a" "s' \<in> S" "up s' = b" "\<forall>t \<in> S. lo t \<le> a \<and> b \<le> up t"
proof -
  have mem: "x \<in> {a..b} \<longleftrightarrow> (\<forall>s \<in> S. lo s \<le> x \<and> x \<le> up s)" for x using assms by (simp add: agree_on_def)
  have all: "\<forall>t \<in> S. lo t \<le> a \<and> b \<le> up t" using mem [of a] mem [of b] assms by (simp add: agree_on_def)
  have "a - 1 \<notin> {a..b}" "b + 1 \<notin> {a..b}" by simp_all
  then obtain s s' where "s \<in> S" "\<not> (lo s \<le> a - 1 \<and> a - 1 \<le> up s)" "s' \<in> S" "\<not> (lo s' \<le> b + 1 \<and> b + 1 \<le> up s')"
    using mem by blast
  moreover have "a \<le> b" using assms by (simp add: agree_on_def)
  ultimately show thesis using that [of s s'] all by force
qed

lemma bound_index:
  assumes "set ts = set (bounds_of n lo up)" "s < n"
  obtains i i' where "i < length ts" "ts ! i = \<lparr>tu_source = of_nat s, tu_offset = lo s, tu_bound = Lower\<rparr>"
    "i' < length ts" "ts ! i' = \<lparr>tu_source = of_nat s, tu_offset = up s, tu_bound = Upper\<rparr>"
proof -
  have "\<lparr>tu_source = of_nat s, tu_offset = lo s, tu_bound = Lower\<rparr> \<in> set ts" "\<lparr>tu_source = of_nat s, tu_offset = up s, tu_bound = Upper\<rparr> \<in> set ts"
    unfolding assms(1) bounds_of_members using assms(2) by blast+
  then show thesis using that unfolding in_set_conv_nth by blast
qed

text \<open>The tuple where the count is maximal and the one after it bound the intersection of the sources that cover the first.\<close>

lemma at_best_agrees:
  assumes ts: "set ts = set (bounds_of n lo up)" "sorted (map tuple_key ts)" and covers: "\<And>x. cnt (filter (open_at x) ts) = int (cover n lo up x)"
    and mono: "\<And>i j. i \<le> j \<Longrightarrow> j < length ts \<Longrightarrow> tu_offset (ts ! i) \<le> tu_offset (ts ! j)" and le: "\<forall>s < n. lo s \<le> up s"
    and j: "Suc j < length ts" "tu_bound (ts ! j) = Lower" "tu_bound (ts ! Suc j) = Upper"
  shows "agree_on {s. s < n \<and> lo s \<le> tu_offset (ts ! j) \<and> tu_offset (ts ! j) \<le> up s} lo up (tu_offset (ts ! j)) (tu_offset (ts ! Suc j))"
proof -
  define L where "L = tu_offset (ts ! j)"
  define U where "U = tu_offset (ts ! Suc j)"
  have LU: "L \<le> U" using mono [of j "Suc j"] j(1) by (simp add: L_def U_def)
  obtain k where k: "\<And>i. i < length ts \<Longrightarrow> open_at L (ts ! i) \<longleftrightarrow> i < k" using prefix_at [OF ts(2) covers, of L] by blast
  have "open_at L (ts ! j)" "\<not> open_at L (ts ! Suc j)" using j(2,3) LU by (auto simp: open_at_def L_def U_def)
  then have op: "open_at L (ts ! i) \<longleftrightarrow> i \<le> j" if "i < length ts" for i using k [of j] k [of "Suc j"] k [OF that] j(1) by auto
  have above: "U \<le> up s" if s: "s < n" "L \<le> up s" for s
  proof -
    obtain i where i: "i < length ts" "ts ! i = \<lparr>tu_source = of_nat s, tu_offset = up s, tu_bound = Upper\<rparr>"
      by (rule bound_index [OF ts(1) s(1)])
    then have "\<not> i \<le> j" using op [OF i(1)] i(2) s(2) by (simp add: open_at_def)
    then show ?thesis using mono [of "Suc j" i] i by (simp add: U_def)
  qed
  obtain s where s: "s < n" "lo s = L"
  proof -
    have "ts ! j \<in> set (bounds_of n lo up)" using j(1) unfolding ts(1) [symmetric] by simp
    then show thesis using that j(2) by (auto simp: bounds_of_members L_def)
  qed
  obtain s' where s': "s' < n" "up s' = U" "lo s' \<le> L"
  proof -
    have "ts ! Suc j \<in> set (bounds_of n lo up)" using j(1) unfolding ts(1) [symmetric] by simp
    then obtain s' where s': "s' < n" "up s' = U" using j(3) by (auto simp: bounds_of_members U_def)
    obtain i where i: "i < length ts" "ts ! i = \<lparr>tu_source = of_nat s', tu_offset = lo s', tu_bound = Lower\<rparr>"
      by (rule bound_index [OF ts(1) s'(1)])
    have "tuple_key (ts ! i) < tuple_key (ts ! Suc j)" using i(2) j(3) s' le by (auto simp: tuple_key_def less_bound_def U_def order.order_iff_strict)
    then have "i \<le> j" using sorted_nth_mono [OF ts(2), of "Suc j" i] i(1) by force
    then show thesis using that s' op [OF i(1)] i(2) by (auto simp: open_at_def)
  qed
  have "x \<in> {L..U} \<longleftrightarrow> (\<forall>s \<in> {s. s < n \<and> lo s \<le> L \<and> L \<le> up s}. lo s \<le> x \<and> x \<le> up s)" for x
    using s s' above le LU by force
  then have "{L..U} = (\<Inter>s \<in> {s. s < n \<and> lo s \<le> L \<and> L \<le> up s}. {lo s..up s})" by auto
  then show ?thesis using LU by (simp add: agree_on_def L_def [symmetric] U_def [symmetric])
qed

text \<open>Any other intersection of as many intervals is at least as wide, and not before the one the sweep found.\<close>

lemma swept_least:
  assumes ts: "set ts = set (bounds_of n lo up)" "sorted (map tuple_key ts)" and covers: "\<And>x. cnt (filter (open_at x) ts) = int (cover n lo up x)"
    and mono: "\<And>i j. i \<le> j \<Longrightarrow> j < length ts \<Longrightarrow> tu_offset (ts ! i) \<le> tu_offset (ts ! j)"
    and total: "cnt ts = 0" "tu_bound (hd ts) = Lower"
    and best: "swept ts (length ts) (int m) iv" "0 < m" "\<forall>i < length ts. cnt (take (Suc i) ts) \<le> int m"
    and S: "S \<subseteq> {..<n}" "agree_on S lo up a b"
  shows "card S \<le> m" "card S = m \<Longrightarrow> iv_upper_bound iv - iv_lower_bound iv < b - a \<or>
    iv_upper_bound iv - iv_lower_bound iv = b - a \<and> iv_lower_bound iv \<le> a"
proof -
  obtain s s' where ends: "s \<in> S" "lo s = a" "s' \<in> S" "up s' = b" "\<forall>t \<in> S. lo t \<le> a \<and> b \<le> up t" by (rule agree_on_ends [OF S(2)])
  have ab: "a \<le> b" using S(2) by (simp add: agree_on_def)
  have "S \<subseteq> {s. s < n \<and> lo s \<le> a \<and> a \<le> up s}" using S(1) ends(5) ab by force
  then have card: "card S \<le> cover n lo up a" unfolding cover_card by (intro card_mono) auto
  obtain k where k: "k \<le> length ts" "cnt (take k ts) = int (cover n lo up a)" "\<And>i. i < length ts \<Longrightarrow> open_at a (ts ! i) \<longleftrightarrow> i < k"
    using prefix_at [OF ts(2) covers] by blast
  have top: "cover n lo up a \<le> m" using k(1,2) best(3) by (cases k) (auto simp: Suc_le_eq)
  show "card S \<le> m" using card top by simp
  assume "card S = m"
  then have cover: "cover n lo up a = m" using card top by simp
  then obtain i where i: "k = Suc i" using k(2) best(2) by (cases k) auto
  have at: "cnt (take (Suc i) ts) = int m" "i < length ts" using k(1,2) cover i by auto
  have pos: "0 < int m" using best(2) by simp
  have sources: "s < n" "s' < n" using ends(1,3) S(1) by auto
  note i_at = at_best [OF ts(2) total covers pos best(3) at]
  have "tu_offset (ts ! i) \<le> a" using k(3) [OF at(2)] i by (auto simp: open_at_def)
  moreover have "a \<le> tu_offset (ts ! i)"
  proof -
    obtain l where l: "l < length ts" "ts ! l = \<lparr>tu_source = of_nat s, tu_offset = a, tu_bound = Lower\<rparr>"
      by (rule bound_index [OF ts(1) sources(1)]) (simp add: ends(2))
    then have "l \<le> i" using k(3) [OF l(1)] i by (auto simp: open_at_def)
    then show ?thesis using mono [of l i] l at(2) by simp
  qed
  moreover have "tu_offset (ts ! Suc i) \<le> b"
  proof -
    obtain l where l: "l < length ts" "ts ! l = \<lparr>tu_source = of_nat s', tu_offset = b, tu_bound = Upper\<rparr>"
      by (rule bound_index [OF ts(1) sources(2)]) (simp add: ends(4))
    then have "\<not> l \<le> i" using k(3) [OF l(1)] i ab by (auto simp: open_at_def)
    then show ?thesis using mono [of "Suc i" l] l by simp
  qed
  moreover have "iv_upper_bound iv - iv_lower_bound iv < tu_offset (ts ! Suc i) - tu_offset (ts ! i) \<or>
      iv_upper_bound iv - iv_lower_bound iv = tu_offset (ts ! Suc i) - tu_offset (ts ! i) \<and> iv_lower_bound iv \<le> tu_offset (ts ! i)"
    using best(1) at i_at(1,3) unfolding swept_def by blast
  ultimately show "iv_upper_bound iv - iv_lower_bound iv < b - a \<or> iv_upper_bound iv - iv_lower_bound iv = b - a \<and> iv_lower_bound iv \<le> a"
    by auto
qed

lemma smallest_interval_smallest:
  assumes input: "mset tuples = mset (bounds_of n lo up)" and n: "0 < n" "n \<le> 255"
    and sources: "\<forall>s < n. - (2 ^ 62) \<le> lo s \<and> lo s \<le> up s \<and> up s < 2 ^ 62"
  shows "\<exists>iv. smallest_interval tuples = Some (iv, sort_tuples tuples) \<and> iv_sources_true iv + iv_sources_false iv = n \<and>
     (\<exists>S \<subseteq> {..<n}. card S = iv_sources_true iv \<and> agree_on S lo up (iv_lower_bound iv) (iv_upper_bound iv)) \<and>
     (\<forall>S a b. S \<subseteq> {..<n} \<and> agree_on S lo up a b \<longrightarrow> card S \<le> iv_sources_true iv \<and>
        (card S = iv_sources_true iv \<longrightarrow> iv_upper_bound iv - iv_lower_bound iv < b - a \<or>
           iv_upper_bound iv - iv_lower_bound iv = b - a \<and> iv_lower_bound iv \<le> a))"
proof -
  define ts where "ts = sort_tuples tuples"
  have le: "\<forall>s < n. lo s \<le> up s" using sources by blast
  note facts = sorted_bounds [OF input n le ts_def]
  obtain iv j where iv: "smallest_interval tuples = Some (iv, ts)" and sw: "swept ts (length ts) (int (iv_sources_true iv)) iv"
    and pos: "0 < iv_sources_true iv" and sum: "iv_sources_true iv + iv_sources_false iv = n"
    and best: "\<forall>i < length ts. cnt (take (Suc i) ts) \<le> int (iv_sources_true iv)"
    and j: "j < length ts" "cnt (take (Suc j) ts) = int (iv_sources_true iv)" "iv_lower_bound iv = tu_offset (ts ! j)"
    "iv_upper_bound iv = tu_offset (ts ! Suc j)" by (rule smallest_interval_found [OF input n sources ts_def])
  have pos': "0 < int (iv_sources_true iv)" using pos by simp
  note j_at = at_best [OF facts(2,4,8,5) pos' best j(2,1)]
  define S where "S = {s. s < n \<and> lo s \<le> tu_offset (ts ! j) \<and> tu_offset (ts ! j) \<le> up s}"
  have "agree_on S lo up (iv_lower_bound iv) (iv_upper_bound iv)"
    unfolding S_def j(3,4) by (rule at_best_agrees [OF facts(1,2,5,10) le j_at(1-3)])
  moreover have "int (cover n lo up (tu_offset (ts ! j))) = int (iv_sources_true iv)"
    using j_at(4) facts(10) [of j "Suc j"] j_at(1) by simp
  then have "card S = iv_sources_true iv" by (simp add: S_def cover_card)
  moreover have "S \<subseteq> {..<n}" by (auto simp: S_def)
  moreover note least = swept_least [OF facts(1,2,5,10,4,8) sw pos best]
  ultimately show ?thesis using iv sum unfolding ts_def by blast
qed

end
