(* ===== verification/Clock.thy ===== *)
theory Clock
  imports Marzullo
begin

text \<open>
  The synchronized clock of \<open>tigerbeetle-vsr/src/clock.rs\<close>: samples of the offsets to the other replicas' clocks
  are collected in a window, and once Marzullo's algorithm finds a quorum of them in agreement the window becomes the
  epoch that \<open>realtime_synchronized\<close> is read from. The readings of the \<open>Time\<close> source are arguments, in the order the code
  takes them. A \<open>u64\<close> is a \<open>nat\<close>, an \<open>i64\<close> an \<open>int\<close>; overflow is a panic unless the code wraps or saturates.
\<close>

definition CLOCK_OFFSET_TOLERANCE_MAX :: nat where "CLOCK_OFFSET_TOLERANCE_MAX = 10000 * 1000000"
definition EPOCH_MAX :: nat where "EPOCH_MAX = 60000 * 1000000"
definition WINDOW_MIN :: nat where "WINDOW_MIN = 2000 * 1000000"
definition WINDOW_MAX :: nat where "WINDOW_MAX = 20000 * 1000000"
definition REPLICAS_MAX :: nat where "REPLICAS_MAX = 6"

record sample =
  sa_clock_offset :: int
  sa_one_way_delay :: nat

record epoch =
  ep_sources :: "sample option list"
  ep_samples :: nat
  ep_monotonic :: nat
  ep_realtime :: int
  ep_synchronized :: "interval option"
  ep_learned :: bool

record clock =
  ck_replica :: nat
  ck_quorum :: nat
  ck_epoch :: epoch
  ck_window :: epoch
  ck_marzullo_tuples :: "tuple list"
  ck_synchronization_disabled :: bool

record clock_options =
  co_replica_count :: nat
  co_replica :: nat
  co_quorum :: nat

section \<open>Integers\<close>

text \<open>\<open>i64::try_from(x).unwrap_or(i64::MAX)\<close>, and the checked subtraction of two \<open>u64\<close>.\<close>

definition i64_saturate :: "nat \<Rightarrow> int" where
  "i64_saturate x = min (int x) (2 ^ 63 - 1)"

definition u64_minus :: "nat \<Rightarrow> nat \<Rightarrow> nat option" where
  "u64_minus a b = (if b \<le> a then Some (a - b) else None)"

definition i64_clamp :: "int \<Rightarrow> int \<Rightarrow> int \<Rightarrow> int option" where
  "i64_clamp x lo hi = do { ensure (lo \<le> hi); Some (max lo (min hi x)) }"

section \<open>Epochs\<close>

definition epoch_new :: "nat \<Rightarrow> epoch" where
  "epoch_new replica_count = \<lparr>ep_sources = replicate replica_count None, ep_samples = 0, ep_monotonic = 0, ep_realtime = 0,
     ep_synchronized = None, ep_learned = False\<rparr>"

definition epoch_reset :: "nat \<Rightarrow> nat \<Rightarrow> int \<Rightarrow> epoch \<Rightarrow> epoch option" where
  "epoch_reset replica monotonic_ns realtime_ns e =
     do { ensure (replica < length (ep_sources e));
          Some (e\<lparr>ep_sources := (replicate (length (ep_sources e)) None)
              [replica := Some \<lparr>sa_clock_offset = 0, sa_one_way_delay = 0\<rparr>],
            ep_samples := 1, ep_monotonic := monotonic_ns, ep_realtime := realtime_ns,
            ep_synchronized := None, ep_learned := False\<rparr>) }"

definition sources_sampled :: "epoch \<Rightarrow> nat" where
  "sources_sampled e = length (filter (\<lambda>sampled. sampled \<noteq> None) (ep_sources e))"

definition minimum_one_way_delay :: "sample option \<Rightarrow> sample option \<Rightarrow> sample option" where
  "minimum_one_way_delay a b =
     (case (a, b) of (None, _) \<Rightarrow> b | (_, None) \<Rightarrow> a
      | (Some a, Some b) \<Rightarrow> if sa_one_way_delay a < sa_one_way_delay b then Some a else Some b)"

section \<open>The clock\<close>

definition tuple_zero :: tuple where
  "tuple_zero = \<lparr>tu_source = 0, tu_offset = 0, tu_bound = Lower\<rparr>"

definition clock_new :: "clock_options \<Rightarrow> nat \<Rightarrow> int \<Rightarrow> clock option" where
  "clock_new options monotonic_ns realtime_ns =
     do { ensure (co_replica_count options > 0);
          ensure (co_replica options < co_replica_count options);
          ensure (co_quorum options > 0);
          ensure (co_quorum options \<le> co_replica_count options);
          ensure (co_replica_count options > 1 \<longrightarrow> co_quorum options > 1);
          epoch \<leftarrow> epoch_reset (co_replica options) monotonic_ns realtime_ns (epoch_new (co_replica_count options));
          window \<leftarrow> epoch_reset (co_replica options) monotonic_ns realtime_ns (epoch_new (co_replica_count options));
          Some \<lparr>ck_replica = co_replica options, ck_quorum = co_quorum options, ck_epoch = epoch, ck_window = window,
            ck_marzullo_tuples = replicate (co_replica_count options * 2) tuple_zero,
            ck_synchronization_disabled = (co_replica_count options = 1)\<rparr> }"

definition estimate_asymmetric_delay :: "clock \<Rightarrow> nat \<Rightarrow> nat \<Rightarrow> int \<Rightarrow> int option" where
  "estimate_asymmetric_delay c replica one_way_delay clock_offset =
     do { ensure (replica < length (ep_sources (ck_epoch c)));
          (case ep_sources (ck_epoch c) ! replica of None \<Rightarrow> Some 0
           | Some epoch_sample \<Rightarrow>
               if one_way_delay \<le> sa_one_way_delay epoch_sample then Some 0
               else
                 do { high \<leftarrow> i64_checked (sa_clock_offset epoch_sample + 10000000);
                      if clock_offset > high then Some (0 - i64_saturate (one_way_delay - sa_one_way_delay epoch_sample))
                      else
                        do { low \<leftarrow> i64_checked (sa_clock_offset epoch_sample - 10000000);
                             if clock_offset < low then Some (i64_saturate (one_way_delay - sa_one_way_delay epoch_sample))
                             else Some 0 } }) }"

definition learn :: "nat \<Rightarrow> nat \<Rightarrow> int \<Rightarrow> nat \<Rightarrow> clock \<Rightarrow> clock option" where
  "learn replica m0 t1 m2 c =
     do { ensure (replica \<noteq> ck_replica c);
          let window = ck_window c;
          if ck_synchronization_disabled c then Some c
          else if m2 < m0 then Some c
          else if m0 < ep_monotonic window then Some c
          else
            do { elapsed \<leftarrow> u64_minus m2 (ep_monotonic window);
                 if WINDOW_MAX < elapsed then Some c
                 else
                   do { let one_way_delay = (m2 - m0) div 2;
                        let t2 = i64_wrap (ep_realtime window + i64_saturate elapsed);
                        let clock_offset = i64_wrap (i64_wrap (t1 + i64_saturate one_way_delay) - t2);
                        asymmetric_delay \<leftarrow> estimate_asymmetric_delay c replica one_way_delay clock_offset;
                        let candidate = \<lparr>sa_clock_offset = i64_wrap (clock_offset + asymmetric_delay),
                              sa_one_way_delay = one_way_delay\<rparr>;
                        ensure (replica < length (ep_sources window));
                        Some (c\<lparr>ck_window := window\<lparr>
                          ep_sources := (ep_sources window)[replica :=
                            minimum_one_way_delay (ep_sources window ! replica) (Some candidate)],
                          ep_samples := ep_samples window + 1, ep_learned := True\<rparr>\<rparr>) } } }"

definition realtime_synchronized :: "clock \<Rightarrow> int \<Rightarrow> nat \<Rightarrow> int option option" where
  "realtime_synchronized c realtime now_ns =
     (if ck_synchronization_disabled c then Some (Some realtime)
      else case ep_synchronized (ck_epoch c) of None \<Rightarrow> Some None
        | Some interval \<Rightarrow>
            do { elapsed_ns \<leftarrow> u64_minus now_ns (ep_monotonic (ck_epoch c));
                 let elapsed = i64_wrap (int elapsed_ns);
                 base \<leftarrow> i64_checked (ep_realtime (ck_epoch c) + elapsed);
                 lo \<leftarrow> i64_checked (base + iv_lower_bound interval);
                 hi \<leftarrow> i64_checked (base + iv_upper_bound interval);
                 clamped \<leftarrow> i64_clamp realtime lo hi;
                 Some (Some clamped) })"

definition round_trip_time_median_ns :: "clock \<Rightarrow> nat option option" where
  "round_trip_time_median_ns c =
     do { let one_way_delays = concat (map (\<lambda>(replica_index, sampled).
            case sampled of Some sample \<Rightarrow> if ck_replica c \<noteq> replica_index then [sa_one_way_delay sample] else []
              | None \<Rightarrow> []) (enumerate 0 (ep_sources (ck_window c))));
          ensure (length one_way_delays \<le> REPLICAS_MAX + 1);
          if length one_way_delays < ck_quorum c then Some None
          else
            do { let median = sort one_way_delays ! (length one_way_delays div 2);
                 ensure (median * 2 < 2 ^ 64);
                 Some (Some (median * 2)) } }"

section \<open>Synchronization\<close>

text \<open>\<open>fill_window_tuples\<close>: two tuples for each sampled source, written from the front of the buffer; what the buffer
  held behind them stays.\<close>

fun fill_tuples :: "nat \<Rightarrow> nat \<Rightarrow> tuple list \<Rightarrow> sample option list \<Rightarrow> nat \<Rightarrow> (tuple list \<times> nat) option" where
  "fill_tuples source counter tuples [] tolerance = Some (tuples, counter)"
| "fill_tuples source counter tuples (sampled # sources) tolerance =
     (case sampled of
        None \<Rightarrow> fill_tuples (source + 1) counter tuples sources tolerance
      | Some sample \<Rightarrow>
          do { ensure (sa_one_way_delay sample + tolerance < 2 ^ 64);
               let padding = i64_saturate (sa_one_way_delay sample + tolerance);
               lower \<leftarrow> i64_checked (sa_clock_offset sample - padding);
               ensure (counter < length tuples);
               upper \<leftarrow> i64_checked (sa_clock_offset sample + padding);
               ensure (counter + 1 < length tuples);
               fill_tuples (source + 1) (counter + 2)
                 (tuples[counter := \<lparr>tu_source = of_nat source, tu_offset = lower, tu_bound = Lower\<rparr>,
                         counter + 1 := \<lparr>tu_source = of_nat source, tu_offset = upper, tu_bound = Upper\<rparr>])
                 sources tolerance })"

definition fill_window_tuples :: "tuple list \<Rightarrow> sample option list \<Rightarrow> nat \<Rightarrow> (tuple list \<times> nat) option" where
  "fill_window_tuples tuples sources tolerance = fill_tuples 0 0 tuples sources tolerance"

text \<open>The loop that tightens the tolerance while a quorum agrees. The number of tuples written is not used: the
  algorithm is run on the whole buffer.\<close>

function tolerance_loop :: "nat \<Rightarrow> sample option list \<Rightarrow> nat \<Rightarrow> bool \<Rightarrow> nat \<Rightarrow> interval option \<Rightarrow> tuple list
    \<Rightarrow> (interval option \<times> tuple list) option" where
  "tolerance_loop quorum sources tolerance terminate rounds synchronized tuples =
     (if terminate \<or> rounds \<ge> 64 then Some (synchronized, tuples)
      else
        do { let terminate = (terminate \<or> tolerance = 0);
             (tuples, _) \<leftarrow> fill_window_tuples tuples sources tolerance;
             (interval, tuples) \<leftarrow> smallest_interval tuples;
             if iv_sources_true interval < quorum then Some (synchronized, tuples)
             else tolerance_loop quorum sources (tolerance div 2) terminate (rounds + 1) (Some interval) tuples })"
  by pat_completeness auto
termination by (relation "measure (\<lambda>(_, _, _, _, rounds, _, _). 64 - rounds)") auto

declare tolerance_loop.simps [simp del]

definition after_synchronization :: "epoch \<Rightarrow> nat \<Rightarrow> int \<Rightarrow> unit option" where
  "after_synchronization e now_ns system_realtime =
     (case ep_synchronized e of None \<Rightarrow> None
      | Some new_interval \<Rightarrow>
          do { elapsed_ns \<leftarrow> u64_minus now_ns (ep_monotonic e);
               base \<leftarrow> i64_checked (ep_realtime e + i64_wrap (int elapsed_ns));
               lower \<leftarrow> i64_checked (base + iv_lower_bound new_interval);
               upper \<leftarrow> i64_checked (base + iv_upper_bound new_interval);
               _ \<leftarrow> i64_clamp system_realtime lower upper;
               Some () })"

text \<open>\<open>now_ns\<close> is the first monotonic reading; the second pair is read once the window is synchronized, and
  \<open>realtime_ns\<close> is also the reading an expired window is reset with.\<close>

definition synchronize :: "nat \<Rightarrow> nat \<Rightarrow> int \<Rightarrow> clock \<Rightarrow> clock option" where
  "synchronize now_ns now2_ns realtime_ns c =
     do { let window = ck_window c;
          ensure (ep_synchronized window = None);
          elapsed \<leftarrow> u64_minus now_ns (ep_monotonic window);
          if elapsed < WINDOW_MIN then Some c
          else if WINDOW_MAX \<le> elapsed
          then do { window \<leftarrow> epoch_reset (ck_replica c) now_ns realtime_ns window; Some (c\<lparr>ck_window := window\<rparr>) }
          else if \<not> ep_learned window then Some c
          else
            do { let window = window\<lparr>ep_learned := False\<rparr>;
                 ensure (ck_replica c < length (ep_sources window));
                 ensure (ep_sources window ! ck_replica c = Some \<lparr>sa_clock_offset = 0, sa_one_way_delay = 0\<rparr>);
                 (synchronized, tuples) \<leftarrow> tolerance_loop (ck_quorum c) (ep_sources window) CLOCK_OFFSET_TOLERANCE_MAX False 0
                   (ep_synchronized window) (ck_marzullo_tuples c);
                 let window = window\<lparr>ep_synchronized := synchronized\<rparr>;
                 if synchronized = None then Some (c\<lparr>ck_window := window, ck_marzullo_tuples := tuples\<rparr>)
                 else
                   do { reset \<leftarrow> epoch_reset (ck_replica c) now2_ns realtime_ns (ck_epoch c);
                        after_synchronization window now2_ns realtime_ns;
                        Some (c\<lparr>ck_epoch := window, ck_window := reset, ck_marzullo_tuples := tuples\<rparr>) } } }"

definition tick :: "nat \<Rightarrow> nat \<Rightarrow> int \<Rightarrow> nat \<Rightarrow> int \<Rightarrow> clock \<Rightarrow> clock option" where
  "tick now_ns now2_ns realtime_ns now3_ns realtime3_ns c =
     (if ck_synchronization_disabled c then Some c
      else
        do { c \<leftarrow> synchronize now_ns now2_ns realtime_ns c;
             elapsed \<leftarrow> u64_minus now3_ns (ep_monotonic (ck_epoch c));
             if EPOCH_MAX \<le> elapsed
             then do { epoch \<leftarrow> epoch_reset (ck_replica c) now3_ns realtime3_ns (ck_epoch c); Some (c\<lparr>ck_epoch := epoch\<rparr>) }
             else Some c })"

end
