(* ===== verification/ClockProps.thy ===== *)
theory ClockProps
  imports Clock
begin

text \<open>
  What clock synchronization guarantees: Marzullo's interval is the smallest intersection of a maximal number of
  sources; a clock that has heard from every replica installs only intervals that a quorum agrees on; and
  a fresh clock that has not heard from every replica panics, because the buffer's unwritten tuples are swept too.
\<close>

section \<open>The buffer\<close>

lemma in_order_key: "in_order (Some p) t \<Longrightarrow> tuple_key p < tuple_key t"
  by (cases "tu_bound p"; cases "tu_bound t") (auto simp: in_order_def tuple_key_def less_bound_def split: if_splits)

lemma sweep_strict:
  "sweep best counter previous interval ts = Some r \<Longrightarrow>
   sorted_wrt (\<lambda>a b. tuple_key a < tuple_key b) (case previous of None \<Rightarrow> ts | Some p \<Rightarrow> p # ts)"
proof (induction ts arbitrary: best counter previous interval)
  case (Cons t ts)
  obtain b c v where rest: "sweep b c (Some t) v ts = Some r" and order: "in_order previous t"
    using Cons.prems by (auto simp: panic_simps Let_def split: if_splits)
  have "sorted_wrt (\<lambda>a b. tuple_key a < tuple_key b) (t # ts)" using Cons.IH [OF rest] by simp
  moreover have "transp (\<lambda>a b. tuple_key a < tuple_key b)" by (auto intro!: transpI)
  ultimately show ?case using order in_order_key by (auto split: option.split simp: sorted_wrt2 simp del: sorted_wrt.simps)
qed (auto split: option.split)

lemma smallest_interval_distinct:
  assumes "smallest_interval tuples = Some r" shows "distinct tuples"
proof (cases "length tuples div 2 = 0")
  case True
  then have "length tuples = 0" using assms by (auto simp: smallest_interval_def panic_simps)
  then show ?thesis by simp
next
  case False
  then obtain s where "sweep 0 0 None interval_zero (sort_tuples tuples) = Some s"
    using assms by (auto simp: smallest_interval_def panic_simps Let_def)
  then have "sorted_wrt (\<lambda>a b. tuple_key a < tuple_key b) (sort_tuples tuples)" using sweep_strict by fastforce
  then have "distinct (map tuple_key (sort_tuples tuples))"
    using strict_sorted_iff [of "map tuple_key (sort_tuples tuples)"] by (simp add: sorted_wrt_map)
  then have "distinct (sort_tuples tuples)" by (simp add: distinct_map)
  then show ?thesis using sort_tuples_facts(1) [of tuples] by (metis mset_eq_imp_distinct_iff)
qed

lemma fill_tuples_frame:
  "fill_tuples source counter tuples sources tolerance = Some (tuples', counter') \<Longrightarrow>
   length tuples' = length tuples \<and> counter' = counter + 2 * length (filter (\<lambda>s. s \<noteq> None) sources) \<and>
   (\<forall>i. counter' \<le> i \<and> i < length tuples \<longrightarrow> tuples' ! i = tuples ! i)"
proof (induction source counter tuples sources tolerance rule: fill_tuples.induct)
  case (2 source counter tuples sampled sources tolerance)
  show ?case
  proof (cases sampled)
    case None
    then show ?thesis using 2 by simp
  next
    case (Some s)
    define padding where "padding = i64_saturate (sa_one_way_delay s + tolerance)"
    obtain lower upper where step: "sa_one_way_delay s + tolerance < 2 ^ 64"
      "i64_checked (sa_clock_offset s - padding) = Some lower" "counter < length tuples"
      "i64_checked (sa_clock_offset s + padding) = Some upper" "counter + 1 < length tuples"
      "fill_tuples (source + 1) (counter + 2)
         (tuples[counter := \<lparr>tu_source = of_nat source, tu_offset = lower, tu_bound = Lower\<rparr>,
                 counter + 1 := \<lparr>tu_source = of_nat source, tu_offset = upper, tu_bound = Upper\<rparr>]) sources tolerance =
       Some (tuples', counter')"
      using "2.prems" unfolding Some padding_def by (auto simp: panic_simps Let_def simp del: i64_checked_Some)
    have ok: "ensure (sa_one_way_delay s + tolerance < 2 ^ 64) = Some ()" "ensure (counter < length tuples) = Some ()"
      "ensure (counter + 1 < length tuples) = Some ()" using step by (simp_all add: ensure_def)
    note IH = "2.IH"(2) [OF Some ok(1) padding_def step(2) ok(2) step(4) ok(3) step(6)]
    show ?thesis using IH Some by auto
  qed
qed simp

text \<open>The bounds the window stands for.\<close>

definition low_bound :: "sample list \<Rightarrow> nat \<Rightarrow> nat \<Rightarrow> int" where
  "low_bound samples tolerance s = sa_clock_offset (samples ! s) - int (sa_one_way_delay (samples ! s) + tolerance)"

definition high_bound :: "sample list \<Rightarrow> nat \<Rightarrow> nat \<Rightarrow> int" where
  "high_bound samples tolerance s = sa_clock_offset (samples ! s) + int (sa_one_way_delay (samples ! s) + tolerance)"

definition sample_small :: "sample \<Rightarrow> bool" where
  "sample_small s \<longleftrightarrow> - (2 ^ 60) \<le> sa_clock_offset s \<and> sa_clock_offset s \<le> 2 ^ 60 \<and> sa_one_way_delay s \<le> 2 ^ 60"

lemma fill_all:
  assumes "\<forall>s \<in> set samples. sample_small s" "tolerance \<le> CLOCK_OFFSET_TOLERANCE_MAX"
  shows "k \<le> length samples \<Longrightarrow> length rest = 2 * (length samples - k) \<Longrightarrow>
    fill_tuples k (2 * k) (bounds_of k (low_bound samples tolerance) (high_bound samples tolerance) @ rest)
      (map Some (drop k samples)) tolerance =
    Some (bounds_of (length samples) (low_bound samples tolerance) (high_bound samples tolerance), 2 * length samples)"
proof (induction "length samples - k" arbitrary: k rest)
  case 0
  then show ?case by simp
next
  case (Suc d)
  then have k: "k < length samples" by simp
  let ?lo = "low_bound samples tolerance" and ?up = "high_bound samples tolerance"
  let ?s = "samples ! k"
  have small: "sample_small ?s" using assms(1) k by simp
  have tol: "tolerance \<le> 2 ^ 60" using assms(2) by (simp add: CLOCK_OFFSET_TOLERANCE_MAX_def)
  have sat: "i64_saturate (sa_one_way_delay ?s + tolerance) = int (sa_one_way_delay ?s + tolerance)"
    "sa_one_way_delay ?s + tolerance < 2 ^ 64"
    using small tol by (auto simp: i64_saturate_def sample_small_def)
  have range: "i64_checked (sa_clock_offset ?s - int (sa_one_way_delay ?s + tolerance)) = Some (?lo k)"
    "i64_checked (sa_clock_offset ?s + int (sa_one_way_delay ?s + tolerance)) = Some (?up k)"
    using small tol by (auto simp: i64_checked_Some i64_def low_bound_def high_bound_def sample_small_def)
  obtain x y rest' where rest: "rest = x # y # rest'" using Suc.prems(2) k
    by (cases rest; cases "tl rest") auto
  have drop: "map Some (drop k samples) = Some ?s # map Some (drop (Suc k) samples)" using k by (simp add: Cons_nth_drop_Suc [symmetric])
  have upd: "(bounds_of k ?lo ?up @ rest)[2 * k := t, 2 * k + 1 := u] = bounds_of k ?lo ?up @ t # u # rest'" for t u
    by (simp add: rest list_update_append)
  have IH: "fill_tuples (Suc k) (2 * Suc k) (bounds_of (Suc k) ?lo ?up @ rest') (map Some (drop (Suc k) samples)) tolerance =
      Some (bounds_of (length samples) ?lo ?up, 2 * length samples)"
    using Suc.hyps(1) [of "Suc k" rest'] Suc.hyps(2) Suc.prems k by (simp add: rest)
  have ok: "ensure (sa_one_way_delay ?s + tolerance < 2 ^ 64) = Some ()"
    "ensure (2 * k < length (bounds_of k ?lo ?up @ rest)) = Some ()" "ensure (2 * k + 1 < length (bounds_of k ?lo ?up @ rest)) = Some ()"
    using sat(2) by (simp_all add: ensure_def rest)
  show ?case unfolding drop fill_tuples.simps option.case sat(1) ok range bind_eq_Some_conv bind.bind_lunit Let_def upd
    using IH by simp
qed

section \<open>A source that was never heard\<close>

definition window_due :: "nat \<Rightarrow> clock \<Rightarrow> bool" where
  "window_due now_ns c \<longleftrightarrow> ep_learned (ck_window c) \<and> ep_monotonic (ck_window c) + WINDOW_MIN \<le> now_ns \<and>
     now_ns < ep_monotonic (ck_window c) + WINDOW_MAX"

lemma synchronize_due:
  assumes "window_due now_ns c" "ep_synchronized (ck_window c) = None"
  shows "synchronize now_ns now2_ns realtime_ns c =
    do { let window = (ck_window c)\<lparr>ep_learned := False\<rparr>;
         ensure (ck_replica c < length (ep_sources window));
         ensure (ep_sources window ! ck_replica c = Some \<lparr>sa_clock_offset = 0, sa_one_way_delay = 0\<rparr>);
         (synchronized, tuples) \<leftarrow> tolerance_loop (ck_quorum c) (ep_sources window) CLOCK_OFFSET_TOLERANCE_MAX False 0
           None (ck_marzullo_tuples c);
         let window = window\<lparr>ep_synchronized := synchronized\<rparr>;
         if synchronized = None then Some (c\<lparr>ck_window := window, ck_marzullo_tuples := tuples\<rparr>)
         else
           do { reset \<leftarrow> epoch_reset (ck_replica c) now2_ns realtime_ns (ck_epoch c);
                after_synchronization window now2_ns realtime_ns;
                Some (c\<lparr>ck_epoch := window, ck_window := reset, ck_marzullo_tuples := tuples\<rparr>) } }"
proof -
  have "u64_minus now_ns (ep_monotonic (ck_window c)) = Some (now_ns - ep_monotonic (ck_window c))"
    "\<not> now_ns - ep_monotonic (ck_window c) < WINDOW_MIN" "\<not> WINDOW_MAX \<le> now_ns - ep_monotonic (ck_window c)"
    "ep_learned (ck_window c)" using assms(1) by (auto simp: window_due_def u64_minus_def)
  then show ?thesis using assms(2) by (simp add: synchronize_def Let_def)
qed

lemma fresh_buffer_panics:
  assumes "None \<in> set sources"
  shows "tolerance_loop quorum sources tolerance False 0 synchronized (replicate (2 * length sources) tuple_zero) = None"
proof -
  let ?buffer = "replicate (2 * length sources) tuple_zero"
  have "smallest_interval tuples = None" if fill: "fill_window_tuples ?buffer sources tolerance = Some (tuples, counter)" for tuples counter
  proof -
    have frame: "length tuples = 2 * length sources" "counter = 2 * length (filter (\<lambda>s. s \<noteq> None) sources)"
      "\<And>i. counter \<le> i \<Longrightarrow> i < 2 * length sources \<Longrightarrow> tuples ! i = tuple_zero"
      using fill_tuples_frame [OF fill [unfolded fill_window_tuples_def]] by auto
    have "length (filter (\<lambda>s. s \<noteq> None) sources) < length sources"
      using length_filter_less [OF assms, of "\<lambda>s. s \<noteq> None"] by simp
    then have "counter \<le> 2 * length sources - 2" "2 * length sources - 2 < 2 * length sources - 1" "2 * length sources - 1 < 2 * length sources"
      using frame(2) by auto
    then have "tuples ! (2 * length sources - 2) = tuples ! (2 * length sources - 1)" using frame(3) by simp
    moreover have "2 * length sources - 2 \<noteq> 2 * length sources - 1" "2 * length sources - 2 < length tuples"
      "2 * length sources - 1 < length tuples"
      using \<open>2 * length sources - 2 < 2 * length sources - 1\<close> \<open>2 * length sources - 1 < 2 * length sources\<close> frame(1) by simp_all
    ultimately have "\<not> distinct tuples" using nth_eq_iff_index_eq by metis
    then show ?thesis using smallest_interval_distinct by (cases "smallest_interval tuples") auto
  qed
  then show ?thesis
    by (subst tolerance_loop.simps) (cases "fill_window_tuples ?buffer sources tolerance"; simp add: Let_def split: prod.split)
qed

fun learn_all :: "(nat \<times> nat \<times> int \<times> nat) list \<Rightarrow> clock \<Rightarrow> clock option" where
  "learn_all [] c = Some c"
| "learn_all ((replica, m0, t1, m2) # pongs) c = do { c \<leftarrow> learn replica m0 t1 m2 c; learn_all pongs c }"

lemma learn_keeps:
  assumes "learn replica m0 t1 m2 c = Some c'"
  shows "ck_marzullo_tuples c' = ck_marzullo_tuples c" "length (ep_sources (ck_window c')) = length (ep_sources (ck_window c))"
    "ck_replica c' = ck_replica c" "ep_synchronized (ck_window c') = ep_synchronized (ck_window c)"
    "r \<noteq> replica \<Longrightarrow> ep_sources (ck_window c') ! r = ep_sources (ck_window c) ! r"
  using assms by (auto simp: learn_def panic_simps Let_def split: if_splits)

lemma learn_all_keeps:
  "learn_all pongs c = Some c' \<Longrightarrow> ck_marzullo_tuples c' = ck_marzullo_tuples c \<and>
   length (ep_sources (ck_window c')) = length (ep_sources (ck_window c)) \<and>
   ep_synchronized (ck_window c') = ep_synchronized (ck_window c) \<and>
   (r \<notin> fst ` set pongs \<longrightarrow> ep_sources (ck_window c') ! r = ep_sources (ck_window c) ! r)"
proof (induction pongs c rule: learn_all.induct)
  case (2 replica m0 t1 m2 pongs c)
  then obtain c1 where c1: "learn replica m0 t1 m2 c = Some c1" "learn_all pongs c1 = Some c'" by (auto simp: panic_simps)
  show ?case using "2.IH" [OF c1] learn_keeps [OF c1(1)] by auto
qed simp

lemma missing_source_panics:
  assumes new: "clock_new options monotonic_ns realtime_ns = Some c0" and pongs: "learn_all pongs c0 = Some c"
    and missing: "r < co_replica_count options" "r \<noteq> co_replica options" "r \<notin> fst ` set pongs"
    and due: "window_due now_ns c"
  shows "synchronize now_ns now2_ns realtime2_ns c = None"
proof -
  have c0: "ck_marzullo_tuples c0 = replicate (2 * co_replica_count options) tuple_zero"
    "length (ep_sources (ck_window c0)) = co_replica_count options" "ep_sources (ck_window c0) ! r = None"
    "ep_synchronized (ck_window c0) = None"
    using new missing(1,2) by (auto simp: clock_new_def epoch_reset_def epoch_new_def panic_simps mult.commute)
  note keeps = learn_all_keeps [OF pongs, of r]
  have "None \<in> set (ep_sources (ck_window c))"
    using keeps c0 missing nth_mem [of r "ep_sources (ck_window c)"] by auto
  then have "tolerance_loop (ck_quorum c) (ep_sources (ck_window c)) CLOCK_OFFSET_TOLERANCE_MAX False 0 None (ck_marzullo_tuples c) = None"
    using fresh_buffer_panics [of "ep_sources (ck_window c)"] keeps c0 by simp
  then show ?thesis using synchronize_due [OF due] keeps c0(4) by (auto simp: Let_def ensure_def)
qed

section \<open>Every source heard\<close>

text \<open>\<open>iv\<close> is a region that a quorum agrees on: at some tolerance within the limit, every point of it lies within the
  error bounds of exactly \<open>sources_true\<close> of the samples, no point lies within more, and that is a quorum.\<close>

definition quorum_agrees :: "sample list \<Rightarrow> nat \<Rightarrow> interval \<Rightarrow> bool" where
  "quorum_agrees samples quorum iv \<longleftrightarrow> (\<exists>tolerance \<le> CLOCK_OFFSET_TOLERANCE_MAX.
     quorum \<le> iv_sources_true iv \<and> iv_lower_bound iv \<le> iv_upper_bound iv \<and> 0 < iv_sources_true iv \<and>
     (\<forall>x. cover (length samples) (low_bound samples tolerance) (high_bound samples tolerance) x \<le> iv_sources_true iv) \<and>
     (\<forall>x. iv_lower_bound iv \<le> x \<and> x \<le> iv_upper_bound iv \<longrightarrow>
        cover (length samples) (low_bound samples tolerance) (high_bound samples tolerance) x = iv_sources_true iv))"

lemma bounds_small:
  assumes "\<forall>s \<in> set samples. sample_small s" "tolerance \<le> CLOCK_OFFSET_TOLERANCE_MAX" "s < length samples"
  shows "- (2 ^ 62) \<le> low_bound samples tolerance s" "low_bound samples tolerance s \<le> high_bound samples tolerance s"
    "high_bound samples tolerance s < 2 ^ 62"
proof -
  have "sample_small (samples ! s)" using assms(1,3) by simp
  then show "- (2 ^ 62) \<le> low_bound samples tolerance s" "low_bound samples tolerance s \<le> high_bound samples tolerance s"
    "high_bound samples tolerance s < 2 ^ 62"
    using assms(2) by (auto simp: sample_small_def low_bound_def high_bound_def CLOCK_OFFSET_TOLERANCE_MAX_def)
qed

lemma quorum_agrees_small:
  assumes "quorum_agrees samples quorum iv" "\<forall>s \<in> set samples. sample_small s"
  shows "iv_lower_bound iv \<le> iv_upper_bound iv" "- (2 ^ 62) \<le> iv_lower_bound iv" "iv_upper_bound iv < 2 ^ 62"
proof -
  obtain tol where tol: "tol \<le> CLOCK_OFFSET_TOLERANCE_MAX" "iv_lower_bound iv \<le> iv_upper_bound iv" "0 < iv_sources_true iv"
    "\<And>x. iv_lower_bound iv \<le> x \<Longrightarrow> x \<le> iv_upper_bound iv \<Longrightarrow>
       cover (length samples) (low_bound samples tol) (high_bound samples tol) x = iv_sources_true iv"
    using assms(1) by (auto simp: quorum_agrees_def)
  have inside: "- (2 ^ 62) \<le> x \<and> x < 2 ^ 62" if "iv_lower_bound iv \<le> x" "x \<le> iv_upper_bound iv" for x
  proof -
    have "filter (\<lambda>s. low_bound samples tol s \<le> x \<and> x \<le> high_bound samples tol s) [0..<length samples] \<noteq> []"
      using tol(3) tol(4) [OF that] unfolding cover_def by auto
    then obtain s where "s < length samples" "low_bound samples tol s \<le> x" "x \<le> high_bound samples tol s"
      by (auto simp: filter_empty_conv)
    then show ?thesis using bounds_small [OF assms(2) tol(1)] by (meson le_less_trans order_trans)
  qed
  show "iv_lower_bound iv \<le> iv_upper_bound iv" by (rule tol(2))
  show "- (2 ^ 62) \<le> iv_lower_bound iv" "iv_upper_bound iv < 2 ^ 62" using inside tol(2) by auto
qed

lemma tolerance_loop_agrees:
  assumes small: "\<forall>s \<in> set samples. sample_small s" and n: "0 < length samples" "length samples \<le> 255"
  shows "tolerance \<le> CLOCK_OFFSET_TOLERANCE_MAX \<Longrightarrow> length tuples = 2 * length samples \<Longrightarrow>
    \<exists>synchronized' tuples'. tolerance_loop quorum (map Some samples) tolerance terminate rounds synchronized tuples =
        Some (synchronized', tuples') \<and> length tuples' = 2 * length samples \<and>
      (synchronized' = synchronized \<or> (\<exists>iv. synchronized' = Some iv \<and> quorum_agrees samples quorum iv))"
proof (induction "64 - rounds" arbitrary: tolerance terminate rounds synchronized tuples rule: less_induct)
  case less
  let ?lo = "low_bound samples tolerance" and ?up = "high_bound samples tolerance"
  show ?case
  proof (cases "terminate \<or> 64 \<le> rounds")
    case True
    then show ?thesis using less.prems by (subst tolerance_loop.simps) auto
  next
    case False
    have fill: "fill_window_tuples tuples (map Some samples) tolerance =
        Some (bounds_of (length samples) ?lo ?up, 2 * length samples)"
      using fill_all [OF small less.prems(1), of 0 tuples] less.prems(2) by (simp add: fill_window_tuples_def)
    have "\<forall>s < length samples. - (2 ^ 62) \<le> ?lo s \<and> ?lo s \<le> ?up s \<and> ?up s < 2 ^ 62"
      using bounds_small [OF small less.prems(1)] by blast
    from smallest_interval_correct [OF refl n this]
    obtain iv where iv: "smallest_interval (bounds_of (length samples) ?lo ?up) = Some (iv, sort_tuples (bounds_of (length samples) ?lo ?up))"
      "iv_lower_bound iv \<le> iv_upper_bound iv" "0 < iv_sources_true iv"
      "\<forall>x. cover (length samples) ?lo ?up x \<le> iv_sources_true iv"
      "\<forall>x. iv_lower_bound iv \<le> x \<and> x \<le> iv_upper_bound iv \<longrightarrow> cover (length samples) ?lo ?up x = iv_sources_true iv"
      by blast
    define sorted where "sorted = sort_tuples (bounds_of (length samples) ?lo ?up)"
    have len: "length sorted = 2 * length samples" by (simp add: sorted_def sort_tuples_def)
    show ?thesis
    proof (cases "iv_sources_true iv < quorum")
      case True
      then show ?thesis using False fill iv(1) len unfolding sorted_def [symmetric]
        by (subst tolerance_loop.simps) simp
    next
      case enough: False
      have agree: "quorum_agrees samples quorum iv" unfolding quorum_agrees_def
        using iv(2-5) enough less.prems(1) by (intro exI [of _ tolerance]) auto
      have step: "tolerance_loop quorum (map Some samples) tolerance terminate rounds synchronized tuples =
          tolerance_loop quorum (map Some samples) (tolerance div 2) (terminate \<or> tolerance = 0) (rounds + 1) (Some iv) sorted"
        using False fill iv(1) enough unfolding sorted_def [symmetric] by (subst tolerance_loop.simps) (simp add: Let_def)
      have "64 - (rounds + 1) < 64 - rounds" "tolerance div 2 \<le> CLOCK_OFFSET_TOLERANCE_MAX" using False less.prems(1) by auto
      from less.hyps [OF this len, of "terminate \<or> tolerance = 0" "Some iv"] agree show ?thesis unfolding step by blast
    qed
  qed
qed

text \<open>A clock that has a plausible sample of every replica, its own included.\<close>

definition heard_all :: "sample list \<Rightarrow> clock \<Rightarrow> bool" where
  "heard_all samples c \<longleftrightarrow> ep_sources (ck_window c) = map Some samples \<and> (\<forall>s \<in> set samples. sample_small s) \<and>
     length samples \<le> 255 \<and> ck_replica c < length samples \<and>
     samples ! ck_replica c = \<lparr>sa_clock_offset = 0, sa_one_way_delay = 0\<rparr> \<and>
     length (ck_marzullo_tuples c) = 2 * length samples \<and> length (ep_sources (ck_epoch c)) = length samples \<and>
     ep_synchronized (ck_window c) = None \<and> \<bar>ep_realtime (ck_window c)\<bar> \<le> 2 ^ 61"

lemma synchronize_agrees:
  assumes heard: "heard_all samples c" and due: "window_due now_ns c"
    and later: "ep_monotonic (ck_window c) \<le> now2_ns" "now2_ns < 2 ^ 61"
  shows "\<exists>c'. synchronize now_ns now2_ns realtime_ns c = Some c' \<and> length (ck_marzullo_tuples c') = 2 * length samples \<and>
     (ck_epoch c' = ck_epoch c \<and> ep_sources (ck_window c') = ep_sources (ck_window c) \<or>
      (\<exists>iv. ep_synchronized (ck_epoch c') = Some iv \<and> quorum_agrees samples (ck_quorum c) iv \<and>
         ep_sources (ck_epoch c') = map Some samples \<and> ep_synchronized (ck_window c') = None))"
proof -
  note h = heard [unfolded heard_all_def]
  have n: "0 < length samples" "length samples \<le> 255" using h by auto
  have own: "ck_replica c < length (map Some samples)" "map Some samples ! ck_replica c = Some \<lparr>sa_clock_offset = 0, sa_one_way_delay = 0\<rparr>"
    using h by auto
  obtain synchronized tuples where loop: "tolerance_loop (ck_quorum c) (map Some samples) CLOCK_OFFSET_TOLERANCE_MAX False 0 None
      (ck_marzullo_tuples c) = Some (synchronized, tuples)" "length tuples = 2 * length samples"
    "synchronized = None \<or> (\<exists>iv. synchronized = Some iv \<and> quorum_agrees samples (ck_quorum c) iv)"
    using tolerance_loop_agrees [of samples CLOCK_OFFSET_TOLERANCE_MAX "ck_marzullo_tuples c" "ck_quorum c" False 0 None] h n by blast
  have src: "ep_sources (ck_window c) = map Some samples" using h by blast
  note eq = synchronize_due [OF due, of now2_ns realtime_ns]
  show ?thesis
  proof (cases synchronized)
    case None
    then show ?thesis using eq h own loop(1,2) by (simp add: Let_def ensure_def)
  next
    case (Some iv)
    then have agree: "quorum_agrees samples (ck_quorum c) iv" using loop(3) by simp
    note iv = quorum_agrees_small [OF agree]
    define e where "e = (ck_window c)\<lparr>ep_learned := False, ep_synchronized := Some iv\<rparr>"
    define elapsed where "elapsed = int (now2_ns - ep_monotonic (ck_window c))"
    have el: "0 \<le> elapsed" "elapsed < 2 ^ 61" "i64_wrap elapsed = elapsed" using later(2) by (auto simp: elapsed_def i64_wrap_def)
    have "i64 (ep_realtime (ck_window c) + elapsed)" "i64 (ep_realtime (ck_window c) + elapsed + iv_lower_bound iv)"
      "i64 (ep_realtime (ck_window c) + elapsed + iv_upper_bound iv)"
      using el iv h by (auto simp: i64_def)
    then have "after_synchronization e now2_ns realtime_ns = Some ()"
      using later(1) iv h el(3) by (simp add: after_synchronization_def e_def u64_minus_def i64_checked_def i64_clamp_def ensure_def
          elapsed_def [symmetric])
    moreover obtain reset where "epoch_reset (ck_replica c) now2_ns realtime_ns (ck_epoch c) = Some reset" "ep_synchronized reset = None"
      using h by (auto simp: epoch_reset_def ensure_def)
    ultimately have "synchronize now_ns now2_ns realtime_ns c =
        Some (c\<lparr>ck_epoch := e, ck_window := reset, ck_marzullo_tuples := tuples\<rparr>)"
      using eq h own loop(1) Some by (simp add: Let_def ensure_def e_def)
    then show ?thesis using agree src loop(2) \<open>ep_synchronized reset = None\<close> by (simp add: e_def)
  qed
qed

section \<open>Properties\<close>

lemma ex_Some_merge: "\<exists>x. f = Some (x, y) \<and> P x \<Longrightarrow> \<exists>x. f = Some (x, y) \<and> Q x \<Longrightarrow> \<exists>x. f = Some (x, y) \<and> P x \<and> Q x"
  by auto

text \<open>C24. \<open>smallest_interval\<close> on the bounds of up to 255 sources, in any order, never panics and returns the smallest interval
  consistent with the largest number of sources. The result is the intersection of the intervals of \<open>sources_true\<close> of the
  sources; no larger set of sources has a common point; and the intersection of any other set of that size is wider, or as
  wide and not earlier, which determines both bounds. \<open>sources_false\<close> counts the rest. Every point of the result lies in exactly
  \<open>sources_true\<close> of the intervals, no point in more.\<close>
theorem marzullo_smallest:
  assumes "mset tuples = mset (bounds_of n lo up)" "0 < n" "n \<le> 255"
    and "\<forall>s < n. - (2 ^ 62) \<le> lo s \<and> lo s \<le> up s \<and> up s < 2 ^ 62"
  shows "\<exists>iv. smallest_interval tuples = Some (iv, sort_tuples tuples) \<and> iv_sources_true iv + iv_sources_false iv = n \<and>
     (\<exists>S \<subseteq> {..<n}. card S = iv_sources_true iv \<and> agree_on S lo up (iv_lower_bound iv) (iv_upper_bound iv)) \<and>
     (\<forall>S a b. S \<subseteq> {..<n} \<and> agree_on S lo up a b \<longrightarrow> card S \<le> iv_sources_true iv \<and>
        (card S = iv_sources_true iv \<longrightarrow> iv_upper_bound iv - iv_lower_bound iv < b - a \<or>
           iv_upper_bound iv - iv_lower_bound iv = b - a \<and> iv_lower_bound iv \<le> a)) \<and>
     iv_lower_bound iv \<le> iv_upper_bound iv \<and> (\<forall>x. cover n lo up x \<le> iv_sources_true iv) \<and>
     (\<forall>x. iv_lower_bound iv \<le> x \<and> x \<le> iv_upper_bound iv \<longrightarrow> cover n lo up x = iv_sources_true iv)"
proof -
  note same = ex_Some_merge [OF smallest_interval_smallest [OF assms] smallest_interval_correct [OF assms]]
  show ?thesis by (rule exE [OF same], elim conjE, rule exI, intro conjI) assumption+
qed

text \<open>The sources 11..13, 10..12 and 8..12 agree on 11..12.\<close>

lemma marzullo_smallest_witness:
  "smallest_interval (bounds_of 3 ((!) [11, 10, 8]) ((!) [13, 12, 12])) =
     Some (\<lparr>iv_lower_bound = 11, iv_upper_bound = 12, iv_sources_true = 3, iv_sources_false = 0\<rparr>,
       sort_tuples (bounds_of 3 ((!) [11, 10, 8]) ((!) [13, 12, 12])))"
proof -
  let ?lo = "(!) [11, 10, 8 :: int]" and ?up = "(!) [13, 12, 12 :: int]"
  have three: "{..<3 :: nat} = {0, 1, 2}" "(\<forall>s < 3. P s) \<longleftrightarrow> P 0 \<and> P 1 \<and> P 2" for P :: "nat \<Rightarrow> bool"
    by (auto simp: numeral_eq_Suc less_Suc_eq)
  have common: "(\<Inter>s \<in> {..<3}. {?lo s..?up s}) = {11..12}" by (auto simp: three(1))
  then have agree: "agree_on {..<3} ?lo ?up 11 12" by (simp add: agree_on_def)
  have "\<forall>s < 3. - (2 ^ 62) \<le> ?lo s \<and> ?lo s \<le> ?up s \<and> ?up s < 2 ^ 62" by (simp add: three(2))
  note result = marzullo_smallest [OF refl _ _ this, simplified]
  obtain iv where iv: "smallest_interval (bounds_of 3 ?lo ?up) = Some (iv, sort_tuples (bounds_of 3 ?lo ?up))"
    "iv_sources_true iv + iv_sources_false iv = 3"
    and largest: "\<forall>S a b. S \<subseteq> {..<3} \<and> agree_on S ?lo ?up a b \<longrightarrow> card S \<le> iv_sources_true iv"
    and some: "\<exists>S \<subseteq> {..<3}. card S = iv_sources_true iv \<and> agree_on S ?lo ?up (iv_lower_bound iv) (iv_upper_bound iv)"
    by (rule exE [OF result], elim conjE, rule that) (assumption | blast)+
  obtain S where S: "S \<subseteq> {..<3}" "card S = iv_sources_true iv" "agree_on S ?lo ?up (iv_lower_bound iv) (iv_upper_bound iv)"
    using some by blast
  have "card {..<3 :: nat} \<le> iv_sources_true iv" using largest agree by blast
  then have "iv_sources_true iv = 3" "iv_sources_false iv = 0" using iv(2) by simp_all
  moreover from this have "S = {..<3}" using S(1,2) by (intro card_subset_eq) simp_all
  then have "{iv_lower_bound iv..iv_upper_bound iv} = {11..12}" "iv_lower_bound iv \<le> iv_upper_bound iv"
    using S(3) common by (simp_all add: agree_on_def)
  then have "iv_lower_bound iv = 11" "iv_upper_bound iv = 12" by (simp_all add: Icc_eq_Icc)
  ultimately show ?thesis using iv(1) by (cases iv) simp
qed

text \<open>C25. A clock that has heard from every replica synchronizes without a panic, and the interval it installs is one
  that a quorum of the samples agrees on at a tolerance within the limit; without such an interval the epoch stays.\<close>
theorem clock_synchronizes_on_quorum:
  assumes "heard_all samples c" "window_due now_ns c" "ep_monotonic (ck_window c) \<le> now2_ns" "now2_ns < 2 ^ 61"
  shows "\<exists>c'. synchronize now_ns now2_ns realtime_ns c = Some c' \<and> length (ck_marzullo_tuples c') = 2 * length samples \<and>
     (ck_epoch c' = ck_epoch c \<and> ep_sources (ck_window c') = ep_sources (ck_window c) \<or>
      (\<exists>iv. ep_synchronized (ck_epoch c') = Some iv \<and> quorum_agrees samples (ck_quorum c) iv \<and>
         ep_sources (ck_epoch c') = map Some samples \<and> ep_synchronized (ck_window c') = None))"
  using assms by (rule synchronize_agrees)

definition clock_example :: clock where
  "clock_example =
     (let epoch = \<lparr>ep_sources = [None, None], ep_samples = 0, ep_monotonic = 0, ep_realtime = 0, ep_synchronized = None, ep_learned = False\<rparr>
      in \<lparr>ck_replica = 0, ck_quorum = 2, ck_epoch = epoch,
          ck_window = epoch\<lparr>ep_sources := [Some \<lparr>sa_clock_offset = 0, sa_one_way_delay = 0\<rparr>, Some \<lparr>sa_clock_offset = 5, sa_one_way_delay = 9\<rparr>],
            ep_learned := True\<rparr>,
          ck_marzullo_tuples = replicate 4 tuple_zero, ck_synchronization_disabled = False\<rparr>)"

lemma clock_synchronizes_on_quorum_witness:
  "\<exists>c'. synchronize WINDOW_MIN WINDOW_MIN 0 clock_example = Some c' \<and> length (ck_marzullo_tuples c') = 4"
proof -
  let ?samples = "[\<lparr>sa_clock_offset = 0, sa_one_way_delay = 0\<rparr>, \<lparr>sa_clock_offset = 5, sa_one_way_delay = 9\<rparr>]"
  have "heard_all ?samples clock_example" "window_due WINDOW_MIN clock_example"
    by (simp_all add: heard_all_def clock_example_def Let_def sample_small_def window_due_def WINDOW_MIN_def WINDOW_MAX_def)
  then show ?thesis using clock_synchronizes_on_quorum [of ?samples clock_example WINDOW_MIN WINDOW_MIN 0]
    by (auto simp: clock_example_def Let_def WINDOW_MIN_def)
qed

text \<open>C26. A new clock that has not heard from every replica panics when its first window is due: only the tuples of the sampled
  sources are written, but the whole buffer is swept, and two tuples left from its initialization break the
  strict order the sweep asserts.\<close>
theorem clock_panics_without_all_sources:
  assumes "clock_new options monotonic_ns realtime_ns = Some c0" "learn_all pongs c0 = Some c"
    and "r < co_replica_count options" "r \<noteq> co_replica options" "r \<notin> fst ` set pongs"
    and "window_due now_ns c"
  shows "synchronize now_ns now2_ns realtime2_ns c = None"
  using assms by (rule missing_source_panics)

text \<open>Three replicas; replica 1 has answered a ping, replica 2 is down.\<close>

lemma clock_panics_without_all_sources_witness:
  "\<exists>c0 c. clock_new \<lparr>co_replica_count = 3, co_replica = 0, co_quorum = 2\<rparr> 0 0 = Some c0 \<and>
     learn_all [(1, 0, 7, 10)] c0 = Some c \<and> synchronize WINDOW_MIN WINDOW_MIN 0 c = None"
proof -
  let ?options = "\<lparr>co_replica_count = 3, co_replica = 0, co_quorum = 2\<rparr>"
  obtain c0 where c0: "clock_new ?options 0 0 = Some c0" by (simp add: clock_new_def epoch_reset_def epoch_new_def ensure_def)
  then have fields: "ck_replica c0 = 0" "\<not> ck_synchronization_disabled c0" "ep_monotonic (ck_window c0) = 0"
    "length (ep_sources (ck_window c0)) = 3" "length (ep_sources (ck_epoch c0)) = 3" "ep_sources (ck_epoch c0) ! 1 = None"
    by (auto simp: clock_new_def epoch_reset_def epoch_new_def panic_simps numeral_3_eq_3)
  obtain c where c: "learn_all [(1, 0, 7, 10)] c0 = Some c" "window_due WINDOW_MIN c"
    using fields by (auto simp: learn_def Let_def ensure_def u64_minus_def estimate_asymmetric_delay_def window_due_def
        WINDOW_MIN_def WINDOW_MAX_def)
  have "synchronize WINDOW_MIN WINDOW_MIN 0 c = None"
    using clock_panics_without_all_sources [OF c0 c(1) _ _ _ c(2), of 2] by simp
  with c0 c(1) show ?thesis by blast
qed

end
