(* ===== verification/Spec2Isabelle.thy ===== *)
theory Spec2Isabelle
  imports BatchProps CacheProps WireProps PulseProps QueryProps Ewah FreeSetOpen MultiBatch ViewChange ClockProps
begin

text \<open>
  A verification development for tigerbeetle-rs, the Rust port of the TigerBeetle financial database
  (\<open>src/crates/tigerbeetle-{core,lsm,vsr,server}\<close>).

  The program. A replica (\<open>vsr/src/replica.rs\<close>) orders client requests by viewstamped replication and
  hands each committed prepare to the state machine (\<open>vsr/src/state_machine.rs\<close>), which keeps double-entry
  accounts and transfers. The state machine reads and writes grooves: stores of objects behind an objects
  cache (\<open>lsm/src/cache_map.rs\<close> over \<open>lsm/src/set_associative_cache.rs\<close>), whose scopes give linked chains of
  events their all-or-nothing semantics. Bitsets of the storage layer are persisted in EWAH form
  (\<open>core/src/ewah.rs\<close>), and a view change decides from the JoinView messages which prepares survive
  (\<open>vsr/src/jv_quorum.rs\<close>). Jobs that write
  blocks of the grid take them from the free set (\<open>lsm/src/free_set.rs\<close>). The primary reads the time of a batch from a clock synchronized with the other replicas.

  Conventions (\<open>Prelude\<close>). A \<open>uN\<close> is an \<open>N word\<close>; \<open>usize\<close> and counts are \<open>nat\<close>. A panic (failed assert, index out of
  bounds, arithmetic overflow of a checked build) is the outer \<open>None\<close>; a Rust \<open>Option\<close> is an inner option. A
  struct is a record whose selectors carry a prefix (\<open>a_\<close> account, \<open>t_\<close> transfer, \<open>sm_\<close> state machine, \<open>ph_\<close> prepare header
  and so on), an enum a datatype. A \<open>HashMap\<close> is an association list. Loops are structural functions, functions with a measure, or
  bounded by the count the source itself uses, so no model needs fuel.

  Which theory models what:
  \<^item> \<open>Types\<close>, \<open>Accounting\<close>: \<open>core/src/types.rs\<close> and the per-event rules (\<open>create_account\<close>, \<open>create_transfer\<close>,
    \<open>post_or_void_pending_transfer\<close>, their \<open>_exists\<close> comparisons). \<open>LedgerRules\<close>: double entry, balancing clamps, idempotency,
    post and void, undefined flag bits.
  \<^item> \<open>Prefetch\<close>, \<open>Chains\<close>, \<open>BatchAccounts\<close>, \<open>BatchTransfers\<close>: the batch loops \<open>execute_create_accounts\<close> and
    \<open>execute_create_transfers\<close> over the caches, with linked chains; \<open>BatchProps\<close>: their atomicity and refinement.
  \<^item> \<open>PackedArray\<close>, \<open>SetAssocCache\<close>, \<open>CacheMap\<close>, \<open>Hash\<close>, \<open>Grooves\<close>: the objects cache and its instances; \<open>CacheProps\<close>. The cache is a map
    that may forget, the cache map one that does not; the locales between them state those contracts and are
    interpreted on the model.
  \<^item> \<open>Bytes\<close>, \<open>Wire\<close>, \<open>Replies\<close>: little-endian records, request bodies and replies; \<open>WireProps\<close>.
  \<^item> \<open>StateMachine\<close>, \<open>Persist\<close>, \<open>Coherence\<close>, \<open>Verdicts\<close>: prefetch, execute and persist over the committed stores (the state machine
    without a mounted forest), the change-event log and the expiry pulse; caches and stores agree on what a batch can read.
  \<^item> \<open>Ledger\<close>, \<open>LedgerRun\<close>, \<open>Reach\<close>, \<open>Soundness\<close>, \<open>Events\<close>, \<open>Indexes\<close>: the ledger invariant, the step relation \<open>sm_step\<close> and what holds in every
    reachable state (one locale, \<open>ledger_invariant\<close>, lifts a per-operation invariant to all of them). \<open>LedgerProps\<close>,
    \<open>PulseProps\<close>: the resulting properties.
  \<^item> \<open>Filters\<close>, \<open>Queries\<close>, \<open>Pages\<close>, \<open>QueryProps\<close>: lookups, queries, balances, change events, body validation and dispatch; a
    reply is exactly one page of what the filter selects.
  \<^item> \<open>Ewah\<close>: the incremental encoder and decoder, shown to be one stream and a word-by-word machine over it.
  \<^item> \<open>BitSet\<close>, \<open>FreeSet\<close>: \<open>core/src/stdx/bitset.rs\<close>, each operation shown to be the set operation it implements, and \<open>lsm/src/free_set.rs\<close>,
    the allocator of grid blocks. \<open>FreeSetProps\<close>: what each operation does to the acquired and released blocks. \<open>FreeSetRun\<close>: the step
    relation \<open>fs_step\<close> of any interleaving of jobs, in which a reservation keeps the blocks it was promised, a released block
    stays acquired until the right checkpoint is durable, and the exact condition under which each call panics. \<open>FreeSetOpen\<close>: a free set opened from
    its trailers does not rebuild the index of full shards, and panics.
  \<^item> \<open>MultiBatch\<close>: \<open>vsr/src/multi_batch.rs\<close>, several batches in one message body; what the encoder writes the decoder pops, and the
    decoder accepts nothing else and panics on nothing. An encoder is finished once, as its \<open>take()\<close> of the buffer enforces.
  \<^item> \<open>JoinView\<close>, \<open>ViewChange\<close>: the quorum sizes, the JoinView quorum and the log it decides on; an op a replication
    quorum holds is never truncated.
  \<^item> \<open>Marzullo\<close>, \<open>Clock\<close>, \<open>ClockProps\<close>: \<open>vsr/src/marzullo.rs\<close> and \<open>vsr/src/clock.rs\<close>, the clock a primary stamps its prepares with: the
    interval is the smallest intersection of the largest set of sources that have one, a synchronized epoch has a quorum behind it, and a fresh
    clock that is missing a source panics (the buffer is swept past the tuples that were written).

  Bounds and parameters. The size of a message body and the compaction interval are parameters; the witnesses use the
  production values. A batch has fewer than \<open>2 ^ 64\<close> events and timestamps stay below \<open>2 ^ 63\<close>, as the request limits give. The
  view change uses the production pipeline length 8 and replication maximum 3, the free set the production block size of 512 KiB; the
  size of its grid is a parameter.

  Not modelled. The forest-backed read paths (\<open>.._with_storage\<close> with a mounted forest), grooves, LSM trees, compaction,
  manifest, grid, journal, superblock and client replies are asynchronous storage code around I/O callbacks; the
  replica's status machine and commit pipeline drive them; networking, command line, inspection and test support are glue. The
  AEGIS checksum is not modelled: headers carry their checksum as a field and hash chains compare those fields.
\<close>

end
